(* ===== verification/Rust_Prelude.thy ===== *)
theory Rust_Prelude
  imports Main "HOL-Library.Word" "HOL-Library.Monad_Syntax" "HOL-Library.Product_Lexorder"
begin

unbundle bit_operations_syntax

text \<open>
  The vocabulary every component shares: how Rust's panics, checked integer operations
  and ordered collections are written, and the generic facts about them.

  \<^item> A computation that may panic has type \<open>'a run\<close>, an option type whose \<open>None\<close> is
    the panic (\<open>unwrap\<close>, \<open>expect\<close>, \<open>assert!\<close>, an index out of range, an arithmetic
    overflow). It is composed with the \<open>do\<close> notation of \<open>HOL-Library.Monad_Syntax\<close>.
    A Rust \<open>Option\<close> inside such a computation is a second option, a Rust \<open>Result\<close> is a
    sum with \<open>Inl\<close> for \<open>Err\<close>.
  \<^item> Plain \<open>+\<close>, \<open>-\<close>, \<open>*\<close> on machine integers are the checked operations below: they
    panic on overflow, as a build with overflow checks does. Where a result is \<open>Some\<close>, a
    build without overflow checks computes the same result, so a theorem that an operation
    does not panic holds of both builds.
  \<^item> \<open>BTreeMap\<close> is a list of pairs sorted by key, \<open>BTreeSet\<close> a sorted list.
\<close>

subsection \<open>Types and collections of facts\<close>

type_synonym u8 = "8 word"
type_synonym u16 = "16 word"
type_synonym u32 = "32 word"
type_synonym u64 = "64 word"

text \<open>\<open>GuestUSize\<close> and \<open>VAddr\<close> of \<open>src/mem.rs\<close>.\<close>

type_synonym guest_usize = u32
type_synonym vaddr = u32

type_synonym 'a run = "'a option"

named_theorems run_simps \<open>reading a computation that did not panic\<close>
named_theorems unat_simps \<open>machine integer operations read as natural numbers\<close>

subsection \<open>Panics\<close>

definition rassert :: "bool \<Rightarrow> unit run" where
  "rassert b = (if b then Some () else None)"

lemma rassert_Some [run_simps]: "rassert b = Some u \<longleftrightarrow> b"
  by (simp add: rassert_def)

lemma rassert_True [simp]: "rassert True = Some ()"
  and rassert_False [simp]: "rassert False = None"
  by (simp_all add: rassert_def)

lemma bind_Some_iff [run_simps]:
  "Option.bind f g = Some x \<longleftrightarrow> (\<exists>y. f = Some y \<and> g y = Some x)"
  by (rule bind_eq_Some_conv)

lemma if_Some_iff: "(if b then f else g) = Some x \<longleftrightarrow> (b \<and> f = Some x) \<or> (\<not> b \<and> g = Some x)"
  by simp

subsection \<open>Checked integer operations\<close>

definition add_chk :: "'a::len word \<Rightarrow> 'a word \<Rightarrow> 'a word option" where
  "add_chk a b = (if unat a + unat b < 2 ^ LENGTH('a) then Some (a + b) else None)"

definition sub_chk :: "'a::len word \<Rightarrow> 'a word \<Rightarrow> 'a word option" where
  "sub_chk a b = (if b \<le> a then Some (a - b) else None)"

definition mul_chk :: "'a::len word \<Rightarrow> 'a word \<Rightarrow> 'a word option" where
  "mul_chk a b = (if unat a * unat b < 2 ^ LENGTH('a) then Some (a * b) else None)"

lemma unat_bound: "unat (w :: 'a::len word) < 2 ^ LENGTH('a)"
  by (rule unsigned_less)

lemma unat_bound32: "unat (w :: u32) < 4294967296"
  using unsigned_less [of w] by simp

lemma add_chk_Some [run_simps]:
  "add_chk a b = Some c \<longleftrightarrow> unat c = unat a + unat (b :: 'a::len word)"
proof
  assume "add_chk a b = Some c"
  then show "unat c = unat a + unat b"
    by (auto simp: add_chk_def unat_add_lem [THEN iffD1] split: if_splits)
next
  assume c: "unat c = unat a + unat b"
  then have "unat a + unat b < 2 ^ LENGTH('a)" using unat_bound [of c] by simp
  moreover from this have "unat (a + b) = unat c" using c by (simp add: unat_add_lem [THEN iffD1])
  ultimately show "add_chk a b = Some c" by (simp add: add_chk_def word_unat_eq_iff)
qed

lemma sub_chk_Some [run_simps]:
  "sub_chk a b = Some c \<longleftrightarrow> unat a = unat b + unat (c :: 'a::len word)"
proof
  assume "sub_chk a b = Some c"
  then show "unat a = unat b + unat c"
    by (auto simp: sub_chk_def unat_sub word_le_nat_alt split: if_splits)
next
  assume a: "unat a = unat b + unat c"
  then have le: "b \<le> a" by (simp add: word_le_nat_alt)
  then have "unat (a - b) = unat c" using a by (simp add: unat_sub)
  with le show "sub_chk a b = Some c" by (simp add: sub_chk_def word_unat_eq_iff)
qed

lemma mul_chk_Some [run_simps]:
  "mul_chk a b = Some c \<longleftrightarrow> unat c = unat a * unat (b :: 'a::len word)"
proof
  assume "mul_chk a b = Some c"
  then show "unat c = unat a * unat b"
    by (auto simp: mul_chk_def unat_mult_lem [THEN iffD1] split: if_splits)
next
  assume c: "unat c = unat a * unat b"
  then have "unat a * unat b < 2 ^ LENGTH('a)" using unat_bound [of c] by simp
  moreover from this have "unat (a * b) = unat c" using c by (simp add: unat_mult_lem [THEN iffD1])
  ultimately show "mul_chk a b = Some c" by (simp add: mul_chk_def word_unat_eq_iff)
qed

lemma add_chk_ex: "unat a + unat (b :: 'a::len word) < 2 ^ LENGTH('a) \<Longrightarrow> \<exists>c. add_chk a b = Some c"
  by (simp add: add_chk_def)

lemma sub_chk_ex: "unat b \<le> unat (a :: 'a::len word) \<Longrightarrow> \<exists>c. sub_chk a b = Some c"
  by (simp add: sub_chk_def word_le_nat_alt)

lemma sub_chk_None: "sub_chk a (b :: 'a::len word) = None \<longleftrightarrow> unat a < unat b"
  by (auto simp: sub_chk_def word_le_nat_alt)

lemma add_chk_None: "add_chk a (b :: 'a::len word) = None \<longleftrightarrow> 2 ^ LENGTH('a) \<le> unat a + unat b"
  by (auto simp: add_chk_def)

lemma unat_eq_0_iff: "unat (w :: 'a::len word) = 0 \<longleftrightarrow> w = 0"
  by (rule unat_eq_zero)

lemma unat_pos_iff: "0 < unat (w :: 'a::len word) \<longleftrightarrow> w \<noteq> 0"
  using unat_eq_zero [of w] by linarith

lemma unat_eq_iff: "(v :: 'a::len word) = w \<longleftrightarrow> unat v = unat w"
  by (rule word_unat_eq_iff)

lemma unat_min: "unat (min a b) = min (unat a) (unat (b :: 'a::len word))"
  by (simp add: min_def word_le_nat_alt)

lemma unat_max: "unat (max a b) = max (unat a) (unat (b :: 'a::len word))"
  by (simp add: max_def word_le_nat_alt)

lemmas unat_order = word_less_nat_alt word_le_nat_alt unat_eq_iff

declare unat_min [unat_simps] unat_max [unat_simps]

text \<open>
  \<open>is_multiple_of\<close> and \<open>next_multiple_of\<close> of Rust's unsigned integers: the latter panics
  on a zero divisor and on overflow.
\<close>

definition is_multiple_of :: "'a::len word \<Rightarrow> 'a word \<Rightarrow> bool" where
  "is_multiple_of a b = (if b = 0 then a = 0 else a mod b = 0)"

definition next_multiple_of :: "'a::len word \<Rightarrow> 'a word \<Rightarrow> 'a word run" where
  "next_multiple_of a b =
     (if b = 0 then None
      else let r = a mod b in if r = 0 then Some a else add_chk a (b - r))"

lemma is_multiple_of_dvd: "is_multiple_of a b \<longleftrightarrow> unat b dvd unat (a :: 'a::len word)"
proof (cases "b = 0")
  case True
  then show ?thesis by (simp add: is_multiple_of_def unat_eq_0_iff)
next
  case False
  then show ?thesis
    by (simp add: is_multiple_of_def unat_eq_0_iff [symmetric] unat_mod dvd_eq_mod_eq_0)
qed

lemma next_multiple_of_Some:
  assumes b: "b \<noteq> 0"
  shows "next_multiple_of a b = Some c \<longleftrightarrow>
    unat b dvd unat c \<and> unat a \<le> unat c \<and> unat c < unat a + unat (b :: 'a::len word)"
proof (cases "a mod b = 0")
  case True
  then have d: "unat b dvd unat a"
    by (metis dvd_eq_mod_eq_0 unat_0 unat_mod)
  show ?thesis
  proof
    assume "next_multiple_of a b = Some c"
    then show "unat b dvd unat c \<and> unat a \<le> unat c \<and> unat c < unat a + unat b"
      using True b d by (auto simp: next_multiple_of_def unat_pos_iff)
  next
    assume c: "unat b dvd unat c \<and> unat a \<le> unat c \<and> unat c < unat a + unat b"
    then have "unat b dvd unat c - unat a" using d by (simp add: dvd_diff_nat)
    with c have "unat c - unat a = 0"
      by (metis add_diff_cancel_left' le_add_diff_inverse less_diff_conv2 linorder_not_le nat_dvd_not_less neq0_conv add.commute)
    with c have "c = a" by (simp add: unat_eq_iff)
    with True b show "next_multiple_of a b = Some c" by (simp add: next_multiple_of_def)
  qed
next
  case False
  let ?m = "unat a mod unat b"
  have bp: "0 < unat b" using b by (simp add: unat_pos_iff)
  have m: "0 < ?m" using False by (metis unat_mod unat_pos_iff)
  have mlt: "?m < unat b" using bp by simp
  have ub: "unat (b - a mod b) = unat b - ?m"
    using mlt by (subst unat_sub) (simp_all add: word_le_nat_alt unat_mod)
  have eq: "next_multiple_of a b = Some c \<longleftrightarrow> unat c = unat a + (unat b - ?m)"
    using False b by (simp add: next_multiple_of_def Let_def add_chk_Some ub)
  have up: "unat a + (unat b - ?m) = unat b * (unat a div unat b) + unat b"
    using mlt mult_div_mod_eq [of "unat b" "unat a"] by linarith
  have dvd: "unat b dvd unat a + (unat b - ?m)" unfolding up by simp
  show ?thesis
  proof
    assume "next_multiple_of a b = Some c"
    then show "unat b dvd unat c \<and> unat a \<le> unat c \<and> unat c < unat a + unat b"
      using eq dvd m mlt by auto
  next
    assume c: "unat b dvd unat c \<and> unat a \<le> unat c \<and> unat c < unat a + unat b"
    then obtain k where k: "unat c = unat b * k" by (auto elim: dvdE)
    have lo: "unat b * (unat a div unat b) < unat b * k"
      using c k m mult_div_mod_eq [of "unat b" "unat a"] by linarith
    have hi: "unat b * k < unat b * (unat a div unat b + 2)"
      unfolding distrib_left using c k mlt mult_div_mod_eq [of "unat b" "unat a"] by linarith
    from lo have "unat a div unat b < k" using bp by simp
    moreover from hi have "k < unat a div unat b + 2" using bp by (simp only: mult_less_cancel1)
    ultimately have "k = unat a div unat b + 1" by arith
    with k up eq show "next_multiple_of a b = Some c" by (simp add: algebra_simps)
  qed
qed

text \<open>The least multiple of \<open>g\<close> that is not below \<open>n\<close>: what every rounding above computes.\<close>

definition round_up :: "nat \<Rightarrow> nat \<Rightarrow> nat" where
  "round_up g n = (n + (g - 1)) div g * g"

lemma round_up_unique:
  assumes "g dvd t" and "n \<le> t" and "t < n + g"
  shows "round_up g n = t"
proof -
  obtain k where k: "t = g * k" using assms(1) by (auto elim: dvdE)
  have "0 < g" using assms(2,3) by simp
  moreover have "k * g \<le> n + (g - 1)" "n + (g - 1) < Suc k * g" using assms(2,3) k by (auto simp: mult.commute)
  ultimately have "(n + (g - 1)) div g = k" by (intro div_nat_eqI) (simp_all add: mult.commute)
  then show ?thesis by (simp add: round_up_def k mult.commute)
qed

text \<open>\<open>ilog2\<close> on the value read as a natural number; it panics on 0.\<close>

fun ilog2_nat :: "nat \<Rightarrow> nat" where
  "ilog2_nat n = (if n < 2 then 0 else Suc (ilog2_nat (n div 2)))"

declare ilog2_nat.simps [simp del]

definition ilog2 :: "'a::len word \<Rightarrow> nat run" where
  "ilog2 w = (if w = 0 then None else Some (ilog2_nat (unat w)))"

lemma ilog2_nat_bounds: "0 < n \<Longrightarrow> 2 ^ ilog2_nat n \<le> n \<and> n < 2 * 2 ^ ilog2_nat n"
proof (induction n rule: ilog2_nat.induct)
  case (1 n)
  show ?case
  proof (cases "n < 2")
    case True
    with 1 show ?thesis by (simp add: ilog2_nat.simps [of n])
  next
    case False
    with 1 have "2 ^ ilog2_nat (n div 2) \<le> n div 2 \<and> n div 2 < 2 * 2 ^ ilog2_nat (n div 2)" by simp
    then have "2 * 2 ^ ilog2_nat (n div 2) \<le> n \<and> n < 4 * 2 ^ ilog2_nat (n div 2)" by arith
    with False show ?thesis by (simp add: ilog2_nat.simps [of n])
  qed
qed

lemma ilog2_nat_mono: "m \<le> n \<Longrightarrow> ilog2_nat m \<le> ilog2_nat n"
proof (induction n arbitrary: m rule: ilog2_nat.induct)
  case (1 n)
  show ?case
  proof (cases "m < 2")
    case True
    then show ?thesis by (simp add: ilog2_nat.simps [of m])
  next
    case False
    with 1 have "ilog2_nat (m div 2) \<le> ilog2_nat (n div 2)" by (simp add: div_le_mono)
    with False 1 show ?thesis by (simp add: ilog2_nat.simps [of m] ilog2_nat.simps [of n])
  qed
qed

lemma ilog2_nat_less: "n < 2 ^ Suc k \<Longrightarrow> ilog2_nat n \<le> k"
proof (cases "n = 0")
  case True
  then show ?thesis by (simp add: ilog2_nat.simps [of 0])
next
  case False
  assume "n < 2 ^ Suc k"
  with False ilog2_nat_bounds [of n] have "(2::nat) ^ ilog2_nat n < 2 ^ Suc k" by linarith
  then have "ilog2_nat n < Suc k" by (rule power_less_imp_less_exp [rotated]) simp
  then show ?thesis by simp
qed

subsection \<open>Bits below a power of two\<close>

lemma unat_mask_low: "unat (a AND NOT 4095) = unat (a :: u32) - unat a mod 4096"
proof -
  have low: "a AND 4095 = take_bit 12 a"
    by (simp add: take_bit_eq_mask mask_eq_exp_minus_1)
  have "a = (a AND 4095) + (a AND NOT 4095)"
    by (subst disjunctive_add) (auto simp: bit_simps intro: bit_eqI)
  then have eq: "a AND NOT 4095 = a - take_bit 12 a" by (simp add: low [symmetric] algebra_simps)
  have t: "unat (take_bit 12 a) = unat a mod 4096"
    by (simp add: unsigned_take_bit_eq) (simp add: take_bit_eq_mod)
  then have "take_bit 12 a \<le> a" by (simp add: word_le_nat_alt)
  with eq t show ?thesis by (simp add: unat_sub)
qed

subsection \<open>Evaluation\<close>

text \<open>
  Code equations on binary integers: the definitions above go through \<open>unat\<close>, whose values
  the evaluator would write in unary.
\<close>

lemma int_less_pow: "int n < 2 ^ k \<longleftrightarrow> n < 2 ^ k"
  by (metis of_nat_less_iff of_nat_numeral of_nat_power)

lemma add_chk_code [code]:
  "add_chk a b = (if uint a + uint b < 2 ^ LENGTH('a) then Some (a + b :: 'a::len word) else None)"
proof -
  have "int (unat a + unat b) < 2 ^ LENGTH('a) \<longleftrightarrow> unat a + unat b < 2 ^ LENGTH('a)" by (rule int_less_pow)
  then show ?thesis by (simp add: add_chk_def)
qed

lemma mul_chk_code [code]:
  "mul_chk a b = (if uint a * uint b < 2 ^ LENGTH('a) then Some (a * b :: 'a::len word) else None)"
proof -
  have "int (unat a * unat b) < 2 ^ LENGTH('a) \<longleftrightarrow> unat a * unat b < 2 ^ LENGTH('a)" by (rule int_less_pow)
  then show ?thesis by (simp add: mul_chk_def)
qed

function ilog2_int :: "int \<Rightarrow> nat" where
  "ilog2_int n = (if n < 2 then 0 else Suc (ilog2_int (n div 2)))"
  by auto
termination by (relation "measure nat") auto

declare ilog2_int.simps [simp del]

lemma ilog2_int_nat: "ilog2_int (int n) = ilog2_nat n"
proof (induction n rule: ilog2_nat.induct)
  case (1 n)
  then show ?case
    by (cases "n < 2") (simp_all add: ilog2_int.simps [of "int n"] ilog2_nat.simps [of n] zdiv_int)
qed

lemma ilog2_code [code]: "ilog2 (w :: 'a::len word) = (if w = 0 then None else Some (ilog2_int (uint w)))"
proof -
  have "uint w = int (unat w)" by simp
  then show ?thesis by (simp only: ilog2_def ilog2_int_nat)
qed

end
