(* ===== verification/Ordered_Collections.thy ===== *)
theory Ordered_Collections
  imports Rust_Prelude
begin

text \<open>
  Rust's \<open>BTreeMap\<close> and \<open>BTreeSet\<close> as the allocator of \<open>src/mem/allocator.rs\<close> uses them:
  a map is the list of its entries in strictly increasing order of keys, a set the strictly
  increasing list of its elements, so that iteration order is the order of the list. The
  lemmas read every operation through the set of entries; the allocator's proofs use only
  these.
\<close>

subsection \<open>Maps\<close>

type_synonym ('k, 'v) btree = "('k \<times> 'v) list"

definition bt_wf :: "('k::linorder, 'v) btree \<Rightarrow> bool" where
  "bt_wf m \<longleftrightarrow> sorted_wrt (<) (map fst m)"

definition bt_get :: "('k, 'v) btree \<Rightarrow> 'k \<Rightarrow> 'v option" where
  "bt_get m k = map_of m k"

definition bt_remove :: "'k \<Rightarrow> ('k, 'v) btree \<Rightarrow> ('k, 'v) btree" where
  "bt_remove k m = filter (\<lambda>p. fst p \<noteq> k) m"

definition bt_insert :: "'k::linorder \<Rightarrow> 'v \<Rightarrow> ('k, 'v) btree \<Rightarrow> ('k, 'v) btree" where
  "bt_insert k v m = insort_key fst (k, v) (bt_remove k m)"

text \<open>\<open>range(..k).next_back()\<close>, \<open>range(..=k).next_back()\<close> and \<open>range(lo..=hi)\<close>.\<close>

definition last_opt :: "'a list \<Rightarrow> 'a option" where
  "last_opt xs = (if xs = [] then None else Some (last xs))"

definition bt_last_below :: "('k::linorder, 'v) btree \<Rightarrow> 'k \<Rightarrow> ('k \<times> 'v) option" where
  "bt_last_below m k = last_opt (filter (\<lambda>p. fst p < k) m)"

definition bt_last_upto :: "('k::linorder, 'v) btree \<Rightarrow> 'k \<Rightarrow> ('k \<times> 'v) option" where
  "bt_last_upto m k = last_opt (filter (\<lambda>p. fst p \<le> k) m)"

definition bt_range :: "('k::linorder, 'v) btree \<Rightarrow> 'k \<Rightarrow> 'k \<Rightarrow> ('k \<times> 'v) list run" where
  "bt_range m lo hi = (if hi < lo then None else Some (filter (\<lambda>p. lo \<le> fst p \<and> fst p \<le> hi) m))"

lemma bt_wf_sorted: "bt_wf m \<longleftrightarrow> sorted (map fst m) \<and> distinct (map fst m)"
  by (simp add: bt_wf_def strict_sorted_iff)

lemma bt_wf_Nil [simp]: "bt_wf []"
  by (simp add: bt_wf_def)

lemma bt_wf_filter: "bt_wf m \<Longrightarrow> bt_wf (filter P m)"
  by (induction m) (auto simp: bt_wf_def)

lemma bt_wf_remove [simp]: "bt_wf m \<Longrightarrow> bt_wf (bt_remove k m)"
  by (simp add: bt_remove_def bt_wf_filter)

lemma set_bt_remove [simp]: "set (bt_remove k m) = {p \<in> set m. fst p \<noteq> k}"
  by (auto simp: bt_remove_def)

lemma set_bt_insert [simp]: "set (bt_insert k v m) = insert (k, v) {p \<in> set m. fst p \<noteq> k}"
  by (simp add: bt_insert_def set_insort_key)

lemma map_insort_key_fst: "map fst (insort_key fst (k, v) m) = insort k (map fst m)"
  by (induction m) auto

lemma bt_wf_insert [simp]: "bt_wf m \<Longrightarrow> bt_wf (bt_insert k v m)"
proof -
  assume "bt_wf m"
  then have "bt_wf (bt_remove k m)" by simp
  then show ?thesis
    by (auto simp: bt_wf_sorted bt_insert_def map_insort_key_fst sorted_insort distinct_insort)
qed

lemma bt_get_Some: "bt_wf m \<Longrightarrow> bt_get m k = Some v \<longleftrightarrow> (k, v) \<in> set m"
  by (simp add: bt_get_def bt_wf_sorted map_of_eq_Some_iff)

lemma bt_get_None: "bt_get m k = None \<longleftrightarrow> k \<notin> fst ` set m"
  by (simp add: bt_get_def map_of_eq_None_iff)

lemma bt_wf_unique: "bt_wf m \<Longrightarrow> (k, v) \<in> set m \<Longrightarrow> (k, v') \<in> set m \<Longrightarrow> v = v'"
  using bt_get_Some [of m k v] bt_get_Some [of m k v'] by simp

lemma last_opt_None [simp]: "last_opt xs = None \<longleftrightarrow> xs = []"
  by (simp add: last_opt_def)

lemma last_opt_set: "last_opt xs = Some x \<Longrightarrow> x \<in> set xs"
  by (auto simp: last_opt_def split: if_splits)

lemma sorted_last_max: "sorted xs \<Longrightarrow> x \<in> set xs \<Longrightarrow> x \<le> last xs"
  by (induction xs) auto

lemma last_opt_greatest:
  assumes "sorted (map fst m)" and "last_opt (filter P m) = Some p" and "q \<in> set m" and "P q"
  shows "fst q \<le> fst p"
proof -
  have ne: "filter P m \<noteq> []" and p: "p = last (filter P m)"
    using assms(2) by (auto simp: last_opt_def split: if_splits)
  have s: "sorted (map fst (filter P m))" using assms(1) by (rule sorted_filter)
  have "fst q \<in> set (map fst (filter P m))" using assms(3,4) by auto
  from sorted_last_max [OF s this] show ?thesis using ne p by (simp add: last_map)
qed

lemma bt_last_below_SomeD:
  assumes "bt_wf m" and "bt_last_below m k = Some p"
  shows "p \<in> set m" and "fst p < k" and "\<And>q. q \<in> set m \<Longrightarrow> fst q < k \<Longrightarrow> fst q \<le> fst p"
proof -
  from assms(2) have l: "last_opt (filter (\<lambda>p. fst p < k) m) = Some p" by (simp add: bt_last_below_def)
  from last_opt_set [OF this] show "p \<in> set m" and "fst p < k" by auto
  fix q assume "q \<in> set m" and "fst q < k"
  with l assms(1) show "fst q \<le> fst p" by (auto simp: bt_wf_sorted intro: last_opt_greatest)
qed

lemma bt_last_below_None: "bt_last_below m k = None \<longleftrightarrow> (\<forall>p \<in> set m. \<not> fst p < k)"
  by (auto simp: bt_last_below_def filter_empty_conv)

lemma bt_last_upto_SomeD:
  assumes "bt_wf m" and "bt_last_upto m k = Some p"
  shows "p \<in> set m" and "fst p \<le> k" and "\<And>q. q \<in> set m \<Longrightarrow> fst q \<le> k \<Longrightarrow> fst q \<le> fst p"
proof -
  from assms(2) have l: "last_opt (filter (\<lambda>p. fst p \<le> k) m) = Some p" by (simp add: bt_last_upto_def)
  from last_opt_set [OF this] show "p \<in> set m" and "fst p \<le> k" by auto
  fix q assume "q \<in> set m" and "fst q \<le> k"
  with l assms(1) show "fst q \<le> fst p" by (auto simp: bt_wf_sorted intro: last_opt_greatest)
qed

lemma bt_last_upto_None: "bt_last_upto m k = None \<longleftrightarrow> (\<forall>p \<in> set m. \<not> fst p \<le> k)"
  by (auto simp: bt_last_upto_def filter_empty_conv)

subsection \<open>Sets\<close>

text \<open>
  \<open>insert\<close> returns whether the element was new, \<open>remove\<close> whether it was there;
  \<open>range(x..).next()\<close> is the least element not below \<open>x\<close>.
\<close>

definition bs_wf :: "'a::linorder list \<Rightarrow> bool" where
  "bs_wf xs \<longleftrightarrow> sorted xs \<and> distinct xs"

definition bs_insert :: "'a::linorder \<Rightarrow> 'a list \<Rightarrow> 'a list \<times> bool" where
  "bs_insert x xs = (if x \<in> set xs then (xs, False) else (insort x xs, True))"

definition bs_remove :: "'a \<Rightarrow> 'a list \<Rightarrow> 'a list \<times> bool" where
  "bs_remove x xs = (filter (\<lambda>y. y \<noteq> x) xs, x \<in> set xs)"

definition bs_first_from :: "'a::linorder \<Rightarrow> 'a list \<Rightarrow> 'a option" where
  "bs_first_from x xs = find (\<lambda>y. x \<le> y) xs"

lemma bs_wf_Nil [simp]: "bs_wf []"
  by (simp add: bs_wf_def)

lemma bs_insert_fresh: "snd (bs_insert x xs) \<longleftrightarrow> x \<notin> set xs"
  by (simp add: bs_insert_def)

lemma bs_wf_insert [simp]: "bs_wf xs \<Longrightarrow> bs_wf (fst (bs_insert x xs))"
  by (simp add: bs_insert_def bs_wf_def sorted_insort distinct_insort)

lemma set_bs_insert [simp]: "set (fst (bs_insert x xs)) = insert x (set xs)"
  by (auto simp: bs_insert_def set_insort_key)

lemma bs_wf_remove [simp]: "bs_wf xs \<Longrightarrow> bs_wf (fst (bs_remove x xs))"
  by (simp add: bs_remove_def bs_wf_def sorted_filter [where f = id, simplified])

lemma set_bs_remove [simp]: "set (fst (bs_remove x xs)) = set xs - {x}"
  by (auto simp: bs_remove_def)

lemma bs_remove_present [simp]: "snd (bs_remove x xs) \<longleftrightarrow> x \<in> set xs"
  by (simp add: bs_remove_def)

lemma bs_first_from_None: "bs_first_from x xs = None \<longleftrightarrow> (\<forall>y \<in> set xs. \<not> x \<le> y)"
  by (auto simp: bs_first_from_def find_None_iff)

lemma bs_first_from_SomeD:
  assumes "bs_wf xs" and "bs_first_from x xs = Some y"
  shows "y \<in> set xs" and "x \<le> y" and "\<And>z. z \<in> set xs \<Longrightarrow> x \<le> z \<Longrightarrow> y \<le> z"
proof -
  obtain i where i: "i < length xs" "x \<le> xs ! i" "y = xs ! i" and b: "\<forall>j<i. \<not> x \<le> xs ! j"
    using assms(2) by (auto simp: bs_first_from_def find_Some_iff)
  show "y \<in> set xs" and "x \<le> y" using i by auto
  fix z assume z: "z \<in> set xs" "x \<le> z"
  then obtain j where j: "j < length xs" "z = xs ! j" by (auto simp: in_set_conv_nth)
  with b z have "i \<le> j" by (meson not_le_imp_less)
  with assms(1) i j show "y \<le> z" by (simp add: bs_wf_def sorted_nth_mono)
qed

subsection \<open>\<open>Iterator::position\<close>\<close>

fun position :: "('a \<Rightarrow> bool) \<Rightarrow> 'a list \<Rightarrow> nat option" where
  "position p [] = None"
| "position p (x # xs) = (if p x then Some 0 else map_option Suc (position p xs))"

lemma position_None: "position p xs = None \<longleftrightarrow> (\<forall>x \<in> set xs. \<not> p x)"
  by (induction xs) auto

lemma position_SomeD:
  "position p xs = Some i \<Longrightarrow> i < length xs \<and> p (xs ! i) \<and> (\<forall>j<i. \<not> p (xs ! j))"
proof (induction xs arbitrary: i)
  case Nil
  then show ?case by simp
next
  case (Cons x xs)
  show ?case
  proof (cases "p x")
    case True
    with Cons.prems show ?thesis by simp
  next
    case False
    with Cons.prems obtain k where k: "position p xs = Some k" "i = Suc k" by auto
    from Cons.IH [OF k(1)] k(2) False show ?thesis by (auto simp: nth_Cons split: nat.split)
  qed
qed

end
