(* ===== verification/Chunks.thy ===== *)
theory Chunks
  imports Ordered_Collections
begin

text \<open>
  \<open>Chunk\<close> and \<open>ChunkMap\<close> of \<open>src/mem/allocator.rs\<close>: a non-empty range of guest addresses,
  and a map of such ranges by base address. The abstract view of a chunk map is its set of
  chunks (\<open>cm_set\<close>) and the set of addresses these cover (\<open>bytes_of\<close>); the invariant says
  that they are well formed and pairwise disjoint. The locale \<open>chunk_store\<close> is the interface
  both chunk maps of the allocator offer to their \<open>remove_range\<close>, which is proved once there.
\<close>

subsection \<open>Chunk\<close>

record chunk =
  ch_base :: vaddr
  ch_size :: guest_usize

definition chunk_new :: "vaddr \<Rightarrow> guest_usize \<Rightarrow> chunk run" where
  "chunk_new b s = (if s = 0 then None else Some \<lparr>ch_base = b, ch_size = s\<rparr>)"

definition last_byte :: "chunk \<Rightarrow> vaddr run" where
  "last_byte c = do { d \<leftarrow> sub_chk (ch_size c) 1; add_chk (ch_base c) d }"

definition merge :: "chunk \<Rightarrow> chunk \<Rightarrow> chunk run" where
  "merge a b = do {
     la \<leftarrow> last_byte a;
     ea \<leftarrow> add_chk la 1;
     adjacent \<leftarrow> (if ea = ch_base b then Some True
                  else do { lb \<leftarrow> last_byte b; eb \<leftarrow> add_chk lb 1; Some (eb = ch_base a) });
     _ \<leftarrow> rassert adjacent;
     s \<leftarrow> add_chk (ch_size a) (ch_size b);
     chunk_new (min (ch_base a) (ch_base b)) s }"

definition contains :: "chunk \<Rightarrow> vaddr \<Rightarrow> bool run" where
  "contains c addr =
     (if ch_base c \<le> addr then do { l \<leftarrow> last_byte c; Some (addr \<le> l) } else Some False)"

definition difference :: "chunk \<Rightarrow> chunk \<Rightarrow> (chunk option \<times> chunk option) run" where
  "difference self other = do {
     ol \<leftarrow> last_byte other;
     if ol < ch_base self then Some (None, Some self)
     else do {
       sl \<leftarrow> last_byte self;
       if sl < ch_base other then Some (Some self, None)
       else do {
         left \<leftarrow> (case sub_chk (ch_base other) (ch_base self) of
                    None \<Rightarrow> Some None
                  | Some sz \<Rightarrow> if sz = 0 then Some None
                                 else map_option Some (chunk_new (ch_base self) sz));
         right \<leftarrow> (case sub_chk sl ol of
                    None \<Rightarrow> Some None
                  | Some sz \<Rightarrow> if sz = 0 then Some None
                                 else do { b \<leftarrow> add_chk ol 1; map_option Some (chunk_new b sz) });
         Some (left, right) } } }"

definition trisect_by :: "chunk \<Rightarrow> chunk \<Rightarrow> (chunk option \<times> chunk option) option run" where
  "trisect_by self middle = do {
     c1 \<leftarrow> contains self (ch_base middle);
     if \<not> c1 then Some None
     else do {
       ml \<leftarrow> last_byte middle;
       c2 \<leftarrow> contains self ml;
       if \<not> c2 then Some None else map_option Some (difference self middle) } }"

text \<open>The addresses of a chunk, and the chunks whose end is still an address.\<close>

definition ch_lo :: "chunk \<Rightarrow> nat" where "ch_lo c = unat (ch_base c)"
definition ch_hi :: "chunk \<Rightarrow> nat" where "ch_hi c = unat (ch_base c) + unat (ch_size c)"
definition chunk_bytes :: "chunk \<Rightarrow> nat set" where "chunk_bytes c = {ch_lo c ..< ch_hi c}"
definition chunk_wf :: "chunk \<Rightarrow> bool" where
  "chunk_wf c \<longleftrightarrow> ch_lo c < ch_hi c \<and> ch_hi c < 2 ^ 32"

lemma chunk_eqI: "ch_lo c = ch_lo d \<Longrightarrow> ch_hi c = ch_hi d \<Longrightarrow> c = (d :: chunk)"
  by (cases c; cases d) (simp add: ch_lo_def ch_hi_def unat_eq_iff)

lemma chunk_wf_size: "chunk_wf c \<Longrightarrow> ch_size c \<noteq> 0"
  by (auto simp: chunk_wf_def ch_lo_def ch_hi_def)

lemma chunk_new_Some [run_simps]:
  "chunk_new b s = Some c \<longleftrightarrow> s \<noteq> 0 \<and> ch_lo c = unat b \<and> ch_hi c = unat b + unat s"
  by (cases c) (auto simp: chunk_new_def ch_lo_def ch_hi_def unat_eq_iff)

lemma unat_one32 [simp]: "unat (1 :: u32) = 1"
  by simp

lemma last_byte_Some [run_simps]:
  "last_byte c = Some l \<longleftrightarrow> ch_size c \<noteq> 0 \<and> unat l + 1 = ch_hi c"
proof -
  have "(\<exists>d :: u32. unat (ch_size c) = Suc (unat d) \<and> unat l = unat (ch_base c) + unat d)
    \<longleftrightarrow> ch_size c \<noteq> 0 \<and> unat l + 1 = ch_hi c" (is "?L \<longleftrightarrow> ?R")
  proof
    assume ?L then show ?R by (auto simp: ch_hi_def)
  next
    assume r: ?R
    then have "1 \<le> unat (ch_size c)" by (simp add: unat_pos_iff Suc_le_eq)
    then obtain d where "sub_chk (ch_size c) 1 = Some d"
      using sub_chk_ex [of 1 "ch_size c"] by auto
    then have "unat (ch_size c) = Suc (unat d)" by (simp add: sub_chk_Some)
    with r show ?L by - (rule exI [of _ d], auto simp: ch_hi_def)
  qed
  then show ?thesis by (simp add: last_byte_def bind_Some_iff sub_chk_Some add_chk_Some)
qed

lemma last_byte_ex: "chunk_wf c \<Longrightarrow> \<exists>l. last_byte c = Some l \<and> unat l + 1 = ch_hi c"
proof -
  assume wf: "chunk_wf c"
  then have "1 \<le> unat (ch_size c)" by (simp add: chunk_wf_size unat_pos_iff Suc_le_eq)
  then obtain d where d: "sub_chk (ch_size c) 1 = Some d" using sub_chk_ex [of 1 "ch_size c"] by auto
  then have du: "unat (ch_size c) = Suc (unat d)" by (simp add: sub_chk_Some)
  have "unat (ch_base c) + unat d < 2 ^ LENGTH(32)" using wf du by (simp add: chunk_wf_def ch_hi_def)
  from add_chk_ex [OF this] d obtain l where "last_byte c = Some l" by (auto simp: last_byte_def)
  then show ?thesis by (auto simp: last_byte_Some)
qed

lemma last_byte_end_ex: "chunk_wf c \<Longrightarrow> \<exists>e. do { l \<leftarrow> last_byte c; add_chk l 1 } = Some e \<and> unat e = ch_hi c"
proof -
  assume wf: "chunk_wf c"
  obtain l where l: "last_byte c = Some l" "unat l + 1 = ch_hi c" using last_byte_ex [OF wf] by blast
  have "unat l + unat (1 :: u32) < 2 ^ LENGTH(32)" using wf l by (simp add: chunk_wf_def)
  from add_chk_ex [OF this] obtain e where e: "add_chk l 1 = Some e" by blast
  then have "unat e = ch_hi c" using l by (simp add: add_chk_Some)
  with l e show ?thesis by auto
qed

lemma contains_wf: "chunk_wf c \<Longrightarrow> contains c a = Some (unat a \<in> chunk_bytes c)"
  using last_byte_ex [of c]
  by (auto simp: contains_def chunk_bytes_def ch_lo_def word_le_nat_alt)

text \<open>
  \<open>chunk_spans o lo hi\<close>: the optional chunk is exactly the addresses from \<open>lo\<close> to \<open>hi\<close>,
  absent when there are none.
\<close>

definition chunk_spans :: "chunk option \<Rightarrow> nat \<Rightarrow> nat \<Rightarrow> bool" where
  "chunk_spans oc lo hi \<longleftrightarrow>
     (case oc of None \<Rightarrow> hi \<le> lo | Some c \<Rightarrow> lo < hi \<and> ch_lo c = lo \<and> ch_hi c = hi)"

lemma chunk_spans_simps [simp]:
  "chunk_spans None lo hi \<longleftrightarrow> hi \<le> lo"
  "chunk_spans (Some c) lo hi \<longleftrightarrow> lo < hi \<and> ch_lo c = lo \<and> ch_hi c = hi"
  by (simp_all add: chunk_spans_def)

lemma difference_wf:
  assumes a: "chunk_wf a" and b: "chunk_wf b"
  shows "\<exists>l r. difference a b = Some (l, r)
    \<and> chunk_spans l (ch_lo a) (min (ch_hi a) (ch_lo b))
    \<and> chunk_spans r (max (ch_lo a) (ch_hi b)) (ch_hi a)"
proof -
  obtain ol where ol: "last_byte b = Some ol" "unat ol + 1 = ch_hi b" using last_byte_ex [OF b] by blast
  obtain sl where sl: "last_byte a = Some sl" "unat sl + 1 = ch_hi a" using last_byte_ex [OF a] by blast
  note lohi = a [unfolded chunk_wf_def] b [unfolded chunk_wf_def]
  consider (before) "ol < ch_base a" | (after) "\<not> ol < ch_base a" "sl < ch_base b"
    | (meet) "\<not> ol < ch_base a" "\<not> sl < ch_base b" by blast
  then show ?thesis
  proof cases
    case before
    then have "difference a b = Some (None, Some a)" by (simp add: difference_def ol)
    moreover have "ch_hi b \<le> ch_lo a" using before ol by (simp add: word_less_nat_alt ch_lo_def)
    ultimately show ?thesis using lohi by auto
  next
    case after
    then have "difference a b = Some (Some a, None)" by (simp add: difference_def ol sl)
    moreover have "ch_hi a \<le> ch_lo b" using after sl by (simp add: word_less_nat_alt ch_lo_def)
    ultimately show ?thesis using lohi by auto
  next
    case meet
    then have m: "ch_lo a < ch_hi b" "ch_lo b < ch_hi a"
      using ol sl by (simp_all add: word_less_nat_alt ch_lo_def)
    obtain l where l: "(case sub_chk (ch_base b) (ch_base a) of
                    None \<Rightarrow> Some None
                  | Some sz \<Rightarrow> if sz = 0 then Some None
                                 else map_option Some (chunk_new (ch_base a) sz)) = Some l"
        and lsp: "chunk_spans l (ch_lo a) (min (ch_hi a) (ch_lo b))"
    proof (cases "sub_chk (ch_base b) (ch_base a)")
      case None
      then have "ch_lo b < ch_lo a" by (simp add: sub_chk_None ch_lo_def)
      with m None show ?thesis by (intro that [of None]) simp_all
    next
      case (Some s)
      then have s: "ch_lo b = ch_lo a + unat s" by (simp add: sub_chk_Some ch_lo_def)
      show ?thesis
      proof (cases "s = 0")
        case True
        with Some s m show ?thesis by (intro that [of None]) auto
      next
        case False
        then obtain c where c: "chunk_new (ch_base a) s = Some c" by (simp add: chunk_new_def)
        with Some False s m show ?thesis
          by (intro that [of "Some c"]) (auto simp: chunk_new_Some ch_lo_def unat_pos_iff)
      qed
    qed
    obtain r where r: "(case sub_chk sl ol of
                    None \<Rightarrow> Some None
                  | Some sz \<Rightarrow> if sz = 0 then Some None
                                 else do { b \<leftarrow> add_chk ol 1; map_option Some (chunk_new b sz) }) = Some r"
        and rsp: "chunk_spans r (max (ch_lo a) (ch_hi b)) (ch_hi a)"
    proof (cases "sub_chk sl ol")
      case None
      then have "ch_hi a < ch_hi b" using ol sl by (simp add: sub_chk_None)
      with m None show ?thesis by (intro that [of None]) simp_all
    next
      case (Some s)
      then have s: "ch_hi a = ch_hi b + unat s" using ol sl by (simp add: sub_chk_Some)
      show ?thesis
      proof (cases "s = 0")
        case True
        with Some s m show ?thesis by (intro that [of None]) auto
      next
        case False
        obtain e where e: "add_chk ol 1 = Some e" "unat e = ch_hi b"
          using last_byte_end_ex [OF b] ol by auto
        from False obtain c where c: "chunk_new e s = Some c" by (simp add: chunk_new_def)
        with Some False s m e show ?thesis
          by (intro that [of "Some c"]) (auto simp: chunk_new_Some unat_pos_iff)
      qed
    qed
    have "difference a b = Some (l, r)" using meet l r by (simp add: difference_def ol sl)
    with lsp rsp show ?thesis by blast
  qed
qed

lemma merge_wf:
  assumes a: "chunk_wf a" and b: "chunk_wf b" and adj: "ch_hi a = ch_lo b \<or> ch_hi b = ch_lo a"
  shows "\<exists>c. merge a b = Some c \<and> chunk_wf c \<and> ch_lo c = min (ch_lo a) (ch_lo b)
    \<and> ch_hi c = max (ch_hi a) (ch_hi b)"
proof -
  obtain ea where ea: "do { l \<leftarrow> last_byte a; add_chk l 1 } = Some ea" "unat ea = ch_hi a"
    using last_byte_end_ex [OF a] by blast
  obtain eb where eb: "do { l \<leftarrow> last_byte b; add_chk l 1 } = Some eb" "unat eb = ch_hi b"
    using last_byte_end_ex [OF b] by blast
  note ab = a [unfolded chunk_wf_def] b [unfolded chunk_wf_def]
  have adj': "ea = ch_base b \<or> eb = ch_base a"
    using adj ea eb by (auto simp: unat_eq_iff ch_lo_def)
  have "unat (ch_size a) + unat (ch_size b) < 2 ^ LENGTH(32)"
    using adj ab by (auto simp: ch_hi_def ch_lo_def)
  from add_chk_ex [OF this] obtain s where s: "add_chk (ch_size a) (ch_size b) = Some s" by blast
  then have su: "unat s = unat (ch_size a) + unat (ch_size b)" by (simp add: add_chk_Some)
  then have "s \<noteq> 0" using ab by (auto simp: ch_hi_def ch_lo_def)
  then obtain c where c: "chunk_new (min (ch_base a) (ch_base b)) s = Some c" by (simp add: chunk_new_def)
  obtain la lb where "last_byte a = Some la" "add_chk la 1 = Some ea"
      "last_byte b = Some lb" "add_chk lb 1 = Some eb"
    using ea(1) eb(1) by (auto simp: bind_Some_iff)
  then have m: "merge a b = Some c" using adj' s c by (auto simp: merge_def)
  have "ch_lo c = min (ch_lo a) (ch_lo b)" "ch_hi c = max (ch_hi a) (ch_hi b)"
    using c su adj ab by (auto simp: chunk_new_Some unat_min ch_lo_def ch_hi_def)
  with m ab show ?thesis by (auto simp: chunk_wf_def)
qed

lemma merge_panics:
  assumes "chunk_wf a" "chunk_wf b" "ch_hi a \<noteq> ch_lo b" "ch_hi b \<noteq> ch_lo a"
  shows "merge a b = None"
  using last_byte_end_ex [OF assms(1)] last_byte_end_ex [OF assms(2)] assms(3,4)
  by (auto simp: merge_def bind_Some_iff ch_lo_def rassert_def)

end
