(* ===== verification/Chunk_Map.thy ===== *)
theory Chunk_Map
  imports Chunks
begin

text \<open>
  \<open>ChunkMap\<close> of \<open>src/mem/allocator.rs\<close> and its \<open>remove_range\<close>. A chunk map is viewed as its
  set of chunks; the invariant is that they are well formed and pairwise disjoint. The loop
  of \<open>remove_range\<close> is the same in \<open>ChunkMap\<close> and \<open>SizeBucketedChunkMap\<close>: it is one function
  over the two operations it calls, and its effect is proved once, in the locale
  \<open>chunk_store\<close> that states what those operations promise.
\<close>

subsection \<open>Sets of chunks\<close>

definition bytes_of :: "chunk set \<Rightarrow> nat set" where
  "bytes_of S = (\<Union>c\<in>S. chunk_bytes c)"

definition chunks_ok :: "chunk set \<Rightarrow> bool" where
  "chunks_ok S \<longleftrightarrow> (\<forall>c\<in>S. chunk_wf c) \<and> (\<forall>c\<in>S. \<forall>d\<in>S. c \<noteq> d \<longrightarrow> chunk_bytes c \<inter> chunk_bytes d = {})"

text \<open>Base and size are multiples of the granularity \<open>g\<close>.\<close>

definition chunk_aligned :: "nat \<Rightarrow> chunk \<Rightarrow> bool" where
  "chunk_aligned g c \<longleftrightarrow> g dvd ch_lo c \<and> g dvd ch_hi c"

definition opt_set :: "'a option \<Rightarrow> 'a set" where
  "opt_set oc = (case oc of None \<Rightarrow> {} | Some c \<Rightarrow> {c})"

lemma opt_set_simps [simp]: "opt_set None = {}" "opt_set (Some c) = {c}"
  by (simp_all add: opt_set_def)

lemma bytes_of_simps [simp]:
  "bytes_of {} = {}" "bytes_of (insert c S) = chunk_bytes c \<union> bytes_of S"
  "bytes_of (S \<union> T) = bytes_of S \<union> bytes_of T"
  by (auto simp: bytes_of_def)

lemma chunks_ok_empty [simp]: "chunks_ok {}"
  by (simp add: chunks_ok_def)

lemma chunk_bytes_nonempty: "chunk_wf c \<Longrightarrow> chunk_bytes c \<noteq> {}"
  by (auto simp: chunk_wf_def chunk_bytes_def)

lemma chunk_lo_in: "chunk_wf c \<Longrightarrow> ch_lo c \<in> chunk_bytes c"
  by (simp add: chunk_wf_def chunk_bytes_def)

lemma chunks_ok_wf: "chunks_ok S \<Longrightarrow> c \<in> S \<Longrightarrow> chunk_wf c"
  by (simp add: chunks_ok_def)

lemma chunks_ok_disjoint:
  "chunks_ok S \<Longrightarrow> c \<in> S \<Longrightarrow> d \<in> S \<Longrightarrow> c \<noteq> d \<Longrightarrow> chunk_bytes c \<inter> chunk_bytes d = {}"
  by (simp add: chunks_ok_def)

lemma chunks_ok_same: "chunks_ok S \<Longrightarrow> c \<in> S \<Longrightarrow> d \<in> S \<Longrightarrow> x \<in> chunk_bytes c \<Longrightarrow> x \<in> chunk_bytes d \<Longrightarrow> c = d"
  using chunks_ok_disjoint by blast

lemma chunks_ok_base: "chunks_ok S \<Longrightarrow> c \<in> S \<Longrightarrow> d \<in> S \<Longrightarrow> ch_base c = ch_base d \<Longrightarrow> c = d"
  using chunks_ok_same [of S c d "ch_lo c"] chunks_ok_wf chunk_lo_in by (metis ch_lo_def)

lemma chunks_ok_subset: "chunks_ok S \<Longrightarrow> T \<subseteq> S \<Longrightarrow> chunks_ok T"
  by (simp add: chunks_ok_def subset_iff)

lemma chunks_ok_insert:
  "chunks_ok S \<Longrightarrow> chunk_wf c \<Longrightarrow> chunk_bytes c \<inter> bytes_of S = {} \<Longrightarrow> chunks_ok (insert c S)"
  by (auto simp: chunks_ok_def bytes_of_def)

lemma bytes_of_remove: "chunks_ok S \<Longrightarrow> c \<in> S \<Longrightarrow> bytes_of (S - {c}) = bytes_of S - chunk_bytes c"
  unfolding bytes_of_def using chunks_ok_same [of S c] by auto

lemma chunk_subset_bytes: "c \<in> S \<Longrightarrow> chunk_bytes c \<subseteq> bytes_of S"
  by (auto simp: bytes_of_def)

subsection \<open>What \<open>difference\<close> leaves of a chunk\<close>

definition chunk_minus :: "chunk \<Rightarrow> chunk \<Rightarrow> chunk option \<Rightarrow> chunk option \<Rightarrow> bool" where
  "chunk_minus c r left right \<longleftrightarrow>
     chunk_spans left (ch_lo c) (min (ch_hi c) (ch_lo r)) \<and>
     chunk_spans right (max (ch_lo c) (ch_hi r)) (ch_hi c)"

definition leaves_ok :: "(chunk \<Rightarrow> bool) \<Rightarrow> chunk \<Rightarrow> chunk \<Rightarrow> bool" where
  "leaves_ok P r c \<longleftrightarrow> (\<forall>l q. chunk_minus c r l q \<longrightarrow> (\<forall>d \<in> opt_set l \<union> opt_set q. P d))"

lemma leaves_okD: "leaves_ok P r c \<Longrightarrow> chunk_minus c r l q \<Longrightarrow> d \<in> opt_set l \<union> opt_set q \<Longrightarrow> P d"
  unfolding leaves_ok_def by blast

lemma chunk_spans_bytes: "chunk_spans oc lo hi \<Longrightarrow> bytes_of (opt_set oc) = {lo..<hi}"
  by (cases oc) (auto simp: chunk_bytes_def)

lemma chunk_minus_bytes:
  assumes "chunk_minus c r l q" and "chunk_wf c" and "chunk_wf r"
  shows "bytes_of (opt_set l \<union> opt_set q) = chunk_bytes c - chunk_bytes r"
    and "bytes_of (opt_set l) \<inter> bytes_of (opt_set q) = {}"
    and "\<And>d. d \<in> opt_set l \<union> opt_set q \<Longrightarrow> chunk_wf d"
    and "\<And>d. d \<in> opt_set l \<union> opt_set q \<Longrightarrow> chunk_bytes d \<subseteq> chunk_bytes c - chunk_bytes r"
proof -
  note m = assms(1) [unfolded chunk_minus_def]
  note w = assms(2,3) [unfolded chunk_wf_def]
  have l: "bytes_of (opt_set l) = {ch_lo c ..< min (ch_hi c) (ch_lo r)}"
    and q: "bytes_of (opt_set q) = {max (ch_lo c) (ch_hi r) ..< ch_hi c}"
    using m chunk_spans_bytes by blast+
  show "bytes_of (opt_set l \<union> opt_set q) = chunk_bytes c - chunk_bytes r"
    and "bytes_of (opt_set l) \<inter> bytes_of (opt_set q) = {}"
    using w by (auto simp: l q chunk_bytes_def)
  then show "\<And>d. d \<in> opt_set l \<union> opt_set q \<Longrightarrow> chunk_bytes d \<subseteq> chunk_bytes c - chunk_bytes r"
    using chunk_subset_bytes by blast
  show "\<And>d. d \<in> opt_set l \<union> opt_set q \<Longrightarrow> chunk_wf d"
    using m w by (cases l; cases q) (auto simp: chunk_wf_def)
qed

lemma chunk_minus_aligned:
  "chunk_minus c r l q \<Longrightarrow> chunk_aligned g c \<Longrightarrow> chunk_aligned g r \<Longrightarrow> d \<in> opt_set l \<union> opt_set q
    \<Longrightarrow> chunk_aligned g d"
  by (cases l; cases q) (auto simp: chunk_minus_def chunk_aligned_def min_def max_def split: if_splits)

text \<open>\<open>d\<close> is what \<open>r\<close> leaves on one side of \<open>c\<close>.\<close>

definition chunk_piece :: "chunk \<Rightarrow> chunk \<Rightarrow> chunk \<Rightarrow> bool" where
  "chunk_piece c r d \<longleftrightarrow>
     (ch_lo d = ch_lo c \<and> ch_hi d = min (ch_hi c) (ch_lo r)) \<or>
     (ch_hi d = ch_hi c \<and> ch_lo d = max (ch_lo c) (ch_hi r))"

lemma chunk_piece_sub: "chunk_piece c r d \<Longrightarrow> chunk_bytes d \<subseteq> chunk_bytes c - chunk_bytes r"
  by (auto simp: chunk_piece_def chunk_bytes_def)

lemma chunk_piece_refl: "chunk_wf c \<Longrightarrow> chunk_wf r \<Longrightarrow> chunk_bytes c \<inter> chunk_bytes r = {} \<Longrightarrow> chunk_piece c r c"
proof -
  assume "chunk_wf c" "chunk_wf r" "chunk_bytes c \<inter> chunk_bytes r = {}"
  then have "ch_hi c \<le> ch_lo r \<or> ch_hi r \<le> ch_lo c"
    by (auto simp: chunk_bytes_def chunk_wf_def)
  then show ?thesis by (auto simp: chunk_piece_def)
qed

lemma chunk_minus_piece: "chunk_minus c r l q \<Longrightarrow> d \<in> opt_set l \<union> opt_set q \<Longrightarrow> chunk_piece c r d"
  by (cases l; cases q) (auto simp: chunk_minus_def chunk_piece_def)

lemma difference_minus:
  "chunk_wf c \<Longrightarrow> chunk_wf r \<Longrightarrow> \<exists>l q. difference c r = Some (l, q) \<and> chunk_minus c r l q"
  using difference_wf [of c r] by (simp add: chunk_minus_def)

subsection \<open>The loop of \<open>remove_range\<close> and its interface\<close>

fun remove_range_loop ::
  "('s \<Rightarrow> chunk \<Rightarrow> 's run) \<Rightarrow> ('s \<Rightarrow> vaddr \<Rightarrow> ('s \<times> chunk option) run) \<Rightarrow> chunk \<Rightarrow> vaddr list \<Rightarrow> 's \<Rightarrow> 's run" where
  "remove_range_loop ins rem r [] s = Some s"
| "remove_range_loop ins rem r (b # bs) s = do {
     (s1, oc) \<leftarrow> rem s b;
     c \<leftarrow> oc;
     (left, right) \<leftarrow> difference c r;
     s2 \<leftarrow> (case left of None \<Rightarrow> Some s1 | Some l \<Rightarrow> ins s1 l);
     s3 \<leftarrow> (case right of None \<Rightarrow> Some s2 | Some q \<Rightarrow> ins s2 q);
     remove_range_loop ins rem r bs s3 }"

locale chunk_store =
  fixes inv :: "'s \<Rightarrow> bool"
    and chunks :: "'s \<Rightarrow> chunk set"
    and admissible :: "'s \<Rightarrow> chunk \<Rightarrow> bool"
    and ins :: "'s \<Rightarrow> chunk \<Rightarrow> 's run"
    and rem :: "'s \<Rightarrow> vaddr \<Rightarrow> ('s \<times> chunk option) run"
  assumes inv_chunks_ok: "inv s \<Longrightarrow> chunks_ok (chunks s)"
    and inv_admissible: "inv s \<Longrightarrow> c \<in> chunks s \<Longrightarrow> admissible s c"
    and insert_law: "inv s \<Longrightarrow> chunk_wf c \<Longrightarrow> admissible s c \<Longrightarrow> chunk_bytes c \<inter> bytes_of (chunks s) = {}
      \<Longrightarrow> \<exists>s'. ins s c = Some s' \<and> inv s' \<and> chunks s' = insert c (chunks s) \<and> admissible s' = admissible s"
    and remove_law: "inv s \<Longrightarrow> c \<in> chunks s
      \<Longrightarrow> \<exists>s'. rem s (ch_base c) = Some (s', Some c) \<and> inv s' \<and> chunks s' = chunks s - {c} \<and> admissible s' = admissible s"
begin

lemma insert_opt:
  assumes "inv s" and "\<And>d. d \<in> opt_set oc \<Longrightarrow> chunk_wf d \<and> admissible s d"
    and "bytes_of (opt_set oc) \<inter> bytes_of (chunks s) = {}"
  shows "\<exists>s'. (case oc of None \<Rightarrow> Some s | Some l \<Rightarrow> ins s l) = Some s' \<and> inv s'
    \<and> chunks s' = chunks s \<union> opt_set oc \<and> admissible s' = admissible s"
proof (cases oc)
  case None
  with assms(1) show ?thesis by simp
next
  case (Some l)
  with assms(2,3) have "chunk_wf l" "admissible s l" "chunk_bytes l \<inter> bytes_of (chunks s) = {}" by simp_all
  from insert_law [OF assms(1) this] obtain s' where
    "ins s l = Some s'" "inv s'" "chunks s' = insert l (chunks s)" "admissible s' = admissible s" by blast
  then show ?thesis using Some by (intro exI [of _ s']) simp
qed

lemma carve_one:
  assumes inv: "inv s" and c: "c \<in> chunks s" and r: "chunk_wf r"
    and adm: "leaves_ok (admissible s) r c"
  shows "\<exists>s' P. remove_range_loop ins rem r [ch_base c] s = Some s' \<and> inv s' \<and> admissible s' = admissible s
    \<and> chunks s' = chunks s - {c} \<union> P \<and> bytes_of P = chunk_bytes c - chunk_bytes r
    \<and> (\<forall>d\<in>P. chunk_piece c r d)"
proof -
  obtain s1 where s1: "rem s (ch_base c) = Some (s1, Some c)" "inv s1" "chunks s1 = chunks s - {c}"
      "admissible s1 = admissible s"
    using remove_law [OF inv c] by blast
  have wf: "chunk_wf c" using chunks_ok_wf inv_chunks_ok inv c by blast
  obtain l q where d: "difference c r = Some (l, q)" "chunk_minus c r l q"
    using difference_minus [OF wf r] by blast
  note m = chunk_minus_bytes [OF d(2) wf r]
  have b1: "bytes_of (chunks s1) = bytes_of (chunks s) - chunk_bytes c"
    using s1(3) bytes_of_remove inv_chunks_ok inv c by simp
  have dl: "bytes_of (opt_set l) \<inter> bytes_of (chunks s1) = {}" using m(1) b1 by auto
  have pl: "chunk_wf e \<and> admissible s1 e" if "e \<in> opt_set l" for e
    using m(3) [of e] leaves_okD [OF adm d(2), of e] that s1(4) by simp
  obtain s2 where s2: "(case l of None \<Rightarrow> Some s1 | Some x \<Rightarrow> ins s1 x) = Some s2" "inv s2"
      "chunks s2 = chunks s1 \<union> opt_set l" "admissible s2 = admissible s"
    using insert_opt [OF s1(2) pl dl] unfolding s1(4) by blast
  have dq: "bytes_of (opt_set q) \<inter> bytes_of (chunks s2) = {}" using m(1,2) b1 s2(3) by auto
  have pq: "chunk_wf e \<and> admissible s2 e" if "e \<in> opt_set q" for e
    using m(3) [of e] leaves_okD [OF adm d(2), of e] that s2(4) by simp
  obtain s3 where s3: "(case q of None \<Rightarrow> Some s2 | Some x \<Rightarrow> ins s2 x) = Some s3" "inv s3"
      "chunks s3 = chunks s2 \<union> opt_set q" "admissible s3 = admissible s"
    using insert_opt [OF s2(2) pq dq] unfolding s2(4) by blast
  have "remove_range_loop ins rem r [ch_base c] s = Some s3" using s1(1) d(1) s2(1) s3(1) by simp
  moreover have "chunks s3 = chunks s - {c} \<union> (opt_set l \<union> opt_set q)" using s1(3) s2(3) s3(3) by auto
  moreover have "\<forall>e \<in> opt_set l \<union> opt_set q. chunk_piece c r e"
    using chunk_minus_piece [OF d(2)] by (rule ballI)
  ultimately show ?thesis using s3(2,4) m(1)
    by (intro exI [of _ s3] exI [of _ "opt_set l \<union> opt_set q"] conjI)
qed

lemma loop_Cons:
  "remove_range_loop ins rem r (b # bs) s
    = do { s' \<leftarrow> remove_range_loop ins rem r [b] s; remove_range_loop ins rem r bs s' }"
proof (cases "do { (s1, oc) \<leftarrow> rem s b; c \<leftarrow> oc; lr \<leftarrow> difference c r; Some (s1, lr) }")
  case None
  then show ?thesis by (cases "rem s b"; cases "snd (the (rem s b))") (auto simp: bind_eq_None_conv split: prod.splits)
next
  case (Some x)
  then obtain s1 c l q where "rem s b = Some (s1, Some c)" "difference c r = Some (l, q)"
    by (auto simp: bind_eq_Some_conv)
  then show ?thesis by simp
qed

text \<open>The loop over any chunks of the store, provided the leftovers may be stored.\<close>

lemma loop_effect:
  assumes "inv s" and "distinct cs" and "set cs \<subseteq> chunks s" and "chunk_wf r"
    and "\<forall>c \<in> set cs. leaves_ok (admissible s) r c"
  shows "\<exists>s'. remove_range_loop ins rem r (map ch_base cs) s = Some s' \<and> inv s' \<and> admissible s' = admissible s
    \<and> chunks s - set cs \<subseteq> chunks s'
    \<and> bytes_of (chunks s') = bytes_of (chunks s) - (bytes_of (set cs) \<inter> chunk_bytes r)
    \<and> (\<forall>d \<in> chunks s'. d \<in> chunks s - set cs \<or> (\<exists>c \<in> set cs. chunk_piece c r d))"
  using assms
proof (induction cs arbitrary: s)
  case Nil
  then show ?case by simp
next
  case (Cons c cs)
  from Cons.prems have c: "c \<in> chunks s" by simp
  obtain s1 P where s1: "remove_range_loop ins rem r [ch_base c] s = Some s1" "inv s1"
      "admissible s1 = admissible s" "chunks s1 = chunks s - {c} \<union> P"
      "bytes_of P = chunk_bytes c - chunk_bytes r" "\<forall>d\<in>P. chunk_piece c r d"
    using carve_one [OF Cons.prems(1) c Cons.prems(4)] Cons.prems(5) by auto
  have ok: "chunks_ok (chunks s)" using inv_chunks_ok Cons.prems(1) by blast
  have Pin: "P \<inter> set cs = {}"
  proof -
    have "d \<notin> P" if d: "d \<in> set cs" for d
    proof
      assume "d \<in> P"
      moreover have dc: "d \<in> chunks s" "d \<noteq> c" using d Cons.prems by auto
      ultimately show False
        using chunk_piece_sub [OF s1(6) [rule_format]] chunks_ok_disjoint [OF ok dc(1) c dc(2)] chunk_bytes_nonempty chunks_ok_wf [OF ok dc(1)]
        by blast
    qed
    then show ?thesis by blast
  qed
  have sub: "set cs \<subseteq> chunks s1" using Cons.prems s1(4) by auto
  obtain s2 where s2: "remove_range_loop ins rem r (map ch_base cs) s1 = Some s2" "inv s2"
      "admissible s2 = admissible s1" "chunks s1 - set cs \<subseteq> chunks s2"
      "bytes_of (chunks s2) = bytes_of (chunks s1) - (bytes_of (set cs) \<inter> chunk_bytes r)"
      "\<forall>d \<in> chunks s2. d \<in> chunks s1 - set cs \<or> (\<exists>c \<in> set cs. chunk_piece c r d)"
    using Cons.IH [OF s1(2) _ sub Cons.prems(4)] Cons.prems(2,5) s1(3) by auto
  have run: "remove_range_loop ins rem r (map ch_base (c # cs)) s = Some s2"
    by (simp only: list.map, subst loop_Cons) (simp add: s1(1) s2(1) del: remove_range_loop.simps)
  have "bytes_of (chunks s1) = bytes_of (chunks s) - (chunk_bytes c \<inter> chunk_bytes r)"
    using s1(4,5) bytes_of_remove [OF ok c] chunk_subset_bytes [OF c] by auto
  then have bytes: "bytes_of (chunks s2) = bytes_of (chunks s) - (bytes_of (set (c # cs)) \<inter> chunk_bytes r)"
    using s2(5) by auto
  have keep: "chunks s - set (c # cs) \<subseteq> chunks s2" using s1(4) s2(4) by auto
  have from_old: "\<forall>d \<in> chunks s2. d \<in> chunks s - set (c # cs)
      \<or> (\<exists>x \<in> set (c # cs). chunk_piece x r d)"
    using s2(6) s1(4,6) by auto
  show ?case using run s2(2,3) s1(3) bytes keep from_old by auto
qed

text \<open>
  The whole of \<open>remove_range\<close>, for a list of exactly the chunks that meet the range: no
  address of the range is left, every other address stays, and every chunk that does not
  meet the range is untouched.
\<close>

lemma remove_range_effect:
  assumes inv: "inv s" and cs: "distinct cs" "set cs = {c \<in> chunks s. chunk_bytes c \<inter> chunk_bytes r \<noteq> {}}"
    and r: "chunk_wf r"
    and adm: "\<forall>c \<in> chunks s. leaves_ok (admissible s) r c"
  shows "\<exists>s'. remove_range_loop ins rem r (map ch_base cs) s = Some s' \<and> inv s' \<and> admissible s' = admissible s
    \<and> bytes_of (chunks s') = bytes_of (chunks s) - chunk_bytes r
    \<and> {c \<in> chunks s. chunk_bytes c \<inter> chunk_bytes r = {}} \<subseteq> chunks s'
    \<and> (\<forall>d \<in> chunks s'. \<exists>c \<in> chunks s. chunk_piece c r d)"
proof -
  have sub: "set cs \<subseteq> chunks s" using cs(2) by blast
  have adm': "\<forall>c \<in> set cs. leaves_ok (admissible s) r c" using adm sub by blast
  have meet: "bytes_of (chunks s) - (bytes_of (set cs) \<inter> chunk_bytes r) = bytes_of (chunks s) - chunk_bytes r"
    using cs(2) by (auto simp: bytes_of_def)
  obtain s' where s': "remove_range_loop ins rem r (map ch_base cs) s = Some s'" "inv s'"
      "admissible s' = admissible s" "chunks s - set cs \<subseteq> chunks s'"
      "bytes_of (chunks s') = bytes_of (chunks s) - (bytes_of (set cs) \<inter> chunk_bytes r)"
      "\<forall>d \<in> chunks s'. d \<in> chunks s - set cs \<or> (\<exists>c \<in> set cs. chunk_piece c r d)"
    using loop_effect [OF inv cs(1) sub r adm'] by blast
  have part: "\<exists>c \<in> chunks s. chunk_piece c r d" if "d \<in> chunks s'" for d
  proof -
    from s'(6) that consider (old) "d \<in> chunks s - set cs"
      | (cut) "\<exists>c \<in> set cs. chunk_piece c r d" by blast
    then show ?thesis
    proof cases
      case old
      then show ?thesis using cs(2) chunk_piece_refl [OF chunks_ok_wf [OF inv_chunks_ok [OF inv]] r]
        by (intro bexI [of _ d]) auto
    next
      case cut
      then show ?thesis using sub by blast
    qed
  qed
  have "{c \<in> chunks s. chunk_bytes c \<inter> chunk_bytes r = {}} \<subseteq> chunks s'" using s'(4) cs(2) by auto
  with s' meet part show ?thesis by auto
qed

end

subsection \<open>\<open>ChunkMap\<close>\<close>

type_synonym chunk_map = "(vaddr, guest_usize) btree"

definition mk_chunk :: "vaddr \<times> guest_usize \<Rightarrow> chunk" where
  "mk_chunk p = \<lparr>ch_base = fst p, ch_size = snd p\<rparr>"

lemma mk_chunk_simps [simp]:
  "ch_base (mk_chunk p) = fst p" "ch_size (mk_chunk p) = snd p"
  "mk_chunk (ch_base c, ch_size c) = c"
  by (simp_all add: mk_chunk_def)

definition cm_insert :: "chunk_map \<Rightarrow> chunk \<Rightarrow> chunk_map run" where
  "cm_insert m c = do {
     _ \<leftarrow> rassert (bt_get m (ch_base c) = None);
     Some (bt_insert (ch_base c) (ch_size c) m) }"

definition cm_remove_with_base :: "chunk_map \<Rightarrow> vaddr \<Rightarrow> chunk_map \<times> chunk option" where
  "cm_remove_with_base m b = (bt_remove b m, map_option (\<lambda>sz. mk_chunk (b, sz)) (bt_get m b))"

definition cm_remove_with_end :: "chunk_map \<Rightarrow> vaddr \<Rightarrow> (chunk_map \<times> chunk option) run" where
  "cm_remove_with_end m e =
     (case bt_last_below m e of
        None \<Rightarrow> Some (m, None)
      | Some p \<Rightarrow> do {
          l \<leftarrow> last_byte (mk_chunk p);
          e' \<leftarrow> add_chk l 1;
          if e' \<noteq> e then Some (m, None)
          else (let (m', oc) = cm_remove_with_base m (fst p) in do { c \<leftarrow> oc; Some (m', Some c) }) })"

definition cm_get_size_with_base :: "chunk_map \<Rightarrow> vaddr \<Rightarrow> guest_usize option" where
  "cm_get_size_with_base m b = bt_get m b"

definition cm_overlapping_chunks :: "chunk_map \<Rightarrow> chunk \<Rightarrow> chunk list run" where
  "cm_overlapping_chunks m c = do {
     start \<leftarrow> (case bt_last_upto m (ch_base c) of
                 None \<Rightarrow> Some (ch_base c)
               | Some (b, sz) \<Rightarrow> do { e \<leftarrow> add_chk b sz; Some (if ch_base c < e then b else ch_base c) });
     l \<leftarrow> last_byte c;
     ps \<leftarrow> bt_range m start l;
     those (map (\<lambda>(b, sz). chunk_new b sz) ps) }"

definition cm_remove_range :: "chunk_map \<Rightarrow> chunk \<Rightarrow> chunk_map run" where
  "cm_remove_range m r = do {
     cs \<leftarrow> cm_overlapping_chunks m r;
     remove_range_loop cm_insert (\<lambda>m b. Some (cm_remove_with_base m b)) r (map ch_base cs) m }"

definition cm_into_iter :: "chunk_map \<Rightarrow> chunk list" where
  "cm_into_iter m = map mk_chunk m"

text \<open>The chunks of a map, and the invariant.\<close>

definition cm_set :: "chunk_map \<Rightarrow> chunk set" where
  "cm_set m = set (cm_into_iter m)"

definition cm_inv :: "chunk_map \<Rightarrow> bool" where
  "cm_inv m \<longleftrightarrow> bt_wf m \<and> chunks_ok (cm_set m)"

lemma cm_set_iff: "c \<in> cm_set m \<longleftrightarrow> (ch_base c, ch_size c) \<in> set m"
  by (cases c) (force simp: cm_set_def cm_into_iter_def mk_chunk_def)

lemma mk_chunk_in: "mk_chunk p \<in> cm_set m \<longleftrightarrow> p \<in> set m"
  by (simp add: cm_set_iff)

lemma cm_empty [simp]: "cm_inv []" "cm_set [] = {}"
  by (simp_all add: cm_inv_def cm_set_def cm_into_iter_def)

lemma cm_inv_ok: "cm_inv m \<Longrightarrow> chunks_ok (cm_set m)"
  by (simp add: cm_inv_def)

lemma cm_get_iff: "cm_inv m \<Longrightarrow> bt_get m b = Some sz \<longleftrightarrow> mk_chunk (b, sz) \<in> cm_set m"
  by (simp add: cm_inv_def bt_get_Some mk_chunk_in)

lemma cm_no_key:
  assumes "cm_inv m" and "\<forall>c \<in> cm_set m. ch_base c \<noteq> b"
  shows "bt_get m b = None"
proof -
  have "sz \<noteq> sz" if "(b, sz) \<in> set m" for sz
    using assms(2) mk_chunk_in [of "(b, sz)" m] that by force
  then show ?thesis by (auto simp: bt_get_None)
qed

lemma cm_insert_law:
  assumes "cm_inv m" "chunk_wf c" "chunk_bytes c \<inter> bytes_of (cm_set m) = {}"
  shows "\<exists>m'. cm_insert m c = Some m' \<and> cm_inv m' \<and> cm_set m' = insert c (cm_set m)"
proof -
  have nb: "\<forall>d \<in> cm_set m. ch_base d \<noteq> ch_base c"
  proof
    fix d assume d: "d \<in> cm_set m"
    then have "ch_lo d \<in> bytes_of (cm_set m)"
      using chunk_lo_in chunks_ok_wf [OF cm_inv_ok [OF assms(1)] d] chunk_subset_bytes by blast
    then show "ch_base d \<noteq> ch_base c" using assms(3) chunk_lo_in [OF assms(2)] by (auto simp: ch_lo_def)
  qed
  then have "bt_get m (ch_base c) = None" using cm_no_key assms(1) by blast
  moreover define m' where "m' = bt_insert (ch_base c) (ch_size c) m"
  ultimately have run: "cm_insert m c = Some m'" by (simp add: cm_insert_def)
  have sets: "cm_set m' = insert c (cm_set m)"
  proof (rule set_eqI)
    fix d
    show "d \<in> cm_set m' \<longleftrightarrow> d \<in> insert c (cm_set m)"
    proof (cases "ch_base d = ch_base c")
      case True
      then have "d \<notin> cm_set m" using nb by blast
      with True show ?thesis by (cases d; cases c) (auto simp: cm_set_iff m'_def)
    next
      case False
      then show ?thesis by (cases d; cases c) (auto simp: cm_set_iff m'_def)
    qed
  qed
  moreover have "bt_wf m'" using assms(1) by (simp add: m'_def cm_inv_def)
  ultimately have "cm_inv m'" using assms cm_inv_ok chunks_ok_insert by (simp add: cm_inv_def)
  with run sets show ?thesis by blast
qed

lemma cm_remove_law:
  assumes "cm_inv m" and c: "c \<in> cm_set m"
  shows "\<exists>m'. cm_remove_with_base m (ch_base c) = (m', Some c) \<and> cm_inv m' \<and> cm_set m' = cm_set m - {c}"
proof -
  define m' where "m' = bt_remove (ch_base c) m"
  have "bt_get m (ch_base c) = Some (ch_size c)" using assms cm_get_iff by simp
  then have run: "cm_remove_with_base m (ch_base c) = (m', Some c)"
    by (simp add: cm_remove_with_base_def m'_def)
  have sets: "cm_set m' = cm_set m - {c}"
  proof (rule set_eqI)
    fix d
    have "d \<in> cm_set m \<Longrightarrow> ch_base d = ch_base c \<Longrightarrow> d = c"
      using chunks_ok_base cm_inv_ok assms by blast
    then show "d \<in> cm_set m' \<longleftrightarrow> d \<in> cm_set m - {c}" by (auto simp: cm_set_iff m'_def)
  qed
  moreover have "bt_wf m'" using assms by (simp add: m'_def cm_inv_def)
  ultimately have "cm_inv m'" using assms cm_inv_ok chunks_ok_subset by (auto simp: cm_inv_def)
  with run sets show ?thesis by blast
qed

lemma cm_remove_miss:
  assumes "cm_inv m" and "\<forall>c \<in> cm_set m. ch_base c \<noteq> b"
  shows "cm_remove_with_base m b = (m, None)"
  using cm_no_key [OF assms]
  by (auto simp: cm_remove_with_base_def bt_remove_def bt_get_None filter_id_conv)

lemma cm_remove_with_end_law:
  assumes inv: "cm_inv m" and c: "c \<in> cm_set m" and e: "unat e = ch_hi c"
  shows "cm_remove_with_end m e = Some (cm_remove_with_base m (ch_base c))"
proof -
  have ok: "chunks_ok (cm_set m)" and wfm: "bt_wf m" using inv by (simp_all add: cm_inv_def)
  have wfc: "chunk_wf c" using chunks_ok_wf ok c by blast
  have "ch_lo c < unat e" using wfc e by (simp add: chunk_wf_def)
  then have below: "fst (ch_base c, ch_size c) < e" by (simp add: ch_lo_def word_less_nat_alt)
  obtain p where p: "bt_last_below m e = Some p"
    using c below bt_last_below_None [of m e] by (cases "bt_last_below m e") (auto simp: cm_set_iff)
  note pD = bt_last_below_SomeD [OF wfm p]
  have pin: "mk_chunk p \<in> cm_set m" using pD(1) by (simp add: mk_chunk_in)
  have "ch_base c \<le> fst p" using pD(3) [of "(ch_base c, ch_size c)"] c below by (simp add: cm_set_iff)
  then have "ch_lo (mk_chunk p) \<in> chunk_bytes c"
    using pD(2) e by (simp add: chunk_bytes_def ch_lo_def word_le_nat_alt word_less_nat_alt)
  then have eq: "mk_chunk p = c"
    using chunks_ok_same [OF ok pin c] chunk_lo_in chunks_ok_wf [OF ok pin] by blast
  obtain l e' where le: "last_byte c = Some l" "add_chk l 1 = Some e'" "unat e' = ch_hi c"
    using last_byte_end_ex [OF wfc] by (auto simp: bind_Some_iff)
  then have "e' = e" using e by (simp add: unat_eq_iff)
  moreover have "fst p = ch_base c" using eq by auto
  moreover obtain m' where "cm_remove_with_base m (ch_base c) = (m', Some c)"
    using cm_remove_law [OF inv c] by blast
  ultimately show ?thesis by (simp add: cm_remove_with_end_def p eq le(1,2))
qed

lemma cm_remove_with_end_miss:
  assumes inv: "cm_inv m" and none: "\<forall>c \<in> cm_set m. ch_hi c \<noteq> unat e"
  shows "cm_remove_with_end m e = Some (m, None)"
proof (cases "bt_last_below m e")
  case None
  then show ?thesis by (simp add: cm_remove_with_end_def)
next
  case (Some p)
  have wfm: "bt_wf m" using inv by (simp add: cm_inv_def)
  have pin: "mk_chunk p \<in> cm_set m"
    using bt_last_below_SomeD(1) [OF wfm Some] by (simp add: mk_chunk_in)
  obtain l e' where le: "last_byte (mk_chunk p) = Some l" "add_chk l 1 = Some e'" "unat e' = ch_hi (mk_chunk p)"
    using last_byte_end_ex [OF chunks_ok_wf [OF cm_inv_ok [OF inv] pin]] by (auto simp: bind_Some_iff)
  then have "e' \<noteq> e" using none pin by auto
  with Some le show ?thesis by (simp add: cm_remove_with_end_def)
qed

lemma those_map_Some: "(\<forall>x \<in> set xs. f x = Some (g x)) \<Longrightarrow> those (map f xs) = Some (map g xs)"
  by (induction xs) auto

lemma cm_overlapping_law:
  assumes inv: "cm_inv m" and r: "chunk_wf r"
  shows "\<exists>cs. cm_overlapping_chunks m r = Some cs \<and> distinct cs
    \<and> set cs = {c \<in> cm_set m. chunk_bytes c \<inter> chunk_bytes r \<noteq> {}}"
proof -
  have ok: "chunks_ok (cm_set m)" and wfm: "bt_wf m" using inv by (simp_all add: cm_inv_def)
  have rw: "ch_lo r < ch_hi r" using r by (simp add: chunk_wf_def)
  obtain l where l: "last_byte r = Some l" "unat l + 1 = ch_hi r" using last_byte_ex [OF r] by blast
  obtain start where start: "(case bt_last_upto m (ch_base r) of
                 None \<Rightarrow> Some (ch_base r)
               | Some (b, sz) \<Rightarrow> do { e \<leftarrow> add_chk b sz; Some (if ch_base r < e then b else ch_base r) })
       = Some start" and sle: "start \<le> ch_base r"
    and sp: "\<And>c. c \<in> cm_set m \<Longrightarrow> ch_base c \<le> ch_base r \<Longrightarrow> start \<le> ch_base c \<longleftrightarrow> ch_lo r < ch_hi c"
  proof (cases "bt_last_upto m (ch_base r)")
    case None
    then have "\<forall>c \<in> cm_set m. \<not> ch_base c \<le> ch_base r"
      unfolding bt_last_upto_None by (force simp: cm_set_iff)
    with None show ?thesis by (intro that [of "ch_base r"]) auto
  next
    case (Some p)
    note pD = bt_last_upto_SomeD [OF wfm Some]
    let ?p = "mk_chunk p"
    have pin: "?p \<in> cm_set m" using pD(1) by (simp add: mk_chunk_in)
    have wfp: "chunk_wf ?p" using chunks_ok_wf ok pin by blast
    then have "unat (fst p) + unat (snd p) < 2 ^ LENGTH(32)" by (simp add: chunk_wf_def ch_hi_def)
    from add_chk_ex [OF this] obtain e where e: "add_chk (fst p) (snd p) = Some e" by blast
    have eu: "unat e = ch_hi ?p" using e by (simp add: add_chk_Some ch_hi_def)
    have before: "ch_hi c \<le> ch_lo ?p" if c: "c \<in> cm_set m" and lt: "ch_base c < fst p" for c
    proof (rule ccontr)
      assume "\<not> ch_hi c \<le> ch_lo ?p"
      then have "ch_lo ?p \<in> chunk_bytes c"
        using lt by (simp add: chunk_bytes_def ch_lo_def word_less_nat_alt)
      then have "c = ?p" using chunks_ok_same [OF ok c pin] chunk_lo_in [OF wfp] by blast
      with lt show False by simp
    qed
    define start where "start = (if ch_base r < e then fst p else ch_base r)"
    have sp: "start \<le> ch_base c \<longleftrightarrow> ch_lo r < ch_hi c"
      if c: "c \<in> cm_set m" and le: "ch_base c \<le> ch_base r" for c
    proof -
      have cp: "ch_base c \<le> fst p" using pD(3) [of "(ch_base c, ch_size c)"] c le by (simp add: cm_set_iff)
      show ?thesis
      proof (cases "ch_base c = fst p")
        case True
        then have "c = ?p" using chunks_ok_base [OF ok c pin] by simp
        then have "ch_base r < e \<longleftrightarrow> ch_lo r < ch_hi c" using eu by (simp add: word_less_nat_alt ch_lo_def)
        moreover have "ch_base c = ch_base r \<Longrightarrow> ch_lo r < ch_hi c"
          using chunks_ok_wf [OF ok c] by (simp add: chunk_wf_def ch_lo_def)
        ultimately show ?thesis using True le by (auto simp: start_def)
      next
        case False
        with cp have lt: "ch_base c < fst p" by simp
        with before [OF c] pD(2) have "ch_hi c \<le> ch_lo r" by (simp add: ch_lo_def word_le_nat_alt)
        moreover have "\<not> start \<le> ch_base c" using lt pD(2) by (auto simp: start_def)
        ultimately show ?thesis by simp
      qed
    qed
    show ?thesis
      by (rule that [of start]) (use Some e pD(2) sp in \<open>auto simp: start_def split: prod.splits\<close>)
  qed
  have "start \<le> l" using sle l rw by (simp add: word_le_nat_alt ch_lo_def)
  define ps where "ps = filter (\<lambda>p. start \<le> fst p \<and> fst p \<le> l) m"
  have range: "bt_range m start l = Some ps" using \<open>start \<le> l\<close> by (simp add: bt_range_def ps_def)
  have "chunk_new (fst p) (snd p) = Some (mk_chunk p)" if "p \<in> set ps" for p
  proof -
    have "mk_chunk p \<in> cm_set m" using that by (simp add: ps_def mk_chunk_in)
    then show ?thesis using chunk_wf_size chunks_ok_wf [OF ok] by (fastforce simp: chunk_new_def)
  qed
  then have th: "those (map (\<lambda>(b, sz). chunk_new b sz) ps) = Some (map mk_chunk ps)"
    by (intro those_map_Some) (auto split: prod.splits)
  have run: "cm_overlapping_chunks m r = Some (map mk_chunk ps)"
    by (simp add: cm_overlapping_chunks_def start l range th)
  have dist: "distinct (map mk_chunk ps)"
  proof -
    have "distinct ps" using wfm by (simp add: ps_def bt_wf_sorted distinct_map)
    then show ?thesis by (simp add: distinct_map inj_on_def prod_eq_iff mk_chunk_def)
  qed
  have "start \<le> ch_base c \<and> ch_base c \<le> l \<longleftrightarrow> chunk_bytes c \<inter> chunk_bytes r \<noteq> {}" if c: "c \<in> cm_set m" for c
  proof -
    have cw: "ch_lo c < ch_hi c" using chunks_ok_wf [OF ok c] by (simp add: chunk_wf_def)
    have meet: "chunk_bytes c \<inter> chunk_bytes r \<noteq> {} \<longleftrightarrow> ch_lo c < ch_hi r \<and> ch_lo r < ch_hi c"
      using cw rw by (auto simp: chunk_bytes_def intro!: exI [of _ "max (ch_lo c) (ch_lo r)"])
    have up: "ch_base c \<le> l \<longleftrightarrow> ch_lo c < ch_hi r" using l(2) by (simp add: word_le_nat_alt ch_lo_def) linarith
    show ?thesis
    proof (cases "ch_base c \<le> ch_base r")
      case True
      with sp [OF c True] up meet show ?thesis by blast
    next
      case False
      then have "ch_lo r < ch_lo c" by (simp add: ch_lo_def word_le_nat_alt)
      moreover have "start \<le> ch_base c" using False sle by simp
      ultimately show ?thesis using up meet cw by auto
    qed
  qed
  then have "{c \<in> cm_set m. start \<le> ch_base c \<and> ch_base c \<le> l}
      = {c \<in> cm_set m. chunk_bytes c \<inter> chunk_bytes r \<noteq> {}}" by blast
  moreover have "set (map mk_chunk ps) = {c \<in> cm_set m. start \<le> ch_base c \<and> ch_base c \<le> l}"
    by (auto simp: ps_def cm_set_def cm_into_iter_def)
  ultimately have "set (map mk_chunk ps) = {c \<in> cm_set m. chunk_bytes c \<inter> chunk_bytes r \<noteq> {}}" by simp
  with run dist show ?thesis by blast
qed

interpretation cm: chunk_store cm_inv cm_set "\<lambda>_ _. True" cm_insert "\<lambda>m b. Some (cm_remove_with_base m b)"
proof unfold_locales
  fix m c assume "cm_inv m" "c \<in> cm_set m"
  from cm_remove_law [OF this] show "\<exists>m'. Some (cm_remove_with_base m (ch_base c)) = Some (m', Some c) \<and> cm_inv m'
      \<and> cm_set m' = cm_set m - {c} \<and> (\<lambda>_. True) = (\<lambda>_. True)" by simp
qed (auto simp: cm_inv_ok intro: cm_insert_law)

lemma cm_remove_range_law:
  assumes "cm_inv m" and "chunk_wf r"
  shows "\<exists>m'. cm_remove_range m r = Some m' \<and> cm_inv m'
    \<and> bytes_of (cm_set m') = bytes_of (cm_set m) - chunk_bytes r
    \<and> {c \<in> cm_set m. chunk_bytes c \<inter> chunk_bytes r = {}} \<subseteq> cm_set m'
    \<and> (\<forall>d \<in> cm_set m'. \<exists>c \<in> cm_set m. chunk_piece c r d)"
proof -
  obtain cs where cs: "cm_overlapping_chunks m r = Some cs" "distinct cs"
      "set cs = {c \<in> cm_set m. chunk_bytes c \<inter> chunk_bytes r \<noteq> {}}"
    using cm_overlapping_law [OF assms] by blast
  from cm.remove_range_effect [OF assms(1) cs(2,3) assms(2)] cs(1) show ?thesis
    by (auto simp: cm_remove_range_def leaves_ok_def)
qed

end
