(* ===== verification/Bucket_Map.thy ===== *)
theory Bucket_Map
  imports Chunk_Map
begin

text \<open>
  \<open>SizeBucketedChunkMap\<close> of \<open>src/mem/allocator.rs\<close>: the free chunks of an allocator, by base
  address and, a second time, in one ordered set of (size, base) pairs per power of two. The
  invariant ties the two copies together; from it \<open>allocate\<close> is proved to be a best-fit
  search: the smallest free chunk that is large enough, the lowest address among equals.
\<close>

subsection \<open>Operations\<close>

record bucket_map =
  min_chunk_size :: guest_usize
  sb_chunks :: chunk_map
  by_log2_size :: "(guest_usize \<times> vaddr) list list"

definition sb_new :: "guest_usize \<Rightarrow> bucket_map run" where
  "sb_new m = do {
     top \<leftarrow> ilog2 (0xFFFFFFFF :: u32);
     lm \<leftarrow> ilog2 m;
     Some \<lparr>min_chunk_size = m, sb_chunks = [], by_log2_size = replicate (top - lm + 1) []\<rparr> }"

definition bucket_for :: "bucket_map \<Rightarrow> guest_usize \<Rightarrow> nat run" where
  "bucket_for s sz = do {
     a \<leftarrow> ilog2 sz;
     b \<leftarrow> ilog2 (min_chunk_size s);
     if a < b then None else Some (a - b) }"

definition sb_insert :: "bucket_map \<Rightarrow> chunk \<Rightarrow> bucket_map run" where
  "sb_insert s c = do {
     _ \<leftarrow> rassert (min_chunk_size s \<le> ch_size c);
     m \<leftarrow> cm_insert (sb_chunks s) c;
     i \<leftarrow> bucket_for s (ch_size c);
     _ \<leftarrow> rassert (i < length (by_log2_size s));
     let (bucket, fresh) = bs_insert (ch_size c, ch_base c) (by_log2_size s ! i) in do {
       _ \<leftarrow> rassert fresh;
       Some (s\<lparr>sb_chunks := m, by_log2_size := (by_log2_size s)[i := bucket]\<rparr>) } }"

definition sb_remove_from_bucket :: "bucket_map \<Rightarrow> chunk \<Rightarrow> bucket_map run" where
  "sb_remove_from_bucket s c = do {
     i \<leftarrow> bucket_for s (ch_size c);
     _ \<leftarrow> rassert (i < length (by_log2_size s));
     let (bucket, present) = bs_remove (ch_size c, ch_base c) (by_log2_size s ! i) in do {
       _ \<leftarrow> rassert present;
       Some (s\<lparr>by_log2_size := (by_log2_size s)[i := bucket]\<rparr>) } }"

definition sb_remove_with_base :: "bucket_map \<Rightarrow> vaddr \<Rightarrow> (bucket_map \<times> chunk option) run" where
  "sb_remove_with_base s b =
     (let (m, oc) = cm_remove_with_base (sb_chunks s) b; s1 = s\<lparr>sb_chunks := m\<rparr> in
      case oc of
        None \<Rightarrow> Some (s1, None)
      | Some c \<Rightarrow> do { s2 \<leftarrow> sb_remove_from_bucket s1 c; Some (s2, Some c) })"

definition sb_remove_with_end :: "bucket_map \<Rightarrow> vaddr \<Rightarrow> (bucket_map \<times> chunk option) run" where
  "sb_remove_with_end s e = do {
     (m, oc) \<leftarrow> cm_remove_with_end (sb_chunks s) e;
     let s1 = s\<lparr>sb_chunks := m\<rparr> in
     case oc of
       None \<Rightarrow> Some (s1, None)
     | Some c \<Rightarrow> do { s2 \<leftarrow> sb_remove_from_bucket s1 c; Some (s2, Some c) } }"

definition sb_remove_range :: "bucket_map \<Rightarrow> chunk \<Rightarrow> bucket_map run" where
  "sb_remove_range s r = do {
     cs \<leftarrow> cm_overlapping_chunks (sb_chunks s) r;
     remove_range_loop sb_insert sb_remove_with_base r (map ch_base cs) s }"

definition sb_allocate_in_bucket ::
  "bucket_map \<Rightarrow> guest_usize \<Rightarrow> nat \<Rightarrow> (bucket_map \<times> chunk option) run" where
  "sb_allocate_in_bucket s sz i = do {
     _ \<leftarrow> rassert (i < length (by_log2_size s));
     case bs_first_from (sz, 0) (by_log2_size s ! i) of
       None \<Rightarrow> Some (s, None)
     | Some (existing_size, existing_base) \<Rightarrow>
         let (bucket, present) = bs_remove (existing_size, existing_base) (by_log2_size s ! i) in do {
           _ \<leftarrow> rassert present;
           existing \<leftarrow> chunk_new existing_base existing_size;
           let (m, existing2) = cm_remove_with_base (sb_chunks s) (ch_base existing);
               s1 = s\<lparr>sb_chunks := m, by_log2_size := (by_log2_size s)[i := bucket]\<rparr> in do {
             _ \<leftarrow> rassert (existing2 = Some existing);
             if ch_size existing = sz then Some (s1, Some existing)
             else do {
               alloc \<leftarrow> chunk_new (ch_base existing) sz;
               rump_base \<leftarrow> add_chk (ch_base existing) sz;
               rump_size \<leftarrow> sub_chk (ch_size existing) sz;
               rump \<leftarrow> chunk_new rump_base rump_size;
               s2 \<leftarrow> sb_insert s1 rump;
               Some (s2, Some alloc) } } } }"

definition sb_allocate :: "bucket_map \<Rightarrow> guest_usize \<Rightarrow> (bucket_map \<times> chunk option) run" where
  "sb_allocate s sz = do {
     _ \<leftarrow> rassert (min_chunk_size s \<le> sz);
     i \<leftarrow> bucket_for s sz;
     (s1, r) \<leftarrow> sb_allocate_in_bucket s sz i;
     case r of
       Some alloc \<Rightarrow> Some (s1, Some alloc)
     | None \<Rightarrow>
         (case position (\<lambda>bucket. bucket \<noteq> []) (drop (i + 1) (by_log2_size s1)) of
            None \<Rightarrow> Some (s1, None)
          | Some k \<Rightarrow> sb_allocate_in_bucket s1 sz (k + i + 1)) }"

definition sb_iter :: "bucket_map \<Rightarrow> chunk list run" where
  "sb_iter s = those (map (\<lambda>(sz, b). chunk_new b sz) (concat (by_log2_size s)))"

subsection \<open>Invariant\<close>

definition sb_set :: "bucket_map \<Rightarrow> chunk set" where
  "sb_set s = cm_set (sb_chunks s)"

definition sb_log :: "bucket_map \<Rightarrow> chunk \<Rightarrow> nat" where
  "sb_log s c = ilog2_nat (unat (ch_size c)) - ilog2_nat (unat (min_chunk_size s))"

definition sb_gran :: "bucket_map \<Rightarrow> nat" where
  "sb_gran s = unat (min_chunk_size s)"

definition sb_buckets_ok :: "bucket_map \<Rightarrow> bool" where
  "sb_buckets_ok s \<longleftrightarrow>
     length (by_log2_size s) = 32 - ilog2_nat (sb_gran s) \<and>
     (\<forall>i < length (by_log2_size s). bs_wf (by_log2_size s ! i) \<and>
        set (by_log2_size s ! i) = (\<lambda>c. (ch_size c, ch_base c)) ` {c \<in> sb_set s. sb_log s c = i})"

definition sb_inv :: "bucket_map \<Rightarrow> bool" where
  "sb_inv s \<longleftrightarrow> 0 < sb_gran s \<and> cm_inv (sb_chunks s) \<and>
     (\<forall>c \<in> sb_set s. chunk_aligned (sb_gran s) c) \<and> sb_buckets_ok s"

lemma sb_inv_ok: "sb_inv s \<Longrightarrow> chunks_ok (sb_set s)"
  by (simp add: sb_inv_def sb_set_def cm_inv_ok)

lemma sb_inv_aligned: "sb_inv s \<Longrightarrow> c \<in> sb_set s \<Longrightarrow> chunk_aligned (sb_gran s) c"
  by (simp add: sb_inv_def)

lemma ilog2_top: "ilog2 (0xFFFFFFFF :: u32) = Some 31"
  by (simp add: ilog2_def ilog2_nat.simps)

lemma sb_new_inv: "m \<noteq> 0 \<Longrightarrow> \<exists>s. sb_new m = Some s \<and> sb_inv s \<and> sb_set s = {} \<and> min_chunk_size s = m"
proof -
  assume m: "m \<noteq> 0"
  have "ilog2_nat (unat m) \<le> 31" using unat_bound [of m] by (intro ilog2_nat_less) simp
  then show ?thesis using m
    by (simp add: sb_new_def ilog2_top ilog2_def [of m] sb_inv_def sb_set_def sb_gran_def sb_buckets_ok_def
        unat_pos_iff del: replicate_Suc)
qed

lemma aligned_size: "chunk_aligned g c \<Longrightarrow> chunk_wf c \<Longrightarrow> g dvd unat (ch_size c) \<and> g \<le> unat (ch_size c)"
proof -
  assume a: "chunk_aligned g c" and w: "chunk_wf c"
  then have "g dvd ch_hi c - ch_lo c" by (simp add: chunk_aligned_def dvd_diff_nat)
  moreover have "ch_hi c - ch_lo c = unat (ch_size c)" by (simp add: ch_hi_def ch_lo_def)
  moreover have "0 < unat (ch_size c)" using w by (simp add: chunk_wf_def ch_hi_def ch_lo_def)
  ultimately show ?thesis by (auto intro: dvd_imp_le)
qed

lemma bucket_for_ok:
  assumes "0 < sb_gran s" and "sb_gran s \<le> unat sz"
  shows "bucket_for s sz = Some (ilog2_nat (unat sz) - ilog2_nat (sb_gran s))"
proof -
  have "sz \<noteq> 0" using assms by (auto simp: unat_pos_iff [symmetric])
  then show ?thesis using assms(1) ilog2_nat_mono [OF assms(2)]
    by (simp add: bucket_for_def ilog2_def sb_gran_def unat_pos_iff)
qed

lemma bucket_bound: "ilog2_nat (unat (sz :: u32)) - k < 32 - k \<or> 32 \<le> k"
  using ilog2_nat_less [of "unat sz" 31] unat_bound [of sz] by auto

lemma sb_log_bound:
  assumes "sb_inv s"
  shows "ilog2_nat (unat (sz :: u32)) - ilog2_nat (sb_gran s) < length (by_log2_size s)"
proof -
  have "ilog2_nat (sb_gran s) \<le> 31" unfolding sb_gran_def
    using unat_bound [of "min_chunk_size s"] by (intro ilog2_nat_less) simp
  with assms bucket_bound [of sz "ilog2_nat (sb_gran s)"] show ?thesis
    by (auto simp: sb_inv_def sb_buckets_ok_def)
qed

lemma chunk_pair_eq: "ch_size c = ch_size d \<Longrightarrow> ch_base c = ch_base d \<Longrightarrow> c = (d :: chunk)"
  by (cases c; cases d) auto

lemma pair_image: "(ch_size c, ch_base c) \<in> (\<lambda>c. (ch_size c, ch_base c)) ` S \<longleftrightarrow> c \<in> (S :: chunk set)"
  by (auto dest: chunk_pair_eq)

lemma sb_bucket_set:
  "sb_inv s \<Longrightarrow> i < length (by_log2_size s)
    \<Longrightarrow> (ch_size c, ch_base c) \<in> set (by_log2_size s ! i) \<longleftrightarrow> c \<in> sb_set s \<and> sb_log s c = i"
  by (simp add: sb_inv_def sb_buckets_ok_def pair_image)

lemma sb_insert_law:
  assumes inv: "sb_inv s" and wf: "chunk_wf c" and al: "chunk_aligned (sb_gran s) c"
    and dj: "chunk_bytes c \<inter> bytes_of (sb_set s) = {}"
  shows "\<exists>s'. sb_insert s c = Some s' \<and> sb_inv s' \<and> sb_set s' = insert c (sb_set s) \<and> sb_gran s' = sb_gran s"
proof -
  have sz: "sb_gran s \<le> unat (ch_size c)" using aligned_size [OF al wf] by simp
  have g: "0 < sb_gran s" and cmi: "cm_inv (sb_chunks s)" using inv by (simp_all add: sb_inv_def)
  obtain m where m: "cm_insert (sb_chunks s) c = Some m" "cm_inv m" "cm_set m = insert c (sb_set s)"
    using cm_insert_law [OF cmi wf] dj by (auto simp: sb_set_def)
  let ?i = "sb_log s c" and ?B = "by_log2_size s" and ?x = "(ch_size c, ch_base c)"
  have i: "bucket_for s (ch_size c) = Some ?i" "?i < length ?B"
    using bucket_for_ok [OF g sz] sb_log_bound [OF inv] by (simp_all add: sb_log_def sb_gran_def)
  have "c \<notin> sb_set s" using dj chunk_lo_in [OF wf] chunk_subset_bytes [of c "sb_set s"] by blast
  then have fresh: "?x \<notin> set (?B ! ?i)" using sb_bucket_set [OF inv i(2)] by blast
  let ?b = "fst (bs_insert ?x (?B ! ?i))"
  define s' where "s' = s\<lparr>sb_chunks := m, by_log2_size := ?B[?i := ?b]\<rparr>"
  have run: "sb_insert s c = Some s'"
    using sz m(1) i fresh
    by (simp add: sb_insert_def word_le_nat_alt sb_gran_def s'_def bs_insert_def)
  have g': "sb_gran s' = sb_gran s" and set': "sb_set s' = insert c (sb_set s)"
    and log': "sb_log s' = sb_log s"
    using m(3) by (auto simp: s'_def sb_gran_def sb_set_def sb_log_def fun_eq_iff)
  have bk: "bs_wf (by_log2_size s' ! j) \<and>
      set (by_log2_size s' ! j) = (\<lambda>c. (ch_size c, ch_base c)) ` {c \<in> sb_set s'. sb_log s' c = j}"
    if j: "j < length ?B" for j
  proof (cases "j = ?i")
    case True
    then have "{d \<in> insert c (sb_set s). sb_log s d = j} = insert c {d \<in> sb_set s. sb_log s d = j}" by auto
    then show ?thesis using inv True i(2) j
      by (simp add: s'_def sb_inv_def sb_buckets_ok_def set' [unfolded s'_def] log' [unfolded s'_def])
  next
    case False
    then have "{d \<in> insert c (sb_set s). sb_log s d = j} = {d \<in> sb_set s. sb_log s d = j}" by auto
    then show ?thesis using inv False j
      by (simp add: s'_def sb_inv_def sb_buckets_ok_def set' [unfolded s'_def] log' [unfolded s'_def])
  qed
  have len: "length (by_log2_size s') = length ?B" by (simp add: s'_def)
  have "sb_inv s'"
    unfolding sb_inv_def sb_buckets_ok_def len g' using inv m(2) al bk set' g
    by (auto simp: sb_inv_def sb_buckets_ok_def s'_def)
  with run set' g' show ?thesis by blast
qed

lemma sb_drop_law:
  assumes inv: "sb_inv s" and c: "c \<in> sb_set s"
    and m: "cm_inv m" "cm_set m = sb_set s - {c}"
    and b: "b = fst (bs_remove (ch_size c, ch_base c) (by_log2_size s ! sb_log s c))"
  shows "sb_inv (s\<lparr>sb_chunks := m, by_log2_size := (by_log2_size s)[sb_log s c := b]\<rparr>)"
proof -
  let ?i = "sb_log s c" and ?B = "by_log2_size s" and ?x = "(ch_size c, ch_base c)"
  define s' where "s' = s\<lparr>sb_chunks := m, by_log2_size := ?B[?i := b]\<rparr>"
  have i: "?i < length ?B" using sb_log_bound [OF inv] by (simp add: sb_log_def sb_gran_def)
  have g': "sb_gran s' = sb_gran s" and set': "sb_set s' = sb_set s - {c}"
    and log': "sb_log s' = sb_log s"
    using m(2) by (auto simp: s'_def sb_gran_def sb_set_def sb_log_def fun_eq_iff)
  have inj: "(\<lambda>c. (ch_size c, ch_base c)) ` {d \<in> sb_set s - {c}. sb_log s d = j}
      = (\<lambda>c. (ch_size c, ch_base c)) ` {d \<in> sb_set s. sb_log s d = j} - {?x}" for j
    by (auto dest: chunk_pair_eq simp: image_iff)
  have bk: "bs_wf (by_log2_size s' ! j) \<and>
      set (by_log2_size s' ! j) = (\<lambda>c. (ch_size c, ch_base c)) ` {c \<in> sb_set s'. sb_log s' c = j}"
    if j: "j < length ?B" for j
  proof (cases "j = ?i")
    case True
    then show ?thesis using inv i j unfolding set' log' inj
      by (simp add: s'_def b sb_inv_def sb_buckets_ok_def)
  next
    case False
    then have "?x \<notin> (\<lambda>c. (ch_size c, ch_base c)) ` {d \<in> sb_set s. sb_log s d = j}"
      by (auto dest: chunk_pair_eq)
    then show ?thesis using inv False j unfolding set' log' inj
      by (simp add: s'_def sb_inv_def sb_buckets_ok_def)
  qed
  have len: "length (by_log2_size s') = length ?B" by (simp add: s'_def)
  have "sb_inv s'"
    unfolding sb_inv_def sb_buckets_ok_def len g' using inv m(1) bk set'
    by (auto simp: sb_inv_def sb_buckets_ok_def s'_def)
  then show ?thesis by (simp add: s'_def)
qed

lemma sb_remove_from_bucket_run:
  assumes inv: "sb_inv s" and c: "c \<in> sb_set s"
  shows "sb_remove_from_bucket (s\<lparr>sb_chunks := m\<rparr>) c
    = Some (s\<lparr>sb_chunks := m, by_log2_size := (by_log2_size s)
        [sb_log s c := fst (bs_remove (ch_size c, ch_base c) (by_log2_size s ! sb_log s c))]\<rparr>)"
proof -
  have wf: "chunk_wf c" using chunks_ok_wf sb_inv_ok inv c by blast
  have sz: "sb_gran s \<le> unat (ch_size c)" using aligned_size [OF sb_inv_aligned [OF inv c] wf] by simp
  have "bucket_for (s\<lparr>sb_chunks := m\<rparr>) (ch_size c) = bucket_for s (ch_size c)"
    by (simp add: bucket_for_def)
  also have "\<dots> = Some (sb_log s c)"
    using bucket_for_ok [of s "ch_size c"] sz inv by (simp add: sb_inv_def sb_log_def sb_gran_def)
  finally have b: "bucket_for (s\<lparr>sb_chunks := m\<rparr>) (ch_size c) = Some (sb_log s c)" .
  have i: "sb_log s c < length (by_log2_size s)"
    using sb_log_bound [OF inv] by (simp add: sb_log_def sb_gran_def)
  have "(ch_size c, ch_base c) \<in> set (by_log2_size s ! sb_log s c)"
    using sb_bucket_set [OF inv i] c by simp
  with b i show ?thesis by (simp add: sb_remove_from_bucket_def split_beta)
qed

lemma sb_remove_law:
  assumes inv: "sb_inv s" and c: "c \<in> sb_set s"
  shows "\<exists>s'. sb_remove_with_base s (ch_base c) = Some (s', Some c) \<and> sb_inv s'
    \<and> sb_set s' = sb_set s - {c} \<and> sb_gran s' = sb_gran s"
proof -
  have cmi: "cm_inv (sb_chunks s)" using inv by (simp add: sb_inv_def)
  obtain m where m: "cm_remove_with_base (sb_chunks s) (ch_base c) = (m, Some c)" "cm_inv m"
      "cm_set m = sb_set s - {c}"
    using cm_remove_law [OF cmi] c by (auto simp: sb_set_def)
  from sb_remove_from_bucket_run [OF inv c, of m] sb_drop_law [OF inv c m(2,3) refl] m show ?thesis
    by (simp add: sb_remove_with_base_def sb_set_def sb_gran_def)
qed

lemma sb_remove_miss:
  assumes inv: "sb_inv s" and "\<forall>c \<in> sb_set s. ch_base c \<noteq> b"
  shows "sb_remove_with_base s b = Some (s, None)"
  using cm_remove_miss [of "sb_chunks s" b] assms by (simp add: sb_remove_with_base_def sb_inv_def sb_set_def)

lemma sb_remove_with_end_law:
  assumes inv: "sb_inv s" and c: "c \<in> sb_set s" and e: "unat e = ch_hi c"
  shows "\<exists>s'. sb_remove_with_end s e = Some (s', Some c) \<and> sb_inv s'
    \<and> sb_set s' = sb_set s - {c} \<and> sb_gran s' = sb_gran s"
proof -
  have cmi: "cm_inv (sb_chunks s)" and c': "c \<in> cm_set (sb_chunks s)"
    using inv c by (simp_all add: sb_inv_def sb_set_def)
  obtain m where m: "cm_remove_with_base (sb_chunks s) (ch_base c) = (m, Some c)" "cm_inv m"
      "cm_set m = sb_set s - {c}"
    using cm_remove_law [OF cmi c'] by (auto simp: sb_set_def)
  have "cm_remove_with_end (sb_chunks s) e = Some (m, Some c)"
    using cm_remove_with_end_law [OF cmi c' e] m(1) by simp
  then show ?thesis using sb_remove_from_bucket_run [OF inv c, of m] sb_drop_law [OF inv c m(2,3) refl] m
    by (simp add: sb_remove_with_end_def sb_set_def sb_gran_def)
qed

lemma sb_remove_with_end_miss:
  assumes inv: "sb_inv s" and "\<forall>c \<in> sb_set s. ch_hi c \<noteq> unat e"
  shows "sb_remove_with_end s e = Some (s, None)"
  using cm_remove_with_end_miss [of "sb_chunks s" e] assms
  by (simp add: sb_remove_with_end_def sb_inv_def sb_set_def)

interpretation sb: chunk_store sb_inv sb_set "\<lambda>s. chunk_aligned (sb_gran s)" sb_insert sb_remove_with_base
proof unfold_locales
  fix s c assume "sb_inv s" "chunk_wf c" "chunk_aligned (sb_gran s) c" "chunk_bytes c \<inter> bytes_of (sb_set s) = {}"
  from sb_insert_law [OF this] show "\<exists>s'. sb_insert s c = Some s' \<and> sb_inv s' \<and> sb_set s' = insert c (sb_set s)
      \<and> chunk_aligned (sb_gran s') = chunk_aligned (sb_gran s)" by auto
next
  fix s c assume "sb_inv s" "c \<in> sb_set s"
  from sb_remove_law [OF this] show "\<exists>s'. sb_remove_with_base s (ch_base c) = Some (s', Some c) \<and> sb_inv s'
      \<and> sb_set s' = sb_set s - {c} \<and> chunk_aligned (sb_gran s') = chunk_aligned (sb_gran s)" by auto
qed (auto intro: sb_inv_ok sb_inv_aligned)

text \<open>No operation changes the granularity.\<close>

lemma sb_insert_gran: "sb_insert s c = Some s' \<Longrightarrow> sb_gran s' = sb_gran s"
  by (auto simp: sb_insert_def bind_Some_iff sb_gran_def split_beta Let_def)

lemma sb_remove_gran: "sb_remove_with_base s b = Some (s', oc) \<Longrightarrow> sb_gran s' = sb_gran s"
  by (auto simp: sb_remove_with_base_def sb_remove_from_bucket_def bind_Some_iff sb_gran_def Let_def
      split_beta split: option.splits)

lemma sb_loop_gran: "remove_range_loop sb_insert sb_remove_with_base r bs s = Some s' \<Longrightarrow> sb_gran s' = sb_gran s"
proof (induction bs arbitrary: s)
  case Nil
  then show ?case by simp
next
  case (Cons b bs)
  then show ?case
    by (fastforce simp: bind_Some_iff dest: sb_insert_gran sb_remove_gran split: prod.splits option.splits)
qed

lemma sb_remove_range_law:
  assumes inv: "sb_inv s" and r: "chunk_wf r" and al: "chunk_aligned (sb_gran s) r"
  shows "\<exists>s'. sb_remove_range s r = Some s' \<and> sb_inv s' \<and> sb_gran s' = sb_gran s
    \<and> bytes_of (sb_set s') = bytes_of (sb_set s) - chunk_bytes r
    \<and> {c \<in> sb_set s. chunk_bytes c \<inter> chunk_bytes r = {}} \<subseteq> sb_set s'
    \<and> (\<forall>d \<in> sb_set s'. \<exists>c \<in> sb_set s. chunk_piece c r d)"
proof -
  have cmi: "cm_inv (sb_chunks s)" using inv by (simp add: sb_inv_def)
  obtain cs where cs: "cm_overlapping_chunks (sb_chunks s) r = Some cs" "distinct cs"
      "set cs = {c \<in> sb_set s. chunk_bytes c \<inter> chunk_bytes r \<noteq> {}}"
    using cm_overlapping_law [OF cmi r] by (auto simp: sb_set_def)
  have "\<forall>c \<in> sb_set s. leaves_ok (chunk_aligned (sb_gran s)) r c"
    using chunk_minus_aligned al sb_inv_aligned [OF inv] by (auto simp: leaves_ok_def)
  from sb.remove_range_effect [OF inv cs(2,3) r this] obtain s' where s':
    "remove_range_loop sb_insert sb_remove_with_base r (map ch_base cs) s = Some s'" "sb_inv s'"
    "chunk_aligned (sb_gran s') = chunk_aligned (sb_gran s)"
    "bytes_of (sb_set s') = bytes_of (sb_set s) - chunk_bytes r"
    "{c \<in> sb_set s. chunk_bytes c \<inter> chunk_bytes r = {}} \<subseteq> sb_set s'"
    "\<forall>d \<in> sb_set s'. \<exists>c \<in> sb_set s. chunk_piece c r d" by blast
  have "sb_remove_range s r = Some s'" using cs(1) s'(1) by (simp add: sb_remove_range_def)
  moreover have "sb_gran s' = sb_gran s" using sb_loop_gran s'(1) .
  ultimately show ?thesis using s' by blast
qed

subsection \<open>Best fit\<close>

text \<open>
  \<open>sb_carved s c sz a s'\<close>: the chunk \<open>a\<close> of size \<open>sz\<close> is the front of the free chunk \<open>c\<close> of
  \<open>s\<close>, and \<open>s'\<close> is \<open>s\<close> with exactly these addresses taken away.
\<close>

definition sb_carved :: "bucket_map \<Rightarrow> chunk \<Rightarrow> guest_usize \<Rightarrow> chunk \<Rightarrow> bucket_map \<Rightarrow> bool" where
  "sb_carved s c sz a s' \<longleftrightarrow>
     sb_inv s' \<and> sb_gran s' = sb_gran s \<and> chunk_wf a \<and> chunk_aligned (sb_gran s) a
     \<and> ch_base a = ch_base c \<and> ch_size a = sz \<and> chunk_bytes a \<subseteq> chunk_bytes c
     \<and> sb_set s - {c} \<subseteq> sb_set s'
     \<and> bytes_of (sb_set s') = bytes_of (sb_set s) - chunk_bytes a
     \<and> (\<forall>d \<in> sb_set s'. d \<in> sb_set s - {c} \<or> (ch_lo d = ch_lo c + unat sz \<and> ch_hi d = ch_hi c))"

definition sb_fits :: "bucket_map \<Rightarrow> guest_usize \<Rightarrow> (chunk \<Rightarrow> bool) \<Rightarrow> chunk \<Rightarrow> bool" where
  "sb_fits s sz P c \<longleftrightarrow> c \<in> sb_set s \<and> P c \<and> sz \<le> ch_size c \<and>
     (\<forall>d \<in> sb_set s. P d \<and> sz \<le> ch_size d \<longrightarrow> (ch_size c, ch_base c) \<le> (ch_size d, ch_base d))"

lemma sb_allocate_in_bucket_none:
  assumes inv: "sb_inv s" and i: "i < length (by_log2_size s)"
    and none: "bs_first_from (sz, 0) (by_log2_size s ! i) = None"
  shows "sb_allocate_in_bucket s sz i = Some (s, None)"
    and "\<And>c. c \<in> sb_set s \<Longrightarrow> sb_log s c = i \<Longrightarrow> ch_size c < sz"
proof -
  show "sb_allocate_in_bucket s sz i = Some (s, None)"
    using i none by (simp add: sb_allocate_in_bucket_def)
  fix c assume "c \<in> sb_set s" "sb_log s c = i"
  then have "(ch_size c, ch_base c) \<in> set (by_log2_size s ! i)" using sb_bucket_set [OF inv i] by blast
  then have "\<not> (sz, 0) \<le> (ch_size c, ch_base c)" using none unfolding bs_first_from_None by blast
  then show "ch_size c < sz" by (auto simp: less_eq_prod_def not_le)
qed

lemma sb_carve_run:
  assumes inv: "sb_inv s" and c: "c \<in> sb_set s" and sz: "sb_gran s dvd unat sz" "sz \<noteq> 0" "sz \<le> ch_size c"
    and first: "bs_first_from (sz, 0) (by_log2_size s ! sb_log s c) = Some (ch_size c, ch_base c)"
  shows "\<exists>a s'. sb_allocate_in_bucket s sz (sb_log s c) = Some (s', Some a) \<and> sb_carved s c sz a s'"
proof -
  let ?i = "sb_log s c" and ?B = "by_log2_size s"
  have i: "?i < length ?B" using sb_log_bound [OF inv] by (simp add: sb_log_def sb_gran_def)
  have wf: "chunk_wf c" using chunks_ok_wf sb_inv_ok inv c by blast
  have alc: "chunk_aligned (sb_gran s) c" using sb_inv_aligned inv c by blast
  have present: "(ch_size c, ch_base c) \<in> set (?B ! ?i)" using sb_bucket_set [OF inv i] c by blast
  have new: "chunk_new (ch_base c) (ch_size c) = Some c"
    using chunk_wf_size [OF wf] by (simp add: chunk_new_def)
  have cmi: "cm_inv (sb_chunks s)" using inv by (simp add: sb_inv_def)
  obtain m where m: "cm_remove_with_base (sb_chunks s) (ch_base c) = (m, Some c)" "cm_inv m"
      "cm_set m = sb_set s - {c}"
    using cm_remove_law [OF cmi] c by (auto simp: sb_set_def)
  define s1 where "s1 = s\<lparr>sb_chunks := m, by_log2_size := ?B[?i := fst (bs_remove (ch_size c, ch_base c) (?B ! ?i))]\<rparr>"
  have inv1: "sb_inv s1" unfolding s1_def by (rule sb_drop_law [OF inv c m(2,3) refl])
  have set1: "sb_set s1 = sb_set s - {c}" and g1: "sb_gran s1 = sb_gran s"
    using m(3) by (simp_all add: s1_def sb_set_def sb_gran_def)
  have step: "sb_allocate_in_bucket s sz ?i =
      (if ch_size c = sz then Some (s1, Some c)
       else do { alloc \<leftarrow> chunk_new (ch_base c) sz; rb \<leftarrow> add_chk (ch_base c) sz;
                 rs \<leftarrow> sub_chk (ch_size c) sz; rump \<leftarrow> chunk_new rb rs;
                 s2 \<leftarrow> sb_insert s1 rump; Some (s2, Some alloc) })"
    using i first present new m(1) by (simp add: sb_allocate_in_bucket_def split_beta s1_def)
  have bytes1: "bytes_of (sb_set s1) = bytes_of (sb_set s) - chunk_bytes c"
    using set1 bytes_of_remove sb_inv_ok inv c by simp
  show ?thesis
  proof (cases "ch_size c = sz")
    case True
    then show ?thesis using step inv1 set1 g1 bytes1 wf alc by (auto simp: sb_carved_def)
  next
    case False
    then have lt: "unat sz < unat (ch_size c)" using sz(3) by (simp add: word_le_nat_alt unat_eq_iff)
    obtain a where a: "chunk_new (ch_base c) sz = Some a" using sz(2) by (simp add: chunk_new_def)
    have aeq: "ch_base a = ch_base c" "ch_size a = sz" using a sz(2) by (auto simp: chunk_new_def)
    have "unat (ch_base c) + unat sz < 2 ^ LENGTH(32)" using wf lt by (simp add: chunk_wf_def ch_hi_def)
    from add_chk_ex [OF this] obtain rb where rb: "add_chk (ch_base c) sz = Some rb" by blast
    obtain rs where rs: "sub_chk (ch_size c) sz = Some rs" using sub_chk_ex [of sz "ch_size c"] lt by auto
    have rbu: "unat rb = ch_lo c + unat sz" using rb by (simp add: add_chk_Some ch_lo_def)
    have rsu: "unat (ch_size c) = unat sz + unat rs" using rs by (simp add: sub_chk_Some)
    then have "rs \<noteq> 0" using lt by auto
    then obtain rump where rump: "chunk_new rb rs = Some rump" by (simp add: chunk_new_def)
    have rlo: "ch_lo rump = ch_lo c + unat sz" "ch_hi rump = ch_hi c"
      using rump rbu rsu by (auto simp: chunk_new_Some ch_hi_def ch_lo_def)
    have alo: "ch_lo a = ch_lo c" "ch_hi a = ch_lo c + unat sz" using aeq by (simp_all add: ch_lo_def ch_hi_def)
    have cw: "ch_hi c = ch_lo c + unat (ch_size c)" "ch_hi c < 2 ^ 32" using wf by (simp_all add: chunk_wf_def ch_hi_def ch_lo_def)
    have szp: "0 < unat sz" using sz(2) by (simp add: unat_pos_iff)
    have rwf: "chunk_wf rump" and awf: "chunk_wf a" using rlo alo cw lt szp by (simp_all add: chunk_wf_def)
    have ral: "chunk_aligned (sb_gran s1) rump" and aal: "chunk_aligned (sb_gran s) a"
      using alc sz(1) rlo alo g1 by (simp_all add: chunk_aligned_def)
    have split: "chunk_bytes c = chunk_bytes a \<union> chunk_bytes rump" "chunk_bytes a \<inter> chunk_bytes rump = {}"
      using rlo alo cw lt by (auto simp: chunk_bytes_def)
    have "chunk_bytes rump \<inter> bytes_of (sb_set s1) = {}" using bytes1 split by auto
    then obtain s2 where s2: "sb_insert s1 rump = Some s2" "sb_inv s2" "sb_set s2 = insert rump (sb_set s1)"
        "sb_gran s2 = sb_gran s1"
      using sb_insert_law [OF inv1 rwf ral] by blast
    have "bytes_of (sb_set s2) = bytes_of (sb_set s) - chunk_bytes a"
      using s2(3) bytes1 split chunk_subset_bytes [OF c] by auto
    then have "sb_carved s c sz a s2"
      using s2 set1 g1 awf aal aeq rlo split by (auto simp: sb_carved_def)
    then show ?thesis using step False a rb rs rump s2(1) by auto
  qed
qed

lemma sb_allocate_in_bucket_some:
  assumes inv: "sb_inv s" and i: "i < length (by_log2_size s)"
    and some: "bs_first_from (sz, 0) (by_log2_size s ! i) = Some p"
    and sz: "sb_gran s dvd unat sz" "sz \<noteq> 0"
  shows "\<exists>c a s'. sb_fits s sz (\<lambda>d. sb_log s d = i) c \<and> sb_log s c = i
    \<and> sb_allocate_in_bucket s sz i = Some (s', Some a) \<and> sb_carved s c sz a s'"
proof -
  have bw: "bs_wf (by_log2_size s ! i)" using inv i by (simp add: sb_inv_def sb_buckets_ok_def)
  note pD = bs_first_from_SomeD [OF bw some]
  define c where "c = mk_chunk (snd p, fst p)"
  have p: "p = (ch_size c, ch_base c)" by (simp add: c_def)
  have c: "c \<in> sb_set s" "sb_log s c = i" using pD(1) sb_bucket_set [OF inv i, of c] by (simp_all add: p)
  have le: "sz \<le> ch_size c" using pD(2) by (auto simp: p less_eq_prod_def)
  have min: "(ch_size c, ch_base c) \<le> (ch_size d, ch_base d)"
    if d: "d \<in> sb_set s" "sb_log s d = i" "sz \<le> ch_size d" for d
  proof -
    have "(ch_size d, ch_base d) \<in> set (by_log2_size s ! i)" using sb_bucket_set [OF inv i] d by blast
    moreover have "(sz, 0) \<le> (ch_size d, ch_base d)" using d(3) by (auto simp: less_eq_prod_def)
    ultimately show ?thesis using pD(3) unfolding p by blast
  qed
  have "sb_fits s sz (\<lambda>d. sb_log s d = i) c" using c le min by (simp add: sb_fits_def)
  moreover have "bs_first_from (sz, 0) (by_log2_size s ! sb_log s c) = Some (ch_size c, ch_base c)"
    using some c(2) by (simp add: p)
  ultimately show ?thesis using sb_carve_run [OF inv c(1) sz le] c(2) by blast
qed

text \<open>A chunk of a lower bucket is smaller than any chunk of a higher one.\<close>

lemma sb_log_less_size: "sb_log s c < sb_log s d \<Longrightarrow> ch_size c < ch_size d"
proof (rule ccontr)
  assume l: "sb_log s c < sb_log s d" and "\<not> ch_size c < ch_size d"
  then have "unat (ch_size d) \<le> unat (ch_size c)" by (simp add: word_less_nat_alt)
  from ilog2_nat_mono [OF this] l show False by (simp add: sb_log_def)
qed

lemma sb_allocate_best_fit:
  assumes inv: "sb_inv s" and sz: "sb_gran s dvd unat sz" "sz \<noteq> 0"
  shows "(\<exists>c a s'. sb_fits s sz (\<lambda>_. True) c \<and> sb_allocate s sz = Some (s', Some a) \<and> sb_carved s c sz a s')
    \<or> ((\<forall>c \<in> sb_set s. ch_size c < sz) \<and> sb_allocate s sz = Some (s, None))"
proof -
  have g: "0 < sb_gran s" using inv by (simp add: sb_inv_def)
  have gsz: "sb_gran s \<le> unat sz" using sz by (intro dvd_imp_le) (simp_all add: unat_pos_iff)
  define i where "i = ilog2_nat (unat sz) - ilog2_nat (sb_gran s)"
  have i: "bucket_for s sz = Some i" "i < length (by_log2_size s)"
    using bucket_for_ok [OF g gsz] sb_log_bound [OF inv] by (simp_all add: i_def)
  have minle: "min_chunk_size s \<le> sz" using gsz by (simp add: sb_gran_def word_le_nat_alt)
  have big: "i \<le> sb_log s d" if "sz \<le> ch_size d" for d
    using that ilog2_nat_mono by (simp add: sb_log_def i_def sb_gran_def word_le_nat_alt diff_le_mono)
  have lift: "sb_fits s sz (\<lambda>_. True) c"
    if c: "sb_fits s sz (\<lambda>d. sb_log s d = j) c" "sb_log s c = j"
      and low: "\<And>d. d \<in> sb_set s \<Longrightarrow> sz \<le> ch_size d \<Longrightarrow> j \<le> sb_log s d" for c j
    unfolding sb_fits_def
  proof (intro conjI ballI impI)
    show "c \<in> sb_set s" "True" "sz \<le> ch_size c" using c by (simp_all add: sb_fits_def)
    fix d assume d: "d \<in> sb_set s" "True \<and> sz \<le> ch_size d"
    show "(ch_size c, ch_base c) \<le> (ch_size d, ch_base d)"
    proof (cases "sb_log s d = j")
      case True
      then show ?thesis using c d by (simp add: sb_fits_def)
    next
      case False
      then have "sb_log s c < sb_log s d" using low d c(2) by (simp add: le_neq_implies_less)
      then show ?thesis using sb_log_less_size [of s c d] by (simp add: less_eq_prod_def)
    qed
  qed
  show ?thesis
  proof (cases "bs_first_from (sz, 0) (by_log2_size s ! i)")
    case (Some p)
    obtain c a s' where "sb_fits s sz (\<lambda>d. sb_log s d = i) c" "sb_log s c = i"
        "sb_allocate_in_bucket s sz i = Some (s', Some a)" "sb_carved s c sz a s'"
      using sb_allocate_in_bucket_some [OF inv i(2) Some sz] by blast
    then show ?thesis using lift [of i c] big i(1) minle by (auto simp: sb_allocate_def)
  next
    case None
    note none = sb_allocate_in_bucket_none [OF inv i(2) None]
    let ?rest = "drop (i + 1) (by_log2_size s)"
    have run: "sb_allocate s sz = (case position (\<lambda>bucket. bucket \<noteq> []) ?rest of
            None \<Rightarrow> Some (s, None) | Some k \<Rightarrow> sb_allocate_in_bucket s sz (k + i + 1))"
      using i(1) minle none(1) by (simp add: sb_allocate_def)
    have above: "i < sb_log s d" if "d \<in> sb_set s" "sz \<le> ch_size d" for d
      using big [OF that(2)] none(2) [OF that(1)] that(2) by (cases "sb_log s d = i") auto
    have in_bucket: "(ch_size d, ch_base d) \<in> set (by_log2_size s ! sb_log s d)" "sb_log s d < length (by_log2_size s)"
      if "d \<in> sb_set s" for d
      using that sb_bucket_set [OF inv] sb_log_bound [OF inv, of "ch_size d"] by (simp_all add: sb_log_def sb_gran_def)
    show ?thesis
    proof (cases "position (\<lambda>bucket. bucket \<noteq> []) ?rest")
      case None
      have "ch_size d < sz" if d: "d \<in> sb_set s" for d
      proof (rule ccontr)
        assume "\<not> ch_size d < sz"
        then have "i < sb_log s d" using above d by simp
        then have "by_log2_size s ! sb_log s d \<in> set ?rest"
          using in_bucket(2) [OF d] by (auto simp: in_set_conv_nth intro!: exI [of _ "sb_log s d - (i + 1)"])
        then show False using None in_bucket(1) [OF d] by (auto simp: position_None)
      qed
      then show ?thesis using run None by simp
    next
      case (Some k)
      have j: "k + i + 1 < length (by_log2_size s)" "by_log2_size s ! (k + i + 1) \<noteq> []"
        and before: "\<And>j. j < k \<Longrightarrow> by_log2_size s ! (j + i + 1) = []"
        using position_SomeD [OF Some] by (auto simp: add.commute add.left_commute)
      have low: "k + i + 1 \<le> sb_log s d" if d: "d \<in> sb_set s" "sz \<le> ch_size d" for d
      proof (rule ccontr)
        assume "\<not> k + i + 1 \<le> sb_log s d"
        then have "by_log2_size s ! sb_log s d = []"
          using before [of "sb_log s d - (i + 1)"] above [OF d] by simp
        then show False using in_bucket(1) [OF d(1)] by simp
      qed
      have "\<exists>p. bs_first_from (sz, 0) (by_log2_size s ! (k + i + 1)) = Some p"
      proof (rule ccontr)
        assume "\<nexists>p. bs_first_from (sz, 0) (by_log2_size s ! (k + i + 1)) = Some p"
        then have nn: "bs_first_from (sz, 0) (by_log2_size s ! (k + i + 1)) = None" by (metis option.exhaust)
        obtain q where q: "q \<in> set (by_log2_size s ! (k + i + 1))" using j(2) list.set_sel(1) by blast
        define c where "c = mk_chunk (snd q, fst q)"
        have c: "c \<in> sb_set s" "sb_log s c = k + i + 1"
          using q sb_bucket_set [OF inv j(1), of c] by (simp_all add: c_def)
        have "ch_size c < sz" using sb_allocate_in_bucket_none(2) [OF inv j(1) nn c] .
        then have "unat (ch_size c) \<le> unat sz" by (simp add: word_less_nat_alt)
        from ilog2_nat_mono [OF this] c(2) show False by (simp add: sb_log_def i_def sb_gran_def)
      qed
      then obtain p where p: "bs_first_from (sz, 0) (by_log2_size s ! (k + i + 1)) = Some p" by blast
      obtain c a s' where "sb_fits s sz (\<lambda>d. sb_log s d = k + i + 1) c" "sb_log s c = k + i + 1"
          "sb_allocate_in_bucket s sz (k + i + 1) = Some (s', Some a)" "sb_carved s c sz a s'"
        using sb_allocate_in_bucket_some [OF inv j(1) p sz] by blast
      then show ?thesis using lift [of "k + i + 1" c] low run Some by auto
    qed
  qed
qed

end
