(* ===== verification/Allocator_Interface.thy ===== *)
theory Allocator_Interface
  imports Chunk_Map
begin

text \<open>
  What the two allocators of \<open>src/mem/allocator.rs\<close> promise to a sequence of requests. The
  locale \<open>address_allocator\<close> states the law of one request, over the set of live chunks; its
  lemmas are about whole sequences: what has been handed out and not given back stays live
  and disjoint from everything handed out later. \<open>VM_Alloc\<close> and \<open>Heap_Alloc\<close> interpret it.
\<close>

fun run_requests :: "('s \<Rightarrow> 'q \<Rightarrow> ('s \<times> chunk option) run) \<Rightarrow> 's \<Rightarrow> 'q list \<Rightarrow> ('s \<times> chunk option list) run" where
  "run_requests step s [] = Some (s, [])"
| "run_requests step s (q # qs) = do {
     (s1, oc) \<leftarrow> step s q;
     (s2, ocs) \<leftarrow> run_requests step s1 qs;
     Some (s2, oc # ocs) }"

text \<open>The addresses the requests give back.\<close>

fun freed_in :: "('s \<Rightarrow> 'q \<Rightarrow> ('s \<times> chunk option) run) \<Rightarrow> ('s \<Rightarrow> 'q \<Rightarrow> nat set) \<Rightarrow> 's \<Rightarrow> 'q list \<Rightarrow> nat set" where
  "freed_in step frees s [] = {}"
| "freed_in step frees s (q # qs) =
     frees s q \<union> (case step s q of None \<Rightarrow> {} | Some (s', _) \<Rightarrow> freed_in step frees s' qs)"

lemma run_requests_append:
  "run_requests step s (ps @ qs) = do {
     (s1, os1) \<leftarrow> run_requests step s ps;
     (s2, os2) \<leftarrow> run_requests step s1 qs;
     Some (s2, os1 @ os2) }"
proof (induction ps arbitrary: s)
  case Nil
  show ?case by (cases "run_requests step s qs") auto
next
  case (Cons p ps)
  show ?case
  proof (cases "step s p")
    case (Some x)
    then show ?thesis using Cons [of "fst x"]
      by (cases x; cases "run_requests step (fst x) ps") (auto simp: split_beta)
  qed simp
qed

locale address_allocator =
  fixes inv :: "'s \<Rightarrow> bool"
    and live :: "'s \<Rightarrow> chunk set"
    and frees :: "'s \<Rightarrow> 'q \<Rightarrow> nat set"
    and step :: "'s \<Rightarrow> 'q \<Rightarrow> ('s \<times> chunk option) run"
  assumes live_ok: "inv s \<Longrightarrow> chunks_ok (live s)"
    and step_inv: "inv s \<Longrightarrow> step s q = Some (s', oc) \<Longrightarrow> inv s'"
    and step_fresh: "inv s \<Longrightarrow> step s q = Some (s', Some c)
      \<Longrightarrow> c \<in> live s' \<and> chunk_bytes c \<inter> bytes_of (live s) = {}"
    and step_keeps: "inv s \<Longrightarrow> step s q = Some (s', oc) \<Longrightarrow> c \<in> live s \<Longrightarrow> chunk_bytes c \<inter> frees s q = {}
      \<Longrightarrow> c \<in> live s'"
begin

lemma run_inv: "inv s \<Longrightarrow> run_requests step s qs = Some (s', ocs) \<Longrightarrow> inv s'"
proof (induction qs arbitrary: s ocs)
  case Nil
  then show ?case by simp
next
  case (Cons q qs)
  then obtain s1 oc os' where "step s q = Some (s1, oc)" "run_requests step s1 qs = Some (s', os')"
    by (auto simp: bind_Some_iff)
  then show ?case using Cons.IH step_inv [OF Cons.prems(1)] by blast
qed

lemma survives:
  assumes "inv s" "run_requests step s qs = Some (s', ocs)" "c \<in> live s"
    and "chunk_bytes c \<inter> freed_in step frees s qs = {}"
  shows "c \<in> live s' \<and> (\<forall>d. Some d \<in> set ocs \<longrightarrow> chunk_bytes d \<inter> chunk_bytes c = {})"
  using assms
proof (induction qs arbitrary: s ocs)
  case Nil
  then show ?case by simp
next
  case (Cons q qs)
  obtain s1 oc os' where s: "step s q = Some (s1, oc)" "run_requests step s1 qs = Some (s', os')" "ocs = oc # os'"
    using Cons.prems(2) by (auto simp: bind_Some_iff)
  have d: "chunk_bytes c \<inter> frees s q = {}" "chunk_bytes c \<inter> freed_in step frees s1 qs = {}"
    using Cons.prems(4) s(1) by auto
  have c1: "c \<in> live s1" using step_keeps [OF Cons.prems(1) s(1) Cons.prems(3) d(1)] .
  have rest: "c \<in> live s' \<and> (\<forall>d. Some d \<in> set os' \<longrightarrow> chunk_bytes d \<inter> chunk_bytes c = {})"
    using Cons.IH [OF step_inv [OF Cons.prems(1) s(1)] s(2) c1 d(2)] .
  have "chunk_bytes d \<inter> chunk_bytes c = {}" if "oc = Some d" for d
    using step_fresh [OF Cons.prems(1)] s(1) that chunk_subset_bytes [OF Cons.prems(3)] by blast
  then show ?case using rest s(3) by auto
qed

text \<open>
  The promise of an allocator: a chunk handed out is disjoint from every live one; as long as
  none of its addresses is given back it stays live, and nothing handed out later meets it.
\<close>

lemma handed_out:
  assumes inv: "inv s" and run: "run_requests step s ps = Some (s1, os1)"
    and new: "step s1 q = Some (s2, Some c)"
    and later: "run_requests step s2 qs = Some (s3, os3)"
    and kept: "chunk_bytes c \<inter> freed_in step frees s2 qs = {}"
  shows "c \<in> live s3" and "\<And>d. Some d \<in> set os3 \<Longrightarrow> chunk_bytes d \<inter> chunk_bytes c = {}"
    and "chunks_ok (live s3)"
proof -
  have i1: "inv s1" using run_inv inv run .
  have i2: "inv s2" using step_inv i1 new .
  have c: "c \<in> live s2" using step_fresh [OF i1 new] by blast
  from survives [OF i2 later c kept]
  show "c \<in> live s3" and "\<And>d. Some d \<in> set os3 \<Longrightarrow> chunk_bytes d \<inter> chunk_bytes c = {}" by simp_all
  show "chunks_ok (live s3)" using live_ok run_inv [OF i2 later] .
qed

end

end
