(* ===== verification/VM_Alloc.thy ===== *)
theory VM_Alloc
  imports Bucket_Map Allocator_Interface
begin

text \<open>
  \<open>VMAllocator\<close> of \<open>src/mem/allocator.rs\<close>: allocation of guest address space with page
  granularity. The invariant says that used and free chunks are page-aligned and disjoint,
  and that no two free chunks are adjacent (freeing coalesces); every operation keeps it,
  and its effect is stated on the sets of used and free addresses.
\<close>

subsection \<open>Operations\<close>

abbreviation PAGE_SIZE :: guest_usize where
  "PAGE_SIZE \<equiv> 4096"

definition page_floor :: "vaddr \<Rightarrow> vaddr" where
  "page_floor a = a AND NOT (PAGE_SIZE - 1)"

datatype vm_alloc_error = AddressUnavailable | NoSpace

record vm_alloc =
  vm_used :: chunk_map
  vm_unused :: bucket_map

text \<open>\<open>Iterator::find\<close> with a predicate that may panic.\<close>

fun find_run :: "('a \<Rightarrow> bool run) \<Rightarrow> 'a list \<Rightarrow> 'a option run" where
  "find_run p [] = Some None"
| "find_run p (x # xs) = do { b \<leftarrow> p x; if b then Some (Some x) else find_run p xs }"

definition vm_new :: "vaddr \<Rightarrow> guest_usize \<Rightarrow> vm_alloc run" where
  "vm_new b sz = do {
     space \<leftarrow> chunk_new b sz;
     u \<leftarrow> sb_new PAGE_SIZE;
     u' \<leftarrow> sb_insert u space;
     Some \<lparr>vm_used = [], vm_unused = u'\<rparr> }"

definition vm_allocate_any :: "vm_alloc \<Rightarrow> guest_usize \<Rightarrow> (vm_alloc \<times> (vm_alloc_error + chunk)) run" where
  "vm_allocate_any v sz = do {
     _ \<leftarrow> rassert (is_multiple_of sz PAGE_SIZE \<and> PAGE_SIZE \<le> sz);
     (u, r) \<leftarrow> sb_allocate (vm_unused v) sz;
     case r of
       None \<Rightarrow> Some (v\<lparr>vm_unused := u\<rparr>, Inl NoSpace)
     | Some alloc \<Rightarrow> do {
         m \<leftarrow> cm_insert (vm_used v) alloc;
         Some (v\<lparr>vm_used := m, vm_unused := u\<rparr>, Inr alloc) } }"

definition vm_allocate_at ::
  "vm_alloc \<Rightarrow> vaddr \<Rightarrow> guest_usize \<Rightarrow> (vm_alloc \<times> (vm_alloc_error + chunk)) run" where
  "vm_allocate_at v a sz = do {
     _ \<leftarrow> rassert (is_multiple_of a PAGE_SIZE);
     _ \<leftarrow> rassert (is_multiple_of sz PAGE_SIZE \<and> PAGE_SIZE \<le> sz);
     c \<leftarrow> chunk_new a sz;
     unused \<leftarrow> sb_iter (vm_unused v);
     found \<leftarrow> find_run (\<lambda>d. contains d a) unused;
     case found of
       None \<Rightarrow> Some (v, Inl AddressUnavailable)
     | Some to_trisect \<Rightarrow> do {
         parts \<leftarrow> trisect_by to_trisect c;
         case parts of
           None \<Rightarrow> Some (v, Inl NoSpace)
         | Some (before, after) \<Rightarrow> do {
             (u1, _) \<leftarrow> sb_remove_with_base (vm_unused v) (ch_base to_trisect);
             u2 \<leftarrow> (case before of None \<Rightarrow> Some u1 | Some l \<Rightarrow> sb_insert u1 l);
             u3 \<leftarrow> (case after of None \<Rightarrow> Some u2 | Some q \<Rightarrow> sb_insert u2 q);
             m \<leftarrow> cm_insert (vm_used v) c;
             Some (v\<lparr>vm_used := m, vm_unused := u3\<rparr>, Inr c) } } }"

definition vm_allocate ::
  "vm_alloc \<Rightarrow> vaddr option \<Rightarrow> guest_usize \<Rightarrow> (vm_alloc \<times> (vm_alloc_error + chunk)) run" where
  "vm_allocate v address sz = do {
     sz' \<leftarrow> next_multiple_of sz PAGE_SIZE;
     case address of
       Some a \<Rightarrow> vm_allocate_at v (page_floor a) sz'
     | None \<Rightarrow> vm_allocate_any v sz' }"

definition vm_deallocate :: "vm_alloc \<Rightarrow> vaddr \<Rightarrow> guest_usize \<Rightarrow> (vm_alloc \<times> chunk) run" where
  "vm_deallocate v address sz = do {
     sz' \<leftarrow> next_multiple_of sz PAGE_SIZE;
     freed \<leftarrow> chunk_new (page_floor address) sz';
     m \<leftarrow> cm_remove_range (vm_used v) freed;
     u0 \<leftarrow> sb_remove_range (vm_unused v) freed;
     l \<leftarrow> last_byte freed;
     e \<leftarrow> add_chk l 1;
     (u1, left_adjacent) \<leftarrow> sb_remove_with_base u0 e;
     (u2, right_adjacent) \<leftarrow> sb_remove_with_end u1 (ch_base freed);
     c1 \<leftarrow> (case left_adjacent of None \<Rightarrow> Some freed | Some adjacent \<Rightarrow> merge freed adjacent);
     c2 \<leftarrow> (case right_adjacent of None \<Rightarrow> Some c1 | Some adjacent \<Rightarrow> merge c1 adjacent);
     u3 \<leftarrow> sb_insert u2 c2;
     Some (v\<lparr>vm_used := m, vm_unused := u3\<rparr>, freed) }"

subsection \<open>Invariant\<close>

definition coalesced :: "chunk set \<Rightarrow> bool" where
  "coalesced S \<longleftrightarrow> (\<forall>c \<in> S. \<forall>d \<in> S. ch_hi c \<noteq> ch_lo d)"

definition vm_used_set :: "vm_alloc \<Rightarrow> chunk set" where "vm_used_set v = cm_set (vm_used v)"
definition vm_free_set :: "vm_alloc \<Rightarrow> chunk set" where "vm_free_set v = sb_set (vm_unused v)"
definition vm_used_bytes :: "vm_alloc \<Rightarrow> nat set" where "vm_used_bytes v = bytes_of (vm_used_set v)"
definition vm_free_bytes :: "vm_alloc \<Rightarrow> nat set" where "vm_free_bytes v = bytes_of (vm_free_set v)"

definition vm_inv :: "vm_alloc \<Rightarrow> bool" where
  "vm_inv v \<longleftrightarrow> cm_inv (vm_used v) \<and> sb_inv (vm_unused v) \<and> sb_gran (vm_unused v) = 4096 \<and>
     (\<forall>c \<in> vm_used_set v. chunk_aligned 4096 c) \<and>
     vm_used_bytes v \<inter> vm_free_bytes v = {} \<and> coalesced (vm_free_set v)"

lemmas vm_view_defs = vm_used_set_def vm_free_set_def vm_used_bytes_def vm_free_bytes_def

lemma page_floor_unat: "unat (page_floor a) = unat a - unat a mod 4096"
proof -
  have "PAGE_SIZE - 1 = 4095" by simp
  then show ?thesis unfolding page_floor_def by (simp only: unat_mask_low)
qed

lemma page_floor_aligned: "4096 dvd unat (page_floor a)"
  by (simp add: page_floor_unat dvd_minus_mod)

lemma page_multiple: "is_multiple_of a PAGE_SIZE \<longleftrightarrow> 4096 dvd unat a"
  by (simp add: is_multiple_of_dvd)

lemma page_size_le: "4096 dvd unat (sz :: u32) \<Longrightarrow> sz \<noteq> 0 \<Longrightarrow> PAGE_SIZE \<le> sz"
  using dvd_imp_le [of 4096 "unat sz"] by (simp add: word_le_nat_alt unat_pos_iff)

lemma page_round:
  "next_multiple_of sz PAGE_SIZE = Some t \<longleftrightarrow> 4096 dvd unat t \<and> unat sz \<le> unat t \<and> unat t < unat sz + 4096"
  by (simp add: next_multiple_of_Some)

lemma page_round_ex: "unat sz \<le> 2 ^ 32 - 4096 \<Longrightarrow> \<exists>t. next_multiple_of sz PAGE_SIZE = Some t"
proof -
  assume sz: "unat sz \<le> 2 ^ 32 - 4096"
  have "unat sz + unat (4096 - sz mod 4096) < 2 ^ LENGTH(32)" if "sz mod 4096 \<noteq> 0"
  proof -
    have m: "unat (sz mod 4096) = unat sz mod 4096" by (simp add: unat_mod)
    then have "0 < unat sz mod 4096" using that by (simp add: unat_pos_iff [symmetric])
    moreover have "unat (4096 - sz mod 4096) = 4096 - unat sz mod 4096"
      by (subst unat_sub) (simp_all add: word_le_nat_alt m)
    ultimately show ?thesis using sz by simp
  qed
  then show ?thesis using add_chk_ex [of sz "4096 - sz mod 4096"]
    by (auto simp: next_multiple_of_def Let_def)
qed

lemma find_run_total:
  "(\<forall>x \<in> set xs. p x = Some (q x)) \<Longrightarrow> find_run p xs = Some (find q xs)"
  by (induction xs) auto

lemma sb_iter_law: "sb_inv s \<Longrightarrow> \<exists>cs. sb_iter s = Some cs \<and> set cs = sb_set s"
proof -
  assume inv: "sb_inv s"
  let ?ps = "concat (by_log2_size s)"
  have mem: "mk_chunk (b, z) \<in> sb_set s" if "(z, b) \<in> set ?ps" for z b
  proof -
    from that obtain i where "i < length (by_log2_size s)" "(z, b) \<in> set (by_log2_size s ! i)"
      by (auto simp: in_set_conv_nth [of _ "by_log2_size s"])
    then show ?thesis using sb_bucket_set [OF inv, of i "mk_chunk (b, z)"] by simp
  qed
  have "chunk_new b z = Some (mk_chunk (b, z))" if "(z, b) \<in> set ?ps" for z b
    using chunk_wf_size [OF chunks_ok_wf [OF sb_inv_ok [OF inv] mem [OF that]]]
    by (simp add: chunk_new_def mk_chunk_def)
  then have run: "sb_iter s = Some (map (\<lambda>(z, b). mk_chunk (b, z)) ?ps)"
    unfolding sb_iter_def by (intro those_map_Some) (auto split: prod.splits)
  have "c \<in> (\<lambda>(z, b). mk_chunk (b, z)) ` set ?ps" if c: "c \<in> sb_set s" for c
  proof -
    have i: "sb_log s c < length (by_log2_size s)"
      using sb_log_bound [OF inv, of "ch_size c"] by (simp add: sb_log_def sb_gran_def)
    then have "(ch_size c, ch_base c) \<in> set ?ps" using sb_bucket_set [OF inv i] c by (auto intro: nth_mem)
    then show ?thesis by (intro rev_image_eqI) auto
  qed
  then have "set (map (\<lambda>(z, b). mk_chunk (b, z)) ?ps) = sb_set s" using mem by auto
  with run show ?thesis by blast
qed

subsection \<open>Creation\<close>

lemma vm_new_law:
  assumes "sz \<noteq> 0" and "unat b + unat sz < 2 ^ 32" and "4096 dvd unat b" and "4096 dvd unat sz"
  shows "\<exists>v. vm_new b sz = Some v \<and> vm_inv v \<and> vm_used_bytes v = {} \<and> vm_free_bytes v = {unat b ..< unat b + unat sz}"
proof -
  obtain c where c: "chunk_new b sz = Some c" using assms(1) by (simp add: chunk_new_def)
  then have lh: "ch_lo c = unat b" "ch_hi c = unat b + unat sz" by (simp_all add: chunk_new_Some)
  have szp: "0 < unat sz" using assms(1) by (simp add: unat_pos_iff)
  have wf: "chunk_wf c" and al: "chunk_aligned 4096 c"
    using lh assms(2-4) szp by (simp_all add: chunk_wf_def chunk_aligned_def)
  obtain u where u: "sb_new PAGE_SIZE = Some u" "sb_inv u" "sb_set u = {}" "min_chunk_size u = PAGE_SIZE"
    using sb_new_inv [of PAGE_SIZE] by auto
  have g: "sb_gran u = 4096" by (simp add: sb_gran_def u(4))
  have al': "chunk_aligned (sb_gran u) c" using al g by simp
  obtain u' where u': "sb_insert u c = Some u'" "sb_inv u'" "sb_set u' = {c}" "sb_gran u' = 4096"
    using sb_insert_law [OF u(2) wf al'] u(3) g by auto
  have "coalesced {c}" using wf by (simp add: coalesced_def chunk_wf_def)
  then show ?thesis using c u(1) u'
    by (auto simp: vm_new_def vm_inv_def vm_view_defs chunk_bytes_def lh)
qed

subsection \<open>Allocation anywhere\<close>

lemma carved_coalesced:
  assumes ok: "chunks_ok (sb_set s)" "chunks_ok (sb_set s')" and c: "c \<in> sb_set s"
    and carved: "sb_carved s c sz a s'" and co: "coalesced (sb_set s)"
  shows "coalesced (sb_set s')"
  unfolding coalesced_def
proof (intro ballI notI)
  fix d e assume d: "d \<in> sb_set s'" and e: "e \<in> sb_set s'" and adj: "ch_hi d = ch_lo e"
  have old: "x \<in> sb_set s - {c} \<or> (ch_lo x = ch_lo c + unat sz \<and> ch_hi x = ch_hi c)" if "x \<in> sb_set s'" for x
    using carved that by (simp add: sb_carved_def)
  have wf: "ch_lo d < ch_hi d" "ch_lo e < ch_hi e" using ok(2) d e by (auto simp: chunks_ok_def chunk_wf_def)
  have ne: "ch_hi x \<noteq> ch_lo y" if "x \<in> sb_set s" "y \<in> sb_set s" for x y
    using co that by (simp add: coalesced_def)
  have szp: "0 < unat sz" using carved by (auto simp: sb_carved_def chunk_wf_def ch_lo_def ch_hi_def)
  from old [OF d] old [OF e] show False
  proof (elim disjE conjE)
    assume "d \<in> sb_set s - {c}" "ch_lo e = ch_lo c + unat sz" "ch_hi e = ch_hi c"
    then have dc: "d \<in> sb_set s" "d \<noteq> c" and hd: "ch_hi d = ch_lo c + unat sz" "ch_hi d < ch_hi c"
      using adj wf by auto
    then have "ch_hi d - 1 \<in> chunk_bytes d" "ch_hi d - 1 \<in> chunk_bytes c"
      using wf szp by (auto simp: chunk_bytes_def)
    then show False using chunks_ok_disjoint [OF ok(1) dc(1) c dc(2)] by blast
  next
    assume "ch_hi d = ch_hi c" "e \<in> sb_set s - {c}"
    then show False using ne [OF c, of e] adj by simp
  qed (use ne adj wf szp in auto)
qed

lemma vm_allocate_any_law:
  assumes inv: "vm_inv v" and sz: "4096 dvd unat sz" "sz \<noteq> 0"
  shows "(\<exists>c a v'. vm_allocate_any v sz = Some (v', Inr a) \<and> vm_inv v'
      \<and> sb_fits (vm_unused v) sz (\<lambda>_. True) c \<and> ch_base a = ch_base c \<and> ch_size a = sz
      \<and> chunk_bytes a \<subseteq> vm_free_bytes v \<and> vm_used_set v' = insert a (vm_used_set v)
      \<and> vm_free_bytes v' = vm_free_bytes v - chunk_bytes a)
    \<or> ((\<forall>c \<in> vm_free_set v. ch_size c < sz) \<and> vm_allocate_any v sz = Some (v, Inl NoSpace))"
proof -
  let ?u = "vm_unused v"
  have cmi: "cm_inv (vm_used v)" and sbi: "sb_inv ?u" and g: "sb_gran ?u = 4096"
    using inv by (simp_all add: vm_inv_def)
  have pre: "rassert (is_multiple_of sz PAGE_SIZE \<and> PAGE_SIZE \<le> sz) = Some ()"
    using sz page_multiple page_size_le by (simp add: rassert_def)
  from sb_allocate_best_fit [OF sbi, of sz] sz g
  consider (fit) c a u where "sb_fits ?u sz (\<lambda>_. True) c" "sb_allocate ?u sz = Some (u, Some a)" "sb_carved ?u c sz a u"
    | (full) "\<forall>c \<in> sb_set ?u. ch_size c < sz" "sb_allocate ?u sz = Some (?u, None)" by auto
  then show ?thesis
  proof cases
    case full
    then show ?thesis using pre by (simp add: vm_allocate_any_def vm_view_defs)
  next
    case fit
    have c: "c \<in> sb_set ?u" using fit(1) by (simp add: sb_fits_def)
    note cv = fit(3) [unfolded sb_carved_def]
    have ac: "chunk_bytes a \<subseteq> vm_free_bytes v"
      using cv chunk_subset_bytes [OF c] by (auto simp: vm_view_defs)
    then have da: "chunk_bytes a \<inter> bytes_of (cm_set (vm_used v)) = {}"
      using inv by (auto simp: vm_inv_def vm_view_defs)
    have aw: "chunk_wf a" using cv by (elim conjE)
    obtain m where m: "cm_insert (vm_used v) a = Some m" "cm_inv m" "cm_set m = insert a (cm_set (vm_used v))"
      using cm_insert_law [OF cmi aw da] by (elim exE conjE) (rule that)
    define v' where "v' = v\<lparr>vm_used := m, vm_unused := u\<rparr>"
    have run: "vm_allocate_any v sz = Some (v', Inr a)"
      using pre fit(2) m(1) by (simp add: vm_allocate_any_def v'_def)
    have free': "vm_free_bytes v' = vm_free_bytes v - chunk_bytes a"
      using cv by (simp add: v'_def vm_view_defs)
    have used': "vm_used_set v' = insert a (vm_used_set v)" using m(3) by (simp add: v'_def vm_view_defs)
    have "coalesced (sb_set u)"
      using carved_coalesced [OF _ _ c fit(3)] sb_inv_ok sbi cv inv by (auto simp: vm_inv_def vm_view_defs)
    moreover have "vm_used_bytes v' \<inter> vm_free_bytes v' = {}"
      using free' used' inv by (auto simp: vm_inv_def vm_used_bytes_def)
    moreover have "\<forall>c \<in> vm_used_set v'. chunk_aligned 4096 c" using used' cv g inv by (auto simp: vm_inv_def)
    ultimately have "vm_inv v'" using cv g m(2) by (simp add: vm_inv_def v'_def vm_free_set_def)
    then have "\<exists>c a v'. vm_allocate_any v sz = Some (v', Inr a) \<and> vm_inv v'
      \<and> sb_fits (vm_unused v) sz (\<lambda>_. True) c \<and> ch_base a = ch_base c \<and> ch_size a = sz
      \<and> chunk_bytes a \<subseteq> vm_free_bytes v \<and> vm_used_set v' = insert a (vm_used_set v)
      \<and> vm_free_bytes v' = vm_free_bytes v - chunk_bytes a"
      using run fit(1) cv ac free' used' by (intro exI [of _ c] exI [of _ a] exI [of _ v'] conjI) simp_all
    then show ?thesis by (rule disjI1)
  qed
qed

subsection \<open>Deallocation\<close>

definition opt_hits :: "chunk option \<Rightarrow> (chunk \<Rightarrow> nat) \<Rightarrow> nat \<Rightarrow> chunk set \<Rightarrow> bool" where
  "opt_hits oc f x S \<longleftrightarrow> (case oc of None \<Rightarrow> (\<forall>c \<in> S. f c \<noteq> x) | Some c \<Rightarrow> c \<in> S \<and> f c = x)"

lemma sb_remove_with_base_hit:
  assumes "sb_inv s" and "unat b = x"
  shows "\<exists>s' oc. sb_remove_with_base s b = Some (s', oc) \<and> sb_inv s' \<and> sb_gran s' = sb_gran s
    \<and> sb_set s' = sb_set s - opt_set oc \<and> opt_hits oc ch_lo x (sb_set s)"
proof (cases "\<exists>c \<in> sb_set s. ch_lo c = x")
  case True
  then obtain c where c: "c \<in> sb_set s" "ch_lo c = x" by blast
  then have b: "ch_base c = b" using assms(2) by (simp add: ch_lo_def unat_eq_iff)
  obtain s' where "sb_remove_with_base s (ch_base c) = Some (s', Some c)" "sb_inv s'"
      "sb_set s' = sb_set s - {c}" "sb_gran s' = sb_gran s"
    using sb_remove_law [OF assms(1) c(1)] by (elim exE conjE) (rule that)
  then show ?thesis using c b by (intro exI [of _ s'] exI [of _ "Some c"]) (simp add: opt_hits_def)
next
  case False
  then have n: "\<forall>c \<in> sb_set s. ch_base c \<noteq> b" using assms(2) by (auto simp: ch_lo_def)
  show ?thesis using sb_remove_miss [OF assms(1) n] False assms(1)
    by (intro exI [of _ s] exI [of _ None]) (auto simp: opt_hits_def)
qed

lemma sb_remove_with_end_hit:
  assumes "sb_inv s" and "unat b = x"
  shows "\<exists>s' oc. sb_remove_with_end s b = Some (s', oc) \<and> sb_inv s' \<and> sb_gran s' = sb_gran s
    \<and> sb_set s' = sb_set s - opt_set oc \<and> opt_hits oc ch_hi x (sb_set s)"
proof (cases "\<exists>c \<in> sb_set s. ch_hi c = x")
  case True
  then obtain c where c: "c \<in> sb_set s" "ch_hi c = x" by blast
  then have b: "unat b = ch_hi c" using assms(2) by simp
  obtain s' where "sb_remove_with_end s b = Some (s', Some c)" "sb_inv s'"
      "sb_set s' = sb_set s - {c}" "sb_gran s' = sb_gran s"
    using sb_remove_with_end_law [OF assms(1) c(1) b] by (elim exE conjE) (rule that)
  then show ?thesis using c b by (intro exI [of _ s'] exI [of _ "Some c"]) (simp add: opt_hits_def)
next
  case False
  then have n: "\<forall>c \<in> sb_set s. ch_hi c \<noteq> unat b" using assms(2) by auto
  show ?thesis using sb_remove_with_end_miss [OF assms(1) n] False assms(1)
    by (intro exI [of _ s] exI [of _ None]) (auto simp: opt_hits_def)
qed

lemma pieces_coalesced:
  assumes U: "chunks_ok U" "coalesced U" and r: "chunk_wf r" and ok': "chunks_ok U'"
    and pieces: "\<forall>d \<in> U'. \<exists>c \<in> U. chunk_piece c r d"
  shows "coalesced U'"
  unfolding coalesced_def
proof (intro ballI notI)
  fix d e assume d: "d \<in> U'" and e: "e \<in> U'" and adj: "ch_hi d = ch_lo e"
  have wf: "ch_lo d < ch_hi d" "ch_lo e < ch_hi e" using ok' d e by (auto simp: chunks_ok_def chunk_wf_def)
  obtain c where c: "c \<in> U" "chunk_piece c r d" using pieces d by blast
  obtain c' where c': "c' \<in> U" "chunk_piece c' r e" using pieces e by blast
  have rw: "ch_lo r < ch_hi r" using r by (simp add: chunk_wf_def)
  show False
  proof (cases "c = c'")
    case True
    then show False using c c' adj wf rw by (auto simp: chunk_piece_def)
  next
    case False
    have dj: "chunk_bytes c \<inter> chunk_bytes c' = {}" using chunks_ok_disjoint U(1) c(1) c'(1) False by blast
    have "ch_hi d - 1 \<in> chunk_bytes d" "ch_lo e \<in> chunk_bytes e"
      using wf by (auto simp: chunk_bytes_def)
    then have "ch_hi d - 1 \<in> chunk_bytes c" "ch_lo e \<in> chunk_bytes c'"
      using chunk_piece_sub [OF c(2)] chunk_piece_sub [OF c'(2)] by blast+
    then have in_c: "ch_lo c < ch_hi d" "ch_hi d \<le> ch_hi c" "ch_lo c' \<le> ch_lo e" "ch_lo e < ch_hi c'"
      using wf by (auto simp: chunk_bytes_def)
    have "ch_lo e \<notin> chunk_bytes c" "ch_hi d - 1 \<notin> chunk_bytes c'"
      using dj \<open>ch_hi d - 1 \<in> chunk_bytes c\<close> \<open>ch_lo e \<in> chunk_bytes c'\<close> by blast+
    then have "ch_hi c = ch_lo c'" using in_c adj wf by (auto simp: chunk_bytes_def)
    then show False using U(2) c(1) c'(1) by (simp add: coalesced_def)
  qed
qed

text \<open>Joining a range with the free chunks that touch it, as \<open>vm_deallocate\<close> does.\<close>

lemma join_adjacent:
  assumes U: "chunks_ok U" "coalesced U" and r: "chunk_wf r" and dj: "chunk_bytes r \<inter> bytes_of U = {}"
    and L: "opt_hits L ch_lo (ch_hi r) U" and R: "opt_hits R ch_hi (ch_lo r) (U - opt_set L)"
    and aU: "\<forall>c \<in> U. chunk_aligned g c" and ar: "chunk_aligned g r"
  shows "\<exists>c1 c2. (case L of None \<Rightarrow> Some r | Some a \<Rightarrow> merge r a) = Some c1
    \<and> (case R of None \<Rightarrow> Some c1 | Some a \<Rightarrow> merge c1 a) = Some c2
    \<and> chunk_wf c2 \<and> chunk_aligned g c2
    \<and> chunk_bytes c2 = chunk_bytes r \<union> bytes_of (opt_set L) \<union> bytes_of (opt_set R)
    \<and> coalesced (insert c2 (U - opt_set L - opt_set R))"
proof -
  have rw: "ch_lo r < ch_hi r" using r by (simp add: chunk_wf_def)
  have wfU: "chunk_wf c" if "c \<in> U" for c using U(1) that by (rule chunks_ok_wf)
  obtain c1 where c1: "(case L of None \<Rightarrow> Some r | Some a \<Rightarrow> merge r a) = Some c1" "chunk_wf c1"
      "ch_lo c1 = ch_lo r" "chunk_bytes c1 = chunk_bytes r \<union> bytes_of (opt_set L)" "chunk_aligned g c1"
      "ch_hi c1 = (case L of None \<Rightarrow> ch_hi r | Some a \<Rightarrow> ch_hi a)"
  proof (cases L)
    case None
    then show ?thesis using r ar by (intro that [of r]) simp_all
  next
    case (Some a)
    then have a: "a \<in> U" "ch_lo a = ch_hi r" using L by (simp_all add: opt_hits_def)
    have aw: "ch_lo a < ch_hi a" using wfU [OF a(1)] by (simp add: chunk_wf_def)
    obtain c where c: "merge r a = Some c" "chunk_wf c" "ch_lo c = min (ch_lo r) (ch_lo a)" "ch_hi c = max (ch_hi r) (ch_hi a)"
      using merge_wf [OF r wfU [OF a(1)]] a(2) by auto
    have "ch_lo c = ch_lo r" "ch_hi c = ch_hi a" using c a rw aw by auto
    moreover from this have "chunk_bytes c = chunk_bytes r \<union> chunk_bytes a"
      using rw aw a(2) by (auto simp: chunk_bytes_def)
    moreover have "chunk_aligned g c" using calculation(1,2) aU ar a(1) by (auto simp: chunk_aligned_def)
    ultimately show ?thesis using Some c by (intro that [of c]) simp_all
  qed
  have c1w: "ch_lo c1 < ch_hi c1" using c1(2) by (simp add: chunk_wf_def)
  obtain c2 where c2: "(case R of None \<Rightarrow> Some c1 | Some a \<Rightarrow> merge c1 a) = Some c2" "chunk_wf c2"
      "ch_hi c2 = ch_hi c1" "chunk_bytes c2 = chunk_bytes c1 \<union> bytes_of (opt_set R)" "chunk_aligned g c2"
      "ch_lo c2 = (case R of None \<Rightarrow> ch_lo r | Some a \<Rightarrow> ch_lo a)"
  proof (cases R)
    case None
    then show ?thesis using c1 by (intro that [of c1]) simp_all
  next
    case (Some a)
    then have a: "a \<in> U" "ch_hi a = ch_lo c1" using R c1(3) by (simp_all add: opt_hits_def)
    have aw: "ch_lo a < ch_hi a" using wfU [OF a(1)] by (simp add: chunk_wf_def)
    obtain c where c: "merge c1 a = Some c" "chunk_wf c" "ch_lo c = min (ch_lo c1) (ch_lo a)" "ch_hi c = max (ch_hi c1) (ch_hi a)"
      using merge_wf [OF c1(2) wfU [OF a(1)]] a(2) by auto
    have "ch_lo c = ch_lo a" "ch_hi c = ch_hi c1" using c a c1w aw by auto
    moreover from this have "chunk_bytes c = chunk_bytes c1 \<union> chunk_bytes a"
      using c1w aw a(2) by (auto simp: chunk_bytes_def)
    moreover have "chunk_aligned g c" using calculation(1,2) aU c1(5) a(1) by (auto simp: chunk_aligned_def)
    ultimately show ?thesis using Some c by (intro that [of c]) simp_all
  qed
  have hi_ne: "ch_hi c2 \<noteq> ch_lo d" if d: "d \<in> U - opt_set L - opt_set R" for d
    using d L U(2) c1(6) c2(3) by (cases L) (auto simp: opt_hits_def coalesced_def)
  have lo_ne: "ch_hi d \<noteq> ch_lo c2" if d: "d \<in> U - opt_set L - opt_set R" for d
    using d R U(2) c2(6) by (cases R) (auto simp: opt_hits_def coalesced_def)
  have self: "ch_hi c2 \<noteq> ch_lo c2" using c2(2) by (simp add: chunk_wf_def)
  have "coalesced (insert c2 (U - opt_set L - opt_set R))"
    unfolding coalesced_def using hi_ne lo_ne self U(2) by (auto simp: coalesced_def)
  with c1 c2 show ?thesis by (intro exI [of _ c1] exI [of _ c2] conjI) (simp_all add: Un_assoc)
qed

lemma vm_deallocate_law:
  assumes inv: "vm_inv v" and t: "next_multiple_of sz PAGE_SIZE = Some t" and tp: "t \<noteq> 0"
    and bound: "unat (page_floor a) + unat t < 2 ^ 32"
  shows "\<exists>v' r. vm_deallocate v a sz = Some (v', r) \<and> vm_inv v'
    \<and> ch_lo r = unat (page_floor a) \<and> ch_hi r = unat (page_floor a) + unat t
    \<and> vm_used_bytes v' = vm_used_bytes v - chunk_bytes r
    \<and> {c \<in> vm_used_set v. chunk_bytes c \<inter> chunk_bytes r = {}} \<subseteq> vm_used_set v'
    \<and> vm_free_bytes v' = vm_free_bytes v \<union> chunk_bytes r"
proof -
  let ?u = "vm_unused v"
  have cmi: "cm_inv (vm_used v)" and sbi: "sb_inv ?u" and g: "sb_gran ?u = 4096"
    and al: "\<forall>c \<in> cm_set (vm_used v). chunk_aligned 4096 c" and co: "coalesced (sb_set ?u)"
    and dj0: "bytes_of (cm_set (vm_used v)) \<inter> bytes_of (sb_set ?u) = {}"
    using inv by (simp_all add: vm_inv_def vm_view_defs)
  obtain r where r: "chunk_new (page_floor a) t = Some r" using tp by (simp add: chunk_new_def)
  then have lh: "ch_lo r = unat (page_floor a)" "ch_hi r = unat (page_floor a) + unat t" by (simp_all add: chunk_new_Some)
  have base: "ch_base r = page_floor a" using r by (auto simp: chunk_new_def split: if_splits)
  have tpos: "0 < unat t" using tp by (simp add: unat_pos_iff)
  have wf: "chunk_wf r" and ar: "chunk_aligned 4096 r"
    using lh bound tpos t page_floor_aligned by (simp_all add: chunk_wf_def chunk_aligned_def page_round)
  obtain m where m: "cm_remove_range (vm_used v) r = Some m" "cm_inv m"
      "bytes_of (cm_set m) = bytes_of (cm_set (vm_used v)) - chunk_bytes r"
      "{c \<in> cm_set (vm_used v). chunk_bytes c \<inter> chunk_bytes r = {}} \<subseteq> cm_set m"
      "\<forall>d \<in> cm_set m. \<exists>c \<in> cm_set (vm_used v). chunk_piece c r d"
    using cm_remove_range_law [OF cmi wf] by (elim exE conjE) (rule that)
  have ar': "chunk_aligned (sb_gran ?u) r" using ar g by simp
  obtain u0 where u0: "sb_remove_range ?u r = Some u0" "sb_inv u0" "sb_gran u0 = sb_gran ?u"
      "bytes_of (sb_set u0) = bytes_of (sb_set ?u) - chunk_bytes r"
      "\<forall>d \<in> sb_set u0. \<exists>c \<in> sb_set ?u. chunk_piece c r d"
    using sb_remove_range_law [OF sbi wf ar'] by (elim exE conjE) (rule that)
  obtain l e where le: "last_byte r = Some l" "add_chk l 1 = Some e" "unat e = ch_hi r"
    using last_byte_end_ex [OF wf] by (auto simp: bind_Some_iff)
  obtain u1 L where u1: "sb_remove_with_base u0 e = Some (u1, L)" "sb_inv u1" "sb_gran u1 = sb_gran u0"
      "sb_set u1 = sb_set u0 - opt_set L" "opt_hits L ch_lo (ch_hi r) (sb_set u0)"
    using sb_remove_with_base_hit [OF u0(2) le(3)] by (elim exE conjE) (rule that)
  have lo: "unat (ch_base r) = ch_lo r" by (simp add: ch_lo_def)
  obtain u2 R where u2: "sb_remove_with_end u1 (ch_base r) = Some (u2, R)" "sb_inv u2" "sb_gran u2 = sb_gran u1"
      "sb_set u2 = sb_set u1 - opt_set R" "opt_hits R ch_hi (ch_lo r) (sb_set u1)"
    using sb_remove_with_end_hit [OF u1(2) lo] by (elim exE conjE) (rule that)
  have ok0: "chunks_ok (sb_set u0)" using sb_inv_ok u0(2) by blast
  have co0: "coalesced (sb_set u0)" using pieces_coalesced [OF sb_inv_ok [OF sbi] co wf ok0 u0(5)] .
  have dj: "chunk_bytes r \<inter> bytes_of (sb_set u0) = {}" using u0(4) by auto
  have al0: "\<forall>c \<in> sb_set u0. chunk_aligned 4096 c" using sb_inv_aligned [OF u0(2)] u0(3) g by simp
  obtain c1 c2 where c: "(case L of None \<Rightarrow> Some r | Some a \<Rightarrow> merge r a) = Some c1"
      "(case R of None \<Rightarrow> Some c1 | Some a \<Rightarrow> merge c1 a) = Some c2" "chunk_wf c2" "chunk_aligned 4096 c2"
      "chunk_bytes c2 = chunk_bytes r \<union> bytes_of (opt_set L) \<union> bytes_of (opt_set R)"
      "coalesced (insert c2 (sb_set u0 - opt_set L - opt_set R))"
    using join_adjacent [OF ok0 co0 wf dj u1(5) u2(5) [unfolded u1(4)] al0 ar] by (elim exE conjE) (rule that)
  have Lin: "opt_set L \<subseteq> sb_set u0" using u1(5) by (cases L) (simp_all add: opt_hits_def)
  have Rin: "opt_set R \<subseteq> sb_set u1" using u2(5) by (cases R) (simp_all add: opt_hits_def)
  have b1: "bytes_of (sb_set u1) = bytes_of (sb_set u0) - bytes_of (opt_set L)"
    using u1(4) Lin bytes_of_remove [OF ok0] by (cases L) simp_all
  have b2: "bytes_of (sb_set u2) = bytes_of (sb_set u1) - bytes_of (opt_set R)"
    using u2(4) Rin bytes_of_remove [OF sb_inv_ok [OF u1(2)]] by (cases R) simp_all
  have subL: "bytes_of (opt_set L) \<subseteq> bytes_of (sb_set u0)" using Lin by (auto simp: bytes_of_def)
  have subR: "bytes_of (opt_set R) \<subseteq> bytes_of (sb_set u1)" using Rin by (auto simp: bytes_of_def)
  have dj2: "chunk_bytes c2 \<inter> bytes_of (sb_set u2) = {}" using c(5) b1 b2 dj by blast
  have g2: "chunk_aligned (sb_gran u2) c2" using c(4) u2(3) u1(3) u0(3) g by simp
  obtain u3 where u3: "sb_insert u2 c2 = Some u3" "sb_inv u3" "sb_set u3 = insert c2 (sb_set u2)" "sb_gran u3 = sb_gran u2"
    using sb_insert_law [OF u2(2) c(3) g2 dj2] by (elim exE conjE) (rule that)
  define v' where "v' = v\<lparr>vm_used := m, vm_unused := u3\<rparr>"
  have run: "vm_deallocate v a sz = Some (v', r)"
    by (simp add: vm_deallocate_def t r m(1) u0(1) le(1,2) u1(1) u2(1) c(1,2) u3(1) v'_def)
  have "bytes_of (sb_set u3) = bytes_of (sb_set u0) \<union> chunk_bytes r"
    using u3(3) c(5) b1 b2 subL subR by auto
  then have free: "vm_free_bytes v' = vm_free_bytes v \<union> chunk_bytes r"
    using u0(4) by (auto simp: v'_def vm_view_defs)
  have used: "vm_used_bytes v' = vm_used_bytes v - chunk_bytes r" using m(3) by (simp add: v'_def vm_view_defs)
  have keep: "{c \<in> vm_used_set v. chunk_bytes c \<inter> chunk_bytes r = {}} \<subseteq> vm_used_set v'"
    using m(4) by (simp add: v'_def vm_view_defs)
  have alm: "\<forall>d \<in> cm_set m. chunk_aligned 4096 d"
  proof
    fix d assume "d \<in> cm_set m"
    then obtain c where "c \<in> cm_set (vm_used v)" "chunk_piece c r d" using m(5) by blast
    moreover from this(1) have "chunk_aligned 4096 c" using al by blast
    ultimately show "chunk_aligned 4096 d" using ar
      by (auto simp: chunk_piece_def chunk_aligned_def min_def max_def)
  qed
  have dj': "vm_used_bytes v' \<inter> vm_free_bytes v' = {}"
    using used free dj0 by (auto simp: vm_view_defs)
  have "vm_inv v'"
    unfolding vm_inv_def using m(2) u3 u2(3,4) u1(3,4) u0(3) g alm c(6) dj'
    by (simp add: v'_def vm_used_set_def vm_free_set_def)
  then show ?thesis using run lh used free keep by blast
qed

subsection \<open>Allocation at an address\<close>

text \<open>
  Because free chunks are coalesced, a range of free addresses lies in one free chunk: the
  search for a single chunk that \<open>vm_allocate_at\<close> does misses nothing.
\<close>

lemma free_range_one_chunk:
  assumes U: "chunks_ok U" "coalesced U" and c: "c \<in> U" and lo: "ch_lo r \<in> chunk_bytes c"
    and sub: "chunk_bytes r \<subseteq> bytes_of U"
  shows "chunk_bytes r \<subseteq> chunk_bytes c"
proof (rule ccontr)
  assume "\<not> chunk_bytes r \<subseteq> chunk_bytes c"
  then have "ch_hi c \<in> chunk_bytes r" using lo by (auto simp: chunk_bytes_def)
  then obtain d where d: "d \<in> U" "ch_hi c \<in> chunk_bytes d" using sub by (auto simp: bytes_of_def)
  have cw: "ch_lo c < ch_hi c" using chunks_ok_wf [OF U(1) c] by (simp add: chunk_wf_def)
  have "c \<noteq> d" using d(2) by (auto simp: chunk_bytes_def)
  then have dj: "chunk_bytes c \<inter> chunk_bytes d = {}" using chunks_ok_disjoint U(1) c d(1) by blast
  have "ch_hi c - 1 \<in> chunk_bytes c" using cw by (auto simp: chunk_bytes_def)
  then have "ch_hi c - 1 \<notin> chunk_bytes d" using dj by blast
  then have "ch_hi c = ch_lo d" using d(2) cw by (auto simp: chunk_bytes_def)
  then show False using U(2) c d(1) by (simp add: coalesced_def)
qed

lemma trisect_by_law:
  assumes c: "chunk_wf c" and r: "ch_size r \<noteq> 0" "ch_hi r \<le> 2 ^ 32" and lo: "ch_lo r \<in> chunk_bytes c"
  shows "chunk_bytes r \<subseteq> chunk_bytes c \<Longrightarrow> \<exists>l q. trisect_by c r = Some (Some (l, q)) \<and> difference c r = Some (l, q)
      \<and> chunk_wf r"
    and "\<not> chunk_bytes r \<subseteq> chunk_bytes c \<Longrightarrow> trisect_by c r = Some None"
proof -
  have rs: "1 \<le> unat (ch_size r)" using r(1) by (simp add: unat_pos_iff Suc_le_eq)
  obtain d where d: "sub_chk (ch_size r) 1 = Some d" using sub_chk_ex [of 1 "ch_size r"] rs by auto
  have du: "unat (ch_size r) = Suc (unat d)" using d by (simp add: sub_chk_Some)
  have "unat (ch_base r) + unat d < 2 ^ LENGTH(32)" using r(2) du by (simp add: ch_hi_def)
  from add_chk_ex [OF this] d obtain l where "last_byte r = Some l" by (auto simp: last_byte_def)
  then have l: "last_byte r = Some l" "unat l + 1 = ch_hi r" by (simp_all add: last_byte_Some)
  have first: "contains c (ch_base r) = Some True" using contains_wf [OF c] lo by (simp add: ch_lo_def)
  have last: "contains c l = Some (unat l \<in> chunk_bytes c)" using contains_wf [OF c] by simp
  have rw: "ch_lo r < ch_hi r" using rs by (simp add: ch_lo_def ch_hi_def)
  have iff: "unat l \<in> chunk_bytes c \<longleftrightarrow> chunk_bytes r \<subseteq> chunk_bytes c"
    using lo l(2) rw by (auto simp: chunk_bytes_def)
  {
    assume sub: "chunk_bytes r \<subseteq> chunk_bytes c"
    then have "unat l < ch_hi c" using iff by (simp add: chunk_bytes_def)
    then have wf: "chunk_wf r" using c l(2) rw by (simp add: chunk_wf_def)
    from difference_minus [OF c wf] obtain p q where "difference c r = Some (p, q)" by blast
    then show "\<exists>l q. trisect_by c r = Some (Some (l, q)) \<and> difference c r = Some (l, q) \<and> chunk_wf r"
      using first last l(1) iff sub wf by (simp add: trisect_by_def)
  }
  assume "\<not> chunk_bytes r \<subseteq> chunk_bytes c"
  then show "trisect_by c r = Some None" using first last l(1) iff by (simp add: trisect_by_def)
qed

lemma vm_allocate_at_law:
  assumes inv: "vm_inv v" and a: "4096 dvd unat a" and sz: "4096 dvd unat sz" "sz \<noteq> 0"
    and bound: "unat a + unat sz \<le> 2 ^ 32"
  shows "unat a \<notin> vm_free_bytes v \<Longrightarrow> vm_allocate_at v a sz = Some (v, Inl AddressUnavailable)"
    and "unat a \<in> vm_free_bytes v \<Longrightarrow> \<not> {unat a ..< unat a + unat sz} \<subseteq> vm_free_bytes v
      \<Longrightarrow> vm_allocate_at v a sz = Some (v, Inl NoSpace)"
    and "{unat a ..< unat a + unat sz} \<subseteq> vm_free_bytes v \<Longrightarrow>
      \<exists>v' r. vm_allocate_at v a sz = Some (v', Inr r) \<and> vm_inv v' \<and> ch_base r = a \<and> ch_size r = sz
        \<and> vm_used_set v' = insert r (vm_used_set v) \<and> vm_free_bytes v' = vm_free_bytes v - chunk_bytes r"
proof -
  let ?u = "vm_unused v"
  have cmi: "cm_inv (vm_used v)" and sbi: "sb_inv ?u" and g: "sb_gran ?u = 4096"
    and co: "coalesced (sb_set ?u)" using inv by (simp_all add: vm_inv_def vm_view_defs)
  have ok: "chunks_ok (sb_set ?u)" using sb_inv_ok sbi by blast
  have pre: "rassert (is_multiple_of a PAGE_SIZE) = Some ()"
    "rassert (is_multiple_of sz PAGE_SIZE \<and> PAGE_SIZE \<le> sz) = Some ()"
    using a sz page_multiple page_size_le by (simp_all add: rassert_def)
  define r where "r = \<lparr>ch_base = a, ch_size = sz\<rparr>"
  have new: "chunk_new a sz = Some r" and rb: "ch_base r = a" "ch_size r = sz"
    using sz(2) by (simp_all add: r_def chunk_new_def)
  have lh: "ch_lo r = unat a" "ch_hi r = unat a + unat sz" by (simp_all add: r_def ch_lo_def ch_hi_def)
  have rbytes: "{unat a ..< unat a + unat sz} = chunk_bytes r" by (simp add: chunk_bytes_def lh)
  have szp: "0 < unat sz" using sz(2) by (simp add: unat_pos_iff)
  obtain cs where cs: "sb_iter ?u = Some cs" "set cs = sb_set ?u" using sb_iter_law [OF sbi] by blast
  have "\<forall>c \<in> set cs. contains c a = Some (unat a \<in> chunk_bytes c)"
    using contains_wf chunks_ok_wf [OF ok] cs(2) by blast
  from find_run_total [OF this]
  have find: "find_run (\<lambda>d. contains d a) cs = Some (find (\<lambda>c. unat a \<in> chunk_bytes c) cs)" .
  {
    assume "unat a \<notin> vm_free_bytes v"
    then have "find (\<lambda>c. unat a \<in> chunk_bytes c) cs = None"
      using cs(2) by (auto simp: find_None_iff vm_view_defs bytes_of_def)
    then show "vm_allocate_at v a sz = Some (v, Inl AddressUnavailable)"
      using pre new cs(1) find by (simp add: vm_allocate_at_def)
  }
  have found: "\<exists>c. find (\<lambda>c. unat a \<in> chunk_bytes c) cs = Some c \<and> c \<in> sb_set ?u \<and> ch_lo r \<in> chunk_bytes c"
    if "unat a \<in> vm_free_bytes v"
  proof -
    have "find (\<lambda>c. unat a \<in> chunk_bytes c) cs \<noteq> None"
      using that cs(2) by (auto simp: find_None_iff vm_view_defs bytes_of_def)
    then obtain c where c: "find (\<lambda>c. unat a \<in> chunk_bytes c) cs = Some c" by blast
    then have "c \<in> set cs" "unat a \<in> chunk_bytes c" by (auto simp: find_Some_iff)
    with c show ?thesis using cs(2) lh(1) by simp
  qed
  have hi: "ch_hi r \<le> 2 ^ 32" "ch_size r \<noteq> 0" using bound lh sz(2) rb by simp_all
  {
    assume a_in: "unat a \<in> vm_free_bytes v" and nsub: "\<not> {unat a ..< unat a + unat sz} \<subseteq> vm_free_bytes v"
    obtain c where c: "find (\<lambda>c. unat a \<in> chunk_bytes c) cs = Some c" "c \<in> sb_set ?u" "ch_lo r \<in> chunk_bytes c"
      using found [OF a_in] by blast
    have "\<not> chunk_bytes r \<subseteq> chunk_bytes c"
      using nsub rbytes chunk_subset_bytes [OF c(2)] by (auto simp: vm_view_defs)
    then have "trisect_by c r = Some None"
      using trisect_by_law(2) [OF chunks_ok_wf [OF ok c(2)] hi(2) hi(1) c(3)] by blast
    then show "vm_allocate_at v a sz = Some (v, Inl NoSpace)"
      using pre new cs(1) find c(1) by (simp add: vm_allocate_at_def)
  }
  assume all: "{unat a ..< unat a + unat sz} \<subseteq> vm_free_bytes v"
  then have "unat a \<in> vm_free_bytes v" using szp by auto
  then obtain c where c: "find (\<lambda>c. unat a \<in> chunk_bytes c) cs = Some c" "c \<in> sb_set ?u" "ch_lo r \<in> chunk_bytes c"
    using found by blast
  have cw: "chunk_wf c" using chunks_ok_wf [OF ok c(2)] .
  have sub: "chunk_bytes r \<subseteq> chunk_bytes c"
    using free_range_one_chunk [OF ok co c(2,3)] all rbytes by (simp add: vm_view_defs)
  obtain l q where lq: "trisect_by c r = Some (Some (l, q))" "difference c r = Some (l, q)" "chunk_wf r"
    using trisect_by_law(1) [OF cw hi(2) hi(1) c(3) sub] by blast
  have ar: "chunk_aligned 4096 r" using a sz(1) lh by (simp add: chunk_aligned_def)
  have lk: "leaves_ok (chunk_aligned (sb_gran ?u)) r c"
    using chunk_minus_aligned sb_inv_aligned [OF sbi c(2)] ar g by (auto simp: leaves_ok_def)
  obtain u3 P where u3: "remove_range_loop sb_insert sb_remove_with_base r [ch_base c] ?u = Some u3" "sb_inv u3"
      "sb_set u3 = sb_set ?u - {c} \<union> P" "bytes_of P = chunk_bytes c - chunk_bytes r" "\<forall>d\<in>P. chunk_piece c r d"
    using sb.carve_one [OF sbi c(2) lq(3) lk] by (elim exE conjE) (rule that)
  obtain u1 where u1: "sb_remove_with_base ?u (ch_base c) = Some (u1, Some c)"
    using sb_remove_law [OF sbi c(2)] by (elim exE conjE) (rule that)
  obtain u2 where u2: "(case l of None \<Rightarrow> Some u1 | Some x \<Rightarrow> sb_insert u1 x) = Some u2"
      "(case q of None \<Rightarrow> Some u2 | Some x \<Rightarrow> sb_insert u2 x) = Some u3"
    using u3(1) u1 lq(2) by (auto simp: bind_Some_iff)
  have free3: "bytes_of (sb_set u3) = bytes_of (sb_set ?u) - chunk_bytes r"
  proof -
    have "bytes_of (sb_set ?u) = bytes_of (sb_set ?u - {c}) \<union> chunk_bytes c"
      "bytes_of (sb_set ?u - {c}) \<inter> chunk_bytes c = {}"
      using bytes_of_remove [OF ok c(2)] chunk_subset_bytes [OF c(2)] by auto
    then show ?thesis using u3(3,4) sub by auto
  qed
  have "chunk_bytes r \<inter> bytes_of (cm_set (vm_used v)) = {}"
    using all rbytes inv by (auto simp: vm_inv_def vm_view_defs)
  then obtain m where m: "cm_insert (vm_used v) r = Some m" "cm_inv m" "cm_set m = insert r (cm_set (vm_used v))"
    using cm_insert_law [OF cmi lq(3)] by blast
  define v' where "v' = v\<lparr>vm_used := m, vm_unused := u3\<rparr>"
  have run: "vm_allocate_at v a sz = Some (v', Inr r)"
    using pre new cs(1) find c(1) lq(1) u1 u2 m(1) by (simp add: vm_allocate_at_def v'_def)
  have pieces: "\<forall>d \<in> sb_set u3. \<exists>c \<in> sb_set ?u. chunk_piece c r d"
  proof
    fix d assume "d \<in> sb_set u3"
    then consider (old) "d \<in> sb_set ?u" "d \<noteq> c" | (new) "d \<in> P" using u3(3) by blast
    then show "\<exists>c \<in> sb_set ?u. chunk_piece c r d"
    proof cases
      case old
      then have "chunk_bytes d \<inter> chunk_bytes r = {}" using chunks_ok_disjoint [OF ok old(1) c(2) old(2)] sub by blast
      then show ?thesis using chunk_piece_refl [OF chunks_ok_wf [OF ok old(1)] lq(3)] old(1) by blast
    qed (use u3(5) c(2) in blast)
  qed
  have "coalesced (sb_set u3)" using pieces_coalesced [OF ok co lq(3) sb_inv_ok [OF u3(2)] pieces] .
  moreover have used: "vm_used_set v' = insert r (vm_used_set v)" using m(3) by (simp add: v'_def vm_view_defs)
  moreover have free: "vm_free_bytes v' = vm_free_bytes v - chunk_bytes r" using free3 by (simp add: v'_def vm_view_defs)
  moreover have "vm_used_bytes v' \<inter> vm_free_bytes v' = {}"
    using used free inv by (auto simp: vm_inv_def vm_used_bytes_def)
  moreover have "\<forall>c \<in> vm_used_set v'. chunk_aligned 4096 c" using used ar inv by (auto simp: vm_inv_def)
  ultimately have "vm_inv v'"
    using u3(2) m(2) sb_loop_gran [OF u3(1)] g by (simp add: vm_inv_def v'_def vm_free_set_def)
  then show "\<exists>v' r. vm_allocate_at v a sz = Some (v', Inr r) \<and> vm_inv v' \<and> ch_base r = a \<and> ch_size r = sz
        \<and> vm_used_set v' = insert r (vm_used_set v) \<and> vm_free_bytes v' = vm_free_bytes v - chunk_bytes r"
    using run rb used free by blast
qed

subsection \<open>Requests to the allocator\<close>

text \<open>What a request that does not panic does; a panic covers the arguments out of bounds.\<close>

lemma vm_allocate_at_bound:
  assumes inv: "vm_inv v" and some: "vm_allocate_at v a sz = Some x" and a: "unat a \<in> vm_free_bytes v"
  shows "unat a + unat sz \<le> 2 ^ 32"
proof -
  let ?u = "vm_unused v"
  have sbi: "sb_inv ?u" using inv by (simp add: vm_inv_def)
  obtain cs where cs: "sb_iter ?u = Some cs" "set cs = sb_set ?u" using sb_iter_law [OF sbi] by blast
  have "\<forall>c \<in> set cs. contains c a = Some (unat a \<in> chunk_bytes c)"
    using contains_wf chunks_ok_wf [OF sb_inv_ok [OF sbi]] cs(2) by blast
  from find_run_total [OF this]
  have find: "find_run (\<lambda>d. contains d a) cs = Some (find (\<lambda>c. unat a \<in> chunk_bytes c) cs)" .
  have "find (\<lambda>c. unat a \<in> chunk_bytes c) cs \<noteq> None"
    using a cs(2) by (auto simp: find_None_iff vm_view_defs bytes_of_def)
  then obtain c where c: "find (\<lambda>c. unat a \<in> chunk_bytes c) cs = Some c" by blast
  then have mem: "c \<in> sb_set ?u" "unat a \<in> chunk_bytes c" using cs(2) by (auto simp: find_Some_iff)
  have first: "contains c a = Some True"
    using contains_wf chunks_ok_wf [OF sb_inv_ok [OF sbi] mem(1)] mem(2) by simp
  obtain r where r: "chunk_new a sz = Some r" "trisect_by c r \<noteq> None"
    using some cs(1) find c by (auto simp: vm_allocate_at_def bind_Some_iff)
  have "ch_base r = a" using r(1) by (auto simp: chunk_new_def split: if_splits)
  then obtain l where l: "last_byte r = Some l"
    using r(2) first by (cases "last_byte r") (auto simp: trisect_by_def)
  have "ch_hi r = unat a + unat sz" using r(1) by (simp add: chunk_new_Some)
  moreover have "ch_hi r \<le> 2 ^ 32" using l unat_bound [of l] by (simp add: last_byte_Some)
  ultimately show ?thesis by simp
qed

definition vm_allocated :: "vm_alloc \<Rightarrow> chunk \<Rightarrow> vm_alloc \<Rightarrow> bool" where
  "vm_allocated v c v' \<longleftrightarrow> vm_inv v' \<and> chunk_wf c \<and> chunk_aligned 4096 c \<and> chunk_bytes c \<subseteq> vm_free_bytes v \<and>
     vm_used_set v' = insert c (vm_used_set v) \<and> vm_free_bytes v' = vm_free_bytes v - chunk_bytes c"

lemma vm_used_ok: "vm_inv v \<Longrightarrow> chunks_ok (vm_used_set v)"
  by (simp add: vm_inv_def vm_used_set_def cm_inv_ok)

lemma vm_allocatedI:
  "vm_inv v' \<Longrightarrow> chunk_bytes c \<subseteq> vm_free_bytes v \<Longrightarrow> vm_used_set v' = insert c (vm_used_set v)
    \<Longrightarrow> vm_free_bytes v' = vm_free_bytes v - chunk_bytes c \<Longrightarrow> vm_allocated v c v'"
  using vm_used_ok [of v'] by (auto simp: vm_allocated_def vm_inv_def chunks_ok_def)

lemma vm_allocate_step:
  assumes inv: "vm_inv v" and run: "vm_allocate v address sz = Some (v', res)"
  shows "case res of Inl _ \<Rightarrow> v' = v | Inr c \<Rightarrow> vm_allocated v c v'"
proof -
  obtain t where t: "next_multiple_of sz PAGE_SIZE = Some t"
    using run by (auto simp: vm_allocate_def bind_Some_iff)
  have td: "4096 dvd unat t" using t page_round by blast
  show ?thesis
  proof (cases address)
    case None
    then have any: "vm_allocate_any v t = Some (v', res)" using run t by (simp add: vm_allocate_def)
    then have "PAGE_SIZE \<le> t" by (auto simp: vm_allocate_any_def bind_Some_iff rassert_Some)
    then have t0: "t \<noteq> 0" by (auto simp: word_le_nat_alt)
    from vm_allocate_any_law [OF inv td t0] show ?thesis
    proof (elim disjE exE conjE)
      fix c a w assume "vm_allocate_any v t = Some (w, Inr a)" "vm_inv w" "chunk_bytes a \<subseteq> vm_free_bytes v"
        "vm_used_set w = insert a (vm_used_set v)" "vm_free_bytes w = vm_free_bytes v - chunk_bytes a"
      then show ?thesis using any vm_allocatedI by simp
    qed (use any in simp)
  next
    case (Some a0)
    let ?a = "page_floor a0"
    have at: "vm_allocate_at v ?a t = Some (v', res)" using run t Some by (simp add: vm_allocate_def)
    then have "PAGE_SIZE \<le> t" by (auto simp: vm_allocate_at_def bind_Some_iff rassert_Some)
    then have t0: "t \<noteq> 0" by (auto simp: word_le_nat_alt)
    show ?thesis
    proof (cases "unat ?a \<in> vm_free_bytes v")
      case False
      have "vm_allocate_at v ?a t = Some (v, Inl AddressUnavailable)"
      proof -
        have sbi: "sb_inv (vm_unused v)" using inv by (simp add: vm_inv_def)
        obtain cs where cs: "sb_iter (vm_unused v) = Some cs" "set cs = sb_set (vm_unused v)"
          using sb_iter_law [OF sbi] by blast
        have none: "\<forall>c \<in> set cs. contains c ?a = Some False"
          using contains_wf chunks_ok_wf [OF sb_inv_ok [OF sbi]] cs(2) False
          by (auto simp: vm_view_defs bytes_of_def)
        have "find (\<lambda>_. False) cs = None" by (simp add: find_None_iff)
        with find_run_total [OF none] show ?thesis
          using at cs(1) by (auto simp: vm_allocate_at_def bind_Some_iff)
      qed
      then show ?thesis using at by simp
    next
      case True
      note b = vm_allocate_at_bound [OF inv at True]
      show ?thesis
      proof (cases "{unat ?a ..< unat ?a + unat t} \<subseteq> vm_free_bytes v")
        case False
        from vm_allocate_at_law(2) [OF inv page_floor_aligned td t0 b True False] show ?thesis using at by simp
      next
        case True
        from vm_allocate_at_law(3) [OF inv page_floor_aligned td t0 b True]
        obtain w r where w: "vm_allocate_at v ?a t = Some (w, Inr r)" "vm_inv w" "ch_base r = ?a" "ch_size r = t"
            "vm_used_set w = insert r (vm_used_set v)" "vm_free_bytes w = vm_free_bytes v - chunk_bytes r" by blast
        have "chunk_bytes r \<subseteq> vm_free_bytes v" using True w(3,4) by (simp add: chunk_bytes_def ch_lo_def ch_hi_def)
        then show ?thesis using vm_allocatedI w at by simp
      qed
    qed
  qed
qed

definition vm_freed :: "vm_alloc \<Rightarrow> chunk \<Rightarrow> vm_alloc \<Rightarrow> bool" where
  "vm_freed v r v' \<longleftrightarrow> vm_inv v' \<and> vm_used_bytes v' = vm_used_bytes v - chunk_bytes r \<and>
     {c \<in> vm_used_set v. chunk_bytes c \<inter> chunk_bytes r = {}} \<subseteq> vm_used_set v' \<and>
     vm_free_bytes v' = vm_free_bytes v \<union> chunk_bytes r"

lemma vm_deallocate_step:
  assumes inv: "vm_inv v" and run: "vm_deallocate v a sz = Some (v', r)"
  shows "\<exists>t. next_multiple_of sz PAGE_SIZE = Some t \<and> ch_lo r = unat (page_floor a)
    \<and> ch_hi r = unat (page_floor a) + unat t \<and> vm_freed v r v'"
proof -
  obtain t f l e where t: "next_multiple_of sz PAGE_SIZE = Some t" "chunk_new (page_floor a) t = Some f"
      "last_byte f = Some l" "add_chk l 1 = Some e"
    using run by (auto simp: vm_deallocate_def bind_Some_iff)
  have t0: "t \<noteq> 0" using t(2) by (simp add: chunk_new_Some)
  have "unat e = ch_hi f" using t(3,4) by (simp add: add_chk_Some last_byte_Some)
  then have b: "unat (page_floor a) + unat t < 2 ^ 32"
    using t(2) unat_bound [of e] by (simp add: chunk_new_Some)
  show ?thesis using vm_deallocate_law [OF inv t(1) t0 b] run t(1) by (auto simp: vm_freed_def)
qed

text \<open>Returning exactly an allocated chunk.\<close>

lemma vm_deallocate_chunk:
  assumes inv: "vm_inv v" and c: "c \<in> vm_used_set v"
  shows "\<exists>v'. vm_deallocate v (ch_base c) (ch_size c) = Some (v', c) \<and> vm_freed v c v'
    \<and> vm_used_set v - {c} \<subseteq> vm_used_set v'"
proof -
  have ok: "chunks_ok (vm_used_set v)" and al: "chunk_aligned 4096 c" using vm_used_ok inv c by (simp_all add: vm_inv_def)
  have wf: "chunk_wf c" using chunks_ok_wf ok c by blast
  have sd: "4096 dvd unat (ch_size c)" using aligned_size [OF al wf] by simp
  then have t: "next_multiple_of (ch_size c) PAGE_SIZE = Some (ch_size c)" by (simp add: page_round)
  have pf: "unat (page_floor (ch_base c)) = unat (ch_base c)"
    using al by (simp add: page_floor_unat chunk_aligned_def ch_lo_def mod_eq_0_iff_dvd)
  have b: "unat (page_floor (ch_base c)) + unat (ch_size c) < 2 ^ 32"
    using wf pf by (simp add: chunk_wf_def ch_hi_def)
  obtain v' r where r: "vm_deallocate v (ch_base c) (ch_size c) = Some (v', r)"
      "ch_lo r = unat (page_floor (ch_base c))" "ch_hi r = unat (page_floor (ch_base c)) + unat (ch_size c)"
      "vm_freed v r v'"
    using vm_deallocate_law [OF inv t chunk_wf_size [OF wf] b] by (auto simp: vm_freed_def)
  then have "r = c" using pf by (intro chunk_eqI) (simp_all add: ch_lo_def ch_hi_def)
  moreover have "vm_used_set v - {c} \<subseteq> {d \<in> vm_used_set v. chunk_bytes d \<inter> chunk_bytes c = {}}"
    using chunks_ok_disjoint [OF ok] c by auto
  ultimately show ?thesis using r by (auto simp: vm_freed_def)
qed

subsection \<open>Sequences of requests\<close>

datatype vm_request = VmAllocate "vaddr option" guest_usize | VmDeallocate vaddr guest_usize

fun vm_step :: "vm_alloc \<Rightarrow> vm_request \<Rightarrow> (vm_alloc \<times> chunk option) run" where
  "vm_step v (VmAllocate address sz) = do {
     (v', r) \<leftarrow> vm_allocate v address sz;
     Some (v', case r of Inl _ \<Rightarrow> None | Inr c \<Rightarrow> Some c) }"
| "vm_step v (VmDeallocate a sz) = do { (v', _) \<leftarrow> vm_deallocate v a sz; Some (v', None) }"

text \<open>The pages a request gives back: the requested range rounded outwards.\<close>

fun vm_frees :: "vm_alloc \<Rightarrow> vm_request \<Rightarrow> nat set" where
  "vm_frees v (VmAllocate address sz) = {}"
| "vm_frees v (VmDeallocate a sz) =
     (case next_multiple_of sz PAGE_SIZE of None \<Rightarrow> {}
      | Some t \<Rightarrow> {unat (page_floor a) ..< unat (page_floor a) + unat t})"

lemma vm_step_allocate:
  assumes "vm_inv v" and "vm_step v (VmAllocate address sz) = Some (v', oc)"
  shows "case oc of None \<Rightarrow> v' = v | Some c \<Rightarrow> vm_allocated v c v'"
proof -
  obtain r where r: "vm_allocate v address sz = Some (v', r)" "oc = (case r of Inl _ \<Rightarrow> None | Inr c \<Rightarrow> Some c)"
    using assms(2) by (auto simp: bind_Some_iff)
  with vm_allocate_step [OF assms(1) r(1)] show ?thesis by (cases r) simp_all
qed

lemma vm_step_deallocate:
  assumes "vm_inv v" and "vm_step v (VmDeallocate a sz) = Some (v', oc)"
  shows "oc = None \<and> (\<exists>r. vm_freed v r v' \<and> chunk_bytes r = vm_frees v (VmDeallocate a sz))"
proof -
  obtain r where r: "vm_deallocate v a sz = Some (v', r)" "oc = None" using assms(2) by (auto simp: bind_Some_iff)
  from vm_deallocate_step [OF assms(1) r(1)] r(2) show ?thesis by (auto simp: chunk_bytes_def)
qed

interpretation vma: address_allocator vm_inv vm_used_set vm_frees vm_step
proof unfold_locales
  fix v assume "vm_inv v" then show "chunks_ok (vm_used_set v)" by (rule vm_used_ok)
next
  fix v q v' oc assume inv: "vm_inv v" and step: "vm_step v q = Some (v', oc)"
  show "vm_inv v'"
  proof (cases q)
    case (VmAllocate address sz)
    from vm_step_allocate [OF inv step [unfolded VmAllocate]] inv show ?thesis
      by (cases oc) (simp_all add: vm_allocated_def)
  next
    case (VmDeallocate a sz)
    from vm_step_deallocate [OF inv step [unfolded VmDeallocate]] show ?thesis by (auto simp: vm_freed_def)
  qed
next
  fix v q v' c assume inv: "vm_inv v" and step: "vm_step v q = Some (v', Some c)"
  then obtain address sz where q: "q = VmAllocate address sz" using vm_step_deallocate by (cases q) blast+
  have "vm_allocated v c v'" using vm_step_allocate [OF inv] step q by fastforce
  then show "c \<in> vm_used_set v' \<and> chunk_bytes c \<inter> bytes_of (vm_used_set v) = {}"
    using inv by (auto simp: vm_allocated_def vm_inv_def vm_used_bytes_def)
next
  fix v q v' oc c assume inv: "vm_inv v" and step: "vm_step v q = Some (v', oc)"
    and c: "c \<in> vm_used_set v" and d: "chunk_bytes c \<inter> vm_frees v q = {}"
  show "c \<in> vm_used_set v'"
  proof (cases q)
    case (VmAllocate address sz)
    then show ?thesis using vm_step_allocate [OF inv step [unfolded VmAllocate]] c
      by (cases oc) (auto simp: vm_allocated_def)
  next
    case (VmDeallocate a sz)
    obtain r where "vm_freed v r v'" "chunk_bytes r = vm_frees v q"
      using vm_step_deallocate [OF inv step [unfolded VmDeallocate]] VmDeallocate by blast
    then show ?thesis using c d by (auto simp: vm_freed_def)
  qed
qed

subsection \<open>Properties\<close>

lemma page_round_up:
  assumes "next_multiple_of sz PAGE_SIZE = Some t"
  shows "unat t = round_up 4096 (unat sz)"
  using assms page_round round_up_unique by (metis (no_types))

lemma page_round_nonzero:
  assumes "0 < sz" and "unat sz \<le> 2 ^ 32 - 4096"
  shows "\<exists>t. next_multiple_of sz PAGE_SIZE = Some t \<and> t \<noteq> 0 \<and> unat t = round_up 4096 (unat sz)"
proof -
  obtain t where t: "next_multiple_of sz PAGE_SIZE = Some t" using page_round_ex assms(2) by blast
  then have "unat sz \<le> unat t" using page_round by blast
  then have "t \<noteq> 0" using assms(1) by (auto simp: word_less_nat_alt)
  with t page_round_up show ?thesis by blast
qed

text \<open>C2: An allocation at a fixed address takes the address rounded down and the size rounded
  up to pages. It succeeds exactly when the whole range is free, and then moves exactly these
  addresses from free to used; otherwise the state is unchanged and the error says whether the
  first page was available. It panics on none of these inputs.\<close>

theorem vm_allocate_fixed_outcome:
  assumes "vm_inv v" and "0 < sz" and "unat sz \<le> 2 ^ 32 - 4096"
    and "n = round_up 4096 (unat sz)" and "lo = unat a - unat a mod 4096" and "lo + n \<le> 2 ^ 32"
  shows "if {lo ..< lo + n} \<subseteq> vm_free_bytes v
    then \<exists>v' c. vm_allocate v (Some a) sz = Some (v', Inr c) \<and> vm_inv v' \<and> chunk_bytes c = {lo ..< lo + n}
      \<and> vm_used_set v' = insert c (vm_used_set v) \<and> vm_free_bytes v' = vm_free_bytes v - {lo ..< lo + n}
    else vm_allocate v (Some a) sz
      = Some (v, Inl (if lo \<in> vm_free_bytes v then NoSpace else AddressUnavailable))"
proof -
  obtain t where t: "next_multiple_of sz PAGE_SIZE = Some t" "t \<noteq> 0" "unat t = n"
    using page_round_nonzero [OF assms(2,3)] assms(4) by blast
  have td: "4096 dvd unat t" using t(1) page_round by blast
  have lo: "unat (page_floor a) = lo" using assms(5) page_floor_unat by simp
  have b: "unat (page_floor a) + unat t \<le> 2 ^ 32" using lo t(3) assms(6) by simp
  have run: "vm_allocate v (Some a) sz = vm_allocate_at v (page_floor a) t" using t(1) by (simp add: vm_allocate_def)
  note law = vm_allocate_at_law [OF assms(1) page_floor_aligned td t(2) b, unfolded lo t(3)]
  show ?thesis
  proof (cases "{lo ..< lo + n} \<subseteq> vm_free_bytes v")
    case True
    from law(3) [OF True] obtain v' r where r: "vm_allocate_at v (page_floor a) t = Some (v', Inr r)" "vm_inv v'"
        "ch_base r = page_floor a" "ch_size r = t" "vm_used_set v' = insert r (vm_used_set v)"
        "vm_free_bytes v' = vm_free_bytes v - chunk_bytes r" by blast
    moreover have "chunk_bytes r = {lo ..< lo + n}" using r(3,4) lo t(3) by (simp add: chunk_bytes_def ch_lo_def ch_hi_def)
    ultimately show ?thesis using True run by auto
  next
    case False
    then show ?thesis using law(1,2) run by auto
  qed
qed

theorem vm_allocate_fixed_outcome_witness:
  "\<exists>v. vm_new 0 0x10000 = Some v \<and> (\<exists>v' c. vm_allocate v (Some 0x2345) 0x1001 = Some (v', Inr c)
    \<and> chunk_bytes c = {0x2000 ..< 0x2000 + 0x2000})"
proof -
  obtain v where v: "vm_new 0 0x10000 = Some v" "vm_inv v" "vm_free_bytes v = {0 ..< 0x10000}"
    using vm_new_law [of "0x10000" 0] by auto
  let ?I = "{0x2000 ..< 0x2000 + 0x2000} :: nat set"
  have sub: "?I \<subseteq> vm_free_bytes v" unfolding v(3) by (rule ivl_subset [THEN iffD2]) simp
  have n: "(0x2000 :: nat) = round_up 4096 (unat (0x1001 :: u32))" by (simp add: round_up_def)
  have lo: "(0x2000 :: nat) = unat (0x2345 :: u32) - unat (0x2345 :: u32) mod 4096" by simp
  from vm_allocate_fixed_outcome [OF v(2) _ _ n lo, unfolded if_P [OF sub]]
  obtain v' c where "vm_allocate v (Some 0x2345) 0x1001 = Some (v', Inr c)" "chunk_bytes c = ?I" by auto
  with v(1) show ?thesis by (intro exI conjI)
qed

text \<open>C3: An allocation anywhere is a best fit: it takes the front of the smallest free chunk
  that is large enough, the lowest one among equals, and moves exactly these addresses from free
  to used; it fails with NoSpace, changing nothing, exactly when no free chunk is large enough.\<close>

theorem vm_allocate_anywhere_best_fit:
  assumes "vm_inv v" and "0 < sz" and "unat sz \<le> 2 ^ 32 - 4096" and "n = round_up 4096 (unat sz)"
  shows "(\<exists>v' a c. vm_allocate v None sz = Some (v', Inr a) \<and> vm_inv v' \<and> c \<in> vm_free_set v
      \<and> chunk_bytes a = {ch_lo c ..< ch_lo c + n} \<and> ch_lo c + n \<le> ch_hi c
      \<and> (\<forall>d \<in> vm_free_set v. n \<le> unat (ch_size d) \<longrightarrow> (ch_size c, ch_base c) \<le> (ch_size d, ch_base d))
      \<and> vm_used_set v' = insert a (vm_used_set v) \<and> vm_free_bytes v' = vm_free_bytes v - chunk_bytes a)
    \<or> ((\<forall>d \<in> vm_free_set v. unat (ch_size d) < n) \<and> vm_allocate v None sz = Some (v, Inl NoSpace))"
proof -
  obtain t where t: "next_multiple_of sz PAGE_SIZE = Some t" "t \<noteq> 0" "unat t = n"
    using page_round_nonzero [OF assms(2,3)] assms(4) by blast
  have td: "4096 dvd unat t" using t(1) page_round by blast
  have run: "vm_allocate v None sz = vm_allocate_any v t" using t(1) by (simp add: vm_allocate_def)
  from vm_allocate_any_law [OF assms(1) td t(2)] show ?thesis
  proof (elim disjE exE conjE)
    fix c a w assume w: "vm_allocate_any v t = Some (w, Inr a)" "vm_inv w" "sb_fits (vm_unused v) t (\<lambda>_. True) c"
      "ch_base a = ch_base c" "ch_size a = t" "vm_used_set w = insert a (vm_used_set v)"
      "vm_free_bytes w = vm_free_bytes v - chunk_bytes a"
    then have "chunk_bytes a = {ch_lo c ..< ch_lo c + n}" "ch_lo c + n \<le> ch_hi c" "c \<in> vm_free_set v"
      using t(3) by (simp_all add: chunk_bytes_def ch_lo_def ch_hi_def sb_fits_def word_le_nat_alt vm_free_set_def)
    moreover have "\<forall>d \<in> vm_free_set v. n \<le> unat (ch_size d) \<longrightarrow> (ch_size c, ch_base c) \<le> (ch_size d, ch_base d)"
      using w(3) t(3) unfolding sb_fits_def vm_free_set_def by (metis word_le_nat_alt)
    ultimately show ?thesis using w run by auto
  next
    assume "\<forall>c \<in> vm_free_set v. ch_size c < t" "vm_allocate_any v t = Some (v, Inl NoSpace)"
    then show ?thesis using run t(3) by (auto simp: word_less_nat_alt)
  qed
qed

theorem vm_allocate_anywhere_best_fit_witness:
  "\<exists>v. vm_new 0x1000 0x10000 = Some v \<and> (\<exists>v' a. vm_allocate v None 0x1800 = Some (v', Inr a) \<and> card (chunk_bytes a) = 0x2000)"
proof -
  obtain v where v: "vm_new 0x1000 0x10000 = Some v" "vm_inv v" "vm_free_bytes v = {0x1000 ..< 0x11000}"
    using vm_new_law [of "0x10000" "0x1000"] by auto
  have eval: "map_option (\<lambda>v. map_option snd (vm_allocate v None 0x1800)) (vm_new 0x1000 0x10000)
      = Some (Some (Inr \<lparr>ch_base = 0x1000, ch_size = 0x2000\<rparr>))" by code_simp
  have n: "(0x2000 :: nat) = round_up 4096 (unat (0x1800 :: u32))" by (simp add: round_up_def)
  have "vm_allocate v None 0x1800 \<noteq> Some (v, Inl NoSpace)" using v(1) eval by auto
  then obtain v' a c where "vm_allocate v None 0x1800 = Some (v', Inr a)" "chunk_bytes a = {ch_lo c ..< ch_lo c + 0x2000}"
    using vm_allocate_anywhere_best_fit [OF v(2) _ _ n] by auto
  moreover from this(2) have "card (chunk_bytes a) = 0x2000" by (simp only: card_atLeastLessThan add_diff_cancel_left')
  ultimately show ?thesis using v(1) by blast
qed

text \<open>C4: Deallocating a range releases exactly its pages, whether or not they were allocated:
  they become free, every allocation that does not meet them is untouched, and afterwards no two
  free chunks are adjacent (the invariant), so later allocations can span what was released.\<close>

theorem vm_deallocate_outcome:
  assumes "vm_inv v" and "0 < sz" and "unat sz \<le> 2 ^ 32 - 4096"
    and "n = round_up 4096 (unat sz)" and "lo = unat a - unat a mod 4096" and "lo + n < 2 ^ 32"
  shows "\<exists>v' r. vm_deallocate v a sz = Some (v', r) \<and> vm_inv v' \<and> coalesced (vm_free_set v')
    \<and> chunk_bytes r = {lo ..< lo + n} \<and> vm_used_bytes v' = vm_used_bytes v - {lo ..< lo + n}
    \<and> {c \<in> vm_used_set v. chunk_bytes c \<inter> {lo ..< lo + n} = {}} \<subseteq> vm_used_set v'
    \<and> vm_free_bytes v' = vm_free_bytes v \<union> {lo ..< lo + n}"
proof -
  obtain t where t: "next_multiple_of sz PAGE_SIZE = Some t" "t \<noteq> 0" "unat t = n"
    using page_round_nonzero [OF assms(2,3)] assms(4) by blast
  have lo: "unat (page_floor a) = lo" using assms(5) page_floor_unat by simp
  have b: "unat (page_floor a) + unat t < 2 ^ 32" using lo t(3) assms(6) by simp
  from vm_deallocate_law [OF assms(1) t(1,2) b] obtain v' r where r: "vm_deallocate v a sz = Some (v', r)" "vm_inv v'"
      "ch_lo r = lo" "ch_hi r = lo + n" "vm_used_bytes v' = vm_used_bytes v - chunk_bytes r"
      "{c \<in> vm_used_set v. chunk_bytes c \<inter> chunk_bytes r = {}} \<subseteq> vm_used_set v'"
      "vm_free_bytes v' = vm_free_bytes v \<union> chunk_bytes r" unfolding lo t(3) by blast
  have "chunk_bytes r = {lo ..< lo + n}" using r(3,4) by (simp add: chunk_bytes_def)
  moreover have "coalesced (vm_free_set v')" using r(2) by (simp add: vm_inv_def)
  ultimately show ?thesis using r by auto
qed

theorem vm_deallocate_outcome_witness:
  "\<exists>v. vm_new 0x1000 0x10000 = Some v
    \<and> (\<exists>v' r. vm_deallocate v 0x8001 1 = Some (v', r) \<and> chunk_bytes r = {0x8000 ..< 0x8000 + 0x1000})"
proof -
  obtain v where v: "vm_new 0x1000 0x10000 = Some v" "vm_inv v"
    using vm_new_law [of "0x10000" "0x1000"] by auto
  let ?I = "{0x8000 ..< 0x8000 + 0x1000} :: nat set"
  have n: "(0x1000 :: nat) = round_up 4096 (unat (1 :: u32))" by (simp add: round_up_def)
  have lo: "(0x8000 :: nat) = unat (0x8001 :: u32) - unat (0x8001 :: u32) mod 4096" by simp
  from vm_deallocate_outcome [OF v(2) _ _ n lo]
  obtain v' r where "vm_deallocate v 0x8001 1 = Some (v', r)" "chunk_bytes r = ?I" by auto
  with v(1) show ?thesis by (intro exI conjI)
qed

end
