(* ===== verification/Heap_Alloc.thy ===== *)
theory Heap_Alloc
  imports VM_Alloc
begin

text \<open>
  \<open>HeapAllocator\<close> of \<open>src/mem/allocator.rs\<close>: \<open>malloc\<close> on top of the virtual memory
  allocator. Small requests are carved from backing chunks of 2 MiB, larger ones go to the
  virtual memory allocator and are remembered as external chunks. The invariant ties a heap
  to the allocator below it; the locale \<open>address_allocator\<close> is the interface both allocators
  offer to a sequence of requests, and its lemmas say that what is handed out stays intact
  until it is given back.
\<close>

subsection \<open>Operations\<close>

abbreviation MIN_CHUNK_SIZE :: guest_usize where "MIN_CHUNK_SIZE \<equiv> 16"
abbreviation HEAP_CHUNK_SIZE :: guest_usize where "HEAP_CHUNK_SIZE \<equiv> 2 * 1024 * 1024"
abbreviation HEAP_ALLOCATION_THRESHOLD :: guest_usize where "HEAP_ALLOCATION_THRESHOLD \<equiv> 15 * 1024 - 1"

record heap_alloc =
  hp_used :: chunk_map
  hp_unused :: bucket_map
  hp_external :: chunk_map
  hp_backing :: "chunk list"

definition ok_or_panic :: "('e + 'a) \<Rightarrow> 'a run" where
  "ok_or_panic r = (case r of Inl _ \<Rightarrow> None | Inr a \<Rightarrow> Some a)"

lemma ok_or_panic_Some [run_simps]: "ok_or_panic r = Some c \<longleftrightarrow> r = Inr c"
  by (cases r) (simp_all add: ok_or_panic_def)

definition hp_new :: "vm_alloc \<Rightarrow> guest_usize \<Rightarrow> (vm_alloc \<times> heap_alloc) run" where
  "hp_new vm sz = do {
     u \<leftarrow> sb_new MIN_CHUNK_SIZE;
     (vm', u', backing) \<leftarrow>
       (if 0 < sz then do {
          (vm', r) \<leftarrow> vm_allocate vm None sz;
          base_chunk \<leftarrow> ok_or_panic r;
          u' \<leftarrow> sb_insert u base_chunk;
          Some (vm', u', [base_chunk]) }
        else Some (vm, u, []));
     Some (vm', \<lparr>hp_used = [], hp_unused = u', hp_external = [], hp_backing = backing\<rparr>) }"

definition hp_align :: "guest_usize \<Rightarrow> guest_usize \<Rightarrow> guest_usize run" where
  "hp_align sz al =
     (if \<not> is_multiple_of sz al then do { s \<leftarrow> add_chk sz al; sub_chk s (sz mod al) } else Some sz)"

definition hp_grow :: "vm_alloc \<Rightarrow> heap_alloc \<Rightarrow> (vm_alloc \<times> heap_alloc) run" where
  "hp_grow vm h = do {
     (vm', r) \<leftarrow> vm_allocate vm None HEAP_CHUNK_SIZE;
     c \<leftarrow> ok_or_panic r;
     u \<leftarrow> sb_insert (hp_unused h) c;
     Some (vm', h\<lparr>hp_backing := hp_backing h @ [c], hp_unused := u\<rparr>) }"

definition hp_alloc :: "vm_alloc \<Rightarrow> heap_alloc \<Rightarrow> guest_usize \<Rightarrow> (vm_alloc \<times> heap_alloc \<times> chunk option) run" where
  "hp_alloc vm h sz0 = do {
     sz \<leftarrow> hp_align (max sz0 MIN_CHUNK_SIZE) MIN_CHUNK_SIZE;
     if HEAP_ALLOCATION_THRESHOLD < sz then do {
       (vm', r) \<leftarrow> vm_allocate vm None sz;
       case r of
         Inl _ \<Rightarrow> Some (vm', h, None)
       | Inr alloc \<Rightarrow> do {
           m \<leftarrow> cm_insert (hp_external h) alloc;
           Some (vm', h\<lparr>hp_external := m\<rparr>, Some alloc) } }
     else do {
       (u, r) \<leftarrow> sb_allocate (hp_unused h) sz;
       (vm', h', r') \<leftarrow>
         (case r of
            Some alloc \<Rightarrow> Some (vm, h\<lparr>hp_unused := u\<rparr>, Some alloc)
          | None \<Rightarrow> do {
              (vm', h') \<leftarrow> hp_grow vm (h\<lparr>hp_unused := u\<rparr>);
              (u', r') \<leftarrow> sb_allocate (hp_unused h') sz;
              Some (vm', h'\<lparr>hp_unused := u'\<rparr>, r') });
       case r' of
         None \<Rightarrow> Some (vm', h', None)
       | Some alloc \<Rightarrow> do {
           m \<leftarrow> cm_insert (hp_used h') alloc;
           Some (vm', h'\<lparr>hp_used := m\<rparr>, Some alloc) } } }"

definition hp_valloc :: "vm_alloc \<Rightarrow> heap_alloc \<Rightarrow> guest_usize \<Rightarrow> (vm_alloc \<times> heap_alloc \<times> chunk option) run" where
  "hp_valloc vm h sz0 = do {
     _ \<leftarrow> rassert (0 < sz0);
     sz \<leftarrow> next_multiple_of sz0 PAGE_SIZE;
     (vm', r) \<leftarrow> vm_allocate vm None sz;
     case r of
       Inl _ \<Rightarrow> Some (vm', h, None)
     | Inr alloc \<Rightarrow> do {
         m \<leftarrow> cm_insert (hp_external h) alloc;
         Some (vm', h\<lparr>hp_external := m\<rparr>, Some alloc) } }"

definition hp_allocated_size :: "heap_alloc \<Rightarrow> vaddr \<Rightarrow> guest_usize option" where
  "hp_allocated_size h b =
     (case cm_get_size_with_base (hp_external h) b of
        Some sz \<Rightarrow> Some sz
      | None \<Rightarrow> cm_get_size_with_base (hp_used h) b)"

definition hp_find_allocated_size :: "heap_alloc \<Rightarrow> vaddr \<Rightarrow> guest_usize run" where
  "hp_find_allocated_size h b = hp_allocated_size h b"

definition hp_free :: "vm_alloc \<Rightarrow> heap_alloc \<Rightarrow> vaddr \<Rightarrow> (vm_alloc \<times> heap_alloc \<times> guest_usize) run" where
  "hp_free vm h b =
     (let (ext, freed) = cm_remove_with_base (hp_external h) b; h1 = h\<lparr>hp_external := ext\<rparr> in
      case freed of
        Some f \<Rightarrow> do {
          (vm', _) \<leftarrow> vm_deallocate vm (ch_base f) (ch_size f);
          Some (vm', h1, ch_size f) }
      | None \<Rightarrow>
         (let (used, freed) = cm_remove_with_base (hp_used h1) b; h2 = h1\<lparr>hp_used := used\<rparr> in
          case freed of
            None \<Rightarrow> Some (vm, h2, 0)
          | Some f \<Rightarrow> do {
              l \<leftarrow> last_byte f;
              e \<leftarrow> add_chk l 1;
              (u1, adj1) \<leftarrow> sb_remove_with_base (hp_unused h2) e;
              (u2, adj) \<leftarrow> (case adj1 of Some a \<Rightarrow> Some (u1, Some a) | None \<Rightarrow> sb_remove_with_end u1 (ch_base f));
              u3 \<leftarrow> (case adj of
                       Some a \<Rightarrow> do { combined \<leftarrow> merge a f; sb_insert u2 combined }
                     | None \<Rightarrow> sb_insert u2 f);
              Some (vm, h2\<lparr>hp_unused := u3\<rparr>, ch_size f) }))"

definition hp_into_vm_chunks :: "heap_alloc \<Rightarrow> chunk list" where
  "hp_into_vm_chunks h = cm_into_iter (hp_external h) @ hp_backing h"

subsection \<open>Invariant\<close>

definition hp_live :: "heap_alloc \<Rightarrow> chunk set" where
  "hp_live h = cm_set (hp_used h) \<union> cm_set (hp_external h)"

definition hp_inv :: "vm_alloc \<Rightarrow> heap_alloc \<Rightarrow> bool" where
  "hp_inv vm h \<longleftrightarrow> vm_inv vm \<and> cm_inv (hp_used h) \<and> sb_inv (hp_unused h) \<and> sb_gran (hp_unused h) = 16 \<and>
     cm_inv (hp_external h) \<and> (\<forall>c \<in> cm_set (hp_used h). chunk_aligned 16 c) \<and>
     bytes_of (cm_set (hp_used h)) \<inter> bytes_of (sb_set (hp_unused h)) = {} \<and>
     bytes_of (cm_set (hp_used h)) \<union> bytes_of (sb_set (hp_unused h)) = bytes_of (set (hp_backing h)) \<and>
     distinct (hp_backing h) \<and> set (hp_backing h) \<union> cm_set (hp_external h) \<subseteq> vm_used_set vm \<and>
     set (hp_backing h) \<inter> cm_set (hp_external h) = {}"

lemma hp_invD:
  assumes "hp_inv vm h"
  shows "vm_inv vm" "cm_inv (hp_used h)" "sb_inv (hp_unused h)" "sb_gran (hp_unused h) = 16"
    "cm_inv (hp_external h)" "\<forall>c \<in> cm_set (hp_used h). chunk_aligned 16 c"
    "bytes_of (cm_set (hp_used h)) \<inter> bytes_of (sb_set (hp_unused h)) = {}"
    "bytes_of (cm_set (hp_used h)) \<union> bytes_of (sb_set (hp_unused h)) = bytes_of (set (hp_backing h))"
    "distinct (hp_backing h)" "set (hp_backing h) \<union> cm_set (hp_external h) \<subseteq> vm_used_set vm"
    "set (hp_backing h) \<inter> cm_set (hp_external h) = {}"
  using assms by (simp_all add: hp_inv_def)

lemma subset_disjoint_bytes:
  assumes "chunks_ok S" "A \<subseteq> S" "B \<subseteq> S" "A \<inter> B = {}"
  shows "bytes_of A \<inter> bytes_of B = {}"
proof (rule ccontr)
  assume "bytes_of A \<inter> bytes_of B \<noteq> {}"
  then obtain x a b where "a \<in> A" "b \<in> B" "x \<in> chunk_bytes a" "x \<in> chunk_bytes b" by (auto simp: bytes_of_def)
  then show False using chunks_ok_same [OF assms(1)] assms(2-4) by blast
qed

lemma hp_external_backing:
  "hp_inv vm h \<Longrightarrow> bytes_of (set (hp_backing h)) \<inter> bytes_of (cm_set (hp_external h)) = {}"
  using hp_invD(10,11) [of vm h] subset_disjoint_bytes [OF vm_used_ok [OF hp_invD(1)]] by blast

lemma bytes_of_mono: "A \<subseteq> B \<Longrightarrow> bytes_of A \<subseteq> bytes_of B"
  by (auto simp: bytes_of_def)

lemma hp_live_in_vm: "hp_inv vm h \<Longrightarrow> bytes_of (hp_live h) \<subseteq> vm_used_bytes vm"
  using hp_invD(8,10) [of vm h] bytes_of_mono [of "set (hp_backing h) \<union> cm_set (hp_external h)" "vm_used_set vm"]
  by (auto simp: hp_live_def vm_used_bytes_def)

lemma hp_live_ok: "hp_inv vm h \<Longrightarrow> chunks_ok (hp_live h)"
proof -
  assume inv: "hp_inv vm h"
  have d: "bytes_of (cm_set (hp_used h)) \<inter> bytes_of (cm_set (hp_external h)) = {}"
    using hp_external_backing [OF inv] hp_invD(8) [OF inv] by blast
  have u: "chunks_ok (cm_set (hp_used h))" and e: "chunks_ok (cm_set (hp_external h))"
    using hp_invD(2,5) [OF inv] cm_inv_ok by simp_all
  show ?thesis unfolding chunks_ok_def hp_live_def
  proof (intro conjI ballI impI)
    fix c assume "c \<in> cm_set (hp_used h) \<union> cm_set (hp_external h)"
    then show "chunk_wf c" using chunks_ok_wf u e by blast
  next
    fix c c' assume c: "c \<in> cm_set (hp_used h) \<union> cm_set (hp_external h)"
      and c': "c' \<in> cm_set (hp_used h) \<union> cm_set (hp_external h)" and ne: "c \<noteq> c'"
    from c c' show "chunk_bytes c \<inter> chunk_bytes c' = {}"
      using chunks_ok_disjoint [OF u _ _ ne] chunks_ok_disjoint [OF e _ _ ne] d chunk_subset_bytes
      by (elim UnE) (simp, blast, blast, simp)
  qed
qed

lemma vm_aligned_16: "chunk_aligned 4096 c \<Longrightarrow> chunk_aligned 16 c"
  unfolding chunk_aligned_def by (auto intro: dvd_trans [of 16 4096])

subsection \<open>Rounding\<close>

lemma hp_align_law:
  assumes "unat sz + 16 < 2 ^ 32"
  shows "\<exists>t. hp_align (max sz 16) 16 = Some t \<and> 16 dvd unat t \<and> 16 \<le> unat t
    \<and> unat sz \<le> unat t \<and> unat t < max (unat sz) 16 + 16"
proof -
  let ?s = "max sz 16"
  have us: "unat ?s = max (unat sz) 16" by (simp add: unat_max)
  show ?thesis
  proof (cases "is_multiple_of ?s 16")
    case True
    then show ?thesis using us by (intro exI [of _ ?s]) (simp add: hp_align_def is_multiple_of_dvd)
  next
    case False
    have "unat ?s + unat (16 :: u32) < 2 ^ LENGTH(32)" using us assms by simp
    from add_chk_ex [OF this] obtain a where a: "add_chk ?s 16 = Some a" by blast
    then have au: "unat a = unat ?s + 16" by (simp add: add_chk_Some)
    have mu: "unat (?s mod 16) = unat ?s mod 16" by (simp add: unat_mod)
    have "unat (?s mod 16) \<le> unat a" using au mu by simp
    from sub_chk_ex [OF this] obtain t where t: "sub_chk a (?s mod 16) = Some t" by blast
    then have tu: "unat t = unat ?s + 16 - unat ?s mod 16" using au mu by (simp add: sub_chk_Some)
    have nz: "0 < unat ?s mod 16" using False by (simp add: is_multiple_of_dvd dvd_eq_mod_eq_0)
    have "n + 16 - n mod 16 = 16 * (n div 16 + 1)" for n :: nat by presburger
    then have eq: "unat ?s + 16 - unat ?s mod 16 = 16 * (unat ?s div 16 + 1)" .
    then have "16 dvd unat t" using tu by (metis dvd_triv_left)
    moreover have "unat ?s mod 16 < 16" by simp
    ultimately show ?thesis using False a t tu us nz by (intro exI [of _ t]) (auto simp: hp_align_def)
  qed
qed

text \<open>Requests in the last sixteen sizes panic instead of failing: rounding up overflows.\<close>

lemma hp_align_panics: "0xFFFFFFF0 < unat sz \<Longrightarrow> hp_align (max sz 16) 16 = None"
proof -
  assume sz: "0xFFFFFFF0 < unat sz"
  then have m: "max sz 16 = sz" by (simp add: max_def word_le_nat_alt)
  have b: "unat sz < 0x100000000" using unat_bound32 [of sz] by simp
  have "\<not> 16 dvd unat sz"
  proof
    assume "16 dvd unat sz"
    then obtain k where "unat sz = 16 * k" by (auto elim: dvdE)
    with sz b show False by simp
  qed
  moreover have "add_chk sz 16 = None" using sz by (simp add: add_chk_None)
  ultimately show ?thesis by (simp add: hp_align_def m is_multiple_of_dvd)
qed

subsection \<open>Allocation\<close>

text \<open>The addresses a heap can ever hand out; no operation changes this set.\<close>

definition hp_reach :: "vm_alloc \<Rightarrow> heap_alloc \<Rightarrow> nat set" where
  "hp_reach vm h = vm_free_bytes vm \<union> bytes_of (set (hp_backing h)) \<union> bytes_of (cm_set (hp_external h))"

lemma hp_live_reach: "hp_inv vm h \<Longrightarrow> bytes_of (hp_live h) \<subseteq> hp_reach vm h"
  using hp_invD(8) [of vm h] by (auto simp: hp_live_def hp_reach_def)

text \<open>A heap step that hands out \<open>c\<close>: new, disjoint from everything handed out before.\<close>

definition hp_allocated :: "vm_alloc \<Rightarrow> heap_alloc \<Rightarrow> chunk \<Rightarrow> vm_alloc \<Rightarrow> heap_alloc \<Rightarrow> bool" where
  "hp_allocated vm h c vm' h' \<longleftrightarrow> hp_inv vm' h' \<and> chunk_wf c \<and> chunk_aligned 16 c \<and>
     chunk_bytes c \<inter> bytes_of (hp_live h) = {} \<and> hp_live h' = insert c (hp_live h) \<and>
     vm_used_set vm \<subseteq> vm_used_set vm' \<and> hp_reach vm' h' = hp_reach vm h"

lemma vm_allocate_None_law:
  assumes inv: "vm_inv v" and t: "next_multiple_of sz PAGE_SIZE = Some t" "t \<noteq> 0"
  shows "(\<exists>v' c. vm_allocate v None sz = Some (v', Inr c) \<and> vm_allocated v c v' \<and> ch_size c = t)
    \<or> ((\<forall>c \<in> vm_free_set v. ch_size c < t) \<and> vm_allocate v None sz = Some (v, Inl NoSpace))"
proof -
  have td: "4096 dvd unat t" using t(1) page_round by blast
  have run: "vm_allocate v None sz = vm_allocate_any v t" using t(1) by (simp add: vm_allocate_def)
  from vm_allocate_any_law [OF inv td t(2)] show ?thesis
  proof (elim disjE exE conjE)
    fix c a w assume *: "vm_allocate_any v t = Some (w, Inr a)" "vm_inv w" "chunk_bytes a \<subseteq> vm_free_bytes v"
      "vm_used_set w = insert a (vm_used_set v)" "vm_free_bytes w = vm_free_bytes v - chunk_bytes a" "ch_size a = t"
    then have "vm_allocated v a w" using vm_allocatedI by simp
    then show ?thesis using * run by simp
  qed (simp add: run)
qed

lemma hp_external_law:
  assumes inv: "hp_inv vm h" and a: "vm_allocated vm a vm'"
  shows "\<exists>m. cm_insert (hp_external h) a = Some m \<and> hp_allocated vm h a vm' (h\<lparr>hp_external := m\<rparr>)"
proof -
  note hD = hp_invD [OF inv] and aD = a [unfolded vm_allocated_def]
  have free: "chunk_bytes a \<inter> vm_used_bytes vm = {}" using aD hD(1) by (auto simp: vm_inv_def)
  then have dl: "chunk_bytes a \<inter> bytes_of (hp_live h) = {}" using hp_live_in_vm [OF inv] by blast
  then have "chunk_bytes a \<inter> bytes_of (cm_set (hp_external h)) = {}" by (auto simp: hp_live_def)
  then obtain m where m: "cm_insert (hp_external h) a = Some m" "cm_inv m" "cm_set m = insert a (cm_set (hp_external h))"
    using cm_insert_law [OF hD(5)] aD by blast
  have "a \<notin> vm_used_set vm"
    using free chunk_lo_in [of a] chunk_subset_bytes [of a "vm_used_set vm"] aD by (auto simp: vm_used_bytes_def)
  then have "a \<notin> set (hp_backing h)" using hD(10) by blast
  then have "hp_inv vm' (h\<lparr>hp_external := m\<rparr>)"
    using hD aD m by (auto simp: hp_inv_def)
  moreover have "hp_live (h\<lparr>hp_external := m\<rparr>) = insert a (hp_live h)" using m(3) by (simp add: hp_live_def)
  moreover have "hp_reach vm' (h\<lparr>hp_external := m\<rparr>) = hp_reach vm h"
    using aD m(3) by (auto simp: hp_reach_def)
  ultimately show ?thesis using m(1) dl aD vm_aligned_16 [of a] by (simp add: hp_allocated_def subset_insertI)
qed

lemma hp_small_law:
  assumes inv: "hp_inv vm h" and c: "c \<in> sb_set (hp_unused h)" and cv: "sb_carved (hp_unused h) c sz a u"
  shows "\<exists>m. cm_insert (hp_used h) a = Some m \<and> hp_allocated vm h a vm (h\<lparr>hp_unused := u, hp_used := m\<rparr>)"
proof -
  note hD = hp_invD [OF inv]
  have sub: "chunk_bytes a \<subseteq> bytes_of (sb_set (hp_unused h))" and wf: "chunk_wf a" and al: "chunk_aligned 16 a"
    and u: "sb_inv u" "sb_gran u = 16" "bytes_of (sb_set u) = bytes_of (sb_set (hp_unused h)) - chunk_bytes a"
    using cv chunk_subset_bytes [OF c] hD(4) by (auto simp: sb_carved_def)
  have dj: "chunk_bytes a \<inter> bytes_of (cm_set (hp_used h)) = {}" using sub hD(7) by blast
  then obtain m where m: "cm_insert (hp_used h) a = Some m" "cm_inv m" "cm_set m = insert a (cm_set (hp_used h))"
    using cm_insert_law [OF hD(2) wf] by blast
  have "chunk_bytes a \<inter> bytes_of (cm_set (hp_external h)) = {}"
    using sub hD(8) hp_external_backing [OF inv] by blast
  then have dl: "chunk_bytes a \<inter> bytes_of (hp_live h) = {}" using dj by (auto simp: hp_live_def)
  define h' where "h' = h\<lparr>hp_unused := u, hp_used := m\<rparr>"
  have sel: "hp_used h' = m" "hp_unused h' = u" "hp_external h' = hp_external h" "hp_backing h' = hp_backing h"
    by (simp_all add: h'_def)
  have "bytes_of (cm_set m) \<inter> bytes_of (sb_set u) = {}" using m(3) u(3) hD(7) by auto
  moreover have "bytes_of (cm_set m) \<union> bytes_of (sb_set u) = bytes_of (set (hp_backing h))"
    using m(3) u(3) sub hD(8) by auto
  ultimately have "hp_inv vm h'"
    unfolding hp_inv_def sel using hD m(2,3) u(1,2) al by simp
  moreover have "hp_live h' = insert a (hp_live h)" using m(3) by (simp add: hp_live_def sel)
  moreover have "hp_reach vm h' = hp_reach vm h" by (simp add: hp_reach_def sel)
  ultimately show ?thesis using m(1) wf al dl by (simp add: hp_allocated_def h'_def)
qed

lemma heap_chunk_round: "next_multiple_of HEAP_CHUNK_SIZE PAGE_SIZE = Some HEAP_CHUNK_SIZE"
  by (simp add: next_multiple_of_def)

lemma hp_grow_law:
  assumes inv: "hp_inv vm h"
  shows "(\<exists>vm' h' c. hp_grow vm h = Some (vm', h') \<and> hp_inv vm' h' \<and> hp_live h' = hp_live h
      \<and> c \<in> sb_set (hp_unused h') \<and> ch_size c = HEAP_CHUNK_SIZE \<and> vm_used_set vm' = insert c (vm_used_set vm)
      \<and> hp_reach vm' h' = hp_reach vm h)
    \<or> (hp_grow vm h = None \<and> (\<forall>c \<in> vm_free_set vm. ch_size c < HEAP_CHUNK_SIZE))"
proof -
  note hD = hp_invD [OF inv]
  have "HEAP_CHUNK_SIZE \<noteq> 0" by simp
  from vm_allocate_None_law [OF hD(1) heap_chunk_round this]
  consider (ok) vm' c where "vm_allocate vm None HEAP_CHUNK_SIZE = Some (vm', Inr c)" "vm_allocated vm c vm'" "ch_size c = HEAP_CHUNK_SIZE"
    | (no) "\<forall>c \<in> vm_free_set vm. ch_size c < HEAP_CHUNK_SIZE" "vm_allocate vm None HEAP_CHUNK_SIZE = Some (vm, Inl NoSpace)"
    by blast
  then show ?thesis
  proof cases
    case no
    then show ?thesis by (simp add: hp_grow_def ok_or_panic_def)
  next
    case ok
    note aD = ok(2) [unfolded vm_allocated_def]
    have used: "chunk_bytes c \<inter> vm_used_bytes vm = {}" using aD hD(1) by (auto simp: vm_inv_def)
    have cin: "c \<notin> vm_used_set vm"
      using used chunk_lo_in [of c] chunk_subset_bytes [of c "vm_used_set vm"] aD by (auto simp: vm_used_bytes_def)
    have bk: "bytes_of (set (hp_backing h)) \<subseteq> vm_used_bytes vm"
      using bytes_of_mono hD(10) by (auto simp: vm_used_bytes_def)
    have dj: "chunk_bytes c \<inter> bytes_of (sb_set (hp_unused h)) = {}" using used bk hD(8) by blast
    have al: "chunk_aligned (sb_gran (hp_unused h)) c" using aD hD(4) vm_aligned_16 by simp
    have wf: "chunk_wf c" using aD by blast
    obtain u where u: "sb_insert (hp_unused h) c = Some u" "sb_inv u" "sb_set u = insert c (sb_set (hp_unused h))"
        "sb_gran u = sb_gran (hp_unused h)"
      using sb_insert_law [OF hD(3) wf al dj] by blast
    define h' where "h' = h\<lparr>hp_backing := hp_backing h @ [c], hp_unused := u\<rparr>"
    have sel: "hp_used h' = hp_used h" "hp_unused h' = u" "hp_external h' = hp_external h"
      "hp_backing h' = hp_backing h @ [c]" by (simp_all add: h'_def)
    have run: "hp_grow vm h = Some (vm', h')" using ok(1) u(1) by (simp add: hp_grow_def ok_or_panic_def h'_def)
    have b1: "bytes_of (cm_set (hp_used h)) \<inter> bytes_of (sb_set u) = {}"
      using u(3) hD(7,8) used bk by auto
    have b2: "bytes_of (cm_set (hp_used h)) \<union> bytes_of (sb_set u) = bytes_of (set (hp_backing h @ [c]))"
      using u(3) hD(8) by auto
    have "c \<notin> set (hp_backing h)" "c \<notin> cm_set (hp_external h)" using cin hD(10) by blast+
    then have "hp_inv vm' h'" unfolding hp_inv_def sel
      using hD aD u(2,4) b1 b2 by auto
    moreover have "hp_reach vm' h' = hp_reach vm h" using aD by (auto simp: hp_reach_def sel)
    ultimately show ?thesis using run u(3) aD ok(3) by (auto simp: hp_live_def sel)
  qed
qed

text \<open>
  A small request: never refused. It panics exactly when no free chunk of the heap is large
  enough and the virtual memory allocator has no 2 MiB left.
\<close>

lemma hp_alloc_small:
  assumes inv: "hp_inv vm h" and t: "hp_align (max sz 16) 16 = Some t" "16 dvd unat t" "16 \<le> unat t"
    and small: "t \<le> HEAP_ALLOCATION_THRESHOLD"
  shows "(\<exists>vm' h' c. hp_alloc vm h sz = Some (vm', h', Some c) \<and> hp_allocated vm h c vm' h' \<and> ch_size c = t)
    \<or> (hp_alloc vm h sz = None \<and> (\<forall>c \<in> vm_free_set vm. ch_size c < HEAP_CHUNK_SIZE))"
proof -
  note hD = hp_invD [OF inv]
  have t0: "t \<noteq> 0" using t(3) by auto
  have nt: "\<not> HEAP_ALLOCATION_THRESHOLD < t" using small by (simp add: not_less)
  have gd: "sb_gran (hp_unused h) dvd unat t" using t(2) hD(4) by simp
  from sb_allocate_best_fit [OF hD(3) gd t0]
  consider (fit) c a u where "sb_fits (hp_unused h) t (\<lambda>_. True) c" "sb_allocate (hp_unused h) t = Some (u, Some a)"
      "sb_carved (hp_unused h) c t a u"
    | (full) "sb_allocate (hp_unused h) t = Some (hp_unused h, None)" by blast
  then show ?thesis
  proof cases
    case fit
    have c: "c \<in> sb_set (hp_unused h)" and sz: "ch_size a = t" using fit by (simp_all add: sb_fits_def sb_carved_def)
    obtain m where m: "cm_insert (hp_used h) a = Some m" "hp_allocated vm h a vm (h\<lparr>hp_unused := u, hp_used := m\<rparr>)"
      using hp_small_law [OF inv c fit(3)] by blast
    have "hp_alloc vm h sz = Some (vm, h\<lparr>hp_unused := u, hp_used := m\<rparr>, Some a)"
      using t(1) nt fit(2) m(1) by (simp add: hp_alloc_def)
    with m(2) sz show ?thesis by blast
  next
    case full
    have same: "h\<lparr>hp_unused := hp_unused h\<rparr> = h" by simp
    from hp_grow_law [OF inv]
    consider (grown) vm' h' c where "hp_grow vm h = Some (vm', h')" "hp_inv vm' h'" "hp_live h' = hp_live h"
        "c \<in> sb_set (hp_unused h')" "ch_size c = HEAP_CHUNK_SIZE" "vm_used_set vm' = insert c (vm_used_set vm)"
        "hp_reach vm' h' = hp_reach vm h"
      | (no) "hp_grow vm h = None" "\<forall>c \<in> vm_free_set vm. ch_size c < HEAP_CHUNK_SIZE"
      by (elim disjE exE conjE; simp)
    then show ?thesis
    proof cases
      case no
      then show ?thesis using t(1) nt full by (simp add: hp_alloc_def same)
    next
      case grown
      note gD = hp_invD [OF grown(2)]
      have "unat t \<le> unat (HEAP_ALLOCATION_THRESHOLD)" using small by (simp only: word_le_nat_alt)
      also have "\<dots> < unat HEAP_CHUNK_SIZE" by simp
      finally have big: "\<not> ch_size c < t" using grown(5) by (simp only: word_less_nat_alt)
      have gd': "sb_gran (hp_unused h') dvd unat t" using t(2) gD(4) by simp
      have "\<exists>d a u. sb_fits (hp_unused h') t (\<lambda>_. True) d \<and> sb_allocate (hp_unused h') t = Some (u, Some a)
          \<and> sb_carved (hp_unused h') d t a u"
        using sb_allocate_best_fit [OF gD(3) gd' t0] big grown(4) by blast
      then obtain d a u where d: "sb_fits (hp_unused h') t (\<lambda>_. True) d" "sb_allocate (hp_unused h') t = Some (u, Some a)"
          "sb_carved (hp_unused h') d t a u" by blast
      have din: "d \<in> sb_set (hp_unused h')" and sz: "ch_size a = t" using d by (simp_all add: sb_fits_def sb_carved_def)
      obtain m where m: "cm_insert (hp_used h') a = Some m"
          "hp_allocated vm' h' a vm' (h'\<lparr>hp_unused := u, hp_used := m\<rparr>)"
        using hp_small_law [OF grown(2) din d(3)] by blast
      have "hp_alloc vm h sz = Some (vm', h'\<lparr>hp_unused := u, hp_used := m\<rparr>, Some a)"
        using t(1) nt full grown(1) d(2) m(1) by (simp add: hp_alloc_def same)
      moreover have "hp_allocated vm h a vm' (h'\<lparr>hp_unused := u, hp_used := m\<rparr>)"
        using m(2) grown(3,6,7) by (auto simp: hp_allocated_def)
      ultimately show ?thesis using sz by blast
    qed
  qed
qed

text \<open>A large request goes to the virtual memory allocator, which may refuse it.\<close>

lemma hp_alloc_large:
  assumes inv: "hp_inv vm h" and t: "hp_align (max sz 16) 16 = Some t"
    and large: "HEAP_ALLOCATION_THRESHOLD < t" and p: "next_multiple_of t PAGE_SIZE = Some p"
  shows "(\<exists>vm' h' c. hp_alloc vm h sz = Some (vm', h', Some c) \<and> hp_allocated vm h c vm' h' \<and> ch_size c = p)
    \<or> (hp_alloc vm h sz = Some (vm, h, None) \<and> (\<forall>c \<in> vm_free_set vm. ch_size c < p))"
proof -
  note hD = hp_invD [OF inv]
  have "unat t \<le> unat p" using p page_round by blast
  moreover have "0 < unat t" using large by (simp add: word_less_nat_alt)
  ultimately have p0: "p \<noteq> 0" by auto
  from vm_allocate_None_law [OF hD(1) p p0] show ?thesis
  proof (elim disjE exE conjE)
    fix vm' c assume c: "vm_allocate vm None t = Some (vm', Inr c)" "vm_allocated vm c vm'" "ch_size c = p"
    obtain m where m: "cm_insert (hp_external h) c = Some m" "hp_allocated vm h c vm' (h\<lparr>hp_external := m\<rparr>)"
      using hp_external_law [OF inv c(2)] by blast
    then show ?thesis using t large c by (simp add: hp_alloc_def)
  next
    assume "\<forall>c \<in> vm_free_set vm. ch_size c < p" "vm_allocate vm None t = Some (vm, Inl NoSpace)"
    then show ?thesis using t large by (simp add: hp_alloc_def)
  qed
qed

lemma hp_valloc_law:
  assumes inv: "hp_inv vm h" and sz: "0 < sz" and p: "next_multiple_of sz PAGE_SIZE = Some p"
  shows "(\<exists>vm' h' c. hp_valloc vm h sz = Some (vm', h', Some c) \<and> hp_allocated vm h c vm' h' \<and> ch_size c = p
        \<and> chunk_aligned 4096 c)
    \<or> (hp_valloc vm h sz = Some (vm, h, None) \<and> (\<forall>c \<in> vm_free_set vm. ch_size c < p))"
proof -
  note hD = hp_invD [OF inv]
  have pd: "4096 dvd unat p" and "unat sz \<le> unat p" using p page_round by blast+
  then have p0: "p \<noteq> 0" using sz by (auto simp: word_less_nat_alt)
  have "next_multiple_of p PAGE_SIZE = Some p" using pd by (simp add: page_round)
  from vm_allocate_None_law [OF hD(1) this p0] show ?thesis
  proof (elim disjE exE conjE)
    fix vm' c assume c: "vm_allocate vm None p = Some (vm', Inr c)" "vm_allocated vm c vm'" "ch_size c = p"
    obtain m where m: "cm_insert (hp_external h) c = Some m" "hp_allocated vm h c vm' (h\<lparr>hp_external := m\<rparr>)"
      using hp_external_law [OF inv c(2)] by blast
    have "chunk_aligned 4096 c" using c(2) by (simp add: vm_allocated_def)
    then show ?thesis using sz p c m by (simp add: hp_valloc_def)
  next
    assume "\<forall>c \<in> vm_free_set vm. ch_size c < p" "vm_allocate vm None p = Some (vm, Inl NoSpace)"
    then show ?thesis using sz p by (simp add: hp_valloc_def)
  qed
qed

subsection \<open>Freeing\<close>

lemma heap_join:
  assumes inv: "sb_inv u" and f: "chunk_wf f" "chunk_aligned (sb_gran u) f"
    and dj: "chunk_bytes f \<inter> bytes_of (sb_set u) = {}"
  shows "\<exists>l e u1 adj1 u2 adj u3. last_byte f = Some l \<and> add_chk l 1 = Some e
    \<and> sb_remove_with_base u e = Some (u1, adj1)
    \<and> (case adj1 of Some a \<Rightarrow> Some (u1, Some a) | None \<Rightarrow> sb_remove_with_end u1 (ch_base f)) = Some (u2, adj)
    \<and> (case adj of Some a \<Rightarrow> do { combined \<leftarrow> merge a f; sb_insert u2 combined } | None \<Rightarrow> sb_insert u2 f) = Some u3
    \<and> sb_inv u3 \<and> sb_gran u3 = sb_gran u \<and> bytes_of (sb_set u3) = bytes_of (sb_set u) \<union> chunk_bytes f"
proof -
  have ok: "chunks_ok (sb_set u)" using sb_inv_ok inv by blast
  obtain l e where le: "last_byte f = Some l" "add_chk l 1 = Some e" "unat e = ch_hi f"
    using last_byte_end_ex [OF f(1)] by (auto simp: bind_Some_iff)
  obtain u1 adj1 where u1: "sb_remove_with_base u e = Some (u1, adj1)" "sb_inv u1" "sb_gran u1 = sb_gran u"
      "sb_set u1 = sb_set u - opt_set adj1" "opt_hits adj1 ch_lo (ch_hi f) (sb_set u)"
    using sb_remove_with_base_hit [OF inv le(3)] by (elim exE conjE) (rule that)
  have lo: "unat (ch_base f) = ch_lo f" by (simp add: ch_lo_def)
  obtain u2 adj where u2: "(case adj1 of Some a \<Rightarrow> Some (u1, Some a) | None \<Rightarrow> sb_remove_with_end u1 (ch_base f)) = Some (u2, adj)"
      "sb_inv u2" "sb_gran u2 = sb_gran u" "sb_set u2 = sb_set u - opt_set adj"
      "case adj of None \<Rightarrow> True | Some a \<Rightarrow> a \<in> sb_set u \<and> (ch_hi a = ch_lo f \<or> ch_hi f = ch_lo a)"
  proof (cases adj1)
    case (Some a)
    then show ?thesis using u1 by (intro that [of u1 "Some a"]) (auto simp: opt_hits_def)
  next
    case None
    obtain u2 adj where "sb_remove_with_end u1 (ch_base f) = Some (u2, adj)" "sb_inv u2" "sb_gran u2 = sb_gran u1"
        "sb_set u2 = sb_set u1 - opt_set adj" "opt_hits adj ch_hi (ch_lo f) (sb_set u1)"
      using sb_remove_with_end_hit [OF u1(2) lo] by (elim exE conjE) (rule that)
    then show ?thesis using u1 None
      by (intro that [of u2 adj]) (auto simp: opt_hits_def split: option.splits)
  qed
  show ?thesis
  proof (cases adj)
    case None
    have al: "chunk_aligned (sb_gran u2) f" using f(2) u2(3) by simp
    have df: "chunk_bytes f \<inter> bytes_of (sb_set u2) = {}" using dj u2(4) None by simp
    obtain u3 where u3: "sb_insert u2 f = Some u3" "sb_inv u3" "sb_set u3 = insert f (sb_set u2)" "sb_gran u3 = sb_gran u2"
      using sb_insert_law [OF u2(2) f(1) al df] by (elim exE conjE) (rule that)
    have b3: "bytes_of (sb_set u3) = bytes_of (sb_set u) \<union> chunk_bytes f" using u3(3) u2(4) None by auto
    show ?thesis
      by (rule exI [of _ l], rule exI [of _ e], rule exI [of _ u1], rule exI [of _ adj1], rule exI [of _ u2],
          rule exI [of _ adj], rule exI [of _ u3]) (use le u1 u2 u3 b3 None in simp)
  next
    case (Some a)
    then have a: "a \<in> sb_set u" "ch_hi a = ch_lo f \<or> ch_hi f = ch_lo a" using u2(5) by simp_all
    have aw: "chunk_wf a" using chunks_ok_wf ok a(1) by blast
    obtain c where c: "merge a f = Some c" "chunk_wf c" "ch_lo c = min (ch_lo a) (ch_lo f)" "ch_hi c = max (ch_hi a) (ch_hi f)"
      using merge_wf [OF aw f(1) a(2)] by blast
    have cb: "chunk_bytes c = chunk_bytes a \<union> chunk_bytes f"
      using c(3,4) a(2) aw f(1) by (auto simp: chunk_bytes_def chunk_wf_def)
    have al: "chunk_aligned (sb_gran u2) c"
      using c(3,4) sb_inv_aligned [OF inv a(1)] f(2) u2(3) by (auto simp: chunk_aligned_def min_def max_def)
    have rest: "bytes_of (sb_set u2) = bytes_of (sb_set u) - chunk_bytes a"
      using u2(4) Some bytes_of_remove [OF ok a(1)] by simp
    then have dc: "chunk_bytes c \<inter> bytes_of (sb_set u2) = {}" using cb dj by auto
    obtain u3 where u3: "sb_insert u2 c = Some u3" "sb_inv u3" "sb_set u3 = insert c (sb_set u2)" "sb_gran u3 = sb_gran u2"
      using sb_insert_law [OF u2(2) c(2) al dc] by (elim exE conjE) (rule that)
    have b3: "bytes_of (sb_set u3) = bytes_of (sb_set u) \<union> chunk_bytes f"
      using u3(3) rest cb chunk_subset_bytes [OF a(1)] by auto
    show ?thesis
      by (rule exI [of _ l], rule exI [of _ e], rule exI [of _ u1], rule exI [of _ adj1], rule exI [of _ u2],
          rule exI [of _ adj], rule exI [of _ u3]) (use le u1 u2 u3 b3 Some c(1) in simp)
  qed
qed

definition hp_freed :: "vm_alloc \<Rightarrow> heap_alloc \<Rightarrow> chunk \<Rightarrow> vm_alloc \<Rightarrow> heap_alloc \<Rightarrow> bool" where
  "hp_freed vm h c vm' h' \<longleftrightarrow> hp_inv vm' h' \<and> hp_live h' = hp_live h - {c} \<and>
     vm_used_set vm - {c} \<subseteq> vm_used_set vm' \<and> hp_reach vm' h' = hp_reach vm h"

lemma hp_used_external: "hp_inv vm h \<Longrightarrow> c \<in> cm_set (hp_used h) \<Longrightarrow> c \<notin> cm_set (hp_external h)"
proof
  assume inv: "hp_inv vm h" and c: "c \<in> cm_set (hp_used h)" "c \<in> cm_set (hp_external h)"
  have "chunk_wf c" using chunks_ok_wf cm_inv_ok hp_invD(2) [OF inv] c(1) by blast
  then have "ch_lo c \<in> bytes_of (cm_set (hp_used h))" "ch_lo c \<in> bytes_of (cm_set (hp_external h))"
    using c chunk_lo_in chunk_subset_bytes by blast+
  then show False using hp_external_backing [OF inv] hp_invD(8) [OF inv] by blast
qed

lemma hp_free_external:
  assumes inv: "hp_inv vm h" and c: "c \<in> cm_set (hp_external h)"
  shows "\<exists>vm' h'. hp_free vm h (ch_base c) = Some (vm', h', ch_size c) \<and> hp_freed vm h c vm' h'"
proof -
  note hD = hp_invD [OF inv]
  obtain m where m: "cm_remove_with_base (hp_external h) (ch_base c) = (m, Some c)" "cm_inv m"
      "cm_set m = cm_set (hp_external h) - {c}" using cm_remove_law [OF hD(5) c] by blast
  have cvm: "c \<in> vm_used_set vm" using c hD(10) by blast
  obtain vm' where vm': "vm_deallocate vm (ch_base c) (ch_size c) = Some (vm', c)" "vm_freed vm c vm'"
      "vm_used_set vm - {c} \<subseteq> vm_used_set vm'"
    using vm_deallocate_chunk [OF hD(1) cvm] by blast
  define h' where "h' = h\<lparr>hp_external := m\<rparr>"
  have sel: "hp_used h' = hp_used h" "hp_unused h' = hp_unused h" "hp_external h' = m" "hp_backing h' = hp_backing h"
    by (simp_all add: h'_def)
  have run: "hp_free vm h (ch_base c) = Some (vm', h', ch_size c)"
    using m(1) vm'(1) by (simp add: hp_free_def h'_def)
  have "c \<notin> set (hp_backing h)" using hD(11) c by blast
  then have inv': "hp_inv vm' h'"
    unfolding hp_inv_def sel using hD m(2,3) vm' by (auto simp: vm_freed_def)
  have "c \<notin> cm_set (hp_used h)" using hp_used_external [OF inv] c by blast
  then have "hp_live h' = hp_live h - {c}" using m(3) by (auto simp: hp_live_def sel)
  moreover have "hp_reach vm' h' = hp_reach vm h"
    using vm'(2) m(3) c by (auto simp: hp_reach_def sel vm_freed_def bytes_of_def)
  ultimately show ?thesis using run inv' vm'(3) by (auto simp: hp_freed_def)
qed

lemma hp_free_small:
  assumes inv: "hp_inv vm h" and c: "c \<in> cm_set (hp_used h)"
  shows "\<exists>h'. hp_free vm h (ch_base c) = Some (vm, h', ch_size c) \<and> hp_freed vm h c vm h'"
proof -
  note hD = hp_invD [OF inv]
  obtain m where m: "cm_remove_with_base (hp_used h) (ch_base c) = (m, Some c)" "cm_inv m"
      "cm_set m = cm_set (hp_used h) - {c}" using cm_remove_law [OF hD(2) c] by blast
  have ne: "c \<notin> cm_set (hp_external h)" using hp_used_external [OF inv c] .
  have "\<forall>d \<in> cm_set (hp_external h). ch_base d \<noteq> ch_base c"
    using chunks_ok_base [OF hp_live_ok [OF inv]] c ne by (auto simp: hp_live_def)
  note ext = cm_remove_miss [OF hD(5) this]
  have ok: "chunks_ok (cm_set (hp_used h))" using cm_inv_ok hD(2) by blast
  have wf: "chunk_wf c" using chunks_ok_wf ok c by blast
  have al: "chunk_aligned (sb_gran (hp_unused h)) c" using hD(4,6) c by simp
  have dc: "chunk_bytes c \<inter> bytes_of (sb_set (hp_unused h)) = {}" using hD(7) chunk_subset_bytes [OF c] by blast
  obtain l e u1 adj1 u2 adj u3 where j: "last_byte c = Some l" "add_chk l 1 = Some e"
      "sb_remove_with_base (hp_unused h) e = Some (u1, adj1)"
      "(case adj1 of Some a \<Rightarrow> Some (u1, Some a) | None \<Rightarrow> sb_remove_with_end u1 (ch_base c)) = Some (u2, adj)"
      "(case adj of Some a \<Rightarrow> do { combined \<leftarrow> merge a c; sb_insert u2 combined } | None \<Rightarrow> sb_insert u2 c) = Some u3"
      "sb_inv u3" "sb_gran u3 = sb_gran (hp_unused h)"
      "bytes_of (sb_set u3) = bytes_of (sb_set (hp_unused h)) \<union> chunk_bytes c"
    using heap_join [OF hD(3) wf al dc] by (elim exE conjE) (rule that)
  define h' where "h' = h\<lparr>hp_used := m, hp_unused := u3\<rparr>"
  have sel: "hp_used h' = m" "hp_unused h' = u3" "hp_external h' = hp_external h" "hp_backing h' = hp_backing h"
    by (simp_all add: h'_def)
  have run: "hp_free vm h (ch_base c) = Some (vm, h', ch_size c)"
    using ext m(1) j(1-5) by (simp add: hp_free_def h'_def)
  have mb: "bytes_of (cm_set m) = bytes_of (cm_set (hp_used h)) - chunk_bytes c"
    using m(3) bytes_of_remove [OF ok c] by simp
  have "bytes_of (cm_set m) \<inter> bytes_of (sb_set u3) = {}" using mb j(8) hD(7) by auto
  moreover have "bytes_of (cm_set m) \<union> bytes_of (sb_set u3) = bytes_of (set (hp_backing h))"
    using mb j(8) hD(8) chunk_subset_bytes [OF c] by auto
  ultimately have "hp_inv vm h'"
    unfolding hp_inv_def sel using hD m(2,3) j(6,7) by simp
  moreover have "hp_live h' = hp_live h - {c}" using m(3) ne by (auto simp: hp_live_def sel)
  moreover have "hp_reach vm h' = hp_reach vm h" by (simp add: hp_reach_def sel)
  ultimately show ?thesis using run by (auto simp: hp_freed_def)
qed

lemma hp_free_unknown:
  assumes inv: "hp_inv vm h" and none: "\<forall>c \<in> hp_live h. ch_base c \<noteq> b"
  shows "hp_free vm h b = Some (vm, h, 0)"
  using cm_remove_miss [OF hp_invD(5) [OF inv], of b] cm_remove_miss [OF hp_invD(2) [OF inv], of b] none
  by (simp add: hp_free_def hp_live_def)

lemma hp_free_live:
  assumes inv: "hp_inv vm h" and c: "c \<in> hp_live h"
  shows "\<exists>vm' h'. hp_free vm h (ch_base c) = Some (vm', h', ch_size c) \<and> hp_freed vm h c vm' h'"
proof -
  from c consider "c \<in> cm_set (hp_used h)" | "c \<in> cm_set (hp_external h)" by (auto simp: hp_live_def)
  then show ?thesis
  proof cases
    case 1
    then show ?thesis using hp_free_small [OF inv] by blast
  next
    case 2
    then show ?thesis using hp_free_external [OF inv] by blast
  qed
qed

lemma hp_allocated_size_law:
  assumes inv: "hp_inv vm h"
  shows "hp_allocated_size h b = Some sz \<longleftrightarrow> mk_chunk (b, sz) \<in> hp_live h"
proof -
  have e: "cm_get_size_with_base (hp_external h) b = Some z \<longleftrightarrow> mk_chunk (b, z) \<in> cm_set (hp_external h)" for z
    using cm_get_iff hp_invD(5) [OF inv] by (simp add: cm_get_size_with_base_def)
  have u: "cm_get_size_with_base (hp_used h) b = Some z \<longleftrightarrow> mk_chunk (b, z) \<in> cm_set (hp_used h)" for z
    using cm_get_iff hp_invD(2) [OF inv] by (simp add: cm_get_size_with_base_def)
  have same: "z = sz" if "mk_chunk (b, z) \<in> hp_live h" "mk_chunk (b, sz) \<in> hp_live h" for z
    using chunks_ok_base [OF hp_live_ok [OF inv] that] by (simp add: mk_chunk_def)
  show ?thesis
  proof (cases "cm_get_size_with_base (hp_external h) b")
    case None
    then have "mk_chunk (b, sz) \<notin> cm_set (hp_external h)" using e by force
    then show ?thesis using None u by (simp add: hp_allocated_size_def hp_live_def)
  next
    case (Some z)
    then have z: "mk_chunk (b, z) \<in> hp_live h" using e by (simp add: hp_live_def)
    have "hp_allocated_size h b = Some z" using Some by (simp add: hp_allocated_size_def)
    then show ?thesis using z same [OF z] by auto
  qed
qed

subsection \<open>Sequences of requests\<close>

datatype heap_request = HpAlloc guest_usize | HpValloc guest_usize | HpFree vaddr

fun hp_step :: "vm_alloc \<times> heap_alloc \<Rightarrow> heap_request \<Rightarrow> ((vm_alloc \<times> heap_alloc) \<times> chunk option) run" where
  "hp_step (vm, h) (HpAlloc sz) = do { (vm', h', oc) \<leftarrow> hp_alloc vm h sz; Some ((vm', h'), oc) }"
| "hp_step (vm, h) (HpValloc sz) = do { (vm', h', oc) \<leftarrow> hp_valloc vm h sz; Some ((vm', h'), oc) }"
| "hp_step (vm, h) (HpFree b) = do { (vm', h', _) \<leftarrow> hp_free vm h b; Some ((vm', h'), None) }"

definition hp_state_inv :: "vm_alloc \<times> heap_alloc \<Rightarrow> bool" where
  "hp_state_inv s = hp_inv (fst s) (snd s)"

definition hp_state_live :: "vm_alloc \<times> heap_alloc \<Rightarrow> chunk set" where
  "hp_state_live s = hp_live (snd s)"

text \<open>\<open>free\<close> gives back the allocation that starts at its argument, if there is one.\<close>

fun hp_frees :: "vm_alloc \<times> heap_alloc \<Rightarrow> heap_request \<Rightarrow> nat set" where
  "hp_frees (vm, h) (HpFree b) = bytes_of {c \<in> hp_live h. ch_base c = b}"
| "hp_frees s _ = {}"

lemma hp_align_SomeD: "hp_align (max sz 16) 16 = Some t \<Longrightarrow> 16 dvd unat t \<and> 16 \<le> unat t \<and> unat sz \<le> unat t"
proof -
  assume t: "hp_align (max sz 16) 16 = Some t"
  show ?thesis
  proof (cases "is_multiple_of (max sz 16) 16")
    case True
    then have "t = max sz 16" using t by (simp add: hp_align_def)
    then show ?thesis using True by (simp add: is_multiple_of_dvd unat_max)
  next
    case False
    then obtain a where "add_chk (max sz 16) 16 = Some a" using t by (auto simp: hp_align_def bind_Some_iff)
    then have "unat a = max (unat sz) 16 + 16" by (simp add: add_chk_Some unat_max)
    then have "unat sz + 16 < 2 ^ 32" using unat_bound32 [of a] by simp
    from hp_align_law [OF this] t show ?thesis by auto
  qed
qed

lemma hp_alloc_step:
  assumes inv: "hp_inv vm h" and run: "hp_alloc vm h sz = Some (vm', h', oc)"
  shows "case oc of None \<Rightarrow> vm' = vm \<and> h' = h | Some c \<Rightarrow> hp_allocated vm h c vm' h' \<and> unat sz \<le> unat (ch_size c)"
proof -
  obtain t where t: "hp_align (max sz 16) 16 = Some t" using run by (auto simp: hp_alloc_def bind_Some_iff)
  note tD = hp_align_SomeD [OF t]
  show ?thesis
  proof (cases "HEAP_ALLOCATION_THRESHOLD < t")
    case True
    then obtain p where p: "next_multiple_of t PAGE_SIZE = Some p"
      using run t by (auto simp: hp_alloc_def vm_allocate_def bind_Some_iff)
    have "unat t \<le> unat p" using p page_round by blast
    with hp_alloc_large [OF inv t True p] run tD show ?thesis by auto
  next
    case False
    then have "t \<le> HEAP_ALLOCATION_THRESHOLD" by (simp add: not_less)
    from hp_alloc_small [OF inv t _ _ this] tD run show ?thesis by auto
  qed
qed

lemma hp_valloc_step:
  assumes inv: "hp_inv vm h" and run: "hp_valloc vm h sz = Some (vm', h', oc)"
  shows "case oc of None \<Rightarrow> vm' = vm \<and> h' = h | Some c \<Rightarrow> hp_allocated vm h c vm' h'"
proof -
  obtain p where "0 < sz" "next_multiple_of sz PAGE_SIZE = Some p"
    using run by (auto simp: hp_valloc_def bind_Some_iff rassert_Some)
  from hp_valloc_law [OF inv this] run show ?thesis by auto
qed

lemma hp_free_step:
  assumes inv: "hp_inv vm h" and run: "hp_free vm h b = Some (vm', h', n)"
  shows "(\<exists>c \<in> hp_live h. ch_base c = b \<and> hp_freed vm h c vm' h')
    \<or> ((\<forall>c \<in> hp_live h. ch_base c \<noteq> b) \<and> vm' = vm \<and> h' = h)"
proof (cases "\<exists>c \<in> hp_live h. ch_base c = b")
  case True
  then obtain c where c: "c \<in> hp_live h" "ch_base c = b" by blast
  then show ?thesis using hp_free_live [OF inv c(1)] run by auto
next
  case False
  then show ?thesis using hp_free_unknown [OF inv] run by auto
qed

lemma hp_step_cases:
  assumes "hp_state_inv s" and "hp_step s q = Some (s', oc)"
  shows "(\<exists>c. oc = Some c \<and> hp_allocated (fst s) (snd s) c (fst s') (snd s') \<and> hp_frees s q = {})
    \<or> (oc = None \<and> s' = s)
    \<or> (\<exists>c \<in> hp_state_live s. oc = None \<and> hp_freed (fst s) (snd s) c (fst s') (snd s') \<and> chunk_bytes c \<subseteq> hp_frees s q)"
proof -
  obtain vm h where s: "s = (vm, h)" by (cases s)
  obtain vm' h' where s': "s' = (vm', h')" by (cases s')
  have inv: "hp_inv vm h" using assms(1) s by (simp add: hp_state_inv_def)
  show ?thesis
  proof (cases q)
    case (HpAlloc sz)
    then have "hp_alloc vm h sz = Some (vm', h', oc)" using assms(2) s s' by (auto simp: bind_Some_iff)
    from hp_alloc_step [OF inv this] show ?thesis using HpAlloc s s' by (cases oc) simp_all
  next
    case (HpValloc sz)
    then have "hp_valloc vm h sz = Some (vm', h', oc)" using assms(2) s s' by (auto simp: bind_Some_iff)
    from hp_valloc_step [OF inv this] show ?thesis using HpValloc s s' by (cases oc) simp_all
  next
    case (HpFree b)
    then obtain n where n: "hp_free vm h b = Some (vm', h', n)" "oc = None"
      using assms(2) s s' by (auto simp: bind_Some_iff)
    from hp_free_step [OF inv n(1)] show ?thesis
    proof (elim disjE bexE conjE)
      fix c assume "c \<in> hp_live h" "ch_base c = b" "hp_freed vm h c vm' h'"
      moreover from this have "chunk_bytes c \<subseteq> hp_frees s q"
        using HpFree s chunk_subset_bytes [of c "{c \<in> hp_live h. ch_base c = b}"] by simp
      ultimately show ?thesis using n(2) s s' by (auto simp: hp_state_live_def)
    qed (use n(2) s s' in simp)
  qed
qed

interpretation hpa: address_allocator hp_state_inv hp_state_live hp_frees hp_step
proof unfold_locales
  fix s assume "hp_state_inv s"
  then show "chunks_ok (hp_state_live s)" by (simp add: hp_state_inv_def hp_state_live_def hp_live_ok)
next
  fix s q s' oc assume a: "hp_state_inv s" "hp_step s q = Some (s', oc)"
  from hp_step_cases [OF a] a(1) show "hp_state_inv s'"
    by (auto simp: hp_state_inv_def hp_allocated_def hp_freed_def)
next
  fix s q s' c assume a: "hp_state_inv s" "hp_step s q = Some (s', Some c)"
  from hp_step_cases [OF a] show "c \<in> hp_state_live s' \<and> chunk_bytes c \<inter> bytes_of (hp_state_live s) = {}"
    by (auto simp: hp_state_live_def hp_allocated_def)
next
  fix s q s' oc c assume a: "hp_state_inv s" "hp_step s q = Some (s', oc)"
    and c: "c \<in> hp_state_live s" and d: "chunk_bytes c \<inter> hp_frees s q = {}"
  have "chunks_ok (hp_state_live s)" using a(1) hp_live_ok by (simp add: hp_state_inv_def hp_state_live_def)
  then have "chunk_bytes c \<noteq> {}" using c by (intro chunk_bytes_nonempty) (rule chunks_ok_wf)
  with hp_step_cases [OF a] c d show "c \<in> hp_state_live s'"
    by (auto simp: hp_state_live_def hp_allocated_def hp_freed_def)
qed

subsection \<open>Creation and destruction\<close>

lemma hp_new_init:
  assumes szp: "0 < sz" and c: "vm_allocate vm None sz = Some (vm', Inr c)" "vm_allocated vm c vm'"
  shows "\<exists>h. hp_new vm sz = Some (vm', h) \<and> hp_inv vm' h \<and> hp_live h = {} \<and> hp_reach vm' h = vm_free_bytes vm"
proof -
  obtain u where u: "sb_new MIN_CHUNK_SIZE = Some u" "sb_inv u" "sb_set u = {}" "min_chunk_size u = 16"
    using sb_new_inv [of MIN_CHUNK_SIZE] by auto
  have g: "sb_gran u = 16" by (simp add: sb_gran_def u(4))
  note aD = c(2) [unfolded vm_allocated_def]
  have al: "chunk_aligned (sb_gran u) c" using aD g vm_aligned_16 by simp
  have wf: "chunk_wf c" using aD by blast
  obtain u' where u': "sb_insert u c = Some u'" "sb_inv u'" "sb_set u' = {c}" "sb_gran u' = 16"
    using sb_insert_law [OF u(2) wf al] u(3) g by auto
  show ?thesis using szp u(1) c(1) u' aD
    by (auto simp: hp_new_def ok_or_panic_def hp_inv_def hp_live_def hp_reach_def)
qed

lemma hp_new_empty: "vm_inv vm \<Longrightarrow> \<exists>h. hp_new vm 0 = Some (vm, h) \<and> hp_inv vm h \<and> hp_live h = {} \<and> hp_reach vm h = vm_free_bytes vm"
  using sb_new_inv [of MIN_CHUNK_SIZE] by (auto simp: hp_new_def hp_inv_def hp_live_def hp_reach_def sb_gran_def)

lemma hp_new_step:
  assumes inv: "vm_inv vm" and run: "hp_new vm sz = Some (vm', h)"
  shows "hp_inv vm' h \<and> hp_live h = {} \<and> hp_reach vm' h = vm_free_bytes vm"
proof (cases "sz = 0")
  case True
  then show ?thesis using hp_new_empty [OF inv] run by auto
next
  case False
  then have szp: "0 < sz" by (simp add: word_neq_0_conv)
  then obtain v r c where a: "vm_allocate vm None sz = Some (v, r)" "ok_or_panic r = Some c"
    using run by (auto simp: hp_new_def bind_Some_iff)
  then have r: "r = Inr c" by (cases r) (simp_all add: ok_or_panic_def)
  have "vm_allocated vm c v" using vm_allocate_step [OF inv a(1)] r by simp
  from hp_new_init [OF szp a(1) [unfolded r] this] run show ?thesis by auto
qed

text \<open>
  The allocators as \<open>Mem::new\<close> and the first \<open>malloc\<close> set them up: all addresses below the
  main thread's stack, and a heap of one backing chunk.
\<close>

definition boot_vm :: vm_alloc where "boot_vm = the (vm_new 0 0xFFF00000)"
definition boot_heap :: "vm_alloc \<times> heap_alloc" where "boot_heap = the (hp_new boot_vm HEAP_CHUNK_SIZE)"

lemma boot_vm_run: "vm_new 0 0xFFF00000 = Some boot_vm"
proof -
  have "vm_new 0 0xFFF00000 \<noteq> None" by code_simp
  then show ?thesis by (auto simp: boot_vm_def)
qed

lemma boot_vm_inv: "vm_inv boot_vm"
  using vm_new_law [of "0xFFF00000" 0] boot_vm_run by simp

lemma boot_heap_run: "hp_new boot_vm HEAP_CHUNK_SIZE = Some boot_heap"
proof -
  have "hp_new boot_vm HEAP_CHUNK_SIZE \<noteq> None" by code_simp
  then show ?thesis by (auto simp: boot_heap_def)
qed

lemma boot_heap_inv: "hp_inv (fst boot_heap) (snd boot_heap)"
  using hp_new_step [OF boot_vm_inv, of HEAP_CHUNK_SIZE "fst boot_heap" "snd boot_heap"] boot_heap_run by simp

subsection \<open>Properties\<close>

text \<open>C1: Over any sequence of malloc, valloc and free requests made to a fresh heap that does
  not panic, a chunk handed out by any request stays allocated as long as none of its addresses
  is freed, no chunk handed out later overlaps it, and at every point the live allocations are
  non-empty and pairwise disjoint.\<close>

theorem heap_allocations_stay_disjoint:
  assumes "vm_new 0 0xFFF00000 = Some vm" and "hp_new vm sz = Some s0"
    and "run_requests hp_step s0 ps = Some (s1, os1)"
    and "hp_step s1 q = Some (s2, Some c)"
    and "run_requests hp_step s2 qs = Some (s3, os3)"
    and "chunk_bytes c \<inter> freed_in hp_step hp_frees s2 qs = {}"
  shows "c \<in> hp_state_live s3 \<and> (\<forall>d. Some d \<in> set os3 \<longrightarrow> chunk_bytes d \<inter> chunk_bytes c = {})
    \<and> chunks_ok (hp_state_live s3)"
proof -
  have vm: "vm_inv vm" using vm_new_law [of "0xFFF00000" 0] assms(1) by simp
  have "hp_state_inv s0"
    using hp_new_step [OF vm, of sz "fst s0" "snd s0"] assms(2) by (simp add: hp_state_inv_def)
  from hpa.handed_out [OF this assms(3-6)] show ?thesis by blast
qed

theorem heap_allocations_stay_disjoint_witness:
  "\<exists>s1 s2 s3 c d. run_requests hp_step boot_heap [HpAlloc 100] = Some (s1, [Some \<lparr>ch_base = 0, ch_size = 112\<rparr>])
    \<and> hp_step s1 (HpAlloc 20) = Some (s2, Some c) \<and> c = \<lparr>ch_base = 112, ch_size = 32\<rparr>
    \<and> run_requests hp_step s2 [HpAlloc 8] = Some (s3, [Some d]) \<and> chunk_bytes d \<inter> chunk_bytes c = {}"
proof -
  define s1 where "s1 = fst (the (run_requests hp_step boot_heap [HpAlloc 100]))"
  define s2 where "s2 = fst (the (hp_step s1 (HpAlloc 20)))"
  define s3 where "s3 = fst (the (run_requests hp_step s2 [HpAlloc 8]))"
  have 1: "run_requests hp_step boot_heap [HpAlloc 100] = Some (s1, [Some \<lparr>ch_base = 0, ch_size = 112\<rparr>])"
    unfolding s1_def by code_simp
  have 2: "hp_step s1 (HpAlloc 20) = Some (s2, Some \<lparr>ch_base = 112, ch_size = 32\<rparr>)"
    unfolding s2_def s1_def by code_simp
  have 3: "run_requests hp_step s2 [HpAlloc 8] = Some (s3, [Some \<lparr>ch_base = 144, ch_size = 16\<rparr>])"
    unfolding s3_def s2_def s1_def by code_simp
  have f: "freed_in hp_step hp_frees s2 [HpAlloc 8] = {}"
    by (cases s2; cases "hp_step s2 (HpAlloc 8)") auto
  from heap_allocations_stay_disjoint [OF boot_vm_run boot_heap_run 1 2 3] f
  have "chunk_bytes \<lparr>ch_base = 144, ch_size = 16\<rparr> \<inter> chunk_bytes \<lparr>ch_base = 112, ch_size = 32\<rparr> = {}" by simp
  with 1 2 3 show ?thesis by blast
qed

lemma hp_align_round:
  assumes "unat sz + 16 < 2 ^ 32"
  shows "\<exists>t. hp_align (max sz 16) 16 = Some t \<and> 16 dvd unat t \<and> 16 \<le> unat t
    \<and> unat t = round_up 16 (max (unat sz) 16)"
proof -
  obtain t where t: "hp_align (max sz 16) 16 = Some t" "16 dvd unat t" "16 \<le> unat t" "unat sz \<le> unat t"
      "unat t < max (unat sz) 16 + 16" using hp_align_law [OF assms] by blast
  then have "round_up 16 (max (unat sz) 16) = unat t" by (intro round_up_unique) simp_all
  with t show ?thesis by auto
qed



text \<open>C6: free: freeing the base address of a live allocation returns its size, takes exactly
  this allocation away and keeps the invariant and every other chunk of the virtual memory
  allocator; freeing any other address changes nothing and returns 0. Neither panics.\<close>

theorem free_outcome:
  assumes "hp_inv vm h"
  shows "(\<forall>c \<in> hp_live h. \<exists>vm' h'. hp_free vm h (ch_base c) = Some (vm', h', ch_size c) \<and> hp_inv vm' h'
      \<and> hp_live h' = hp_live h - {c} \<and> vm_used_set vm - {c} \<subseteq> vm_used_set vm')
    \<and> ((\<forall>c \<in> hp_live h. ch_base c \<noteq> b) \<longrightarrow> hp_free vm h b = Some (vm, h, 0))"
  using hp_free_live [OF assms] hp_free_unknown [OF assms] unfolding hp_freed_def by blast

theorem free_outcome_witness:
  "hp_free (fst boot_heap) (snd boot_heap) 0x40 = Some (fst boot_heap, snd boot_heap, 0)"
proof -
  have "hp_live (snd boot_heap) = {}"
    using hp_new_step [OF boot_vm_inv, of HEAP_CHUNK_SIZE "fst boot_heap" "snd boot_heap"] boot_heap_run by simp
  then show ?thesis using free_outcome [OF boot_heap_inv, of "0x40"] by simp
qed

text \<open>Unlike the virtual memory allocator, free joins a chunk with one free neighbour only:
  when both neighbours of the freed chunk are free, two adjacent free chunks remain.\<close>

theorem free_leaves_adjacent_chunks:
  "\<exists>s os. run_requests hp_step boot_heap [HpAlloc 16, HpAlloc 16, HpAlloc 16, HpFree 0, HpFree 32, HpFree 16] = Some (s, os)
    \<and> hp_state_live s = {} \<and> \<not> coalesced (sb_set (hp_unused (snd s)))"
proof -
  define r where "r = run_requests hp_step boot_heap [HpAlloc 16, HpAlloc 16, HpAlloc 16, HpFree 0, HpFree 32, HpFree 16]"
  have "map_option (\<lambda>(s, _). (sb_chunks (hp_unused (snd s)), hp_used (snd s), hp_external (snd s))) r
      = Some ([(0, 16), (16, 0x1FFFF0)], [], [])"
    unfolding r_def by code_simp
  then obtain s os where s: "r = Some (s, os)" "sb_chunks (hp_unused (snd s)) = [(0, 16), (16, 0x1FFFF0)]"
      "hp_used (snd s) = []" "hp_external (snd s) = []" by auto
  have "mk_chunk (0, 16) \<in> sb_set (hp_unused (snd s))" "mk_chunk (16, 0x1FFFF0) \<in> sb_set (hp_unused (snd s))"
    using s(2) by (simp_all add: sb_set_def mk_chunk_in)
  moreover have "ch_hi (mk_chunk (0, 16)) = ch_lo (mk_chunk (16, 0x1FFFF0))" by (simp add: ch_hi_def ch_lo_def)
  ultimately have "\<not> coalesced (sb_set (hp_unused (snd s)))" unfolding coalesced_def by blast
  moreover have "hp_state_live s = {}" using s(3,4) by (simp add: hp_state_live_def hp_live_def)
  ultimately show ?thesis using s(1) unfolding r_def by blast
qed

end
