(* ===== verification/Guest_Mem.thy ===== *)
theory Guest_Mem
  imports Heap_Alloc
begin

text \<open>
  \<open>Mem\<close> and \<open>Ptr\<close> of \<open>src/mem.rs\<close>: the guest's 4 GiB of memory, its accessors and the
  \<open>malloc\<close> family on top of the two allocators. A guest type (the trait \<open>SafeRead\<close> and
  \<open>guest_size_of\<close>) is a record of its size and its encoding. \<open>host::discard_pages\<close> asks
  the host system to drop pages and is a parameter \<open>discard\<close>: \<open>None\<close> is the error that
  \<open>expect\<close> turns into a panic, and \<open>discard_ok\<close> is the promise of its documentation, that
  the range reads as zero afterwards. The other calls of the host change no byte of memory.
\<close>

subsection \<open>Pointers and guest types\<close>

record 'a guest_type =
  gt_size :: guest_usize
  gt_enc :: "'a \<Rightarrow> u8 list"
  gt_dec :: "u8 list \<Rightarrow> 'a"

definition ptr_add :: "guest_usize \<Rightarrow> vaddr \<Rightarrow> guest_usize \<Rightarrow> vaddr run" where
  "ptr_add sz p k = do {
     _ \<leftarrow> rassert (sz \<noteq> 0);
     d \<leftarrow> mul_chk k sz;
     add_chk p d }"

definition ptr_sub :: "guest_usize \<Rightarrow> vaddr \<Rightarrow> guest_usize \<Rightarrow> vaddr run" where
  "ptr_sub sz p k = do {
     _ \<leftarrow> rassert (sz \<noteq> 0);
     d \<leftarrow> mul_chk k sz;
     sub_chk p d }"

lemma ptr_add_Some [run_simps]:
  "ptr_add sz p k = Some q \<longleftrightarrow> sz \<noteq> 0 \<and> unat q = unat p + unat k * unat sz"
proof -
  have "(\<exists>d :: u32. unat d = unat k * unat sz \<and> unat q = unat p + unat d) \<longleftrightarrow> unat q = unat p + unat k * unat sz"
  proof
    assume q: "unat q = unat p + unat k * unat sz"
    then have "unat k * unat sz < 2 ^ LENGTH(32)" using unat_bound32 [of q] by simp
    then obtain d where "mul_chk k sz = Some d" by (simp add: mul_chk_def)
    then have "unat d = unat k * unat sz" by (simp add: mul_chk_Some)
    with q show "\<exists>d :: u32. unat d = unat k * unat sz \<and> unat q = unat p + unat d" by auto
  qed auto
  then show ?thesis by (auto simp: ptr_add_def bind_Some_iff rassert_Some mul_chk_Some add_chk_Some)
qed

lemma ptr_sub_add: "ptr_sub sz q k = Some p \<longleftrightarrow> ptr_add sz p k = Some q"
proof -
  have "(\<exists>d :: u32. unat d = unat k * unat sz \<and> unat q = unat d + unat p) \<longleftrightarrow> unat q = unat p + unat k * unat sz"
  proof
    assume q: "unat q = unat p + unat k * unat sz"
    then have "unat k * unat sz < 2 ^ LENGTH(32)" using unat_bound32 [of q] by simp
    then obtain d where "mul_chk k sz = Some d" by (simp add: mul_chk_def)
    then have "unat d = unat k * unat sz" by (simp add: mul_chk_Some)
    with q show "\<exists>d :: u32. unat d = unat k * unat sz \<and> unat q = unat d + unat p" by auto
  qed auto
  then show ?thesis
    by (auto simp: ptr_sub_def ptr_add_Some bind_Some_iff rassert_Some mul_chk_Some sub_chk_Some)
qed

subsection \<open>Accessors\<close>

record guest_mem =
  mm_bytes :: "vaddr \<Rightarrow> u8"
  mm_null :: vaddr
  mm_heap :: "heap_alloc option"
  mm_vm :: vm_alloc

text \<open>\<open>self.bytes()[p..][..n]\<close>, the same range overwritten, and filled with zeros.\<close>

definition in_bounds :: "vaddr \<Rightarrow> guest_usize \<Rightarrow> bool" where
  "in_bounds p n \<longleftrightarrow> uint p + uint n \<le> 2 ^ 32"

definition get_range :: "(vaddr \<Rightarrow> u8) \<Rightarrow> vaddr \<Rightarrow> nat \<Rightarrow> u8 list" where
  "get_range f p n = map (\<lambda>i. f (p + of_nat i)) [0..<n]"

definition put_range :: "(vaddr \<Rightarrow> u8) \<Rightarrow> vaddr \<Rightarrow> u8 list \<Rightarrow> vaddr \<Rightarrow> u8" where
  "put_range f p bs = (\<lambda>a. if a - p < of_nat (length bs) then bs ! unat (a - p) else f a)"

definition zero_range :: "(vaddr \<Rightarrow> u8) \<Rightarrow> vaddr \<Rightarrow> guest_usize \<Rightarrow> vaddr \<Rightarrow> u8" where
  "zero_range f p n = (\<lambda>a. if p \<le> a \<and> uint a < uint p + uint n then 0 else f a)"

definition unchecked_bytes_at :: "guest_mem \<Rightarrow> vaddr \<Rightarrow> guest_usize \<Rightarrow> u8 list run" where
  "unchecked_bytes_at m p n =
     (if in_bounds p n then Some (get_range (mm_bytes m) p (unat n)) else None)"

definition bytes_at :: "guest_mem \<Rightarrow> vaddr \<Rightarrow> guest_usize \<Rightarrow> u8 list run" where
  "bytes_at m p n = (if p < mm_null m then None else unchecked_bytes_at m p n)"

text \<open>Here \<open>None\<close> is a result, not a panic.\<close>

definition get_bytes_fallible :: "guest_mem \<Rightarrow> vaddr \<Rightarrow> guest_usize \<Rightarrow> u8 list option" where
  "get_bytes_fallible m p n =
     (if p < mm_null m then None
      else if in_bounds p n then Some (get_range (mm_bytes m) p (unat n)) else None)"

text \<open>\<open>get_bytes_fallible_mut\<close> and \<open>bytes_at_mut\<close> with what their callers do: overwrite the slice.\<close>

definition put_bytes_fallible :: "guest_mem \<Rightarrow> vaddr \<Rightarrow> u8 list \<Rightarrow> guest_mem option" where
  "put_bytes_fallible m p bs =
     (if p < mm_null m then None
      else if in_bounds p (of_nat (length bs)) then Some (m\<lparr>mm_bytes := put_range (mm_bytes m) p bs\<rparr>)
      else None)"

definition bytes_at_mut_put :: "guest_mem \<Rightarrow> vaddr \<Rightarrow> guest_usize \<Rightarrow> u8 list \<Rightarrow> guest_mem run" where
  "bytes_at_mut_put m p n bs =
     (if p < mm_null m then None
      else if in_bounds p n then Some (m\<lparr>mm_bytes := put_range (mm_bytes m) p bs\<rparr>) else None)"

definition bytes_at_mut_zero :: "guest_mem \<Rightarrow> vaddr \<Rightarrow> guest_usize \<Rightarrow> guest_mem run" where
  "bytes_at_mut_zero m p n =
     (if p < mm_null m then None
      else if in_bounds p n then Some (m\<lparr>mm_bytes := zero_range (mm_bytes m) p n\<rparr>) else None)"

definition ptr_at :: "guest_usize \<Rightarrow> guest_mem \<Rightarrow> vaddr \<Rightarrow> guest_usize \<Rightarrow> u8 list run" where
  "ptr_at sz m p count = do { n \<leftarrow> mul_chk count sz; bytes_at m p n }"

definition unchecked_ptr_at :: "guest_usize \<Rightarrow> guest_mem \<Rightarrow> vaddr \<Rightarrow> guest_usize \<Rightarrow> u8 list run" where
  "unchecked_ptr_at sz m p count = do { n \<leftarrow> mul_chk count sz; unchecked_bytes_at m p n }"

definition mem_read :: "('a, 'z) guest_type_scheme \<Rightarrow> guest_mem \<Rightarrow> vaddr \<Rightarrow> 'a run" where
  "mem_read T m p = do { bs \<leftarrow> ptr_at (gt_size T) m p 1; Some (gt_dec T bs) }"

definition mem_write :: "('a, 'z) guest_type_scheme \<Rightarrow> guest_mem \<Rightarrow> vaddr \<Rightarrow> 'a \<Rightarrow> guest_mem run" where
  "mem_write T m p x = do {
     _ \<leftarrow> rassert (0 < gt_size T);
     bytes_at_mut_put m p (gt_size T) (gt_enc T x) }"

text \<open>\<open>memmove\<close> has no null-page check; \<open>copy_within\<close> reads the source before it writes.\<close>

definition mem_memmove :: "guest_mem \<Rightarrow> vaddr \<Rightarrow> vaddr \<Rightarrow> guest_usize \<Rightarrow> guest_mem run" where
  "mem_memmove m dest src n =
     (if in_bounds src n \<and> in_bounds dest n
      then Some (m\<lparr>mm_bytes := put_range (mm_bytes m) dest (get_range (mm_bytes m) src (unat n))\<rparr>)
      else None)"

subsection \<open>Allocation\<close>

definition mem_new :: "guest_mem run" where
  "mem_new = do {
     vm \<leftarrow> vm_new 0 (0 - 1024 * 1024);
     Some \<lparr>mm_bytes = (\<lambda>_. 0), mm_null = 0, mm_heap = None, mm_vm = vm\<rparr> }"

definition set_null_segment_size :: "guest_mem \<Rightarrow> vaddr \<Rightarrow> guest_mem run" where
  "set_null_segment_size m n = do {
     _ \<leftarrow> rassert (mm_null m = 0);
     _ \<leftarrow> rassert (is_multiple_of n PAGE_SIZE);
     (vm, r) \<leftarrow> vm_allocate (mm_vm m) (Some 0) n;
     _ \<leftarrow> ok_or_panic r;
     Some (m\<lparr>mm_vm := vm, mm_null := n\<rparr>) }"

definition create_heap :: "guest_mem \<Rightarrow> guest_usize \<Rightarrow> (guest_mem \<times> heap_alloc) run" where
  "create_heap m n = do { (vm, h) \<leftarrow> hp_new (mm_vm m) n; Some (m\<lparr>mm_vm := vm\<rparr>, h) }"

text \<open>
  \<open>allocators_mut\<close>: an operation on the virtual memory allocator and the given heap, or the
  default heap, created at its first use.
\<close>

definition allocators_mut ::
  "guest_mem \<Rightarrow> heap_alloc option \<Rightarrow> (vm_alloc \<Rightarrow> heap_alloc \<Rightarrow> (vm_alloc \<times> heap_alloc \<times> 'a) run)
    \<Rightarrow> (guest_mem \<times> heap_alloc option \<times> 'a) run" where
  "allocators_mut m heap op =
     (case heap of
        Some h \<Rightarrow> do {
          (vm, h', x) \<leftarrow> op (mm_vm m) h;
          Some (m\<lparr>mm_vm := vm\<rparr>, Some h', x) }
      | None \<Rightarrow> do {
          (vm0, h) \<leftarrow> (case mm_heap m of
                        Some h \<Rightarrow> Some (mm_vm m, h)
                      | None \<Rightarrow> hp_new (mm_vm m) HEAP_CHUNK_SIZE);
          (vm, h', x) \<leftarrow> op vm0 h;
          Some (m\<lparr>mm_vm := vm, mm_heap := Some h'\<rparr>, None, x) })"

definition alloc_in_heap ::
  "guest_mem \<Rightarrow> heap_alloc option \<Rightarrow> guest_usize \<Rightarrow> (guest_mem \<times> heap_alloc option \<times> vaddr) run" where
  "alloc_in_heap m heap n = do {
     (m', heap', r) \<leftarrow> allocators_mut m heap (\<lambda>vm h. hp_alloc vm h n);
     alloc \<leftarrow> r;
     Some (m', heap', ch_base alloc) }"

definition alloc_uninitialized :: "guest_mem \<Rightarrow> guest_usize \<Rightarrow> (guest_mem \<times> vaddr) run" where
  "alloc_uninitialized m n = do { (m', _, p) \<leftarrow> alloc_in_heap m None n; Some (m', p) }"

definition mem_alloc :: "guest_mem \<Rightarrow> guest_usize \<Rightarrow> (guest_mem \<times> vaddr) run" where
  "mem_alloc m n = do {
     (m1, p) \<leftarrow> alloc_uninitialized m n;
     m2 \<leftarrow> bytes_at_mut_zero m1 p n;
     Some (m2, p) }"

definition mem_calloc :: "guest_mem \<Rightarrow> guest_usize \<Rightarrow> (guest_mem \<times> vaddr) run" where
  "mem_calloc m n = do {
     (m1, p) \<leftarrow> alloc_uninitialized m n;
     m2 \<leftarrow> bytes_at_mut_zero m1 p n;
     Some (m2, p) }"

definition mem_vm_alloc ::
  "guest_mem \<Rightarrow> vaddr option \<Rightarrow> guest_usize \<Rightarrow> (guest_mem \<times> (vm_alloc_error + vaddr)) run" where
  "mem_vm_alloc m address n = do {
     (vm, r) \<leftarrow> vm_allocate (mm_vm m) address n;
     case r of
       Inl e \<Rightarrow> Some (m\<lparr>mm_vm := vm\<rparr>, Inl e)
     | Inr a \<Rightarrow> do {
         m2 \<leftarrow> bytes_at_mut_zero (m\<lparr>mm_vm := vm\<rparr>) (ch_base a) (ch_size a);
         Some (m2, Inr (ch_base a)) } }"

definition mem_valloc :: "guest_mem \<Rightarrow> guest_usize \<Rightarrow> (guest_mem \<times> vaddr) run" where
  "mem_valloc m n = do {
     (m1, _, r) \<leftarrow> allocators_mut m None (\<lambda>vm h. hp_valloc vm h n);
     alloc \<leftarrow> r;
     _ \<leftarrow> rassert (is_multiple_of (ch_base alloc) PAGE_SIZE);
     _ \<leftarrow> rassert (is_multiple_of (ch_size alloc) PAGE_SIZE);
     m2 \<leftarrow> bytes_at_mut_zero m1 (ch_base alloc) (ch_size alloc);
     Some (m2, ch_base alloc) }"

definition malloc_size_in_heap ::
  "guest_mem \<Rightarrow> heap_alloc option \<Rightarrow> vaddr \<Rightarrow> (guest_mem \<times> heap_alloc option \<times> guest_usize) run" where
  "malloc_size_in_heap m heap p =
     allocators_mut m heap (\<lambda>vm h. Some (vm, h, case hp_allocated_size h p of None \<Rightarrow> 0 | Some n \<Rightarrow> n))"

definition malloc_size_in_heap_or_panic ::
  "guest_mem \<Rightarrow> heap_alloc option \<Rightarrow> vaddr \<Rightarrow> (guest_mem \<times> heap_alloc option \<times> guest_usize) run" where
  "malloc_size_in_heap_or_panic m heap p =
     allocators_mut m heap (\<lambda>vm h. do { n \<leftarrow> hp_find_allocated_size h p; Some (vm, h, n) })"

type_synonym host_discard = "vaddr \<Rightarrow> guest_usize \<Rightarrow> (vaddr \<Rightarrow> u8) \<Rightarrow> (vaddr \<Rightarrow> u8) option"

definition free_in_heap ::
  "host_discard \<Rightarrow> guest_mem \<Rightarrow> heap_alloc option \<Rightarrow> vaddr \<Rightarrow> (guest_mem \<times> heap_alloc option) run" where
  "free_in_heap discard m heap p = do {
     (m1, heap', n) \<leftarrow> allocators_mut m heap (\<lambda>vm h. hp_free vm h p);
     if HEAP_ALLOCATION_THRESHOLD < n then do {
       f \<leftarrow> discard p n (mm_bytes m1);
       Some (m1\<lparr>mm_bytes := f\<rparr>, heap') }
     else Some (m1, heap') }"

definition realloc_in_heap ::
  "host_discard \<Rightarrow> guest_mem \<Rightarrow> heap_alloc option \<Rightarrow> vaddr \<Rightarrow> guest_usize
    \<Rightarrow> (guest_mem \<times> heap_alloc option \<times> vaddr) run" where
  "realloc_in_heap discard m heap old n =
     (if old = 0 then alloc_in_heap m heap n
      else do {
        (m1, heap1, old_size) \<leftarrow> malloc_size_in_heap_or_panic m heap old;
        if n \<le> old_size then Some (m1, heap1, old)
        else do {
          (m2, heap2, new) \<leftarrow> alloc_in_heap m1 heap1 n;
          m3 \<leftarrow> mem_memmove m2 new old old_size;
          (m4, heap3) \<leftarrow> free_in_heap discard m3 heap2 old;
          Some (m4, heap3, new) } })"

definition mem_vm_free :: "host_discard \<Rightarrow> guest_mem \<Rightarrow> vaddr \<Rightarrow> guest_usize \<Rightarrow> guest_mem run" where
  "mem_vm_free discard m p n = do {
     (vm, freed) \<leftarrow> vm_deallocate (mm_vm m) p n;
     f \<leftarrow> discard (ch_base freed) (ch_size freed) (mm_bytes m);
     Some (m\<lparr>mm_vm := vm, mm_bytes := f\<rparr>) }"

fun vm_free_all :: "host_discard \<Rightarrow> guest_mem \<Rightarrow> chunk list \<Rightarrow> guest_mem run" where
  "vm_free_all discard m [] = Some m"
| "vm_free_all discard m (c # cs) = do {
     m' \<leftarrow> mem_vm_free discard m (ch_base c) (ch_size c);
     vm_free_all discard m' cs }"

definition destroy_heap :: "host_discard \<Rightarrow> guest_mem \<Rightarrow> heap_alloc \<Rightarrow> guest_mem run" where
  "destroy_heap discard m h = vm_free_all discard m (hp_into_vm_chunks h)"

definition mem_reserve :: "guest_mem \<Rightarrow> vaddr \<Rightarrow> guest_usize \<Rightarrow> guest_mem run" where
  "mem_reserve m b n = do {
     (vm, r) \<leftarrow> vm_allocate (mm_vm m) (Some b) n;
     _ \<leftarrow> ok_or_panic r;
     Some (m\<lparr>mm_vm := vm\<rparr>) }"

definition alloc_and_write :: "('a, 'z) guest_type_scheme \<Rightarrow> guest_mem \<Rightarrow> 'a \<Rightarrow> (guest_mem \<times> vaddr) run" where
  "alloc_and_write T m x = do {
     (m1, p) \<leftarrow> mem_alloc m (gt_size T);
     m2 \<leftarrow> mem_write T m1 p x;
     Some (m2, p) }"

definition u8_type :: "u8 guest_type" where
  "u8_type = \<lparr>gt_size = 1, gt_enc = (\<lambda>x. [x]), gt_dec = (\<lambda>bs. bs ! 0)\<rparr>"

definition alloc_and_write_cstr :: "guest_mem \<Rightarrow> u8 list \<Rightarrow> (guest_mem \<times> vaddr) run" where
  "alloc_and_write_cstr m bs = do {
     len \<leftarrow> (if length bs < 2 ^ 32 then Some (of_nat (length bs)) else None);
     len1 \<leftarrow> add_chk len 1;
     (m1, p) \<leftarrow> mem_alloc m len1;
     m2 \<leftarrow> bytes_at_mut_put m1 p len bs;
     e \<leftarrow> ptr_add 1 p len;
     m3 \<leftarrow> mem_write u8_type m2 e 0;
     Some (m3, p) }"

text \<open>
  The loop of \<open>cstr_at\<close> and \<open>wcstr_at\<close>: the number of elements before the first that is
  \<open>nul\<close>. It ends, since the address overflows sooner or later.
\<close>

lemma add_chk_decreases: "add_chk (i :: u32) 1 = Some j \<Longrightarrow> 2 ^ 32 - unat j < 2 ^ 32 - unat i"
  using unat_bound32 [of i] by (simp add: add_chk_Some)

function nul_loop :: "('a, 'z) guest_type_scheme \<Rightarrow> 'a \<Rightarrow> guest_mem \<Rightarrow> vaddr \<Rightarrow> guest_usize \<Rightarrow> guest_usize run" where
  "nul_loop T nul m p len = do {
     q \<leftarrow> ptr_add (gt_size T) p len;
     c \<leftarrow> mem_read T m q;
     if c = nul then Some len
     else do { len' \<leftarrow> add_chk len 1; nul_loop T nul m p len' } }"
  by auto
termination
  by (relation "measure (\<lambda>(_, _, _, _, i). 2 ^ 32 - unat i)") (auto dest: add_chk_decreases)

declare nul_loop.simps [simp del]

definition cstr_at :: "guest_mem \<Rightarrow> vaddr \<Rightarrow> u8 list run" where
  "cstr_at m p = do { len \<leftarrow> nul_loop u8_type 0 m p 0; bytes_at m p len }"

subsection \<open>Ranges of memory\<close>

lemma in_bounds_nat: "in_bounds p n \<longleftrightarrow> unat p + unat n \<le> 2 ^ 32"
proof -
  have "int (unat p + unat n) \<le> int (2 ^ 32) \<longleftrightarrow> unat p + unat n \<le> 2 ^ 32" by (rule of_nat_le_iff)
  then show ?thesis by (simp add: in_bounds_def)
qed

lemma unat_offset: "unat (p :: u32) + i < 2 ^ 32 \<Longrightarrow> unat (p + of_nat i) = unat p + i"
proof -
  assume b: "unat p + i < 2 ^ 32"
  then have "unat (of_nat i :: u32) = i" by (simp add: unat_of_nat)
  then show ?thesis using b by (subst unat_add_lem [THEN iffD1]) simp_all
qed

lemma word_offset: "(p :: u32) + of_nat i - p = of_nat i"
  by simp

lemma put_range_apply:
  assumes "unat p + length bs \<le> 2 ^ 32" and "length bs < 2 ^ 32"
  shows "put_range f p bs a
    = (if unat p \<le> unat a \<and> unat a < unat p + length bs then bs ! (unat a - unat p) else f a)"
proof -
  have l: "unat (of_nat (length bs) :: u32) = length bs" using assms(2) by (simp add: unat_of_nat)
  show ?thesis
  proof (cases "p \<le> a")
    case True
    then have "unat (a - p) = unat a - unat p" and "unat p \<le> unat a"
      by (simp_all add: unat_sub word_le_nat_alt)
    then show ?thesis by (auto simp: put_range_def word_less_nat_alt l)
  next
    case False
    then have lt: "unat a < unat p" by (simp add: word_le_nat_alt)
    then have "unat (a - p) = unat a + 2 ^ 32 - unat p" by (simp add: unat_sub_if')
    then have "\<not> a - p < of_nat (length bs)"
      using assms(1) lt unat_bound32 [of p] by (simp add: word_less_nat_alt l)
    then show ?thesis using lt by (simp add: put_range_def)
  qed
qed

lemma get_range_length [simp]: "length (get_range f p n) = n"
  by (simp add: get_range_def)

lemma get_range_nth [simp]: "i < n \<Longrightarrow> get_range f p n ! i = f (p + of_nat i)"
  by (simp add: get_range_def)

lemma get_put_same:
  assumes "unat p + length bs \<le> 2 ^ 32" and "length bs < 2 ^ 32"
  shows "get_range (put_range f p bs) p (length bs) = bs"
proof (rule nth_equalityI)
  fix i assume "i < length (get_range (put_range f p bs) p (length bs))"
  then have i: "i < length bs" by simp
  have "unat (p + of_nat i) = unat p + i" using i assms(1) by (intro unat_offset) simp
  then show "get_range (put_range f p bs) p (length bs) ! i = bs ! i"
    using i by (simp add: put_range_apply [OF assms])
qed simp

lemma get_put_other:
  assumes "unat p + length bs \<le> 2 ^ 32" and "length bs < 2 ^ 32" and "unat q + n \<le> 2 ^ 32"
    and "{unat p ..< unat p + length bs} \<inter> {unat q ..< unat q + n} = {}"
  shows "get_range (put_range f p bs) q n = get_range f q n"
proof (rule nth_equalityI)
  fix i assume "i < length (get_range (put_range f p bs) q n)"
  then have i: "i < n" by simp
  have u: "unat (q + of_nat i) = unat q + i" using i assms(3) by (intro unat_offset) simp
  have "unat q + i \<in> {unat q ..< unat q + n}" using i by simp
  then have "unat q + i \<notin> {unat p ..< unat p + length bs}" using assms(4) by blast
  then have "\<not> (unat p \<le> unat q + i \<and> unat q + i < unat p + length bs)" by simp
  then show "get_range (put_range f p bs) q n ! i = get_range f q n ! i"
    unfolding get_range_nth [OF i] put_range_apply [OF assms(1,2)] u by (rule if_not_P)
qed simp

lemma zero_range_apply: "zero_range f p n a = (if unat p \<le> unat a \<and> unat a < unat p + unat n then 0 else f a)"
proof -
  have "int (unat a) < int (unat p + unat n) \<longleftrightarrow> unat a < unat p + unat n" by (rule of_nat_less_iff)
  then have "uint a < uint p + uint n \<longleftrightarrow> unat a < unat p + unat n" by simp
  then show ?thesis by (simp add: zero_range_def word_le_nat_alt)
qed

text \<open>\<open>agree_on S f g\<close>: the two memories agree at the addresses \<open>S\<close>.\<close>

definition agree_on :: "nat set \<Rightarrow> (vaddr \<Rightarrow> u8) \<Rightarrow> (vaddr \<Rightarrow> u8) \<Rightarrow> bool" where
  "agree_on S f g \<longleftrightarrow> (\<forall>a. unat a \<in> S \<longrightarrow> f a = g a)"

lemma agree_on_put:
  "unat p + length bs \<le> 2 ^ 32 \<Longrightarrow> length bs < 2 ^ 32 \<Longrightarrow> S \<inter> {unat p ..< unat p + length bs} = {}
    \<Longrightarrow> agree_on S (put_range f p bs) f"
  by (auto simp: agree_on_def put_range_apply)

lemma agree_on_zero: "S \<inter> {unat p ..< unat p + unat n} = {} \<Longrightarrow> agree_on S (zero_range f p n) f"
  by (auto simp: agree_on_def zero_range_apply)

lemma agree_on_refl [simp]: "agree_on S f f"
  by (simp add: agree_on_def)

lemma agree_on_trans: "agree_on S f g \<Longrightarrow> agree_on S g h \<Longrightarrow> agree_on S f h"
  by (simp add: agree_on_def)

lemma agree_on_mono: "agree_on S f g \<Longrightarrow> R \<subseteq> S \<Longrightarrow> agree_on R f g"
  by (auto simp: agree_on_def)

lemma agree_on_range:
  "agree_on {unat p ..< unat p + n} f g \<Longrightarrow> unat p + n \<le> 2 ^ 32 \<Longrightarrow> get_range f p n = get_range g p n"
proof (rule nth_equalityI)
  fix i assume a: "agree_on {unat p ..< unat p + n} f g" "unat p + n \<le> 2 ^ 32"
    and "i < length (get_range f p n)"
  then have i: "i < n" by simp
  then have "unat (p + of_nat i) = unat p + i" using a(2) by (intro unat_offset) simp
  then show "get_range f p n ! i = get_range g p n ! i" using a(1) i by (simp add: agree_on_def)
qed simp

definition discard_ok :: "host_discard \<Rightarrow> bool" where
  "discard_ok discard \<longleftrightarrow> (\<forall>p n f f'. discard p n f = Some f' \<longrightarrow>
     (\<forall>a. f' a = (if unat p \<le> unat a \<and> unat a < unat p + unat n then 0 else f a)))"

lemma discard_agree:
  "discard_ok discard \<Longrightarrow> discard p n f = Some f' \<Longrightarrow> S \<inter> {unat p ..< unat p + unat n} = {} \<Longrightarrow> agree_on S f' f"
  by (fastforce simp: discard_ok_def agree_on_def)

subsection \<open>Elements of an array in memory\<close>

text \<open>
  \<open>ix\<close> is an index as a machine integer. \<open>elem_at T m p k\<close> is \<open>read(p + k)\<close>, and \<open>set_elem\<close> is \<open>write(p + k, x)\<close>, as all code on
  guest arrays does it. The locale \<open>guest_codec\<close> is what the code relies on in a guest type:
  its encoding has the size of the type and decoding inverts it.
\<close>

definition ix :: "nat \<Rightarrow> guest_usize" where
  "ix i = of_nat i"

lemma unat_ix: "i < 2 ^ 32 \<Longrightarrow> unat (ix i) = i"
  by (simp add: ix_def unat_of_nat)

lemma ix_unat [simp]: "ix (unat w) = w"
  by (simp add: ix_def)

lemma ix_0 [simp]: "ix 0 = 0"
  by (simp add: ix_def)

lemma add_chk_ix: "Suc i < 2 ^ 32 \<Longrightarrow> add_chk (ix i) 1 = Some (ix (Suc i))"
  by (simp add: add_chk_Some unat_ix)

lemma sub_chk_ix: "Suc i < 2 ^ 32 \<Longrightarrow> sub_chk (ix (Suc i)) 1 = Some (ix i)"
  by (simp add: sub_chk_Some unat_ix)

lemma ix_inj: "i < 2 ^ 32 \<Longrightarrow> j < 2 ^ 32 \<Longrightarrow> ix i = ix j \<longleftrightarrow> i = j"
  by (simp add: unat_eq_iff unat_ix)

lemma ix_less: "i < 2 ^ 32 \<Longrightarrow> j < 2 ^ 32 \<Longrightarrow> ix i < ix j \<longleftrightarrow> i < j"
  by (simp add: word_less_nat_alt unat_ix)

definition elem_at :: "('a, 'z) guest_type_scheme \<Rightarrow> guest_mem \<Rightarrow> vaddr \<Rightarrow> guest_usize \<Rightarrow> 'a run" where
  "elem_at T m p k = do { q \<leftarrow> ptr_add (gt_size T) p k; mem_read T m q }"

definition set_elem :: "('a, 'z) guest_type_scheme \<Rightarrow> guest_mem \<Rightarrow> vaddr \<Rightarrow> guest_usize \<Rightarrow> 'a \<Rightarrow> guest_mem run" where
  "set_elem T m p k x = do { q \<leftarrow> ptr_add (gt_size T) p k; mem_write T m q x }"

text \<open>The array of \<open>n\<close> elements at \<open>p\<close> lies in memory, above the null segment.\<close>

definition array_ok :: "('a, 'z) guest_type_scheme \<Rightarrow> guest_mem \<Rightarrow> vaddr \<Rightarrow> nat \<Rightarrow> bool" where
  "array_ok T m p n \<longleftrightarrow> mm_null m \<le> p \<and> unat p + n * unat (gt_size T) \<le> 2 ^ 32"

definition array_bytes :: "('a, 'z) guest_type_scheme \<Rightarrow> vaddr \<Rightarrow> nat \<Rightarrow> nat set" where
  "array_bytes T p n = {unat p ..< unat p + n * unat (gt_size T)}"

definition elem_ptr :: "('a, 'z) guest_type_scheme \<Rightarrow> vaddr \<Rightarrow> nat \<Rightarrow> vaddr" where
  "elem_ptr T p i = p + of_nat (i * unat (gt_size T))"

lemma mul_chk_one: "mul_chk 1 sz = Some (sz :: u32)"
  by (simp add: mul_chk_Some)

locale guest_codec =
  fixes T :: "('a, 'z) guest_type_scheme"
  assumes size_pos: "0 < gt_size T"
    and enc_length: "length (gt_enc T x) = unat (gt_size T)"
    and dec_enc: "gt_dec T (gt_enc T x) = x"
begin

lemma upos: "0 < unat (gt_size T)"
  using size_pos by (simp add: word_less_nat_alt)

lemma elem_ptr_ok:
  assumes "array_ok T m p n" and "i < n"
  shows "unat (elem_ptr T p i) = unat p + i * unat (gt_size T)"
    and "unat (elem_ptr T p i) + unat (gt_size T) \<le> 2 ^ 32" and "mm_null m \<le> elem_ptr T p i"
    and "i < 2 ^ 32" and "ptr_add (gt_size T) p (ix i) = Some (elem_ptr T p i)"
proof -
  have "i * unat (gt_size T) + unat (gt_size T) \<le> n * unat (gt_size T)"
    using assms(2) mult_le_mono1 [of "Suc i" n "unat (gt_size T)"] by simp
  then have b: "unat p + i * unat (gt_size T) + unat (gt_size T) \<le> 2 ^ 32"
    using assms(1) by (simp add: array_ok_def)
  have lt: "unat p + i * unat (gt_size T) < 2 ^ 32" using b upos by linarith
  then show u: "unat (elem_ptr T p i) = unat p + i * unat (gt_size T)"
    unfolding elem_ptr_def by (rule unat_offset)
  with b show "unat (elem_ptr T p i) + unat (gt_size T) \<le> 2 ^ 32" by simp
  show "mm_null m \<le> elem_ptr T p i" using assms(1) u by (simp add: array_ok_def word_le_nat_alt)
  have "i \<le> i * unat (gt_size T)" using upos by simp
  then show i: "i < 2 ^ 32" using lt by linarith
  then have "unat (ix i) = i" by (rule unat_ix)
  then show "ptr_add (gt_size T) p (ix i) = Some (elem_ptr T p i)"
    using u upos by (simp add: ptr_add_Some unat_pos_iff)
qed

lemma read_ok:
  "mm_null m \<le> q \<Longrightarrow> unat q + unat (gt_size T) \<le> 2 ^ 32
    \<Longrightarrow> mem_read T m q = Some (gt_dec T (get_range (mm_bytes m) q (unat (gt_size T))))"
  by (simp add: mem_read_def ptr_at_def mul_chk_one bytes_at_def unchecked_bytes_at_def in_bounds_nat not_less)

lemma write_ok:
  "mm_null m \<le> q \<Longrightarrow> unat q + unat (gt_size T) \<le> 2 ^ 32
    \<Longrightarrow> mem_write T m q x = Some (m\<lparr>mm_bytes := put_range (mm_bytes m) q (gt_enc T x)\<rparr>)"
  using size_pos by (simp add: mem_write_def bytes_at_mut_put_def in_bounds_nat not_less rassert_def)

lemma elem_at_ok:
  assumes "array_ok T m p n" and "i < n"
  shows "elem_at T m p (ix i) = Some (gt_dec T (get_range (mm_bytes m) (elem_ptr T p i) (unat (gt_size T))))"
  using elem_ptr_ok [OF assms] by (simp add: elem_at_def read_ok)

lemma set_elem_ok:
  assumes "array_ok T m p n" and "i < n"
  shows "\<exists>m'. set_elem T m p (ix i) x = Some m' \<and> mm_null m' = mm_null m
    \<and> m' = m\<lparr>mm_bytes := put_range (mm_bytes m) (elem_ptr T p i) (gt_enc T x)\<rparr>"
  using elem_ptr_ok [OF assms] by (simp add: set_elem_def write_ok)

lemma array_ok_mono: "array_ok T m p n \<Longrightarrow> k \<le> n \<Longrightarrow> array_ok T m p k"
proof -
  assume ok: "array_ok T m p n" and "k \<le> n"
  then have "k * unat (gt_size T) \<le> n * unat (gt_size T)" by (intro mult_le_mono1)
  then have "unat p + k * unat (gt_size T) \<le> unat p + n * unat (gt_size T)" by (rule add_left_mono)
  also have "\<dots> \<le> 2 ^ 32" using ok by (simp add: array_ok_def)
  finally show ?thesis using ok unfolding array_ok_def by blast
qed

lemma enc_bound: "length (gt_enc T x) < 2 ^ 32"
  using unat_bound32 [of "gt_size T"] by (simp add: enc_length)

text \<open>Writing an element changes that element and no other of the array.\<close>

lemma elem_set_elem:
  assumes ok: "array_ok T m p n" and i: "i < n" and w: "set_elem T m p (ix i) x = Some m'"
  shows "array_ok T m' p n"
    and "j < n \<Longrightarrow> elem_at T m' p (ix j) = (if j = i then Some x else elem_at T m p (ix j))"
    and "agree_on (- array_bytes T p n) (mm_bytes m') (mm_bytes m)"
    and "mm_null m' = mm_null m" and "mm_heap m' = mm_heap m" and "mm_vm m' = mm_vm m"
proof -
  let ?s = "unat (gt_size T)"
  note e = elem_ptr_ok [OF ok i]
  have m': "m' = m\<lparr>mm_bytes := put_range (mm_bytes m) (elem_ptr T p i) (gt_enc T x)\<rparr>"
    using set_elem_ok [OF ok i] w by auto
  then show ok': "array_ok T m' p n" and "mm_null m' = mm_null m" and "mm_heap m' = mm_heap m" and "mm_vm m' = mm_vm m"
    using ok by (simp_all add: array_ok_def)
  have b: "unat (elem_ptr T p i) + length (gt_enc T x) \<le> 2 ^ 32" using e(2) by (simp add: enc_length)
  show "agree_on (- array_bytes T p n) (mm_bytes m') (mm_bytes m)"
  proof -
    have "i * ?s + ?s \<le> n * ?s" using i mult_le_mono1 [of "Suc i" n ?s] by simp
    then have "- array_bytes T p n \<inter> {unat (elem_ptr T p i) ..< unat (elem_ptr T p i) + length (gt_enc T x)} = {}"
      using e(1) by (auto simp: array_bytes_def enc_length)
    then show ?thesis using m' agree_on_put [OF b enc_bound] by simp
  qed
  assume j: "j < n"
  note ej = elem_ptr_ok [OF ok j]
  show "elem_at T m' p (ix j) = (if j = i then Some x else elem_at T m p (ix j))"
  proof (cases "j = i")
    case True
    then show ?thesis using elem_at_ok [OF ok' j] get_put_same [OF b enc_bound]
      by (simp add: m' enc_length dec_enc)
  next
    case False
    have "{unat (elem_ptr T p i) ..< unat (elem_ptr T p i) + length (gt_enc T x)}
        \<inter> {unat (elem_ptr T p j) ..< unat (elem_ptr T p j) + ?s} = {}"
    proof (cases "i < j")
      case True
      then have "i * ?s + ?s \<le> j * ?s" using mult_le_mono1 [of "Suc i" j ?s] by simp
      then show ?thesis using e(1) ej(1) by (auto simp: enc_length)
    next
      case False
      with \<open>j \<noteq> i\<close> have "j * ?s + ?s \<le> i * ?s" using mult_le_mono1 [of "Suc j" i ?s] by simp
      then show ?thesis using e(1) ej(1) by (auto simp: enc_length)
    qed
    then have "get_range (mm_bytes m') (elem_ptr T p j) ?s = get_range (mm_bytes m) (elem_ptr T p j) ?s"
      unfolding m' using get_put_other [OF b enc_bound ej(2)] by simp
    then show ?thesis using False elem_at_ok [OF ok j] elem_at_ok [OF ok' j] by simp
  qed
qed

text \<open>Elements of an array elsewhere do not change.\<close>

lemma elem_agree:
  assumes ok: "array_ok T m p n" and ok': "array_ok T m' p n" and i: "i < n"
    and agree: "agree_on (array_bytes T p n) (mm_bytes m') (mm_bytes m)"
  shows "elem_at T m' p (ix i) = elem_at T m p (ix i)"
proof -
  let ?s = "unat (gt_size T)"
  note e = elem_ptr_ok [OF ok i]
  have "i * ?s + ?s \<le> n * ?s" using i mult_le_mono1 [of "Suc i" n ?s] by simp
  then have "{unat (elem_ptr T p i) ..< unat (elem_ptr T p i) + ?s} \<subseteq> array_bytes T p n"
    using e(1) by (auto simp: array_bytes_def)
  from agree_on_range [OF agree_on_mono [OF agree this] e(2)]
  show ?thesis using elem_at_ok [OF ok i] elem_at_ok [OF ok' i] by simp
qed

end

text \<open>
  \<open>cells T m p xs\<close>: the array at \<open>p\<close> holds \<open>xs\<close>; \<open>zstring\<close>: \<open>xs\<close> followed by the
  terminator, which does not occur in \<open>xs\<close>.
\<close>

definition cells :: "('a, 'z) guest_type_scheme \<Rightarrow> guest_mem \<Rightarrow> vaddr \<Rightarrow> 'a list \<Rightarrow> bool" where
  "cells T m p xs \<longleftrightarrow> array_ok T m p (length xs) \<and> (\<forall>i < length xs. elem_at T m p (ix i) = Some (xs ! i))"

definition zstring :: "('a, 'z) guest_type_scheme \<Rightarrow> 'a \<Rightarrow> guest_mem \<Rightarrow> vaddr \<Rightarrow> 'a list \<Rightarrow> bool" where
  "zstring T nul m p xs \<longleftrightarrow> nul \<notin> set xs \<and> length xs + 1 < 2 ^ 32 \<and> cells T m p (xs @ [nul])"

context guest_codec
begin

lemma cells_nth: "cells T m p xs \<Longrightarrow> i < length xs \<Longrightarrow> elem_at T m p (ix i) = Some (xs ! i)"
  by (simp add: cells_def)

lemma cells_bound: "cells T m p xs \<Longrightarrow> i < length xs \<Longrightarrow> i < 2 ^ 32"
  unfolding cells_def by (blast intro: elem_ptr_ok(4))

lemma cells_ptr: "cells T m p xs \<Longrightarrow> i < length xs \<Longrightarrow> ptr_add (gt_size T) p (ix i) = Some (elem_ptr T p i)"
  unfolding cells_def by (blast intro: elem_ptr_ok(5))

lemma cells_read: "cells T m p xs \<Longrightarrow> i < length xs \<Longrightarrow> mem_read T m (elem_ptr T p i) = Some (xs ! i)"
  using cells_nth [of m p xs i] cells_ptr [of m p xs i] by (simp add: elem_at_def)

lemma cells_append: "cells T m p (xs @ ys) \<Longrightarrow> cells T m p xs"
  using array_ok_mono [of m p "length (xs @ ys)" "length xs"]
  by (auto simp: cells_def nth_append)

text \<open>Writing one cell, and writes elsewhere.\<close>

lemma cells_set:
  assumes "cells T m p xs" and "i < length xs"
  shows "\<exists>m'. set_elem T m p (ix i) x = Some m' \<and> cells T m' p (xs[i := x])
    \<and> agree_on (- array_bytes T p (length xs)) (mm_bytes m') (mm_bytes m)
    \<and> mm_null m' = mm_null m \<and> mm_heap m' = mm_heap m \<and> mm_vm m' = mm_vm m"
proof -
  have ok: "array_ok T m p (length xs)" using assms(1) by (simp add: cells_def)
  obtain m' where m': "set_elem T m p (ix i) x = Some m'" using set_elem_ok [OF ok assms(2)] by blast
  have "cells T m' p (xs[i := x])"
    using elem_set_elem(1,2) [OF ok assms(2) m'] assms by (auto simp: cells_def nth_list_update)
  with m' elem_set_elem(3-6) [OF ok assms(2) m'] show ?thesis by blast
qed

lemma cells_agree:
  assumes "cells T m p xs" and "agree_on (array_bytes T p (length xs)) (mm_bytes m') (mm_bytes m)"
    and "mm_null m' = mm_null m"
  shows "cells T m' p xs"
proof -
  have ok: "array_ok T m p (length xs)" using assms(1) by (simp add: cells_def)
  then have ok': "array_ok T m' p (length xs)" using assms(3) by (simp add: array_ok_def)
  show ?thesis using elem_agree [OF ok ok' _ assms(2)] assms(1) ok' by (simp add: cells_def)
qed

lemma nul_loop_law:
  assumes z: "zstring T nul m p xs" and "i \<le> length xs"
  shows "nul_loop T nul m p (ix i) = Some (ix (length xs))"
  using assms(2)
proof (induction "length xs - i" arbitrary: i)
  case 0
  then have i: "i = length xs" by simp
  have c: "cells T m p (xs @ [nul])" using z by (simp add: zstring_def)
  show ?case using cells_ptr [OF c, of i] cells_read [OF c, of i] i by (subst nul_loop.simps) simp
next
  case (Suc k)
  then have i: "i < length xs" by simp
  have c: "cells T m p (xs @ [nul])" using z by (simp add: zstring_def)
  have ne: "xs ! i \<noteq> nul" using z i nth_mem by (fastforce simp: zstring_def)
  have "Suc i < 2 ^ 32" using cells_bound [OF c, of "Suc i"] i by simp
  moreover have "nul_loop T nul m p (ix (Suc i)) = Some (ix (length xs))" using Suc i by simp
  ultimately show ?case using cells_ptr [OF c, of i] cells_read [OF c, of i] i ne
    by (subst nul_loop.simps) (simp add: nth_append add_chk_ix)
qed

end

interpretation u8c: guest_codec u8_type
  by unfold_locales (simp_all add: u8_type_def)

subsection \<open>The default heap\<close>

text \<open>
  The invariant of the memory: the allocators' invariant, and that nothing in the null segment
  can be handed out.
\<close>

definition mem_reach :: "guest_mem \<Rightarrow> nat set" where
  "mem_reach m = (case mm_heap m of None \<Rightarrow> vm_free_bytes (mm_vm m) | Some h \<Rightarrow> hp_reach (mm_vm m) h)"

definition mem_inv :: "guest_mem \<Rightarrow> bool" where
  "mem_inv m \<longleftrightarrow> (case mm_heap m of None \<Rightarrow> vm_inv (mm_vm m) | Some h \<Rightarrow> hp_inv (mm_vm m) h) \<and>
     mem_reach m \<inter> {0 ..< unat (mm_null m)} = {}"

definition mem_live :: "guest_mem \<Rightarrow> chunk set" where
  "mem_live m = (case mm_heap m of None \<Rightarrow> {} | Some h \<Rightarrow> hp_live h)"

text \<open>\<open>same_but_heap m m'\<close>: only the allocators differ.\<close>

definition same_but_heap :: "guest_mem \<Rightarrow> guest_mem \<Rightarrow> bool" where
  "same_but_heap m m' \<longleftrightarrow> mm_bytes m' = mm_bytes m \<and> mm_null m' = mm_null m"

lemma mem_live_ok: "mem_inv m \<Longrightarrow> chunks_ok (mem_live m)"
  by (auto simp: mem_inv_def mem_live_def hp_live_ok split: option.splits)

lemma mem_live_reach: "mem_inv m \<Longrightarrow> bytes_of (mem_live m) \<subseteq> mem_reach m"
  using hp_live_reach by (auto simp: mem_inv_def mem_live_def mem_reach_def split: option.splits)

lemma mem_live_above_null:
  assumes "mem_inv m" and "c \<in> mem_live m"
  shows "mm_null m \<le> ch_base c" and "chunk_wf c"
proof -
  show wf: "chunk_wf c" using chunks_ok_wf mem_live_ok assms by blast
  then have "ch_lo c \<in> mem_reach m"
    using chunk_lo_in chunk_subset_bytes [OF assms(2)] mem_live_reach [OF assms(1)] by blast
  then show "mm_null m \<le> ch_base c" using assms(1) by (auto simp: mem_inv_def ch_lo_def word_le_nat_alt)
qed

text \<open>The default heap, created or not yet: every operation of it starts from this state.\<close>

lemma default_heap:
  assumes inv: "mem_inv m" and run: "allocators_mut m None op = Some (m', heap', x)"
  shows "\<exists>vm h vm' h'. hp_inv vm h \<and> hp_live h = mem_live m \<and> hp_reach vm h = mem_reach m
    \<and> op vm h = Some (vm', h', x) \<and> heap' = None \<and> m' = m\<lparr>mm_vm := vm', mm_heap := Some h'\<rparr>
    \<and> (mm_heap m \<noteq> None \<longrightarrow> vm = mm_vm m \<and> mm_heap m = Some h)"
proof (cases "mm_heap m")
  case None
  then obtain vm h vm' h' where h: "hp_new (mm_vm m) HEAP_CHUNK_SIZE = Some (vm, h)" "op vm h = Some (vm', h', x)"
      "heap' = None" "m' = m\<lparr>mm_vm := vm', mm_heap := Some h'\<rparr>"
    using run by (auto simp: allocators_mut_def bind_Some_iff)
  have "vm_inv (mm_vm m)" using inv None by (simp add: mem_inv_def)
  from hp_new_step [OF this h(1)] h None show ?thesis
    by (intro exI [of _ vm] exI [of _ h] exI [of _ vm'] exI [of _ h']) (simp add: mem_live_def mem_reach_def)
next
  case (Some h)
  then show ?thesis using run inv
    by (auto simp: allocators_mut_def bind_Some_iff mem_inv_def mem_live_def mem_reach_def)
qed

lemma mem_inv_update:
  assumes "mem_inv m" and "hp_inv vm' h'" and "hp_reach vm' h' = mem_reach m"
  shows "mem_inv (m\<lparr>mm_vm := vm', mm_heap := Some h'\<rparr>)"
  using assms by (simp add: mem_inv_def mem_reach_def)

lemma mem_inv_cong:
  "mm_heap m' = mm_heap m \<Longrightarrow> mm_vm m' = mm_vm m \<Longrightarrow> mm_null m' = mm_null m
    \<Longrightarrow> mem_inv m' = mem_inv m \<and> mem_live m' = mem_live m"
  by (cases "mm_heap m") (simp_all add: mem_inv_def mem_reach_def mem_live_def)

lemma alloc_in_heap_law:
  assumes inv: "mem_inv m" and run: "alloc_in_heap m None n = Some (m', heap', p)"
  shows "\<exists>c. p = ch_base c \<and> heap' = None \<and> mem_inv m' \<and> same_but_heap m m' \<and> unat n \<le> unat (ch_size c)
    \<and> chunk_bytes c \<inter> bytes_of (mem_live m) = {} \<and> mem_live m' = insert c (mem_live m)"
proof -
  obtain c where a: "allocators_mut m None (\<lambda>vm h. hp_alloc vm h n) = Some (m', heap', Some c)" "p = ch_base c"
    using run by (auto simp: alloc_in_heap_def bind_Some_iff)
  obtain vm h vm' h' where h: "hp_inv vm h" "hp_live h = mem_live m" "hp_reach vm h = mem_reach m"
      "hp_alloc vm h n = Some (vm', h', Some c)" "heap' = None" "m' = m\<lparr>mm_vm := vm', mm_heap := Some h'\<rparr>"
    using default_heap [OF inv a(1)] by blast
  have al: "hp_allocated vm h c vm' h'" "unat n \<le> unat (ch_size c)" using hp_alloc_step [OF h(1,4)] by simp_all
  have "mem_inv m'" unfolding h(6) using mem_inv_update [OF inv] al(1) h(3) by (simp add: hp_allocated_def)
  moreover have "mem_live m' = insert c (mem_live m)" using al(1) h(2,6) by (simp add: hp_allocated_def mem_live_def)
  ultimately show ?thesis using al h(2,5,6) a(2) by (auto simp: hp_allocated_def same_but_heap_def)
qed

lemma malloc_size_law:
  assumes inv: "mem_inv m" and run: "malloc_size_in_heap_or_panic m None p = Some (m', heap', n)"
  shows "mem_inv m' \<and> same_but_heap m m' \<and> heap' = None \<and> mem_live m' = mem_live m \<and> mk_chunk (p, n) \<in> mem_live m"
proof -
  obtain vm h vm' h' where h: "hp_inv vm h" "hp_live h = mem_live m" "hp_reach vm h = mem_reach m"
      "do { n \<leftarrow> hp_find_allocated_size h p; Some (vm, h, n) } = Some (vm', h', n)" "heap' = None"
      "m' = m\<lparr>mm_vm := vm', mm_heap := Some h'\<rparr>"
    using default_heap [OF inv run [unfolded malloc_size_in_heap_or_panic_def]] by blast
  have eq: "vm' = vm" "h' = h" "hp_allocated_size h p = Some n"
    using h(4) by (auto simp: bind_Some_iff hp_find_allocated_size_def)
  have "mk_chunk (p, n) \<in> mem_live m" using hp_allocated_size_law [OF h(1)] eq(3) h(2) by simp
  moreover have "mem_inv m'" unfolding h(6) eq using mem_inv_update [OF inv h(1)] h(3) by simp
  ultimately show ?thesis using h(2,5,6) eq by (simp add: same_but_heap_def mem_live_def)
qed

lemma free_in_heap_law:
  assumes inv: "mem_inv m" and c: "c \<in> mem_live m" and d: "discard_ok discard"
    and run: "free_in_heap discard m None (ch_base c) = Some (m', heap')"
  shows "mem_inv m' \<and> heap' = None \<and> mem_live m' = mem_live m - {c} \<and> mm_null m' = mm_null m
    \<and> agree_on (- chunk_bytes c) (mm_bytes m') (mm_bytes m)"
proof -
  obtain m1 n where a: "allocators_mut m None (\<lambda>vm h. hp_free vm h (ch_base c)) = Some (m1, heap', n)"
    and m': "m' = m1 \<or> (\<exists>f. discard (ch_base c) n (mm_bytes m1) = Some f \<and> m' = m1\<lparr>mm_bytes := f\<rparr>)"
    using run by (auto simp: free_in_heap_def bind_Some_iff split: if_splits)
  obtain vm h vm' h' where h: "hp_inv vm h" "hp_live h = mem_live m" "hp_reach vm h = mem_reach m"
      "hp_free vm h (ch_base c) = Some (vm', h', n)" "heap' = None" "m1 = m\<lparr>mm_vm := vm', mm_heap := Some h'\<rparr>"
    using default_heap [OF inv a] by blast
  have "c \<in> hp_live h" using c h(2) by simp
  from hp_free_live [OF h(1) this] h(4) have f: "n = ch_size c" "hp_freed vm h c vm' h'" by auto
  have inv1: "mem_inv m1" unfolding h(6) using mem_inv_update [OF inv] f(2) h(3) by (simp add: hp_freed_def)
  have live1: "mem_live m1 = mem_live m - {c}" using f(2) h(2,6) by (simp add: hp_freed_def mem_live_def)
  have cb: "{unat (ch_base c) ..< unat (ch_base c) + unat (ch_size c)} = chunk_bytes c"
    by (simp add: chunk_bytes_def ch_lo_def ch_hi_def)
  have "agree_on (- chunk_bytes c) (mm_bytes m') (mm_bytes m)"
    using m' discard_agree [OF d, of "ch_base c" n "mm_bytes m1" _ "- chunk_bytes c"] f(1) cb h(6) by auto
  moreover have "mem_inv m'" "mem_live m' = mem_live m1" "mm_null m' = mm_null m"
    using m' inv1 h(6) by (auto simp: mem_inv_def mem_reach_def mem_live_def)
  ultimately show ?thesis using live1 h(5) by simp
qed

lemma memmove_law:
  assumes "mem_memmove m dest src n = Some m'"
  shows "same_but_heap (m\<lparr>mm_bytes := mm_bytes m'\<rparr>) m' \<and> mm_heap m' = mm_heap m \<and> mm_vm m' = mm_vm m
    \<and> get_range (mm_bytes m') dest (unat n) = get_range (mm_bytes m) src (unat n)
    \<and> agree_on (- {unat dest ..< unat dest + unat n}) (mm_bytes m') (mm_bytes m)"
proof -
  let ?bs = "get_range (mm_bytes m) src (unat n)"
  have b: "in_bounds dest n" and m': "m' = m\<lparr>mm_bytes := put_range (mm_bytes m) dest ?bs\<rparr>"
    using assms by (simp_all add: mem_memmove_def split: if_splits)
  have b1: "unat dest + length ?bs \<le> 2 ^ 32" and b2: "length ?bs < 2 ^ 32"
    using b unat_bound32 [of n] by (simp_all add: in_bounds_nat)
  have "get_range (mm_bytes m') dest (unat n) = ?bs" using get_put_same [OF b1 b2] by (simp add: m')
  moreover have "agree_on (- {unat dest ..< unat dest + unat n}) (mm_bytes m') (mm_bytes m)"
    using agree_on_put [OF b1 b2] by (simp add: m')
  ultimately show ?thesis by (simp add: m' same_but_heap_def)
qed

lemma mem_new_law: "mem_new = Some m \<Longrightarrow> mem_inv m \<and> mem_live m = {} \<and> mm_heap m = None \<and> mm_null m = 0"
proof -
  assume "mem_new = Some m"
  then obtain vm where vm: "vm_new 0 (0 - 1024 * 1024) = Some vm" "m = \<lparr>mm_bytes = (\<lambda>_. 0), mm_null = 0, mm_heap = None, mm_vm = vm\<rparr>"
    by (auto simp: mem_new_def bind_Some_iff)
  have eq: "(0 - 1024 * 1024 :: u32) = 0xFFF00000" by simp
  have "vm_inv vm" using vm_new_law [of "0xFFF00000" 0] vm(1) [unfolded eq] by simp
  then show ?thesis using vm(2) by (simp add: mem_inv_def mem_live_def mem_reach_def)
qed

lemma hp_inv_vm_grow: "hp_inv vm h \<Longrightarrow> vm_inv vm' \<Longrightarrow> vm_used_set vm \<subseteq> vm_used_set vm' \<Longrightarrow> hp_inv vm' h"
  by (auto simp: hp_inv_def)

lemma set_null_segment_size_law:
  assumes inv: "mem_inv m" and run: "set_null_segment_size m n = Some m'"
  shows "mem_inv m' \<and> mm_null m' = n \<and> mem_live m' = mem_live m \<and> mm_bytes m' = mm_bytes m \<and> mm_heap m' = mm_heap m"
proof -
  obtain vm r c where v: "vm_allocate (mm_vm m) (Some 0) n = Some (vm, Inr c)" "r = Inr c"
      "m' = m\<lparr>mm_vm := vm, mm_null := n\<rparr>" and mult: "is_multiple_of n PAGE_SIZE"
    using run by (auto simp: set_null_segment_size_def bind_Some_iff rassert_Some ok_or_panic_Some)
  have vinv: "vm_inv (mm_vm m)" using inv hp_invD(1) by (auto simp: mem_inv_def split: option.splits)
  have al: "vm_allocated (mm_vm m) c vm" using vm_allocate_step [OF vinv v(1)] by simp
  have n: "next_multiple_of n PAGE_SIZE = Some n" using mult by (simp add: page_round page_multiple)
  have pf: "page_floor 0 = 0" by (simp add: unat_eq_iff page_floor_unat)
  have "vm_allocate_at (mm_vm m) 0 n = Some (vm, Inr c)" using v(1) n pf by (simp add: vm_allocate_def)
  then have "chunk_new 0 n = Some c" by (auto simp: vm_allocate_at_def bind_Some_iff split: option.splits)
  then have cb: "chunk_bytes c = {0 ..< unat n}" by (simp add: chunk_bytes_def chunk_new_Some)
  have free: "vm_free_bytes vm = vm_free_bytes (mm_vm m) - {0 ..< unat n}" and sub: "{0 ..< unat n} \<subseteq> vm_free_bytes (mm_vm m)"
    using al cb by (simp_all add: vm_allocated_def)
  have dj: "vm_used_bytes (mm_vm m) \<inter> {0 ..< unat n} = {}" using sub vinv by (auto simp: vm_inv_def)
  show ?thesis
  proof (cases "mm_heap m")
    case None
    then show ?thesis using al v(3) free by (auto simp: mem_inv_def mem_reach_def mem_live_def vm_allocated_def)
  next
    case (Some h)
    then have h: "hp_inv (mm_vm m) h" using inv by (simp add: mem_inv_def)
    have "bytes_of (set (hp_backing h) \<union> cm_set (hp_external h)) \<subseteq> vm_used_bytes (mm_vm m)"
      unfolding vm_used_bytes_def using hp_invD(10) [OF h] by (rule bytes_of_mono)
    then have "hp_reach vm h \<inter> {0 ..< unat n} = {}" using dj free by (auto simp: hp_reach_def)
    moreover have "hp_inv vm h" using hp_inv_vm_grow [OF h] al by (auto simp: vm_allocated_def)
    ultimately show ?thesis using v(3) Some by (simp add: mem_inv_def mem_reach_def mem_live_def)
  qed
qed

subsection \<open>Properties\<close>

lemma chunk_bytes_mk: "chunk_bytes c = {unat (ch_base c) ..< unat (ch_base c) + unat (ch_size c)}"
  by (simp add: chunk_bytes_def ch_lo_def ch_hi_def)

lemma chunk_range_fits: "chunk_wf c \<Longrightarrow> k \<le> unat (ch_size c) \<Longrightarrow> unat (ch_base c) + k \<le> 2 ^ 32"
  by (simp add: chunk_wf_def ch_hi_def)

text \<open>C7: realloc of a live allocation that returns at all yields a live allocation of at least
  the requested size whose contents, up to the smaller of the old size and the request, are those
  of the old one; the old allocation is gone unless it is the result, every other allocation is
  still live, and no byte of it has changed.\<close>

theorem realloc_preserves_contents:
  assumes inv: "mem_inv m" and c: "c \<in> mem_live m" "ch_base c \<noteq> 0" and d: "discard_ok discard"
    and run: "realloc_in_heap discard m None (ch_base c) n = Some (m', heap', q)"
  shows "\<exists>c'. q = ch_base c' \<and> unat n \<le> unat (ch_size c') \<and> mem_inv m'
    \<and> mem_live m' = insert c' (mem_live m - {c})
    \<and> (let k = min (unat n) (unat (ch_size c)) in
        get_range (mm_bytes m') q k = get_range (mm_bytes m) (ch_base c) k)
    \<and> (\<forall>e \<in> mem_live m - {c}. agree_on (chunk_bytes e) (mm_bytes m') (mm_bytes m))"
proof -
  obtain m1 heap1 old_size where sz: "malloc_size_in_heap_or_panic m None (ch_base c) = Some (m1, heap1, old_size)"
    using run c(2) by (auto simp: realloc_in_heap_def bind_Some_iff)
  have s: "mem_inv m1" "same_but_heap m m1" "heap1 = None" "mem_live m1 = mem_live m" "mk_chunk (ch_base c, old_size) \<in> mem_live m"
    using malloc_size_law [OF inv sz] by blast+
  have "mk_chunk (ch_base c, old_size) = c" using chunks_ok_base [OF mem_live_ok [OF inv] s(5) c(1)] by simp
  then have old: "old_size = ch_size c" by (metis mk_chunk_simps(2) snd_conv)
  have wf: "chunk_wf c" using mem_live_above_null(2) [OF inv c(1)] .
  show ?thesis
  proof (cases "n \<le> old_size")
    case True
    then have "m' = m1" "q = ch_base c" using run c(2) sz s(3) by (auto simp: realloc_in_heap_def)
    then show ?thesis using True s c(1) old
      by (intro exI [of _ c]) (auto simp: same_but_heap_def word_le_nat_alt Let_def min_def)
  next
    case False
    obtain m2 heap2 new m3 heap3 where r: "alloc_in_heap m1 None n = Some (m2, heap2, new)"
        "mem_memmove m2 new (ch_base c) old_size = Some m3" "free_in_heap discard m3 heap2 (ch_base c) = Some (m', heap3)"
        "q = new"
      using run c(2) sz s(3) False by (auto simp: realloc_in_heap_def bind_Some_iff)
    obtain c' where a: "new = ch_base c'" "heap2 = None" "mem_inv m2" "same_but_heap m1 m2" "unat n \<le> unat (ch_size c')"
        "chunk_bytes c' \<inter> bytes_of (mem_live m1) = {}" "mem_live m2 = insert c' (mem_live m1)"
      using alloc_in_heap_law [OF s(1) r(1)] by blast
    note mv = memmove_law [OF r(2)]
    have inv3: "mem_inv m3" and live3: "mem_live m3 = mem_live m2"
      using mv a(3) mem_inv_cong [of m3 m2] by (simp_all add: same_but_heap_def)
    have c3: "c \<in> mem_live m3" using live3 a(7) s(4) c(1) by simp
    have f: "mem_inv m'" "mem_live m' = mem_live m3 - {c}" "agree_on (- chunk_bytes c) (mm_bytes m') (mm_bytes m3)"
      using free_in_heap_law [OF inv3 c3 d] r(3) a(2) by blast+
    have wf': "chunk_wf c'" using mem_live_above_null(2) [OF a(3)] a(7) by blast
    have dj: "chunk_bytes c' \<inter> chunk_bytes c = {}" using a(6) chunk_subset_bytes [OF c(1)] unfolding s(4) by blast
    then have ne: "c' \<noteq> c" using chunk_bytes_nonempty [OF wf] by blast
    have k: "min (unat n) (unat (ch_size c)) = unat old_size" using False old by (simp add: word_le_nat_alt)
    have le: "unat old_size \<le> unat (ch_size c')" using False a(5) by (simp add: word_le_nat_alt)
    have sub: "{unat new ..< unat new + unat old_size} \<subseteq> chunk_bytes c'" using a(1) le by (auto simp: chunk_bytes_mk)
    have "get_range (mm_bytes m') new (unat old_size) = get_range (mm_bytes m3) new (unat old_size)"
    proof (rule agree_on_range)
      show "agree_on {unat new ..< unat new + unat old_size} (mm_bytes m') (mm_bytes m3)"
        using agree_on_mono [OF f(3)] sub dj by blast
      show "unat new + unat old_size \<le> 2 ^ 32" using chunk_range_fits [OF wf' le] a(1) by simp
    qed
    then have copy: "get_range (mm_bytes m') q (unat old_size) = get_range (mm_bytes m) (ch_base c) (unat old_size)"
      using mv a(4) s(2) r(4) by (simp add: same_but_heap_def)
    have others: "agree_on (chunk_bytes e) (mm_bytes m') (mm_bytes m)" if e: "e \<in> mem_live m - {c}" for e
    proof -
      have em: "e \<in> mem_live m" "e \<noteq> c" using e by simp_all
      have ec: "chunk_bytes e \<inter> chunk_bytes c = {}"
        by (rule chunks_ok_disjoint [OF mem_live_ok [OF inv] em(1) c(1) em(2)])
      have ec': "chunk_bytes e \<inter> chunk_bytes c' = {}"
        using a(6) chunk_subset_bytes [OF em(1)] unfolding s(4) by blast
      have "chunk_bytes e \<subseteq> - chunk_bytes c" "chunk_bytes e \<subseteq> - {unat new ..< unat new + unat old_size}"
        using ec ec' sub by auto
      then have 1: "agree_on (chunk_bytes e) (mm_bytes m') (mm_bytes m3)"
        and 2: "agree_on (chunk_bytes e) (mm_bytes m3) (mm_bytes m2)"
        using agree_on_mono [OF f(3)] agree_on_mono [OF mv [THEN conjunct2, THEN conjunct2, THEN conjunct2, THEN conjunct2]]
        by simp_all
      have "mm_bytes m2 = mm_bytes m" using a(4) s(2) by (simp add: same_but_heap_def)
      then show ?thesis using agree_on_trans [OF 1 2] by simp
    qed
    have "mem_live m' = insert c' (mem_live m - {c})" using f(2) live3 a(7) s(4) ne by auto
    then show ?thesis using a(1,5) r(4) f(1) copy k others by (intro exI [of _ c']) (simp add: Let_def)
  qed
qed

text \<open>A memory as a loaded application finds it: a null segment of one page.\<close>

definition booted :: guest_mem where
  "booted = the (do { m \<leftarrow> mem_new; set_null_segment_size m 0x1000 })"

lemma booted_run: "\<exists>m. mem_new = Some m \<and> set_null_segment_size m 0x1000 = Some booted"
proof -
  have "map_option (\<lambda>_. ()) (do { m \<leftarrow> mem_new; set_null_segment_size m 0x1000 }) = Some ()" by code_simp
  then obtain m m' where "mem_new = Some m" "set_null_segment_size m 0x1000 = Some m'" by (auto simp: bind_Some_iff)
  moreover from this have "do { m \<leftarrow> mem_new; set_null_segment_size m 0x1000 } = Some m'" by (metis bind.bind_lunit)
  then have "booted = m'" by (simp only: booted_def option.sel)
  ultimately show ?thesis by blast
qed

lemma booted_inv: "mem_inv booted" and booted_null: "mm_null booted = 0x1000"
  using booted_run mem_new_law set_null_segment_size_law by blast+

theorem realloc_preserves_contents_witness:
  "\<exists>m1 p m2 q (c' :: chunk). alloc_in_heap booted None 16 = Some (m1, None, p)
    \<and> realloc_in_heap (\<lambda>p n f. Some (zero_range f p n)) m1 None p 40 = Some (m2, None, q)
    \<and> q = ch_base c' \<and> 40 \<le> unat (ch_size c') \<and> get_range (mm_bytes m2) q 16 = get_range (mm_bytes m1) p 16"
proof -
  let ?d = "\<lambda>p n f. Some (zero_range f p n)"
  have "map_option (\<lambda>(m, _, p). p) (alloc_in_heap booted None 16) = Some 0x1000" unfolding booted_def by code_simp
  then obtain m1 h1 where a: "alloc_in_heap booted None 16 = Some (m1, h1, 0x1000)" by auto
  obtain c where c: "0x1000 = ch_base c" "h1 = None" "mem_inv m1" "c \<in> mem_live m1"
    using alloc_in_heap_law [OF booted_inv a] by blast
  have "(do { (m, _, p) \<leftarrow> alloc_in_heap booted None 16; (m, _, q) \<leftarrow> realloc_in_heap ?d m None p 40;
              (m3, _, n) \<leftarrow> malloc_size_in_heap m None 0; Some (q, n) }) = Some (0x1010, 0)"
    unfolding booted_def by code_simp
  then obtain m2 h2 where r: "realloc_in_heap ?d m1 None (ch_base c) 40 = Some (m2, h2, 0x1010)"
    using a c(1) by (auto simp: bind_Some_iff)
  have sz: "map_option (\<lambda>(_, _, n). n) (do { (m, _, p) \<leftarrow> alloc_in_heap booted None 16; malloc_size_in_heap_or_panic m None p })
      = Some 16" unfolding booted_def by code_simp
  have d: "discard_ok ?d" by (simp add: discard_ok_def zero_range_apply)
  have "ch_base c \<noteq> 0" using c(1) by auto
  from realloc_preserves_contents [OF c(3,4) this d r]
  obtain c' :: chunk where c': "0x1010 = ch_base c'" "unat (40 :: u32) \<le> unat (ch_size c')"
      "get_range (mm_bytes m2) 0x1010 (min (unat (40 :: u32)) (unat (ch_size c)))
       = get_range (mm_bytes m1) (ch_base c) (min (unat (40 :: u32)) (unat (ch_size c)))" unfolding Let_def by blast
  have "ch_size c = 16"
  proof -
    from sz a obtain x y where "malloc_size_in_heap_or_panic m1 None 0x1000 = Some (x, y, 16)" by (auto simp: bind_Some_iff)
    from malloc_size_law [OF c(3) this] have "mk_chunk (0x1000, 16) \<in> mem_live m1" by blast
    then have "mk_chunk (0x1000, 16) = c" using chunks_ok_base [OF mem_live_ok [OF c(3)] _ c(4)] c(1) by simp
    then show ?thesis by (metis mk_chunk_simps(2) snd_conv)
  qed
  have h2: "h2 = None" using r c(2) by (auto simp: realloc_in_heap_def free_in_heap_def alloc_in_heap_def
      malloc_size_in_heap_or_panic_def allocators_mut_def bind_Some_iff split: if_splits option.splits)
  show ?thesis
    by (rule exI [of _ m1], rule exI [of _ "0x1000"], rule exI [of _ m2], rule exI [of _ "0x1010"], rule exI [of _ c'])
      (use a c(1,2) r h2 c' \<open>ch_size c = 16\<close> in simp)
qed

end
