(* ===== verification/Generic_Char.thy ===== *)
theory Generic_Char
  imports Guest_Mem
begin

text \<open>
  \<open>GenericChar\<close> of \<open>src/libc/generic_char.rs\<close>: the C string functions for \<open>char\<close> and
  \<open>wchar_t\<close>. The trait bounds on the element type are the record \<open>char_type\<close>: its encoding,
  its default value (the terminator) and its order. The locale \<open>char_codec\<close> states what the
  functions rely on; each function is proved against its definition on lists there, and the
  locale is interpreted for both element types. Pointers are checked, so every loop ends.
\<close>

subsection \<open>Element types\<close>

record 'a char_type = "'a guest_type" +
  ct_null :: 'a
  ct_less :: "'a \<Rightarrow> 'a \<Rightarrow> bool"

definition u8_char :: "u8 char_type" where
  "u8_char = \<lparr>gt_size = 1, gt_enc = (\<lambda>x. [x]), gt_dec = (\<lambda>bs. bs ! 0), ct_null = 0, ct_less = (<)\<rparr>"

text \<open>\<open>wchar_t\<close> is \<open>i32\<close>, little-endian, ordered as a signed integer.\<close>

definition le_enc :: "nat \<Rightarrow> 'a::len word \<Rightarrow> u8 list" where
  "le_enc n w = map (\<lambda>i. ucast (drop_bit (8 * i) w)) [0..<n]"

definition le_dec :: "u8 list \<Rightarrow> 'a::len word" where
  "le_dec bs = foldr (\<lambda>b acc. ucast b OR push_bit 8 acc) bs 0"

lemma bit_le_dec:
  "bit (le_dec bs :: 'a::len word) k \<longleftrightarrow> k < LENGTH('a) \<and> k div 8 < length bs \<and> bit (bs ! (k div 8)) (k mod 8)"
proof (induction bs arbitrary: k)
  case Nil
  then show ?case by (simp add: le_dec_def)
next
  case (Cons b bs)
  have eq: "le_dec (b # bs) = (ucast b OR push_bit 8 (le_dec bs) :: 'a word)" by (simp add: le_dec_def)
  show ?case
  proof (cases "k < 8")
    case True
    then show ?thesis by (auto simp: eq bit_simps)
  next
    case False
    then obtain j where j: "k = j + 8" by (metis le_Suc_ex not_less add.commute)
    then have "\<not> bit b k" using bit_imp_le_length [of b k] False by auto
    moreover have "(j + 8) div 8 = Suc (j div 8)" by simp
    ultimately show ?thesis using j Cons.IH [of j] by (auto simp: eq bit_simps simp del: div_add_self2)
  qed
qed

lemma le_enc_length [simp]: "length (le_enc n w) = n"
  by (simp add: le_enc_def)

lemma le_dec_enc: "LENGTH('a) = 8 * n \<Longrightarrow> le_dec (le_enc n w) = (w :: 'a::len word)"
proof (rule bit_word_eqI)
  fix k assume n: "LENGTH('a) = 8 * n" and k: "k < LENGTH('a)"
  then have "k div 8 < n" by (simp add: less_mult_imp_div_less mult.commute)
  then show "bit (le_dec (le_enc n w) :: 'a word) k \<longleftrightarrow> bit w k"
    using k by (auto simp: bit_le_dec le_enc_def bit_simps bit_imp_le_length)
qed

definition wchar_char :: "u32 char_type" where
  "wchar_char = \<lparr>gt_size = 4, gt_enc = le_enc 4, gt_dec = le_dec, ct_null = 0,
     ct_less = (\<lambda>a b. sint a < sint b)\<rparr>"

text \<open>\<open>Ord::cmp\<close>.\<close>

datatype ordering = Lt | Eq | Gt

definition ct_cmp :: "('a, 'z) char_type_scheme \<Rightarrow> 'a \<Rightarrow> 'a \<Rightarrow> ordering" where
  "ct_cmp T a b = (if ct_less T a b then Lt else if ct_less T b a then Gt else Eq)"

subsection \<open>Memory functions\<close>

fun memset_loop :: "('a, 'z) char_type_scheme \<Rightarrow> vaddr \<Rightarrow> 'a \<Rightarrow> nat \<Rightarrow> nat \<Rightarrow> guest_mem \<Rightarrow> guest_mem run" where
  "memset_loop T dest ch i 0 m = Some m"
| "memset_loop T dest ch i (Suc k) m = do {
     m' \<leftarrow> set_elem T m dest (ix i) ch;
     memset_loop T dest ch (Suc i) k m' }"

definition gc_memset ::
  "('a, 'z) char_type_scheme \<Rightarrow> guest_mem \<Rightarrow> vaddr \<Rightarrow> 'a \<Rightarrow> guest_usize \<Rightarrow> guest_usize \<Rightarrow> (guest_mem \<times> vaddr) run" where
  "gc_memset T m dest ch count dest_count = do {
     _ \<leftarrow> rassert (\<not> dest_count < count);
     m' \<leftarrow> memset_loop T dest ch 0 (unat count) m;
     Some (m', dest) }"

definition gc_memcpy ::
  "('a, 'z) char_type_scheme \<Rightarrow> guest_mem \<Rightarrow> vaddr \<Rightarrow> vaddr \<Rightarrow> guest_usize \<Rightarrow> guest_usize \<Rightarrow> (guest_mem \<times> vaddr) run" where
  "gc_memcpy T m dest src n dest_size = do {
     _ \<leftarrow> rassert (\<not> dest_size < n);
     k \<leftarrow> mul_chk n (gt_size T);
     m' \<leftarrow> mem_memmove m dest src k;
     Some (m', dest) }"

definition gc_memmove ::
  "('a, 'z) char_type_scheme \<Rightarrow> guest_mem \<Rightarrow> vaddr \<Rightarrow> vaddr \<Rightarrow> guest_usize \<Rightarrow> guest_usize \<Rightarrow> (guest_mem \<times> vaddr) run" where
  "gc_memmove T m dest src n dest_size = do {
     _ \<leftarrow> rassert (\<not> dest_size < n);
     k \<leftarrow> mul_chk n (gt_size T);
     m' \<leftarrow> mem_memmove m dest src k;
     Some (m', dest) }"

function memcmp_loop ::
  "('a, 'z) char_type_scheme \<Rightarrow> guest_mem \<Rightarrow> vaddr \<Rightarrow> vaddr \<Rightarrow> guest_usize \<Rightarrow> guest_usize \<Rightarrow> int run" where
  "memcmp_loop T m a b n offset =
     (if offset < n then do {
        char_a \<leftarrow> elem_at T m a offset;
        char_b \<leftarrow> elem_at T m b offset;
        offset' \<leftarrow> add_chk offset 1;
        case ct_cmp T char_a char_b of
          Lt \<Rightarrow> Some (-1)
        | Gt \<Rightarrow> Some 1
        | Eq \<Rightarrow> memcmp_loop T m a b n offset' }
      else Some 0)"
  by auto
termination
  by (relation "measure (\<lambda>(_, _, _, _, _, i). 2 ^ 32 - unat i)") (auto dest: add_chk_decreases)

definition gc_memcmp :: "('a, 'z) char_type_scheme \<Rightarrow> guest_mem \<Rightarrow> vaddr \<Rightarrow> vaddr \<Rightarrow> guest_usize \<Rightarrow> int run" where
  "gc_memcmp T m a b n = memcmp_loop T m a b n 0"

fun memchr_loop :: "('a, 'z) char_type_scheme \<Rightarrow> guest_mem \<Rightarrow> vaddr \<Rightarrow> 'a \<Rightarrow> nat \<Rightarrow> nat \<Rightarrow> vaddr run" where
  "memchr_loop T m p c i 0 = Some 0"
| "memchr_loop T m p c i (Suc k) = do {
     x \<leftarrow> elem_at T m p (ix i);
     if x = c then ptr_add (gt_size T) p (ix i) else memchr_loop T m p c (Suc i) k }"

definition gc_memchr :: "('a, 'z) char_type_scheme \<Rightarrow> guest_mem \<Rightarrow> vaddr \<Rightarrow> 'a \<Rightarrow> guest_usize \<Rightarrow> vaddr run" where
  "gc_memchr T m p c n = memchr_loop T m p c 0 (unat n)"

subsection \<open>Strings\<close>

definition gc_strlen :: "('a, 'z) char_type_scheme \<Rightarrow> guest_mem \<Rightarrow> vaddr \<Rightarrow> guest_usize run" where
  "gc_strlen T m s = nul_loop T (ct_null T) m s 0"

lemma sub_chk_decreases: "sub_chk (n :: u32) 1 = Some n' \<Longrightarrow> unat n' < unat n"
  by (simp add: sub_chk_Some)

function strcpy_loop ::
  "('a, 'z) char_type_scheme \<Rightarrow> guest_mem \<Rightarrow> vaddr \<Rightarrow> vaddr \<Rightarrow> guest_usize \<Rightarrow> guest_mem run" where
  "strcpy_loop T m dest src bufsz = do {
     _ \<leftarrow> rassert (bufsz \<noteq> 0);
     c \<leftarrow> mem_read T m src;
     m' \<leftarrow> mem_write T m dest c;
     if c = ct_null T then Some m'
     else do {
       dest' \<leftarrow> ptr_add (gt_size T) dest 1;
       src' \<leftarrow> ptr_add (gt_size T) src 1;
       bufsz' \<leftarrow> sub_chk bufsz 1;
       strcpy_loop T m' dest' src' bufsz' } }"
  by auto
termination
  by (relation "measure (\<lambda>(_, _, _, _, n). unat n)") (auto dest: sub_chk_decreases)

definition gc_strcpy ::
  "('a, 'z) char_type_scheme \<Rightarrow> guest_mem \<Rightarrow> vaddr \<Rightarrow> vaddr \<Rightarrow> guest_usize \<Rightarrow> (guest_mem \<times> vaddr) run" where
  "gc_strcpy T m dest src bufsz = do { m' \<leftarrow> strcpy_loop T m dest src bufsz; Some (m', dest) }"

definition gc_strcat ::
  "('a, 'z) char_type_scheme \<Rightarrow> guest_mem \<Rightarrow> vaddr \<Rightarrow> vaddr \<Rightarrow> guest_usize \<Rightarrow> (guest_mem \<times> vaddr) run" where
  "gc_strcat T m dest src bufsz = do {
     dest_len \<leftarrow> gc_strlen T m dest;
     dest' \<leftarrow> ptr_add (gt_size T) dest dest_len;
     remaining \<leftarrow> sub_chk bufsz dest_len;
     (m', _) \<leftarrow> gc_strcpy T m dest' src remaining;
     Some (m', dest) }"

text \<open>The inner loop of \<open>strspn\<close> and \<open>strcspn\<close>: whether \<open>c\<close> is met before the end of the set.\<close>

function charset_loop :: "('a, 'z) char_type_scheme \<Rightarrow> guest_mem \<Rightarrow> vaddr \<Rightarrow> 'a \<Rightarrow> guest_usize \<Rightarrow> bool run" where
  "charset_loop T m charset c j = do {
     cc \<leftarrow> elem_at T m charset j;
     if c = cc then Some True
     else if cc = ct_null T then Some False
     else do { j' \<leftarrow> add_chk j 1; charset_loop T m charset c j' } }"
  by auto
termination
  by (relation "measure (\<lambda>(_, _, _, _, i). 2 ^ 32 - unat i)") (auto dest: add_chk_decreases)

function strspn_loop :: "('a, 'z) char_type_scheme \<Rightarrow> guest_mem \<Rightarrow> vaddr \<Rightarrow> vaddr \<Rightarrow> guest_usize \<Rightarrow> guest_usize run" where
  "strspn_loop T m s charset i = do {
     c \<leftarrow> elem_at T m s i;
     if c = ct_null T then Some i
     else do {
       found \<leftarrow> charset_loop T m charset c 0;
       if \<not> found then Some i
       else do { i' \<leftarrow> add_chk i 1; strspn_loop T m s charset i' } } }"
  by auto
termination
  by (relation "measure (\<lambda>(_, _, _, _, i). 2 ^ 32 - unat i)") (auto dest: add_chk_decreases)

definition gc_strspn :: "('a, 'z) char_type_scheme \<Rightarrow> guest_mem \<Rightarrow> vaddr \<Rightarrow> vaddr \<Rightarrow> guest_usize run" where
  "gc_strspn T m s charset = strspn_loop T m s charset 0"

function strcspn_loop :: "('a, 'z) char_type_scheme \<Rightarrow> guest_mem \<Rightarrow> vaddr \<Rightarrow> vaddr \<Rightarrow> guest_usize \<Rightarrow> guest_usize run" where
  "strcspn_loop T m s charset i = do {
     c \<leftarrow> elem_at T m s i;
     if c = ct_null T then Some i
     else do {
       found \<leftarrow> charset_loop T m charset c 0;
       if found then Some i
       else do { i' \<leftarrow> add_chk i 1; strcspn_loop T m s charset i' } } }"
  by auto
termination
  by (relation "measure (\<lambda>(_, _, _, _, i). 2 ^ 32 - unat i)") (auto dest: add_chk_decreases)

definition gc_strcspn :: "('a, 'z) char_type_scheme \<Rightarrow> guest_mem \<Rightarrow> vaddr \<Rightarrow> vaddr \<Rightarrow> guest_usize run" where
  "gc_strcspn T m s charset = strcspn_loop T m s charset 0"

fun strncpy_loop ::
  "('a, 'z) char_type_scheme \<Rightarrow> vaddr \<Rightarrow> vaddr \<Rightarrow> bool \<Rightarrow> nat \<Rightarrow> nat \<Rightarrow> guest_mem \<Rightarrow> guest_mem run" where
  "strncpy_loop T dest src ended i 0 m = Some m"
| "strncpy_loop T dest src ended i (Suc k) m =
     (if \<not> ended then do {
        c \<leftarrow> elem_at T m src (ix i);
        m' \<leftarrow> set_elem T m dest (ix i) c;
        strncpy_loop T dest src (c = ct_null T) (Suc i) k m' }
      else do {
        m' \<leftarrow> set_elem T m dest (ix i) (ct_null T);
        strncpy_loop T dest src True (Suc i) k m' })"

definition gc_strncpy ::
  "('a, 'z) char_type_scheme \<Rightarrow> guest_mem \<Rightarrow> vaddr \<Rightarrow> vaddr \<Rightarrow> guest_usize \<Rightarrow> guest_usize \<Rightarrow> (guest_mem \<times> vaddr) run" where
  "gc_strncpy T m dest src n dest_size = do {
     _ \<leftarrow> rassert (\<not> dest_size < n);
     m' \<leftarrow> strncpy_loop T dest src False 0 (unat n) m;
     Some (m', dest) }"

definition gc_strdup :: "('a, 'z) char_type_scheme \<Rightarrow> guest_mem \<Rightarrow> vaddr \<Rightarrow> (guest_mem \<times> vaddr) run" where
  "gc_strdup T m src = do {
     len \<leftarrow> gc_strlen T m src;
     len1 \<leftarrow> add_chk len 1;
     n \<leftarrow> mul_chk len1 (gt_size T);
     (m1, new) \<leftarrow> mem_alloc m n;
     gc_strcpy T m1 new src 0xFFFFFFFF }"

function strcmp_loop :: "('a, 'z) char_type_scheme \<Rightarrow> guest_mem \<Rightarrow> vaddr \<Rightarrow> vaddr \<Rightarrow> guest_usize \<Rightarrow> int run" where
  "strcmp_loop T m a b offset = do {
     char_a \<leftarrow> elem_at T m a offset;
     char_b \<leftarrow> elem_at T m b offset;
     offset' \<leftarrow> add_chk offset 1;
     case ct_cmp T char_a char_b of
       Lt \<Rightarrow> Some (-1)
     | Gt \<Rightarrow> Some 1
     | Eq \<Rightarrow> if char_a = ct_null T then Some 0 else strcmp_loop T m a b offset' }"
  by auto
termination
  by (relation "measure (\<lambda>(_, _, _, _, i). 2 ^ 32 - unat i)") (auto dest: add_chk_decreases)

definition gc_strcmp :: "('a, 'z) char_type_scheme \<Rightarrow> guest_mem \<Rightarrow> vaddr \<Rightarrow> vaddr \<Rightarrow> int run" where
  "gc_strcmp T m a b = strcmp_loop T m a b 0"

function strncmp_loop :: "('a, 'z) char_type_scheme \<Rightarrow> guest_mem \<Rightarrow> vaddr \<Rightarrow> vaddr \<Rightarrow> guest_usize \<Rightarrow> guest_usize \<Rightarrow> int run" where
  "strncmp_loop T m a b n offset = do {
     char_a \<leftarrow> elem_at T m a offset;
     char_b \<leftarrow> elem_at T m b offset;
     offset' \<leftarrow> add_chk offset 1;
     case ct_cmp T char_a char_b of
       Lt \<Rightarrow> Some (-1)
     | Gt \<Rightarrow> Some 1
     | Eq \<Rightarrow> if offset' = n \<or> char_a = ct_null T then Some 0 else strncmp_loop T m a b n offset' }"
  by auto
termination
  by (relation "measure (\<lambda>(_, _, _, _, _, i). 2 ^ 32 - unat i)") (auto dest: add_chk_decreases)

definition gc_strncmp :: "('a, 'z) char_type_scheme \<Rightarrow> guest_mem \<Rightarrow> vaddr \<Rightarrow> vaddr \<Rightarrow> guest_usize \<Rightarrow> int run" where
  "gc_strncmp T m a b n = (if n = 0 then Some 0 else strncmp_loop T m a b n 0)"

fun strncat_loop ::
  "('a, 'z) char_type_scheme \<Rightarrow> vaddr \<Rightarrow> vaddr \<Rightarrow> nat \<Rightarrow> nat \<Rightarrow> guest_mem \<Rightarrow> (guest_mem \<times> bool) run" where
  "strncat_loop T s1end s2 i 0 m = Some (m, False)"
| "strncat_loop T s1end s2 i (Suc k) m = do {
     c \<leftarrow> elem_at T m s2 (ix i);
     m' \<leftarrow> set_elem T m s1end (ix i) c;
     if c = ct_null T then Some (m', True) else strncat_loop T s1end s2 (Suc i) k m' }"

definition gc_strncat ::
  "('a, 'z) char_type_scheme \<Rightarrow> guest_mem \<Rightarrow> vaddr \<Rightarrow> vaddr \<Rightarrow> guest_usize \<Rightarrow> (guest_mem \<times> vaddr) run" where
  "gc_strncat T m s1 s2 n = do {
     len \<leftarrow> gc_strlen T m s1;
     s1end \<leftarrow> ptr_add (gt_size T) s1 len;
     (m', returned) \<leftarrow> strncat_loop T s1end s2 0 (unat n) m;
     if returned then Some (m', s1)
     else do { m2 \<leftarrow> set_elem T m' s1end n (ct_null T); Some (m2, s1) } }"

text \<open>How the inner loop of \<open>strstr\<close> ends: found, end of the string, or mismatch.\<close>

datatype strstr_end = Found | AtEnd | Mismatch

function strstr_inner ::
  "('a, 'z) char_type_scheme \<Rightarrow> guest_mem \<Rightarrow> vaddr \<Rightarrow> vaddr \<Rightarrow> guest_usize \<Rightarrow> guest_usize \<Rightarrow> strstr_end run" where
  "strstr_inner T m string substring offset inner_offset = do {
     q \<leftarrow> ptr_add (gt_size T) string offset;
     char_string \<leftarrow> elem_at T m q inner_offset;
     char_substring \<leftarrow> elem_at T m substring inner_offset;
     if char_substring = ct_null T then Some Found
     else if char_string = ct_null T then Some AtEnd
     else if char_string \<noteq> char_substring then Some Mismatch
     else do {
       inner' \<leftarrow> add_chk inner_offset 1;
       strstr_inner T m string substring offset inner' } }"
  by auto
termination
  by (relation "measure (\<lambda>(_, _, _, _, _, i). 2 ^ 32 - unat i)") (auto dest: add_chk_decreases)

function strstr_loop :: "('a, 'z) char_type_scheme \<Rightarrow> guest_mem \<Rightarrow> vaddr \<Rightarrow> vaddr \<Rightarrow> guest_usize \<Rightarrow> vaddr run" where
  "strstr_loop T m string substring offset = do {
     r \<leftarrow> strstr_inner T m string substring offset 0;
     case r of
       Found \<Rightarrow> ptr_add (gt_size T) string offset
     | AtEnd \<Rightarrow> Some 0
     | Mismatch \<Rightarrow> do { offset' \<leftarrow> add_chk offset 1; strstr_loop T m string substring offset' } }"
  by auto
termination
  by (relation "measure (\<lambda>(_, _, _, _, i). 2 ^ 32 - unat i)") (auto dest: add_chk_decreases)

definition gc_strstr :: "('a, 'z) char_type_scheme \<Rightarrow> guest_mem \<Rightarrow> vaddr \<Rightarrow> vaddr \<Rightarrow> vaddr run" where
  "gc_strstr T m string substring = strstr_loop T m string substring 0"

function strchr_loop :: "('a, 'z) char_type_scheme \<Rightarrow> guest_mem \<Rightarrow> vaddr \<Rightarrow> 'a \<Rightarrow> guest_usize \<Rightarrow> guest_usize \<Rightarrow> vaddr run" where
  "strchr_loop T m string c len offset = do {
     x \<leftarrow> elem_at T m string offset;
     if x = c then ptr_add (gt_size T) string offset
     else if offset = len then Some 0
     else do { offset' \<leftarrow> add_chk offset 1; strchr_loop T m string c len offset' } }"
  by auto
termination
  by (relation "measure (\<lambda>(_, _, _, _, _, i). 2 ^ 32 - unat i)") (auto dest: add_chk_decreases)

definition gc_strchr :: "('a, 'z) char_type_scheme \<Rightarrow> guest_mem \<Rightarrow> vaddr \<Rightarrow> 'a \<Rightarrow> vaddr run" where
  "gc_strchr T m string c = do { len \<leftarrow> gc_strlen T m string; strchr_loop T m string c len 0 }"

function strrchr_loop :: "('a, 'z) char_type_scheme \<Rightarrow> guest_mem \<Rightarrow> vaddr \<Rightarrow> 'a \<Rightarrow> guest_usize \<Rightarrow> vaddr run" where
  "strrchr_loop T m string c offset = do {
     x \<leftarrow> elem_at T m string offset;
     if x = c then ptr_add (gt_size T) string offset
     else if offset = 0 then Some 0
     else do { offset' \<leftarrow> sub_chk offset 1; strrchr_loop T m string c offset' } }"
  by auto
termination
  by (relation "measure (\<lambda>(_, _, _, _, n). unat n)") (auto dest: sub_chk_decreases)

definition gc_strrchr :: "('a, 'z) char_type_scheme \<Rightarrow> guest_mem \<Rightarrow> vaddr \<Rightarrow> 'a \<Rightarrow> vaddr run" where
  "gc_strrchr T m string c = do { len \<leftarrow> gc_strlen T m string; strrchr_loop T m string c len }"

function pbrk_inner :: "('a, 'z) char_type_scheme \<Rightarrow> guest_mem \<Rightarrow> vaddr \<Rightarrow> 'a \<Rightarrow> guest_usize \<Rightarrow> bool run" where
  "pbrk_inner T m charset c j = do {
     cc \<leftarrow> elem_at T m charset j;
     if cc = ct_null T then Some False
     else if c = cc then Some True
     else do { j' \<leftarrow> add_chk j 1; pbrk_inner T m charset c j' } }"
  by auto
termination
  by (relation "measure (\<lambda>(_, _, _, _, i). 2 ^ 32 - unat i)") (auto dest: add_chk_decreases)

function strpbrk_loop :: "('a, 'z) char_type_scheme \<Rightarrow> guest_mem \<Rightarrow> vaddr \<Rightarrow> vaddr \<Rightarrow> guest_usize \<Rightarrow> vaddr run" where
  "strpbrk_loop T m string charset i = do {
     c \<leftarrow> elem_at T m string i;
     if c = ct_null T then Some 0
     else do {
       found \<leftarrow> pbrk_inner T m charset c 0;
       if found then ptr_add (gt_size T) string i
       else do { i' \<leftarrow> add_chk i 1; strpbrk_loop T m string charset i' } } }"
  by auto
termination
  by (relation "measure (\<lambda>(_, _, _, _, i). 2 ^ 32 - unat i)") (auto dest: add_chk_decreases)

definition gc_strpbrk :: "('a, 'z) char_type_scheme \<Rightarrow> guest_mem \<Rightarrow> vaddr \<Rightarrow> vaddr \<Rightarrow> vaddr run" where
  "gc_strpbrk T m string charset = strpbrk_loop T m string charset 0"

function strlcpy_loop ::
  "('a, 'z) char_type_scheme \<Rightarrow> vaddr \<Rightarrow> vaddr \<Rightarrow> guest_usize \<Rightarrow> guest_usize \<Rightarrow> guest_mem \<Rightarrow> (guest_mem \<times> guest_usize) run" where
  "strlcpy_loop T dst src n i m = do {
     c \<leftarrow> elem_at T m src i;
     last \<leftarrow> sub_chk n 1;
     m' \<leftarrow> (if i < last then set_elem T m dst i c
            else if i = last then set_elem T m dst i (ct_null T) else Some m);
     if c = ct_null T then Some (m', i)
     else do { i' \<leftarrow> add_chk i 1; strlcpy_loop T dst src n i' m' } }"
  by auto
termination
  by (relation "measure (\<lambda>(_, _, _, _, i, _). 2 ^ 32 - unat i)") (auto dest: add_chk_decreases)

definition gc_strlcpy ::
  "('a, 'z) char_type_scheme \<Rightarrow> guest_mem \<Rightarrow> vaddr \<Rightarrow> vaddr \<Rightarrow> guest_usize \<Rightarrow> (guest_mem \<times> guest_usize) run" where
  "gc_strlcpy T m dst src n = strlcpy_loop T dst src n 0 m"

lemmas loop_simps = memcmp_loop.simps strcpy_loop.simps charset_loop.simps strspn_loop.simps strcspn_loop.simps
  strcmp_loop.simps strncmp_loop.simps strstr_inner.simps strstr_loop.simps strchr_loop.simps strrchr_loop.simps
  pbrk_inner.simps strpbrk_loop.simps strlcpy_loop.simps

declare loop_simps [simp del]

subsection \<open>The functions on lists\<close>

fun lex_cmp :: "('a, 'z) char_type_scheme \<Rightarrow> 'a list \<Rightarrow> 'a list \<Rightarrow> int" where
  "lex_cmp T (a # as) (b # bs) =
     (case ct_cmp T a b of Lt \<Rightarrow> -1 | Gt \<Rightarrow> 1 | Eq \<Rightarrow> lex_cmp T as bs)"
| "lex_cmp T _ _ = 0"

text \<open>The pointer to the element at an optional index, null if there is none.\<close>

definition opt_ptr :: "('a, 'z) char_type_scheme \<Rightarrow> vaddr \<Rightarrow> nat option \<Rightarrow> vaddr" where
  "opt_ptr T p k = (case k of None \<Rightarrow> 0 | Some i \<Rightarrow> elem_ptr T p i)"

definition last_position :: "('a \<Rightarrow> bool) \<Rightarrow> 'a list \<Rightarrow> nat option" where
  "last_position P xs = last_opt (filter (\<lambda>i. P (xs ! i)) [0..<length xs])"

definition first_occurrence :: "'a list \<Rightarrow> 'a list \<Rightarrow> nat option" where
  "first_occurrence ys xs = find (\<lambda>k. take (length ys) (drop k xs) = ys) [0..<Suc (length xs)]"

lemma position_drop:
  assumes "i < length xs" and "\<forall>j < i. \<not> P (xs ! j)"
  shows "P (xs ! i) \<Longrightarrow> position P xs = Some i"
  using assms
proof (induction xs arbitrary: i)
  case Nil
  then show ?case by simp
next
  case (Cons x xs)
  show ?case
  proof (cases i)
    case 0
    then show ?thesis using Cons.prems by simp
  next
    case (Suc k)
    then have nx: "\<not> P x" using Cons.prems(3) by auto
    have "\<forall>j < k. \<not> P (xs ! j)" using Cons.prems(3) Suc by (metis Suc_less_eq nth_Cons_Suc)
    then have "position P xs = Some k" using Cons.IH [of k] Cons.prems(1,2) Suc by simp
    with nx Suc show ?thesis by simp
  qed
qed

text \<open>Copying: the target array must lie in memory and apart from the source.\<close>

definition same_allocators :: "guest_mem \<Rightarrow> guest_mem \<Rightarrow> bool" where
  "same_allocators m m' \<longleftrightarrow> mm_null m' = mm_null m \<and> mm_heap m' = mm_heap m \<and> mm_vm m' = mm_vm m"

locale char_codec = guest_codec T for T :: "('a, 'z) char_type_scheme" +
  assumes less_irrefl: "\<not> ct_less T a a"
    and less_total: "a \<noteq> b \<Longrightarrow> ct_less T a b \<or> ct_less T b a"
begin

abbreviation str :: "guest_mem \<Rightarrow> vaddr \<Rightarrow> 'a list \<Rightarrow> bool" where
  "str m p xs \<equiv> zstring T (ct_null T) m p xs"

lemma cmp_Eq: "ct_cmp T a b = Eq \<longleftrightarrow> a = b"
  using less_irrefl less_total by (auto simp: ct_cmp_def)

lemma str_at: "str m p xs \<Longrightarrow> i \<le> length xs \<Longrightarrow> elem_at T m p (ix i) = Some ((xs @ [ct_null T]) ! i)"
  using cells_nth [of m p "xs @ [ct_null T]" i] by (simp add: zstring_def)

lemma str_in: "str m p xs \<Longrightarrow> i < length xs \<Longrightarrow> elem_at T m p (ix i) = Some (xs ! i) \<and> xs ! i \<noteq> ct_null T"
proof -
  assume z: "str m p xs" and i: "i < length xs"
  have "xs ! i \<in> set xs" "ct_null T \<notin> set xs" using z i by (simp_all add: zstring_def)
  then have "xs ! i \<noteq> ct_null T" by metis
  then show ?thesis using str_at [OF z, of i] i by (simp add: nth_append)
qed

lemma str_end: "str m p xs \<Longrightarrow> elem_at T m p (ix (length xs)) = Some (ct_null T)"
  using str_at [of m p xs "length xs"] by simp

lemma str_add: "str m p xs \<Longrightarrow> i \<le> length xs \<Longrightarrow> add_chk (ix i) 1 = Some (ix (Suc i))"
  by (intro add_chk_ix) (simp add: zstring_def)

lemma str_ptr: "str m p xs \<Longrightarrow> i \<le> length xs \<Longrightarrow> ptr_add (gt_size T) p (ix i) = Some (elem_ptr T p i)"
  using cells_ptr [of m p "xs @ [ct_null T]" i] by (simp add: zstring_def)

lemma str_ix: "str m p xs \<Longrightarrow> i \<le> length xs \<Longrightarrow> j \<le> length xs \<Longrightarrow> ix i = ix j \<longleftrightarrow> i = j"
  by (intro ix_inj) (simp_all add: zstring_def)

lemma strlen_law: "str m p xs \<Longrightarrow> gc_strlen T m p = Some (ix (length xs))"
  using nul_loop_law [of "ct_null T" m p xs 0] by (simp add: gc_strlen_def)

lemma strcmp_law:
  assumes a: "str m p xs" and b: "str m q ys" and "i \<le> length xs" "i \<le> length ys"
  shows "strcmp_loop T m p q (ix i) = Some (lex_cmp T (drop i (xs @ [ct_null T])) (drop i (ys @ [ct_null T])))"
  using assms(3,4)
proof (induction "length xs - i" arbitrary: i rule: less_induct)
  case less
  let ?x = "(xs @ [ct_null T]) ! i" and ?y = "(ys @ [ct_null T]) ! i"
  have dx: "drop i (xs @ [ct_null T]) = ?x # drop (Suc i) (xs @ [ct_null T])"
    and dy: "drop i (ys @ [ct_null T]) = ?y # drop (Suc i) (ys @ [ct_null T])"
    using less.prems by (simp_all add: Cons_nth_drop_Suc del: drop_append)
  have step: "strcmp_loop T m p q (ix i) = (case ct_cmp T ?x ?y of Lt \<Rightarrow> Some (-1) | Gt \<Rightarrow> Some 1
      | Eq \<Rightarrow> if ?x = ct_null T then Some 0 else strcmp_loop T m p q (ix (Suc i)))"
    using str_at [OF a less.prems(1)] str_at [OF b less.prems(2)] str_add [OF a less.prems(1)]
    by (subst strcmp_loop.simps) simp
  show ?case
  proof (cases "ct_cmp T ?x ?y")
    case Eq
    then have xy: "?x = ?y" by (simp add: cmp_Eq)
    show ?thesis
    proof (cases "?x = ct_null T")
      case True
      then have "i = length xs" "i = length ys"
        using str_in [OF a, of i] str_in [OF b, of i] xy less.prems by (auto simp: nth_append split: if_splits)
      then show ?thesis using step Eq True by (simp add: cmp_Eq ct_cmp_def less_irrefl)
    next
      case False
      then have "i < length xs" "i < length ys" using xy less.prems by (auto simp: nth_append split: if_splits)
      then have "strcmp_loop T m p q (ix (Suc i))
          = Some (lex_cmp T (drop (Suc i) (xs @ [ct_null T])) (drop (Suc i) (ys @ [ct_null T])))"
        by (intro less.hyps) simp_all
      then show ?thesis using step Eq False by (simp add: dx dy del: drop_append)
    qed
  qed (use step dx dy in \<open>simp_all del: drop_append\<close>)
qed

lemma strncmp_law:
  assumes a: "str m p xs" and b: "str m q ys" and "i \<le> length xs" "i \<le> length ys" "i < unat n"
  shows "strncmp_loop T m p q n (ix i)
    = Some (lex_cmp T (drop i (take (unat n) (xs @ [ct_null T]))) (drop i (take (unat n) (ys @ [ct_null T]))))"
  using assms(3-5)
proof (induction "length xs - i" arbitrary: i rule: less_induct)
  case less
  let ?xs = "xs @ [ct_null T]" and ?ys = "ys @ [ct_null T]"
  let ?x = "?xs ! i" and ?y = "?ys ! i"
  have d: "drop i (take (unat n) zs) = zs ! i # drop (Suc i) (take (unat n) zs)" if "i < length zs" for zs :: "'a list"
    using that less.prems(3) Cons_nth_drop_Suc [of i "take (unat n) zs"] by simp
  have dx: "drop i (take (unat n) ?xs) = ?x # drop (Suc i) (take (unat n) ?xs)"
    and dy: "drop i (take (unat n) ?ys) = ?y # drop (Suc i) (take (unat n) ?ys)"
    using less.prems(1,2) by (simp_all only: d length_append_singleton less_Suc_eq_le)
  have step: "strncmp_loop T m p q n (ix i) = (case ct_cmp T ?x ?y of Lt \<Rightarrow> Some (-1) | Gt \<Rightarrow> Some 1
      | Eq \<Rightarrow> if ix (Suc i) = n \<or> ?x = ct_null T then Some 0 else strncmp_loop T m p q n (ix (Suc i)))"
    using str_at [OF a less.prems(1)] str_at [OF b less.prems(2)] str_add [OF a less.prems(1)]
    by (subst strncmp_loop.simps) simp
  have "Suc i < 2 ^ 32" using a less.prems(1) by (simp add: zstring_def)
  then have last: "ix (Suc i) = n \<longleftrightarrow> Suc i = unat n" by (metis unat_ix ix_unat)
  show ?case
  proof (cases "ct_cmp T ?x ?y")
    case Eq
    then have xy: "?x = ?y" by (simp add: cmp_Eq)
    consider (nul) "?x = ct_null T" | (lim) "?x \<noteq> ct_null T" "Suc i = unat n" | (go) "?x \<noteq> ct_null T" "Suc i \<noteq> unat n" by blast
    then show ?thesis
    proof cases
      case nul
      then have "i = length xs" "i = length ys"
        using str_in [OF a, of i] str_in [OF b, of i] xy less.prems by (auto simp: nth_append split: if_splits)
      then show ?thesis unfolding dx dy using step Eq nul xy by simp
    next
      case lim
      then show ?thesis unfolding dx dy using step Eq last by simp
    next
      case go
      then have i: "i < length xs" "i < length ys" using xy less.prems by (auto simp: nth_append split: if_splits)
      then have "strncmp_loop T m p q n (ix (Suc i)) = Some (lex_cmp T (drop (Suc i) (take (unat n) ?xs)) (drop (Suc i) (take (unat n) ?ys)))"
        using go less.prems(3) by (intro less.hyps) simp_all
      then show ?thesis unfolding dx dy using step Eq go last by simp
    qed
  next
    case Lt
    then show ?thesis unfolding dx dy using step by simp
  next
    case Gt
    then show ?thesis unfolding dx dy using step by simp
  qed
qed

lemma memcmp_law:
  assumes a: "cells T m p xs" and b: "cells T m q ys" and n: "unat n \<le> length xs" "unat n \<le> length ys" and "i \<le> unat n"
  shows "memcmp_loop T m p q n (ix i) = Some (lex_cmp T (drop i (take (unat n) xs)) (drop i (take (unat n) ys)))"
  using assms(5)
proof (induction "unat n - i" arbitrary: i rule: less_induct)
  case less
  have n32: "unat n < 2 ^ 32" using unat_bound32 [of n] by simp
  have u: "unat (ix i) = i" using less.prems n32 by (intro unat_ix) simp
  show ?case
  proof (cases "i < unat n")
    case True
    have d: "drop i (take (unat n) zs) = zs ! i # drop (Suc i) (take (unat n) zs)" if "unat n \<le> length zs" for zs :: "'a list"
      using that True Cons_nth_drop_Suc [of i "take (unat n) zs"] by simp
    have "Suc i < 2 ^ 32" using True n32 by simp
    then have step: "memcmp_loop T m p q n (ix i) = (case ct_cmp T (xs ! i) (ys ! i) of Lt \<Rightarrow> Some (-1) | Gt \<Rightarrow> Some 1
        | Eq \<Rightarrow> memcmp_loop T m p q n (ix (Suc i)))"
      using cells_nth [OF a, of i] cells_nth [OF b, of i] True n u
      by (subst memcmp_loop.simps) (simp add: word_less_nat_alt add_chk_ix)
    have "memcmp_loop T m p q n (ix (Suc i)) = Some (lex_cmp T (drop (Suc i) (take (unat n) xs)) (drop (Suc i) (take (unat n) ys)))"
      using True by (intro less.hyps) simp_all
    then show ?thesis using step d [OF n(1)] d [OF n(2)] by (simp split: ordering.split)
  next
    case False
    then have "i = unat n" using less.prems by simp
    then show ?thesis using n by (subst memcmp_loop.simps) simp
  qed
qed

lemma charset_law:
  assumes z: "str m p cs" and c: "c \<noteq> ct_null T" and "i \<le> length cs" "c \<notin> set (take i cs)"
  shows "charset_loop T m p c (ix i) = Some (c \<in> set cs)"
  using assms(3,4)
proof (induction "length cs - i" arbitrary: i rule: less_induct)
  case less
  show ?case
  proof (cases "i = length cs")
    case True
    then have "c \<notin> set cs" using less.prems by simp
    then show ?thesis using str_end [OF z] True c by (subst charset_loop.simps) simp
  next
    case False
    then have i: "i < length cs" using less.prems by simp
    show ?thesis
    proof (cases "cs ! i = c")
      case True
      then show ?thesis using str_in [OF z i] nth_mem [OF i] by (subst charset_loop.simps) auto
    next
      case False
      then have "c \<notin> set (take (Suc i) cs)" using less.prems i by (simp add: take_Suc_conv_app_nth)
      then have "charset_loop T m p c (ix (Suc i)) = Some (c \<in> set cs)" using i by (intro less.hyps) simp_all
      then show ?thesis using str_in [OF z i] str_add [OF z, of i] i False by (subst charset_loop.simps) auto
    qed
  qed
qed

lemma pbrk_inner_law:
  assumes z: "str m p cs" and c: "c \<noteq> ct_null T" and "i \<le> length cs" "c \<notin> set (take i cs)"
  shows "pbrk_inner T m p c (ix i) = Some (c \<in> set cs)"
  using assms(3,4)
proof (induction "length cs - i" arbitrary: i rule: less_induct)
  case less
  show ?case
  proof (cases "i = length cs")
    case True
    then have "c \<notin> set cs" using less.prems by simp
    then show ?thesis using str_end [OF z] True c by (subst pbrk_inner.simps) simp
  next
    case False
    then have i: "i < length cs" using less.prems by simp
    show ?thesis
    proof (cases "cs ! i = c")
      case True
      then show ?thesis using str_in [OF z i] nth_mem [OF i] by (subst pbrk_inner.simps) auto
    next
      case False
      then have "c \<notin> set (take (Suc i) cs)" using less.prems i by (simp add: take_Suc_conv_app_nth)
      then have "pbrk_inner T m p c (ix (Suc i)) = Some (c \<in> set cs)" using i by (intro less.hyps) simp_all
      then show ?thesis using str_in [OF z i] str_add [OF z, of i] i False by (subst pbrk_inner.simps) auto
    qed
  qed
qed

lemmas charset_run = charset_law [where i = 0, simplified] pbrk_inner_law [where i = 0, simplified]

lemma takeWhile_step:
  "i < length xs \<Longrightarrow> i + length (takeWhile P (drop i xs))
    = (if P (xs ! i) then Suc i + length (takeWhile P (drop (Suc i) xs)) else i)"
  by (subst Cons_nth_drop_Suc [symmetric]) simp_all

lemma strspn_law:
  assumes z: "str m p xs" and cs: "str m q cs" and "i \<le> length xs"
  shows "strspn_loop T m p q (ix i) = Some (ix (i + length (takeWhile (\<lambda>c. c \<in> set cs) (drop i xs))))"
    and "strcspn_loop T m p q (ix i) = Some (ix (i + length (takeWhile (\<lambda>c. c \<notin> set cs) (drop i xs))))"
  using assms(3)
proof (induction "length xs - i" arbitrary: i rule: less_induct)
  case less
  case 1
  show ?case
  proof (cases "i < length xs")
    case True
    have "strspn_loop T m p q (ix (Suc i)) = Some (ix (Suc i + length (takeWhile (\<lambda>c. c \<in> set cs) (drop (Suc i) xs))))"
      using True by (intro less.hyps(1)) simp_all
    then show ?thesis using str_in [OF z True] charset_run(1) [OF cs, of "xs ! i"] str_add [OF z 1]
      by (subst strspn_loop.simps) (simp add: takeWhile_step [OF True])
  qed (use 1 str_end [OF z] in \<open>subst strspn_loop.simps, simp\<close>)
next
  case less
  case 2
  show ?case
  proof (cases "i < length xs")
    case True
    have "strcspn_loop T m p q (ix (Suc i)) = Some (ix (Suc i + length (takeWhile (\<lambda>c. c \<notin> set cs) (drop (Suc i) xs))))"
      using True by (intro less.hyps(2)) simp_all
    then show ?thesis using str_in [OF z True] charset_run(1) [OF cs, of "xs ! i"] str_add [OF z 2]
      by (subst strcspn_loop.simps) (simp add: takeWhile_step [OF True])
  qed (use 2 str_end [OF z] in \<open>subst strcspn_loop.simps, simp\<close>)
qed

lemma strchr_law:
  assumes z: "str m p xs" and "i \<le> length xs" "\<forall>j < i. (xs @ [ct_null T]) ! j \<noteq> c"
  shows "strchr_loop T m p c (ix (length xs)) (ix i)
    = Some (opt_ptr T p (position (\<lambda>x. x = c) (xs @ [ct_null T])))"
  using assms(2,3)
proof (induction "length xs - i" arbitrary: i rule: less_induct)
  case less
  let ?ys = "xs @ [ct_null T]"
  show ?case
  proof (cases "?ys ! i = c")
    case True
    then have "position (\<lambda>x. x = c) ?ys = Some i" using less.prems by (intro position_drop) simp_all
    then show ?thesis using True str_at [OF z less.prems(1)] str_ptr [OF z less.prems(1)]
      by (subst strchr_loop.simps) (simp add: opt_ptr_def)
  next
    case False
    then have upto: "\<forall>j < Suc i. ?ys ! j \<noteq> c" using less.prems(2) by (auto simp: less_Suc_eq)
    show ?thesis
    proof (cases "i = length xs")
      case True
      then have "position (\<lambda>x. x = c) ?ys = None"
        using upto by (auto simp: position_None in_set_conv_nth simp del: set_append)
      then show ?thesis using True False str_at [OF z less.prems(1)] by (subst strchr_loop.simps) (simp add: opt_ptr_def)
    next
      case ne: False
      then have "Suc i \<le> length xs" using less.prems(1) by simp
      then have "strchr_loop T m p c (ix (length xs)) (ix (Suc i)) = Some (opt_ptr T p (position (\<lambda>x. x = c) ?ys))"
        using upto by (intro less.hyps) simp_all
      moreover have "ix i \<noteq> ix (length xs)" using str_ix [OF z less.prems(1), of "length xs"] ne by simp
      ultimately show ?thesis using False str_at [OF z less.prems(1)] str_add [OF z less.prems(1)]
        by (subst strchr_loop.simps) simp
    qed
  qed
qed

lemma strrchr_law:
  assumes z: "str m p xs" and "i \<le> length xs"
  shows "strrchr_loop T m p c (ix i)
    = Some (opt_ptr T p (last_opt (filter (\<lambda>j. (xs @ [ct_null T]) ! j = c) [0..<Suc i])))"
  using assms(2)
proof (induction i)
  case 0
  then show ?case using str_at [OF z, of 0] str_ptr [OF z, of 0]
    by (subst strrchr_loop.simps) (auto simp: opt_ptr_def last_opt_def)
next
  case (Suc i)
  have "ix (Suc i) \<noteq> ix 0" using str_ix [OF z, of "Suc i" 0] Suc.prems by simp
  moreover have "Suc i < 2 ^ 32" using Suc.prems z by (simp add: zstring_def)
  ultimately show ?case using Suc str_at [OF z Suc.prems] str_ptr [OF z Suc.prems]
    by (subst strrchr_loop.simps) (auto simp: opt_ptr_def last_opt_def sub_chk_ix)
qed

lemma strpbrk_law:
  assumes z: "str m p xs" and cs: "str m q cs" and "i \<le> length xs" "\<forall>j < i. xs ! j \<notin> set cs"
  shows "strpbrk_loop T m p q (ix i) = Some (opt_ptr T p (position (\<lambda>c. c \<in> set cs) xs))"
  using assms(3,4)
proof (induction "length xs - i" arbitrary: i rule: less_induct)
  case less
  show ?case
  proof (cases "i < length xs")
    case True
    show ?thesis
    proof (cases "xs ! i \<in> set cs")
      case in_cs: True
      then have "position (\<lambda>c. c \<in> set cs) xs = Some i" using True less.prems by (intro position_drop)
      then show ?thesis using str_in [OF z True] charset_run(2) [OF cs, of "xs ! i"] str_ptr [OF z less.prems(1)] in_cs
        by (subst strpbrk_loop.simps) (simp add: opt_ptr_def)
    next
      case False
      then have "\<forall>j < Suc i. xs ! j \<notin> set cs" using less.prems(2) by (auto simp: less_Suc_eq)
      then have "strpbrk_loop T m p q (ix (Suc i)) = Some (opt_ptr T p (position (\<lambda>c. c \<in> set cs) xs))"
        using True by (intro less.hyps) simp_all
      then show ?thesis using str_in [OF z True] charset_run(2) [OF cs, of "xs ! i"] str_add [OF z less.prems(1)] False
        by (subst strpbrk_loop.simps) simp
    qed
  next
    case False
    then have i: "i = length xs" using less.prems by simp
    then have "position (\<lambda>c. c \<in> set cs) xs = None"
      unfolding position_None using less.prems(2) i by (metis in_set_conv_nth)
    then show ?thesis using str_end [OF z] i by (subst strpbrk_loop.simps) (simp add: opt_ptr_def)
  qed
qed

text \<open>The element \<open>j\<close> of the array that starts at element \<open>k\<close>.\<close>

lemma ptr_nested:
  assumes "array_ok T m p n" and "k + j < n"
  shows "ptr_add (gt_size T) (elem_ptr T p k) (ix j) = Some (elem_ptr T p (k + j))"
proof -
  have k: "k < n" and j: "j < n" using assms(2) by simp_all
  have "unat (ix j) = j" using elem_ptr_ok(4) [OF assms(1) j] by (rule unat_ix)
  moreover have "gt_size T \<noteq> 0" using upos by auto
  ultimately show ?thesis using elem_ptr_ok(1) [OF assms] elem_ptr_ok(1) [OF assms(1) k]
    by (simp add: ptr_add_Some algebra_simps)
qed

lemma elem_nested:
  assumes "array_ok T m p n" and "k + j < n"
  shows "elem_at T m (elem_ptr T p k) (ix j) = elem_at T m p (ix (k + j))"
  using ptr_nested [OF assms] elem_ptr_ok(5) [OF assms] by (simp add: elem_at_def)

lemma strstr_inner_law:
  assumes z: "str m p xs" and w: "str m q ys" and k: "k \<le> length xs"
    and "j \<le> length ys" "k + j \<le> length xs" "take j (drop k xs) = take j ys"
  shows "\<exists>r. strstr_inner T m p q (ix k) (ix j) = Some r \<and> (r = Found \<longleftrightarrow> take (length ys) (drop k xs) = ys)
    \<and> (r = AtEnd \<longrightarrow> length xs - k < length ys) \<and> (r = Mismatch \<longrightarrow> k < length xs)"
  using assms(4-6)
proof (induction "length ys - j" arbitrary: j rule: less_induct)
  case less
  have ok: "array_ok T m p (Suc (length xs))" using z by (simp add: zstring_def cells_def)
  have x: "elem_at T m (elem_ptr T p k) (ix j) = Some ((xs @ [ct_null T]) ! (k + j))"
    using elem_nested [OF ok, of k j] str_at [OF z less.prems(2)] less.prems(2) by simp
  note run = str_ptr [OF z k] x str_at [OF w less.prems(1)]
  show ?case
  proof (cases "j = length ys")
    case True
    then show ?thesis using run less.prems by (subst strstr_inner.simps) simp
  next
    case False
    then have j: "j < length ys" using less.prems(1) by simp
    note yj = str_in [OF w j]
    show ?thesis
    proof (cases "k + j = length xs")
      case True
      then have "length (take (length ys) (drop k xs)) = j" using j by simp
      then have "take (length ys) (drop k xs) \<noteq> ys" using j by auto
      then show ?thesis using run yj True j by (subst strstr_inner.simps) (simp add: nth_append)
    next
      case False
      then have kj: "k + j < length xs" using less.prems(2) by simp
      note xj = str_in [OF z kj]
      show ?thesis
      proof (cases "xs ! (k + j) = ys ! j")
        case True
        have "take (Suc j) (drop k xs) = take (Suc j) ys"
          using less.prems(3) kj j True by (simp add: take_Suc_conv_app_nth)
        then obtain r where "strstr_inner T m p q (ix k) (ix (Suc j)) = Some r" "r = Found \<longleftrightarrow> take (length ys) (drop k xs) = ys"
            "r = AtEnd \<longrightarrow> length xs - k < length ys" "r = Mismatch \<longrightarrow> k < length xs"
          using less.hyps [of "Suc j"] kj j diff_less_mono2 [of j "Suc j" "length ys"] by auto
        then show ?thesis using run yj xj True kj j str_add [OF w, of j] less.prems(1)
          by (subst strstr_inner.simps) (auto simp: nth_append)
      next
        case False
        have "take (length ys) (drop k xs) \<noteq> ys"
        proof
          assume eq: "take (length ys) (drop k xs) = ys"
          have "take (length ys) (drop k xs) ! j = xs ! (k + j)" using j kj by simp
          with eq False show False by simp
        qed
        then show ?thesis using run yj xj False kj j by (subst strstr_inner.simps) (simp add: nth_append)
      qed
    qed
  qed
qed

lemma find_upt: "P k \<Longrightarrow> k < n \<Longrightarrow> \<forall>j < k. \<not> P j \<Longrightarrow> find P [0..<n] = Some k"
  by (auto simp: find_Some_iff intro!: exI [of _ k])

lemma strstr_law:
  assumes z: "str m p xs" and w: "str m q ys" and "k \<le> length xs" "\<forall>j < k. take (length ys) (drop j xs) \<noteq> ys"
  shows "strstr_loop T m p q (ix k) = Some (opt_ptr T p (first_occurrence ys xs))"
  using assms(3,4)
proof (induction "length xs - k" arbitrary: k rule: less_induct)
  case less
  obtain r where r: "strstr_inner T m p q (ix k) 0 = Some r" "r = Found \<longleftrightarrow> take (length ys) (drop k xs) = ys"
      "r = AtEnd \<longrightarrow> length xs - k < length ys" "r = Mismatch \<longrightarrow> k < length xs"
    using strstr_inner_law [OF z w less.prems(1), of 0] less.prems(1) by auto
  show ?case
  proof (cases r)
    case Found
    then have "first_occurrence ys xs = Some k"
      unfolding first_occurrence_def using r(2) less.prems by (intro find_upt) simp_all
    then show ?thesis using r(1) Found str_ptr [OF z less.prems(1)] by (subst strstr_loop.simps) (simp add: opt_ptr_def)
  next
    case AtEnd
    have "take (length ys) (drop j xs) \<noteq> ys" if "j \<le> length xs" for j
    proof (cases "j < k")
      case False
      then have "length (take (length ys) (drop j xs)) < length ys" using r(3) AtEnd by simp
      then show ?thesis by auto
    qed (use less.prems(2) in simp)
    then have "first_occurrence ys xs = None" by (simp add: first_occurrence_def find_None_iff less_Suc_eq_le del: upt_Suc)
    then show ?thesis using r(1) AtEnd by (subst strstr_loop.simps) (simp add: opt_ptr_def)
  next
    case Mismatch
    then have k: "k < length xs" and no: "\<forall>j < Suc k. take (length ys) (drop j xs) \<noteq> ys"
      using r less.prems(2) by (auto simp: less_Suc_eq)
    then have "strstr_loop T m p q (ix (Suc k)) = Some (opt_ptr T p (first_occurrence ys xs))"
      by (intro less.hyps) simp_all
    then show ?thesis using r(1) Mismatch str_add [OF z less.prems(1)] by (subst strstr_loop.simps) simp
  qed
qed

lemma ptr_next: "array_ok T m p n \<Longrightarrow> Suc i < n \<Longrightarrow> ptr_add (gt_size T) (elem_ptr T p i) 1 = Some (elem_ptr T p (Suc i))"
  using ptr_nested [of m p n i 1] by (simp add: ix_def)

lemma strcpy_loop_law:
  assumes "str m p xs" and "array_ok T m d (Suc (length xs))"
    and "array_bytes T d (Suc (length xs)) \<inter> array_bytes T p (Suc (length xs)) = {}"
    and "i \<le> length xs" "\<forall>j < i. elem_at T m d (ix j) = Some (xs ! j)" "length xs - i < unat n"
  shows "\<exists>m'. strcpy_loop T m (elem_ptr T d i) (elem_ptr T p i) n = Some m' \<and> cells T m' d (xs @ [ct_null T])
    \<and> agree_on (- array_bytes T d (Suc (length xs))) (mm_bytes m') (mm_bytes m) \<and> same_allocators m m'"
  using assms
proof (induction "length xs - i" arbitrary: i m n rule: less_induct)
  case less
  note z = less.prems(1) and ok = less.prems(2) and dj = less.prems(3)
  let ?c = "(xs @ [ct_null T]) ! i"
  have i: "i < Suc (length xs)" using less.prems(4) by simp
  have rd: "mem_read T m (elem_ptr T p i) = Some ?c"
    using str_at [OF z less.prems(4)] str_ptr [OF z less.prems(4)] by (simp add: elem_at_def)
  obtain m1 where m1: "set_elem T m d (ix i) ?c = Some m1" using set_elem_ok [OF ok i] by blast
  have wr: "mem_write T m (elem_ptr T d i) ?c = Some m1" using m1 elem_ptr_ok(5) [OF ok i] by (simp add: set_elem_def)
  note e = elem_set_elem [OF ok i m1]
  have pc: "cells T m p (xs @ [ct_null T])" using z by (simp add: zstring_def)
  have z1: "str m1 p xs"
  proof -
    have "agree_on (array_bytes T p (length (xs @ [ct_null T]))) (mm_bytes m1) (mm_bytes m)"
      using agree_on_mono [OF e(3)] dj by (auto simp: disjoint_eq_subset_Compl)
    from cells_agree [OF pc this e(4)] z show ?thesis by (simp add: zstring_def)
  qed
  have n0: "n \<noteq> 0" using less.prems(6) by auto
  show ?case
  proof (cases "i = length xs")
    case True
    have "cells T m1 d (xs @ [ct_null T])"
      unfolding cells_def
    proof (intro conjI allI impI)
      show "array_ok T m1 d (length (xs @ [ct_null T]))" using e(1) by simp
      fix j assume "j < length (xs @ [ct_null T])"
      then show "elem_at T m1 d (ix j) = Some ((xs @ [ct_null T]) ! j)"
        using e(2) [of j] less.prems(5) True by (auto simp: nth_append)
    qed
    then show ?thesis using rd wr n0 True e(3-6)
      by (subst strcpy_loop.simps) (simp add: same_allocators_def)
  next
    case False
    then have il: "i < length xs" using less.prems(4) by simp
    have ne: "xs ! i \<noteq> ct_null T" using str_in [OF z il] by simp
    obtain n' where n': "sub_chk n 1 = Some n'" using sub_chk_ex [of 1 n] n0 by (auto simp: unat_pos_iff Suc_le_eq)
    then have nu: "unat n = Suc (unat n')" by (simp add: sub_chk_Some)
    have pok: "array_ok T m p (Suc (length xs))" using pc by (simp add: cells_def)
    have nx: "ptr_add (gt_size T) (elem_ptr T d i) 1 = Some (elem_ptr T d (Suc i))"
      "ptr_add (gt_size T) (elem_ptr T p i) 1 = Some (elem_ptr T p (Suc i))"
      using ptr_next [OF ok] ptr_next [OF pok] il by simp_all
    have done1: "\<forall>j < Suc i. elem_at T m1 d (ix j) = Some (xs ! j)"
      using e(2) less.prems(5) il by (auto simp: less_Suc_eq nth_append)
    obtain m' where m': "strcpy_loop T m1 (elem_ptr T d (Suc i)) (elem_ptr T p (Suc i)) n' = Some m'"
        "cells T m' d (xs @ [ct_null T])"
        "agree_on (- array_bytes T d (Suc (length xs))) (mm_bytes m') (mm_bytes m1)" "same_allocators m1 m'"
      using less.hyps [OF _ z1 e(1) dj _ done1, of n'] il less.prems(6) nu diff_less_mono2 [of i "Suc i" "length xs"] by auto
    then show ?thesis using rd wr n0 ne nx n' il e(3-6) agree_on_trans [OF m'(3) e(3)]
      by (subst strcpy_loop.simps) (simp add: nth_append same_allocators_def)
  qed
qed

lemma strcpy_law:
  assumes "str m p xs" and "array_ok T m d (Suc (length xs))"
    and "array_bytes T d (Suc (length xs)) \<inter> array_bytes T p (Suc (length xs)) = {}" and "length xs < unat n"
  shows "\<exists>m'. gc_strcpy T m d p n = Some (m', d) \<and> str m' d xs
    \<and> agree_on (- array_bytes T d (Suc (length xs))) (mm_bytes m') (mm_bytes m) \<and> same_allocators m m'"
proof -
  have "elem_ptr T d 0 = d" "elem_ptr T p 0 = p" by (simp_all add: elem_ptr_def)
  then show ?thesis using strcpy_loop_law [OF assms(1-3), of 0 n] assms(1,4)
    by (auto simp: gc_strcpy_def zstring_def)
qed

end

interpretation u8s: char_codec u8_char
  by unfold_locales (auto simp: u8_char_def)

lemma sint_total: "a \<noteq> b \<Longrightarrow> sint a < sint b \<or> sint b < sint (a :: u32)"
proof -
  assume "a \<noteq> b"
  then have "sint a \<noteq> sint b" by (blast dest: signed_word_eqI)
  then show ?thesis by (simp add: neq_iff)
qed

interpretation wcs: char_codec wchar_char
  by unfold_locales
    (use sint_total le_dec_enc [where ?'a = 32 and n = 4] in \<open>auto simp: wchar_char_def le_enc_def\<close>)

subsection \<open>Properties\<close>

text \<open>A C string of \<open>char\<close> is its bytes in memory and a terminator.\<close>

lemma u8_elem: "array_ok u8_char m p n \<Longrightarrow> i < n \<Longrightarrow> elem_at u8_char m p (ix i) = Some (mm_bytes m (p + of_nat i))"
  using u8s.elem_at_ok [of m p n i] by (simp add: u8_char_def elem_ptr_def get_range_def)

lemma u8_zstring:
  assumes "mm_null m \<le> p" "unat p + (length xs + 1) \<le> 2 ^ 32" "length xs + 1 < 2 ^ 32"
    and "0 \<notin> set xs" "get_range (mm_bytes m) p (length xs + 1) = xs @ [0]"
  shows "zstring u8_char 0 m p xs"
proof -
  have ok: "array_ok u8_char m p (length (xs @ [0]))" using assms(1,2) by (simp add: array_ok_def u8_char_def)
  have "elem_at u8_char m p (ix i) = Some ((xs @ [0]) ! i)" if "i < length (xs @ [0])" for i
    using u8_elem [OF ok that] that unfolding assms(5) [symmetric] by simp
  then have "cells u8_char m p (xs @ [0])" unfolding cells_def using ok by blast
  then show ?thesis using assms(3,4) by (simp add: zstring_def)
qed

lemma u8_null [simp]: "ct_null u8_char = 0" and wchar_null [simp]: "ct_null wchar_char = 0"
  by (simp_all add: u8_char_def wchar_char_def)

text \<open>C8: For C strings of char, strcmp and strncmp compare the strings with their terminators
  (the first n elements for strncmp), and memcmp the first n bytes: the result is -1, 0 or 1 by
  the first difference in the order of the element type. The same holds of strcmp for wchar_t,
  whose elements are ordered as signed integers. None of these panics.\<close>

theorem string_comparison:
  assumes "zstring u8_char 0 m p xs" and "zstring u8_char 0 m q ys"
    and "zstring wchar_char 0 m wp ws" and "zstring wchar_char 0 m wq vs"
    and "cells u8_char m b bs" and "cells u8_char m c cs" and "unat k \<le> length bs" and "unat k \<le> length cs"
  shows "gc_strcmp u8_char m p q = Some (lex_cmp u8_char (xs @ [0]) (ys @ [0]))
    \<and> gc_strncmp u8_char m p q n = Some (lex_cmp u8_char (take (unat n) (xs @ [0])) (take (unat n) (ys @ [0])))
    \<and> gc_strcmp wchar_char m wp wq = Some (lex_cmp wchar_char (ws @ [0]) (vs @ [0]))
    \<and> gc_memcmp u8_char m b c k = Some (lex_cmp u8_char (take (unat k) bs) (take (unat k) cs))"
proof (intro conjI)
  show "gc_strcmp u8_char m p q = Some (lex_cmp u8_char (xs @ [0]) (ys @ [0]))"
    using u8s.strcmp_law [of m p xs q ys 0] assms(1,2) by (simp add: gc_strcmp_def)
  show "gc_strcmp wchar_char m wp wq = Some (lex_cmp wchar_char (ws @ [0]) (vs @ [0]))"
    using wcs.strcmp_law [of m wp ws wq vs 0] assms(3,4) by (simp add: gc_strcmp_def)
  show "gc_memcmp u8_char m b c k = Some (lex_cmp u8_char (take (unat k) bs) (take (unat k) cs))"
    using u8s.memcmp_law [OF assms(5-8), of 0] by (simp add: gc_memcmp_def)
  show "gc_strncmp u8_char m p q n = Some (lex_cmp u8_char (take (unat n) (xs @ [0])) (take (unat n) (ys @ [0])))"
  proof (cases "n = 0")
    case False
    then have "0 < unat n" by (simp add: unat_pos_iff)
    then show ?thesis using u8s.strncmp_law [of m p xs q ys 0 n] assms(1,2) False by (simp add: gc_strncmp_def)
  qed (simp add: gc_strncmp_def)
qed

text \<open>Two strings, "abcab" at 0x1000 and "ab" at 0x1010, and the same as one wide character each.\<close>

definition demo_mem :: guest_mem where
  "demo_mem = \<lparr>mm_bytes = put_range (put_range (put_range (\<lambda>_. 0) 0x1000 [97, 98, 99, 97, 98, 0]) 0x1010 [97, 98, 0])
     0x1020 [97, 0, 0, 0, 0, 0, 0, 0], mm_null = 0x1000, mm_heap = None, mm_vm = boot_vm\<rparr>"

lemma demo_strings:
  "zstring u8_char 0 demo_mem 0x1000 [97, 98, 99, 97, 98]" "zstring u8_char 0 demo_mem 0x1010 [97, 98]"
proof -
  have n: "mm_null demo_mem = 0x1000" by (simp add: demo_mem_def)
  have b: "get_range (mm_bytes demo_mem) 0x1000 6 = [97, 98, 99, 97, 98, 0]"
    "get_range (mm_bytes demo_mem) 0x1010 3 = [97, 98, 0]" by code_simp+
  have l: "length [97 :: u8, 98, 99, 97, 98] + 1 = 6" "length [97 :: u8, 98] + 1 = 3" by simp_all
  show "zstring u8_char 0 demo_mem 0x1000 [97, 98, 99, 97, 98]"
    by (rule u8_zstring) (unfold l, use n b in simp_all)
  show "zstring u8_char 0 demo_mem 0x1010 [97, 98]" by (rule u8_zstring) (unfold l, use n b in simp_all)
qed

lemma demo_wide: "zstring wchar_char 0 demo_mem 0x1020 [97]"
proof -
  have "elem_at wchar_char demo_mem 0x1020 0 = Some 97 \<and> elem_at wchar_char demo_mem 0x1020 1 = Some 0" by code_simp
  then have "elem_at wchar_char demo_mem 0x1020 (ix i) = Some ([97, 0] ! i)" if "i < 2" for i
    using that by (auto simp: less_2_cases_iff ix_def)
  then show ?thesis by (simp add: zstring_def cells_def array_ok_def wchar_char_def demo_mem_def)
qed

theorem string_comparison_witness:
  "gc_strcmp u8_char demo_mem 0x1000 0x1010 = Some 1 \<and> gc_strncmp u8_char demo_mem 0x1000 0x1010 2 = Some 0
    \<and> gc_strcmp wchar_char demo_mem 0x1020 0x1020 = Some 0"
proof -
  have c: "cells u8_char demo_mem 0x1010 [97, 98, 0]" using demo_strings(2) by (simp add: zstring_def)
  have "unat (2 :: u32) \<le> length [97 :: u8, 98, 0]" by simp
  from string_comparison [OF demo_strings demo_wide demo_wide c c this this, of 2]
  show ?thesis by (simp add: ct_cmp_def u8_char_def wchar_char_def)
qed

text \<open>C9: The searches in a C string of char: strlen is its length; strspn and strcspn are the
  lengths of the longest prefixes inside and outside a set of characters; strchr and strrchr point
  to the first and last occurrence of a character, the terminator included; strpbrk to the first
  character of a set; strstr to the first occurrence of a substring; each is null if there is
  none. None of these panics.\<close>

theorem string_search:
  assumes s: "zstring u8_char 0 m p xs" and t: "zstring u8_char 0 m q ys"
  shows "gc_strlen u8_char m p = Some (ix (length xs))
    \<and> gc_strspn u8_char m p q = Some (ix (length (takeWhile (\<lambda>c. c \<in> set ys) xs)))
    \<and> gc_strcspn u8_char m p q = Some (ix (length (takeWhile (\<lambda>c. c \<notin> set ys) xs)))
    \<and> gc_strchr u8_char m p c = Some (opt_ptr u8_char p (position (\<lambda>x. x = c) (xs @ [0])))
    \<and> gc_strrchr u8_char m p c = Some (opt_ptr u8_char p (last_position (\<lambda>x. x = c) (xs @ [0])))
    \<and> gc_strpbrk u8_char m p q = Some (opt_ptr u8_char p (position (\<lambda>c. c \<in> set ys) xs))
    \<and> gc_strstr u8_char m p q = Some (opt_ptr u8_char p (first_occurrence ys xs))"
proof -
  have l: "gc_strlen u8_char m p = Some (ix (length xs))" using u8s.strlen_law s by simp
  then show ?thesis using s t
      u8s.strspn_law [of m p xs q ys 0] u8s.strchr_law [of m p xs 0 c] u8s.strrchr_law [of m p xs "length xs" c]
      u8s.strpbrk_law [of m p xs q ys 0] u8s.strstr_law [of m p xs q ys 0]
    by (simp add: gc_strspn_def gc_strcspn_def gc_strchr_def gc_strrchr_def gc_strpbrk_def gc_strstr_def last_position_def
        del: upt_Suc)
qed

theorem string_search_witness:
  "gc_strlen u8_char demo_mem 0x1000 = Some 5 \<and> gc_strstr u8_char demo_mem 0x1000 0x1010 = Some 0x1000
    \<and> gc_strrchr u8_char demo_mem 0x1000 97 = Some 0x1003"
  using string_search [OF demo_strings, of 97]
  by (simp add: opt_ptr_def elem_ptr_def u8_char_def ix_def first_occurrence_def last_position_def last_opt_def upt_rec)

text \<open>strcpy of a C string to an array that has room for it and its terminator and does not
  overlap it, with a buffer size larger than its length, returns the target, which then holds the
  string; no other byte of memory changes.\<close>

theorem strcpy_copies:
  assumes "zstring u8_char 0 m p xs" and "array_ok u8_char m d (Suc (length xs))"
    and "array_bytes u8_char d (Suc (length xs)) \<inter> array_bytes u8_char p (Suc (length xs)) = {}"
    and "length xs < unat n"
  shows "\<exists>m'. gc_strcpy u8_char m d p n = Some (m', d) \<and> zstring u8_char 0 m' d xs
    \<and> agree_on (- array_bytes u8_char d (Suc (length xs))) (mm_bytes m') (mm_bytes m) \<and> same_allocators m m'"
  using u8s.strcpy_law [of m p xs d n] assms by simp

theorem strcpy_copies_witness:
  "\<exists>m'. gc_strcpy u8_char demo_mem 0x1030 0x1010 0xFFFFFFFF = Some (m', 0x1030) \<and> zstring u8_char 0 m' 0x1030 [97, 98]"
proof -
  have "array_ok u8_char demo_mem 0x1030 (Suc (length [97 :: u8, 98]))"
    by (simp add: array_ok_def u8_char_def demo_mem_def)
  moreover have "array_bytes u8_char 0x1030 (Suc (length [97 :: u8, 98])) \<inter> array_bytes u8_char 0x1010 (Suc (length [97 :: u8, 98])) = {}"
    by (simp add: array_bytes_def u8_char_def)
  ultimately show ?thesis using strcpy_copies [OF demo_strings(2), of "0x1030" "0xFFFFFFFF"] by auto
qed

end
