(* ===== verification/Threads.thy ===== *)
theory Threads
  imports Generic_Char
begin

text \<open>
  The threads of \<open>src/environment.rs\<close>, the host's mutexes of \<open>src/environment/mutex.rs\<close> and
  the scheduler. \<open>env\<close> is the part of \<open>Environment\<close> they use.

  \<^item> A guest thread runs in a coroutine. An operation that may block is a computation that
    either finishes or yields the environment to the executor together with what it does when
    it is resumed (\<open>coro\<close>); \<open>yield_thread\<close> is the one place where it yields.
  \<^item> The host's clocks are parameters (\<open>host\<close>): \<open>Instant::now\<close> and \<open>SystemTime::now\<close> are
    functions of what the process did with them so far, the list \<open>e_log\<close> of clock readings and
    sleeps. Instants and durations are numbers of nanoseconds.
  \<^item> \<open>HashMap\<close> is a partial function (\<open>lc_pthreads\<close>, which is searched, a list of pairs), \<open>HashSet\<close> a set, \<open>VecDeque\<close> a list, and an \<open>i32\<close> a
    32-bit word that is read with \<open>sint\<close>.
\<close>

subsection \<open>Data\<close>

type_synonym i32 = "32 word"
type_synonym thread_id = nat
type_synonym mutex_id = u64

text \<open>Error numbers of \<open>src/libc/errno.rs\<close>.\<close>

abbreviation EPERM :: i32 where "EPERM \<equiv> 1"
abbreviation ESRCH :: i32 where "ESRCH \<equiv> 3"
abbreviation EDEADLK :: i32 where "EDEADLK \<equiv> 11"
abbreviation EBUSY :: i32 where "EBUSY \<equiv> 16"
abbreviation EINVAL :: i32 where "EINVAL \<equiv> 22"
abbreviation EAGAIN :: i32 where "EAGAIN \<equiv> 35"
abbreviation ETIMEDOUT :: i32 where "ETIMEDOUT \<equiv> 60"

datatype mutex_type = PTHREAD_MUTEX_NORMAL | PTHREAD_MUTEX_ERRORCHECK | PTHREAD_MUTEX_RECURSIVE

abbreviation PTHREAD_MUTEX_DEFAULT :: mutex_type where "PTHREAD_MUTEX_DEFAULT \<equiv> PTHREAD_MUTEX_NORMAL"

record mutex =
  mx_type :: mutex_type
  mx_waiting :: u32
  mx_locked :: "(thread_id \<times> u32) option"

record mutex_state =
  ms_mutexes :: "mutex_id \<Rightarrow> mutex option"
  ms_count :: u64

datatype cpu_error = MemoryError | UndefinedInstruction | Breakpoint

datatype thread_block =
    NotBlocked
  | Sleeping nat
  | Mutex mutex_id
  | Semaphore vaddr
  | Condition vaddr "nat option"
  | Joining thread_id vaddr
  | WaitingForDebugger "cpu_error option"
  | Suspended nat thread_block
  | FileObjectLock vaddr

record thread =
  th_active :: bool
  th_blocked_by :: thread_block
  th_return :: "vaddr option"
  th_stack :: "(u32 \<times> u32) option"

text \<open>
  The semaphores' \<open>Rc<RefCell<..>>\<close> objects live in a store, the list \<open>ss_store\<close>; the maps hold
  indices into it, so that a named semaphore and its open handle share one object.
\<close>

record sem_object =
  so_value :: i32
  so_waiting :: "thread_id set"
  so_guest :: "vaddr option"
  so_named :: bool

record sem_state =
  ss_named :: "u8 list \<Rightarrow> nat option"
  ss_open :: "vaddr \<Rightarrow> nat option"
  ss_store :: "sem_object list"

record cond_object =
  co_waiting :: "thread_id list"
  co_waking :: "thread_id list"
  co_mutex :: "mutex_id option"
  co_timed_out :: "thread_id set"

record file_object =
  fo_pushbacks :: "u8 list"
  fo_lock_count :: u32
  fo_owner :: "thread_id option"

text \<open>The host's side of \<open>pthread_t\<close> (\<open>src/libc/pthread/thread.rs\<close>).\<close>

record pthread_attr =
  pa_magic :: u32
  pa_detachstate :: i32
  pa_stacksize :: guest_usize
  pa_unused :: "u32 list"

record pthread_object =
  po_thread :: thread_id
  po_joined_by :: "thread_id option"
  po_attr :: pthread_attr

text \<open>A slot of thread-specific data (\<open>src/libc/pthread/key.rs\<close>): the values and the destructor.\<close>

type_synonym key_slot = "((thread_id \<Rightarrow> vaddr option) \<times> vaddr) option"

datatype host_event = Clock_Read | Slept nat

record host =
  h_instant :: "host_event list \<Rightarrow> nat"
  h_wall :: "host_event list \<Rightarrow> nat option"

text \<open>The states of \<open>pthread/thread.rs\<close>, \<open>pthread/key.rs\<close>, \<open>time.rs\<close> and \<open>clocale.rs\<close> under \<open>src/libc\<close>.\<close>

record libc_state =
  lc_pthreads :: "(vaddr \<times> pthread_object) list"
  lc_main_thread_object :: bool
  lc_keys :: "key_slot list"
  lc_gmtime_tmp :: "vaddr option"
  lc_locale :: "i32 \<Rightarrow> vaddr option"
  lc_langinfo :: "i32 \<Rightarrow> vaddr option"

record env =
  e_mem :: guest_mem
  e_current :: thread_id
  e_threads :: "thread list"
  e_mutexes :: mutex_state
  e_sems :: sem_state
  e_conds :: "vaddr \<Rightarrow> cond_object option"
  e_files :: "vaddr \<Rightarrow> file_object option"
  e_errnos :: "thread_id \<Rightarrow> vaddr option"
  e_sync :: "vaddr \<Rightarrow> mutex_id option"
  e_libc :: libc_state
  e_log :: "host_event list"

subsection \<open>Coroutines\<close>

datatype ('s, 'a) coro = Finished 'a 's | Yielded 's "'s \<Rightarrow> ('s, 'a) coro option"

primrec coro_bind :: "('s, 'a) coro \<Rightarrow> ('a \<Rightarrow> 's \<Rightarrow> ('s, 'b) coro run) \<Rightarrow> ('s, 'b) coro run" where
  "coro_bind (Finished a s) f = f a s"
| "coro_bind (Yielded s k) f =
     Some (Yielded s (\<lambda>s'. Option.bind (map_option (\<lambda>c. coro_bind c f) (k s')) id))"

subsection \<open>Access to the environment\<close>

definition index_run :: "'a list \<Rightarrow> nat \<Rightarrow> 'a run" where
  "index_run xs i = (if i < length xs then Some (xs ! i) else None)"

definition set_block :: "thread_id \<Rightarrow> thread_block \<Rightarrow> env \<Rightarrow> env" where
  "set_block t b e = e\<lparr>e_threads := (e_threads e)[t := (e_threads e ! t)\<lparr>th_blocked_by := b\<rparr>]\<rparr>"

definition get_mutex :: "env \<Rightarrow> mutex_id \<Rightarrow> mutex option" where
  "get_mutex e m = ms_mutexes (e_mutexes e) m"

definition put_mutex :: "mutex_id \<Rightarrow> mutex \<Rightarrow> env \<Rightarrow> env" where
  "put_mutex m x e = e\<lparr>e_mutexes := (e_mutexes e)\<lparr>ms_mutexes := (ms_mutexes (e_mutexes e))(m \<mapsto> x)\<rparr>\<rparr>"

definition put_cond :: "vaddr \<Rightarrow> cond_object \<Rightarrow> env \<Rightarrow> env" where
  "put_cond c x e = e\<lparr>e_conds := (e_conds e)(c \<mapsto> x)\<rparr>"

definition get_sem :: "env \<Rightarrow> vaddr \<Rightarrow> (nat \<times> sem_object) run" where
  "get_sem e s = do {
     r \<leftarrow> ss_open (e_sems e) s;
     x \<leftarrow> index_run (ss_store (e_sems e)) r;
     Some (r, x) }"

definition put_sem :: "nat \<Rightarrow> sem_object \<Rightarrow> env \<Rightarrow> env" where
  "put_sem r x e = e\<lparr>e_sems := (e_sems e)\<lparr>ss_store := (ss_store (e_sems e))[r := x]\<rparr>\<rparr>"

definition instant_now :: "host \<Rightarrow> env \<Rightarrow> nat \<times> env" where
  "instant_now H e = (h_instant H (e_log e), e\<lparr>e_log := Clock_Read # e_log e\<rparr>)"

definition wall_now :: "host \<Rightarrow> env \<Rightarrow> (nat \<times> env) run" where
  "wall_now H e = map_option (\<lambda>t. (t, e\<lparr>e_log := Clock_Read # e_log e\<rparr>)) (h_wall H (e_log e))"

definition thread_sleep :: "nat \<Rightarrow> env \<Rightarrow> env" where
  "thread_sleep d e = e\<lparr>e_log := Slept d # e_log e\<rparr>"

text \<open>Checked operations on \<open>i32\<close>.\<close>

definition sadd_chk :: "i32 \<Rightarrow> i32 \<Rightarrow> i32 run" where
  "sadd_chk a b = (if - (2 ^ 31) \<le> sint a + sint b \<and> sint a + sint b < 2 ^ 31 then Some (a + b) else None)"

subsection \<open>Mutexes of the host\<close>

definition mutex_type_try_from :: "i32 \<Rightarrow> mutex_type option" where
  "mutex_type_try_from v =
     (if v = 0 then Some PTHREAD_MUTEX_NORMAL
      else if v = 1 then Some PTHREAD_MUTEX_ERRORCHECK
      else if v = 2 then Some PTHREAD_MUTEX_RECURSIVE else None)"

definition init_mutex :: "mutex_type \<Rightarrow> env \<Rightarrow> (mutex_id \<times> env) run" where
  "init_mutex ty e = do {
     let ms = e_mutexes e;
     let id = ms_count ms;
     n \<leftarrow> add_chk id 1;
     Some (id, e\<lparr>e_mutexes := ms\<lparr>ms_count := n,
       ms_mutexes := (ms_mutexes ms)(id \<mapsto> \<lparr>mx_type = ty, mx_waiting = 0, mx_locked = None\<rparr>)\<rparr>\<rparr>) }"

definition destroy_mutex :: "mutex_id \<Rightarrow> env \<Rightarrow> ((i32 + unit) \<times> env) run" where
  "destroy_mutex m e = do {
     x \<leftarrow> get_mutex e m;
     if mx_locked x \<noteq> None then Some (Inl EBUSY, e)
     else if mx_waiting x \<noteq> 0 then Some (Inl EBUSY, e)
     else Some (Inr (), e\<lparr>e_mutexes := (e_mutexes e)\<lparr>ms_mutexes := (ms_mutexes (e_mutexes e))(m := None)\<rparr>\<rparr>) }"

definition mutex_is_locked :: "env \<Rightarrow> mutex_id \<Rightarrow> bool" where
  "mutex_is_locked e m = (case get_mutex e m of None \<Rightarrow> False | Some x \<Rightarrow> mx_locked x \<noteq> None)"

definition mutex_is_recursive :: "env \<Rightarrow> mutex_id \<Rightarrow> bool" where
  "mutex_is_recursive e m =
     (case get_mutex e m of None \<Rightarrow> False | Some x \<Rightarrow> mx_type x = PTHREAD_MUTEX_RECURSIVE)"

definition mutex_is_locked_by :: "env \<Rightarrow> mutex_id \<Rightarrow> thread_id \<Rightarrow> bool" where
  "mutex_is_locked_by e m t =
     (case get_mutex e m of None \<Rightarrow> False
      | Some x \<Rightarrow> (case mx_locked x of Some (owner, _) \<Rightarrow> owner = t | None \<Rightarrow> False))"

definition relock_unblocked_mutex_for_thread :: "thread_id \<Rightarrow> mutex_id \<Rightarrow> env \<Rightarrow> env run" where
  "relock_unblocked_mutex_for_thread t m e = do {
     x \<leftarrow> get_mutex e m;
     _ \<leftarrow> rassert (mx_locked x = None);
     Some (put_mutex m (x\<lparr>mx_locked := Some (t, 1),
       mx_waiting := (if 0 < mx_waiting x then mx_waiting x - 1 else mx_waiting x)\<rparr>) e) }"

subsection \<open>Yielding, sleeping, suspending\<close>

definition is_blocked :: "env \<Rightarrow> thread_id \<Rightarrow> bool run" where
  "is_blocked e t = map_option (\<lambda>x. th_blocked_by x \<noteq> NotBlocked) (index_run (e_threads e) t)"

definition yield_thread :: "thread_block \<Rightarrow> env \<Rightarrow> (env, unit) coro run" where
  "yield_thread b e = do {
     blocked \<leftarrow> is_blocked e (e_current e);
     _ \<leftarrow> rassert (\<not> blocked);
     Some (Yielded (set_block (e_current e) b e) (\<lambda>e'. do {
       blocked' \<leftarrow> is_blocked e' (e_current e');
       _ \<leftarrow> rassert (\<not> blocked');
       Some (Finished () e') })) }"

text \<open>\<open>Instant::checked_add\<close> fails beyond the range of the host's clock, a parameter.\<close>

definition env_sleep :: "host \<Rightarrow> nat \<Rightarrow> nat \<Rightarrow> env \<Rightarrow> (env, unit) coro run" where
  "env_sleep H instant_max d e = do {
     let (now, e1) = instant_now H e;
     until \<leftarrow> (if now + d \<le> instant_max then Some (now + d) else None);
     yield_thread (Sleeping until) e1 }"

definition suspend_thread :: "thread_id \<Rightarrow> env \<Rightarrow> env run" where
  "suspend_thread t e = do {
     th \<leftarrow> index_run (e_threads e) t;
     case th_blocked_by th of
       Suspended count prev \<Rightarrow> Some (set_block t (Suspended (count + 1) prev) e)
     | prev \<Rightarrow> Some (set_block t (Suspended 1 prev) e) }"

definition resume_thread :: "thread_id \<Rightarrow> env \<Rightarrow> env run" where
  "resume_thread t e = do {
     th \<leftarrow> index_run (e_threads e) t;
     case th_blocked_by th of
       Suspended count prev \<Rightarrow> do {
         _ \<leftarrow> rassert (count > 0);
         if count > 1 then Some (set_block t (Suspended (count - 1) prev) e)
         else Some (set_block t prev e) }
     | _ \<Rightarrow> None }"

definition block_on_mutex :: "mutex_id \<Rightarrow> env \<Rightarrow> (env, unit) coro run" where
  "block_on_mutex m e = yield_thread (Mutex m) e"

definition join_with_thread :: "thread_id \<Rightarrow> vaddr \<Rightarrow> env \<Rightarrow> (env, unit) coro run" where
  "join_with_thread t p e = yield_thread (Joining t p) e"

definition lock_mutex :: "mutex_id \<Rightarrow> env \<Rightarrow> (env, i32 + u32) coro run" where
  "lock_mutex m e = do {
     x \<leftarrow> get_mutex e m;
     case mx_locked x of
       None \<Rightarrow> Some (Finished (Inr 1) (put_mutex m (x\<lparr>mx_locked := Some (e_current e, 1)\<rparr>) e))
     | Some (owner, n) \<Rightarrow>
         if owner = e_current e then
           (case mx_type x of
              PTHREAD_MUTEX_NORMAL \<Rightarrow> None
            | PTHREAD_MUTEX_ERRORCHECK \<Rightarrow> Some (Finished (Inl EDEADLK) e)
            | PTHREAD_MUTEX_RECURSIVE \<Rightarrow> do {
                n' \<leftarrow> add_chk n 1;
                Some (Finished (Inr n') (put_mutex m (x\<lparr>mx_locked := Some (owner, n')\<rparr>) e)) })
         else do {
           w \<leftarrow> add_chk (mx_waiting x) 1;
           c \<leftarrow> block_on_mutex m (put_mutex m (x\<lparr>mx_waiting := w\<rparr>) e);
           coro_bind c (\<lambda>_ e'. Some (Finished (Inr 1) e')) } }"

definition unlock_mutex :: "mutex_id \<Rightarrow> env \<Rightarrow> ((i32 + u32) \<times> env) run" where
  "unlock_mutex m e = do {
     x \<leftarrow> get_mutex e m;
     case mx_locked x of
       None \<Rightarrow> (case mx_type x of PTHREAD_MUTEX_NORMAL \<Rightarrow> None | _ \<Rightarrow> Some (Inl EPERM, e))
     | Some (owner, n) \<Rightarrow>
         if owner \<noteq> e_current e \<and> mx_type x \<noteq> PTHREAD_MUTEX_NORMAL then Some (Inl EPERM, e)
         else if n = 1 then Some (Inr 0, put_mutex m (x\<lparr>mx_locked := None\<rparr>) e)
         else do {
           _ \<leftarrow> rassert (mx_type x = PTHREAD_MUTEX_RECURSIVE);
           n' \<leftarrow> sub_chk n 1;
           _ \<leftarrow> rassert (n' \<noteq> 0);
           Some (Inr n', put_mutex m (x\<lparr>mx_locked := Some (owner, n')\<rparr>) e) } }"

subsection \<open>Semaphores\<close>

definition sem_decrement :: "vaddr \<Rightarrow> bool \<Rightarrow> env \<Rightarrow> (env, bool) coro run" where
  "sem_decrement s wait_on_lock e = do {
     (r, x) \<leftarrow> get_sem e s;
     if 0 < sint (so_value x) then Some (Finished True (put_sem r (x\<lparr>so_value := so_value x - 1\<rparr>) e))
     else if \<not> wait_on_lock then Some (Finished False e)
     else do {
       c \<leftarrow> yield_thread (Semaphore s) (put_sem r (x\<lparr>so_waiting := insert (e_current e) (so_waiting x)\<rparr>) e);
       coro_bind c (\<lambda>_ e'. Some (Finished True e')) } }"

definition sem_increment :: "vaddr \<Rightarrow> env \<Rightarrow> env run" where
  "sem_increment s e = do {
     (r, x) \<leftarrow> get_sem e s;
     v \<leftarrow> sadd_chk (so_value x) 1;
     Some (put_sem r (x\<lparr>so_value := v\<rparr>) e) }"

subsection \<open>Locks of \<open>FILE\<close> objects\<close>

text \<open>\<open>FILE\<close> of \<open>src/libc/stdio.rs\<close> is one \<open>i32\<close>, the descriptor.\<close>

definition u32_type :: "u32 guest_type" where
  "u32_type = \<lparr>gt_size = 4, gt_enc = le_enc 4, gt_dec = le_dec\<rparr>"

definition get_file_host_obj :: "vaddr \<Rightarrow> env \<Rightarrow> (file_object \<times> env) run" where
  "get_file_host_obj p e = do {
     fd \<leftarrow> mem_read u32_type (e_mem e) p;
     let e1 = (if (fd = 0 \<or> fd = 1 \<or> fd = 2) \<and> e_files e p = None
               then e\<lparr>e_files := (e_files e)(p \<mapsto> \<lparr>fo_pushbacks = [], fo_lock_count = 0, fo_owner = None\<rparr>)\<rparr>
               else e);
     x \<leftarrow> e_files e1 p;
     Some (x, e1) }"

definition try_acquire_file_object_lock :: "vaddr \<Rightarrow> thread_id \<Rightarrow> env \<Rightarrow> (bool \<times> env) run" where
  "try_acquire_file_object_lock p t e = do {
     (x, e1) \<leftarrow> get_file_host_obj p e;
     if fo_lock_count x = 0 then do {
       _ \<leftarrow> rassert (fo_owner x = None);
       Some (True, e1\<lparr>e_files := (e_files e1)(p \<mapsto> x\<lparr>fo_lock_count := 1, fo_owner := Some t\<rparr>)\<rparr>) }
     else Some (False, e1) }"

end
