(* ===== verification/Scheduler.thy ===== *)
theory Scheduler
  imports Threads
begin

text \<open>
  \<open>schedule_next_thread\<close> of \<open>src/environment.rs\<close>. \<open>poll_thread\<close> is the body of its inner
  loop for one candidate, \<open>scan_threads\<close> the loop over the candidates, and
  \<open>schedule_next_thread\<close> the outer loop, which sleeps and starts again. The outer loop is a
  partial function: \<open>None\<close> is a panic or a loop that never ends, so that a theorem with a
  result \<open>Some\<close> excludes both.
\<close>

subsection \<open>The scheduler\<close>

datatype poll = Woken | Asleep nat | Waiting

fun min_opt :: "nat option \<Rightarrow> nat \<Rightarrow> nat option" where
  "min_opt None u = Some u"
| "min_opt (Some v) u = Some (min v u)"

text \<open>The candidate is set to be unblocked before or after the other change, as in the source.\<close>

definition poll_sleeping :: "host \<Rightarrow> thread_id \<Rightarrow> nat \<Rightarrow> env \<Rightarrow> (poll \<times> env) run" where
  "poll_sleeping H t until e = do {
     let (now, e1) = instant_now H e;
     if until \<le> now then Some (Woken, set_block t NotBlocked e1) else Some (Asleep until, e1) }"

definition poll_mutex :: "thread_id \<Rightarrow> mutex_id \<Rightarrow> env \<Rightarrow> (poll \<times> env) run" where
  "poll_mutex t m e =
     (if \<not> mutex_is_locked e m then do {
        e1 \<leftarrow> relock_unblocked_mutex_for_thread t m (set_block t NotBlocked e);
        Some (Woken, e1) }
      else Some (Waiting, e))"

definition poll_semaphore :: "thread_id \<Rightarrow> vaddr \<Rightarrow> env \<Rightarrow> (poll \<times> env) run" where
  "poll_semaphore t s e = do {
     (r, x) \<leftarrow> get_sem e s;
     if 0 < sint (so_value x) then
       Some (Woken, set_block t NotBlocked
         (put_sem r (x\<lparr>so_value := so_value x - 1, so_waiting := so_waiting x - {e_current e}\<rparr>) e))
     else Some (Waiting, e) }"

definition front :: "'a list \<Rightarrow> 'a option" where
  "front xs = (case xs of [] \<Rightarrow> None | x # _ \<Rightarrow> Some x)"

definition poll_condition :: "host \<Rightarrow> thread_id \<Rightarrow> vaddr \<Rightarrow> nat option \<Rightarrow> env \<Rightarrow> (poll \<times> env) run" where
  "poll_condition H t c deadline e = do {
     x \<leftarrow> e_conds e c;
     m \<leftarrow> co_mutex x;
     if front (co_waking x) = Some t \<and> \<not> mutex_is_locked e m then do {
       e1 \<leftarrow> relock_unblocked_mutex_for_thread t m
               (set_block t NotBlocked (put_cond c (x\<lparr>co_waking := tl (co_waking x)\<rparr>) e));
       Some (Woken, e1) }
     else (case deadline of
       None \<Rightarrow> Some (Waiting, e)
     | Some d \<Rightarrow> do {
         (time, e1) \<leftarrow> wall_now H e;
         if d \<le> time then do {
           _ \<leftarrow> rassert (t \<notin> co_timed_out x);
           _ \<leftarrow> rassert (co_waking x = []);
           _ \<leftarrow> rassert (\<not> mutex_is_locked e1 m);
           e2 \<leftarrow> relock_unblocked_mutex_for_thread t m
             (set_block t NotBlocked
               (put_cond c (x\<lparr>co_timed_out := insert t (co_timed_out x),
                             co_waiting := filter (\<lambda>u. u \<noteq> t) (co_waiting x)\<rparr>) e1));
           Some (Woken, e2) }
         else Some (Waiting, e1) }) }"

definition poll_joining :: "thread_id \<Rightarrow> thread_id \<Rightarrow> vaddr \<Rightarrow> env \<Rightarrow> (poll \<times> env) run" where
  "poll_joining t joinee p e = do {
     th \<leftarrow> index_run (e_threads e) joinee;
     if \<not> th_active th then do {
       m \<leftarrow> (if p \<noteq> 0 then do { v \<leftarrow> th_return th; mem_write u32_type (e_mem e) p v }
             else Some (e_mem e));
       Some (Woken, set_block t NotBlocked (e\<lparr>e_mem := m\<rparr>)) }
     else Some (Waiting, e) }"

definition poll_file :: "thread_id \<Rightarrow> vaddr \<Rightarrow> env \<Rightarrow> (poll \<times> env) run" where
  "poll_file t p e = do {
     (acquired, e1) \<leftarrow> try_acquire_file_object_lock p t e;
     if acquired then Some (Woken, set_block t NotBlocked e1) else Some (Waiting, e1) }"

definition poll_thread :: "host \<Rightarrow> thread_id \<Rightarrow> env \<Rightarrow> (poll \<times> env) run" where
  "poll_thread H t e = do {
     th \<leftarrow> index_run (e_threads e) t;
     if \<not> th_active th then Some (Waiting, e)
     else (case th_blocked_by th of
         Sleeping until \<Rightarrow> poll_sleeping H t until e
       | Mutex m \<Rightarrow> poll_mutex t m e
       | Semaphore s \<Rightarrow> poll_semaphore t s e
       | Condition c deadline \<Rightarrow> poll_condition H t c deadline e
       | Joining joinee p \<Rightarrow> poll_joining t joinee p e
       | NotBlocked \<Rightarrow> Some (Woken, e)
       | WaitingForDebugger _ \<Rightarrow> None
       | Suspended count _ \<Rightarrow> do { _ \<leftarrow> rassert (count > 0); Some (Waiting, e) }
       | FileObjectLock p \<Rightarrow> poll_file t p e) }"

definition candidate :: "env \<Rightarrow> nat \<Rightarrow> thread_id" where
  "candidate e i = (e_current e + 1 + i) mod length (e_threads e)"

fun scan_threads :: "host \<Rightarrow> nat list \<Rightarrow> nat option \<Rightarrow> env \<Rightarrow> ((nat option + thread_id) \<times> env) run" where
  "scan_threads H [] next_awakening e = Some (Inl next_awakening, e)"
| "scan_threads H (i # is) next_awakening e = do {
     let t = candidate e i;
     (r, e1) \<leftarrow> poll_thread H t e;
     case r of
       Woken \<Rightarrow> Some (Inr t, e1)
     | Asleep u \<Rightarrow> scan_threads H is (min_opt next_awakening u) e1
     | Waiting \<Rightarrow> scan_threads H is next_awakening e1 }"

partial_function (option) schedule_next_thread :: "host \<Rightarrow> env \<Rightarrow> (thread_id \<times> env) option" where
  "schedule_next_thread H e = do {
     (r, e1) \<leftarrow> scan_threads H [0..<length (e_threads e)] None e;
     case r of
       Inr t \<Rightarrow> Some (t, e1)
     | Inl None \<Rightarrow> None
     | Inl (Some u) \<Rightarrow>
         (let (now, e2) = instant_now H e1 in schedule_next_thread H (thread_sleep (u - now) e2)) }"

subsection \<open>Polling one thread\<close>

text \<open>A poll that does not wake the candidate at most reads a clock.\<close>

abbreviation relog :: "host_event list \<Rightarrow> env \<Rightarrow> env" where "relog l e \<equiv> e\<lparr>e_log := l\<rparr>"

named_theorems env_simps \<open>reading the environment through its updates\<close>

lemma block_of_set_block [env_simps]:
  "t < length (e_threads e) \<Longrightarrow> e_threads (set_block t b e) ! u =
     (if u = t then (e_threads e ! t)\<lparr>th_blocked_by := b\<rparr> else e_threads e ! u)"
  by (simp add: set_block_def)

lemma set_block_frame [env_simps]:
  "length (e_threads (set_block t b e)) = length (e_threads e)"
  "e_mem (set_block t b e) = e_mem e" "e_current (set_block t b e) = e_current e"
  "e_mutexes (set_block t b e) = e_mutexes e" "e_sems (set_block t b e) = e_sems e"
  "e_conds (set_block t b e) = e_conds e" "e_files (set_block t b e) = e_files e"
  "e_log (set_block t b e) = e_log e"
  by (simp_all add: set_block_def)

lemma put_mutex_frame [env_simps]:
  "e_threads (put_mutex m x e) = e_threads e" "e_mem (put_mutex m x e) = e_mem e"
  "e_current (put_mutex m x e) = e_current e" "e_sems (put_mutex m x e) = e_sems e"
  "e_conds (put_mutex m x e) = e_conds e" "e_files (put_mutex m x e) = e_files e"
  "e_log (put_mutex m x e) = e_log e"
  by (simp_all add: put_mutex_def)

lemma put_cond_frame [env_simps]:
  "e_threads (put_cond c x e) = e_threads e" "e_mem (put_cond c x e) = e_mem e"
  "e_current (put_cond c x e) = e_current e" "e_sems (put_cond c x e) = e_sems e"
  "e_mutexes (put_cond c x e) = e_mutexes e" "e_files (put_cond c x e) = e_files e"
  "e_log (put_cond c x e) = e_log e"
  by (simp_all add: put_cond_def)

lemma put_sem_frame [env_simps]:
  "e_threads (put_sem r x e) = e_threads e" "e_mem (put_sem r x e) = e_mem e"
  "e_current (put_sem r x e) = e_current e" "e_conds (put_sem r x e) = e_conds e"
  "e_mutexes (put_sem r x e) = e_mutexes e" "e_files (put_sem r x e) = e_files e"
  "e_log (put_sem r x e) = e_log e"
  by (simp_all add: put_sem_def)

lemma get_mutex_put [env_simps]:
  "get_mutex (put_mutex m x e) k = (if k = m then Some x else get_mutex e k)"
  by (simp add: get_mutex_def put_mutex_def)

lemma get_put_cond [env_simps]:
  "e_conds (put_cond c x e) k = (if k = c then Some x else e_conds e k)"
  by (simp add: put_cond_def)

lemma get_mutex_frame [env_simps]:
  "get_mutex (set_block t b e) m = get_mutex e m" "get_mutex (put_cond c y e) m = get_mutex e m"
  "get_mutex (put_sem r z e) m = get_mutex e m" "get_mutex (relog l e) m = get_mutex e m"
  by (simp_all add: get_mutex_def env_simps)

lemma mutex_is_locked_frame [env_simps]:
  "mutex_is_locked (set_block t b e) m = mutex_is_locked e m" "mutex_is_locked (put_cond c y e) m = mutex_is_locked e m"
  "mutex_is_locked (relog l e) m = mutex_is_locked e m"
  by (simp_all add: mutex_is_locked_def env_simps)

lemma get_sem_frame [env_simps]:
  "get_sem (set_block t b e) s = get_sem e s" "get_sem (relog l e) s = get_sem e s"
  "get_sem (put_mutex m x e) s = get_sem e s" "get_sem (put_cond c y e) s = get_sem e s"
  by (simp_all add: get_sem_def env_simps)

definition lock_of :: "env \<Rightarrow> mutex_id \<Rightarrow> (thread_id \<times> u32) option" where
  "lock_of e m = Option.bind (get_mutex e m) mx_locked"

definition sem_value :: "env \<Rightarrow> vaddr \<Rightarrow> int option" where
  "sem_value e s = map_option (\<lambda>(_, x). sint (so_value x)) (get_sem e s)"

lemma index_run_Some [run_simps]: "index_run xs i = Some x \<longleftrightarrow> i < length xs \<and> x = xs ! i"
  by (auto simp: index_run_def)

lemma relock_Some:
  assumes "relock_unblocked_mutex_for_thread t m e = Some e'"
  obtains x where "get_mutex e m = Some x" "mx_locked x = None"
    "e' = put_mutex m (x\<lparr>mx_locked := Some (t, 1), mx_waiting := (if 0 < mx_waiting x then mx_waiting x - 1 else mx_waiting x)\<rparr>) e"
  using assms by (auto simp: relock_unblocked_mutex_for_thread_def run_simps)

lemma get_file_host_obj_Some:
  assumes "get_file_host_obj p e = Some (x, e1)"
  shows "(e_files e p = Some x \<and> e1 = e)
    \<or> (e_files e p = None \<and> x = \<lparr>fo_pushbacks = [], fo_lock_count = 0, fo_owner = None\<rparr>
        \<and> e1 = e\<lparr>e_files := (e_files e)(p \<mapsto> x)\<rparr>)"
proof -
  from assms obtain fd where "mem_read u32_type (e_mem e) p = Some fd"
    by (cases "mem_read u32_type (e_mem e) p") (simp_all add: get_file_host_obj_def)
  with assms show ?thesis
    by (cases "e_files e p") (simp_all add: get_file_host_obj_def Let_def split: if_splits, auto)
qed

lemma file_lock_waits:
  assumes "try_acquire_file_object_lock p t e = Some (b, e')"
  shows "if b then \<exists>x. e' = e\<lparr>e_files := (e_files e)(p \<mapsto> x)\<rparr> \<and> fo_lock_count x = 1 \<and> fo_owner x = Some t
                     \<and> (\<forall>y. e_files e p = Some y \<longrightarrow> fo_lock_count y = 0)
         else e' = e \<and> (\<exists>x. e_files e p = Some x \<and> fo_lock_count x \<noteq> 0)"
proof -
  from assms obtain x e1 where g: "get_file_host_obj p e = Some (x, e1)"
    and r: "(if fo_lock_count x = 0 then do {
        _ \<leftarrow> rassert (fo_owner x = None);
        Some (True, e1\<lparr>e_files := (e_files e1)(p \<mapsto> x\<lparr>fo_lock_count := 1, fo_owner := Some t\<rparr>)\<rparr>) }
      else Some (False, e1)) = Some (b, e')"
    by (cases "get_file_host_obj p e") (auto simp: try_acquire_file_object_lock_def)
  from get_file_host_obj_Some [OF g] show ?thesis
  proof (elim disjE conjE)
    assume "e_files e p = Some x" and "e1 = e"
    with r show ?thesis
      by (cases "fo_lock_count x = 0") (auto simp: rassert_def split: if_splits
          intro!: exI [of _ "x\<lparr>fo_lock_count := 1, fo_owner := Some t\<rparr>"])
  next
    assume n: "e_files e p = None" and x: "x = \<lparr>fo_pushbacks = [], fo_lock_count = 0, fo_owner = None\<rparr>"
      and e1: "e1 = e\<lparr>e_files := (e_files e)(p \<mapsto> x)\<rparr>"
    from r x e1 have "b" and "e' = e\<lparr>e_files := (e_files e)(p \<mapsto> x\<lparr>fo_lock_count := 1, fo_owner := Some t\<rparr>)\<rparr>"
      by auto
    with n show ?thesis by (auto intro!: exI [of _ "x\<lparr>fo_lock_count := 1, fo_owner := Some t\<rparr>"])
  qed
qed

text \<open>The outcome of each kind of poll.\<close>

lemma poll_sleeping_Some:
  "poll_sleeping H t u e = Some (r, e') \<longleftrightarrow>
     (if u \<le> h_instant H (e_log e) then r = Woken \<and> e' = set_block t NotBlocked (relog (Clock_Read # e_log e) e)
      else r = Asleep u \<and> e' = relog (Clock_Read # e_log e) e)"
  by (auto simp: poll_sleeping_def instant_now_def)

lemma poll_mutex_Some:
  assumes "poll_mutex t m e = Some (r, e')"
  shows "if mutex_is_locked e m then r = Waiting \<and> e' = e
         else r = Woken \<and> (\<exists>x. get_mutex e m = Some x \<and> mx_locked x = None
            \<and> e' = put_mutex m (x\<lparr>mx_locked := Some (t, 1),
                 mx_waiting := (if 0 < mx_waiting x then mx_waiting x - 1 else mx_waiting x)\<rparr>)
                 (set_block t NotBlocked e))"
proof (cases "mutex_is_locked e m")
  case True
  with assms show ?thesis by (auto simp: poll_mutex_def)
next
  case False
  with assms have r: "r = Woken" and rl: "relock_unblocked_mutex_for_thread t m (set_block t NotBlocked e) = Some e'"
    by (auto simp: poll_mutex_def run_simps)
  from rl r False show ?thesis by (elim relock_Some) (simp add: env_simps)
qed

lemma poll_semaphore_Some:
  assumes "poll_semaphore t s e = Some (r, e')"
  shows "\<exists>i x. get_sem e s = Some (i, x) \<and> (if 0 < sint (so_value x)
    then r = Woken \<and> e' = set_block t NotBlocked (put_sem i
           (x\<lparr>so_value := so_value x - 1, so_waiting := so_waiting x - {e_current e}\<rparr>) e)
    else r = Waiting \<and> e' = e)"
  using assms by (auto simp: poll_semaphore_def run_simps split: if_splits)

lemma poll_joining_Some:
  assumes "poll_joining t j p e = Some (r, e')"
  shows "j < length (e_threads e) \<and> (if th_active (e_threads e ! j) then r = Waiting \<and> e' = e
    else r = Woken \<and> (\<exists>m. e' = set_block t NotBlocked (e\<lparr>e_mem := m\<rparr>)
      \<and> (if p = 0 then m = e_mem e
         else \<exists>v. th_return (e_threads e ! j) = Some v \<and> mem_write u32_type (e_mem e) p v = Some m)))"
  using assms by (auto simp: poll_joining_def run_simps split: if_splits)

lemma poll_file_Some:
  assumes "poll_file t p e = Some (r, e')"
  shows "if r = Woken then \<exists>x. e' = set_block t NotBlocked (e\<lparr>e_files := (e_files e)(p \<mapsto> x)\<rparr>)
           \<and> fo_lock_count x = 1 \<and> fo_owner x = Some t \<and> (\<forall>y. e_files e p = Some y \<longrightarrow> fo_lock_count y = 0)
         else r = Waiting \<and> e' = e"
proof -
  from assms obtain b e1 where a: "try_acquire_file_object_lock p t e = Some (b, e1)"
    and r: "(r, e') = (if b then (Woken, set_block t NotBlocked e1) else (Waiting, e1))"
    by (auto simp: poll_file_def run_simps split: if_splits)
  from r file_lock_waits [OF a] show ?thesis by (cases b) auto
qed

lemma poll_condition_Some:
  assumes "poll_condition H t c d e = Some (r, e')"
  obtains (signalled) x m rest y where "r = Woken" "e_conds e c = Some x" "co_mutex x = Some m" "co_waking x = t # rest"
      "get_mutex e m = Some y" "mx_locked y = None"
      "e' = put_mutex m (y\<lparr>mx_locked := Some (t, 1), mx_waiting := (if 0 < mx_waiting y then mx_waiting y - 1 else mx_waiting y)\<rparr>)
              (set_block t NotBlocked (put_cond c (x\<lparr>co_waking := rest\<rparr>) e))"
    | (timed_out) x m until time y where "r = Woken" "e_conds e c = Some x" "co_mutex x = Some m" "d = Some until"
      "h_wall H (e_log e) = Some time" "until \<le> time" "co_waking x = []" "get_mutex e m = Some y" "mx_locked y = None"
      "e' = put_mutex m (y\<lparr>mx_locked := Some (t, 1), mx_waiting := (if 0 < mx_waiting y then mx_waiting y - 1 else mx_waiting y)\<rparr>)
              (set_block t NotBlocked (put_cond c (x\<lparr>co_timed_out := insert t (co_timed_out x),
                  co_waiting := filter (\<lambda>u. u \<noteq> t) (co_waiting x)\<rparr>) (relog (Clock_Read # e_log e) e)))"
    | (waiting) "r = Waiting" "e' = e \<or> e' = relog (Clock_Read # e_log e) e"
proof -
  from assms obtain x m where x: "e_conds e c = Some x" and m: "co_mutex x = Some m"
    by (auto simp: poll_condition_def run_simps)
  show ?thesis
  proof (cases "front (co_waking x) = Some t \<and> \<not> mutex_is_locked e m")
    case True
    then obtain rest where w: "co_waking x = t # rest" by (auto simp: front_def split: list.splits)
    from assms x m True have r: "r = Woken" and
      rl: "relock_unblocked_mutex_for_thread t m (set_block t NotBlocked (put_cond c (x\<lparr>co_waking := rest\<rparr>) e)) = Some e'"
      using w by (auto simp: poll_condition_def run_simps)
    from rl show ?thesis by (rule relock_Some) (rule signalled [OF r x m w], simp_all add: env_simps)
  next
    case False
    show ?thesis
    proof (cases d)
      case None
      with assms x m False have "r = Waiting" "e' = e" by (auto simp: poll_condition_def run_simps)
      then show ?thesis by (intro waiting) simp_all
    next
      case (Some until)
      with assms x m False obtain time where t: "h_wall H (e_log e) = Some time"
        by (auto simp: poll_condition_def run_simps wall_now_def)
      show ?thesis
      proof (cases "until \<le> time")
        case True
        let ?e = "set_block t NotBlocked (put_cond c (x\<lparr>co_timed_out := insert t (co_timed_out x),
                  co_waiting := filter (\<lambda>u. u \<noteq> t) (co_waiting x)\<rparr>) (relog (Clock_Read # e_log e) e))"
        from assms x m False Some t True have r: "r = Woken" and w: "co_waking x = []"
            and rl: "relock_unblocked_mutex_for_thread t m ?e = Some e'"
          by (auto simp: poll_condition_def run_simps wall_now_def)
        from rl show ?thesis by (rule relock_Some) (rule timed_out [OF r x m Some t True w], simp_all add: env_simps)
      next
        case 2: False
        with assms x m False Some t have "r = Waiting" "e' = relog (Clock_Read # e_log e) e"
          by (auto simp: poll_condition_def run_simps wall_now_def)
        then show ?thesis by (intro waiting) simp_all
      qed
    qed
  qed
qed

lemma poll_reads_clock:
  assumes "poll_thread H t e = Some (r, e')" and "r \<noteq> Woken"
  shows "e' = e \<or> e' = relog (Clock_Read # e_log e) e"
proof -
  let ?th = "e_threads e ! t"
  show ?thesis
  proof (cases "th_active ?th")
    case False
    with assms show ?thesis by (auto simp: poll_thread_def run_simps)
  next
    case True
    with assms(1) have p: "(case th_blocked_by ?th of
         Sleeping until \<Rightarrow> poll_sleeping H t until e
       | Mutex m \<Rightarrow> poll_mutex t m e
       | Semaphore s \<Rightarrow> poll_semaphore t s e
       | Condition c deadline \<Rightarrow> poll_condition H t c deadline e
       | Joining joinee p \<Rightarrow> poll_joining t joinee p e
       | NotBlocked \<Rightarrow> Some (Woken, e)
       | WaitingForDebugger _ \<Rightarrow> None
       | Suspended count _ \<Rightarrow> do { _ \<leftarrow> rassert (count > 0); Some (Waiting, e) }
       | FileObjectLock p \<Rightarrow> poll_file t p e) = Some (r, e')"
      by (auto simp: poll_thread_def run_simps)
    show ?thesis
    proof (cases "th_blocked_by ?th")
      case (Condition c d)
      with p have "poll_condition H t c d e = Some (r, e')" by simp
      then show ?thesis by (rule poll_condition_Some) (use assms(2) in auto)
    next
      case (Mutex m)
      with p poll_mutex_Some [of t m e r e'] assms(2) show ?thesis by (auto split: if_splits)
    next
      case (Semaphore s)
      with p poll_semaphore_Some [of t s e r e'] assms(2) show ?thesis by (auto split: if_splits)
    next
      case (Joining j q)
      with p poll_joining_Some [of t j q e r e'] assms(2) show ?thesis by (auto split: if_splits)
    next
      case (FileObjectLock f)
      with p poll_file_Some [of t f e r e'] assms(2) show ?thesis by (auto split: if_splits)
    next
      case (Sleeping u)
      with p assms(2) show ?thesis by (auto simp: poll_sleeping_Some split: if_splits)
    next
      case (Suspended n b)
      with p show ?thesis by (auto simp: run_simps)
    qed (use p assms(2) in auto)
  qed
qed

lemma poll_not_woken: "poll_thread H t e = Some (r, e') \<Longrightarrow> r \<noteq> Woken \<Longrightarrow> \<exists>l. e' = relog l e"
proof -
  assume "poll_thread H t e = Some (r, e')" and "r \<noteq> Woken"
  from poll_reads_clock [OF this] show ?thesis by (auto intro: exI [of _ "e_log e"])
qed

text \<open>
  What waking a thread that is blocked by \<open>b\<close> grants it: \<open>granted H b t e e'\<close> relates the
  environment before and after. This is the contract of the operations that block.
\<close>

definition granted :: "host \<Rightarrow> thread_block \<Rightarrow> thread_id \<Rightarrow> env \<Rightarrow> env \<Rightarrow> bool" where
  "granted H b t e e' \<longleftrightarrow> (case b of
     NotBlocked \<Rightarrow> True
   | Sleeping u \<Rightarrow> \<exists>l. e_log e' = Clock_Read # l \<and> u \<le> h_instant H l
   | Mutex m \<Rightarrow> \<not> mutex_is_locked e m \<and> lock_of e' m = Some (t, 1)
   | Semaphore s \<Rightarrow> (\<exists>v. sem_value e s = Some v \<and> 0 < v \<and> sem_value e' s = Some (v - 1))
   | Condition c d \<Rightarrow> (\<exists>x x' m. e_conds e c = Some x \<and> e_conds e' c = Some x' \<and> co_mutex x = Some m
       \<and> \<not> mutex_is_locked e m \<and> lock_of e' m = Some (t, 1)
       \<and> (co_waking x = t # co_waking x'
          \<or> (\<exists>until time l. d = Some until \<and> h_wall H l = Some time \<and> until \<le> time
               \<and> t \<in> co_timed_out x' \<and> t \<notin> set (co_waiting x'))))
   | Joining j p \<Rightarrow> \<not> th_active (e_threads e ! j)
       \<and> (p \<noteq> 0 \<longrightarrow> mem_read u32_type (e_mem e') p = th_return (e_threads e ! j))
   | FileObjectLock p \<Rightarrow> (\<exists>x. e_files e' p = Some x \<and> fo_lock_count x = 1 \<and> fo_owner x = Some t)
   | _ \<Rightarrow> False)"

interpretation u32c: guest_codec u32_type
  by unfold_locales (use le_dec_enc [where ?'a = 32 and n = 4] in \<open>simp_all add: u32_type_def le_enc_def\<close>)

lemma u32_write_read:
  assumes "mem_write u32_type m p v = Some m'"
  shows "mem_read u32_type m' p = Some v"
proof -
  have le: "mm_null m \<le> p" and b: "unat p + 4 \<le> 2 ^ 32"
    and m': "m' = m\<lparr>mm_bytes := put_range (mm_bytes m) p (le_enc 4 v)\<rparr>"
    using assms by (auto simp: mem_write_def bytes_at_mut_put_def run_simps u32_type_def in_bounds_nat not_less split: if_splits)
  have "get_range (put_range (mm_bytes m) p (le_enc 4 v)) p (length (le_enc 4 v)) = le_enc 4 v"
    by (rule get_put_same) (use b in \<open>simp_all add: le_enc_def\<close>)
  then have "get_range (mm_bytes m') p 4 = le_enc 4 v" by (simp add: m' le_enc_def)
  then show ?thesis using u32c.read_ok [of m' p] le b u32c.dec_enc [of v]
    by (simp add: m' u32_type_def)
qed

lemma lock_of_None: "lock_of e m = None \<longleftrightarrow> \<not> mutex_is_locked e m"
  by (cases "get_mutex e m"; cases "mx_locked (the (get_mutex e m))") (simp_all add: lock_of_def mutex_is_locked_def)

lemma lock_of_frame [env_simps]:
  "lock_of (set_block t b e) m = lock_of e m" "lock_of (put_cond c y e) m = lock_of e m"
  "lock_of (put_sem r z e) m = lock_of e m" "lock_of (relog l e) m = lock_of e m"
  "lock_of (put_mutex k x e) m = (if m = k then mx_locked x else lock_of e m)"
  by (simp_all add: lock_of_def env_simps)

lemma sem_value_frame [env_simps]:
  "sem_value (set_block t b e) s = sem_value e s" "sem_value (relog l e) s = sem_value e s"
  by (simp_all add: sem_value_def env_simps)

lemma sint_add_in_range:
  assumes "- (2 ^ 31) \<le> sint a + sint b" and "sint a + sint b < 2 ^ 31"
  shows "sint (a + b :: i32) = sint a + sint b"
  using assms by (simp add: sint_word_ariths(1) signed_take_bit_int_eq_self)

lemma sint_dec: "0 < sint (v :: i32) \<Longrightarrow> sint (v - 1) = sint v - 1"
  using sint_lt [of v] by (simp add: sint_word_ariths(2) signed_take_bit_int_eq_self)

text \<open>Waking a thread: only its own block changes, and it is granted what it waits for.\<close>

lemma sem_value_put:
  assumes "get_sem e s = Some (i, x)"
  shows "sem_value (put_sem i y e) s = Some (sint (so_value y))"
proof -
  from assms have "ss_open (e_sems e) s = Some i" "i < length (ss_store (e_sems e))"
    by (auto simp: get_sem_def run_simps)
  then show ?thesis by (simp add: sem_value_def get_sem_def put_sem_def index_run_def)
qed

lemma poll_woken:
  assumes "poll_thread H t e = Some (Woken, e')"
  shows "t < length (e_threads e)" and "th_active (e_threads e ! t)"
    and "e_threads e' = e_threads (set_block t NotBlocked e)" and "e_current e' = e_current e"
    and "granted H (th_blocked_by (e_threads e ! t)) t e e'"
proof -
  let ?b = "th_blocked_by (e_threads e ! t)"
  let ?th = "e_threads e' = e_threads (set_block t NotBlocked e) \<and> e_current e' = e_current e"
  from assms show t: "t < length (e_threads e)" and "th_active (e_threads e ! t)"
    by (auto simp: poll_thread_def run_simps split: if_splits)
  with assms have p: "(case ?b of
         Sleeping until \<Rightarrow> poll_sleeping H t until e
       | Mutex m \<Rightarrow> poll_mutex t m e
       | Semaphore s \<Rightarrow> poll_semaphore t s e
       | Condition c deadline \<Rightarrow> poll_condition H t c deadline e
       | Joining joinee p \<Rightarrow> poll_joining t joinee p e
       | NotBlocked \<Rightarrow> Some (Woken, e)
       | WaitingForDebugger _ \<Rightarrow> None
       | Suspended count _ \<Rightarrow> do { _ \<leftarrow> rassert (count > 0); Some (Waiting, e) }
       | FileObjectLock p \<Rightarrow> poll_file t p e) = Some (Woken, e')"
    by (auto simp: poll_thread_def run_simps)
  have "?th \<and> granted H ?b t e e'"
  proof (cases ?b)
    case NotBlocked
    then have "set_block t NotBlocked e = e" using t by (simp add: set_block_def list_update_same_conv)
    with NotBlocked p show ?thesis by (simp add: granted_def)
  next
    case (Sleeping u)
    with p show ?thesis by (auto simp: poll_sleeping_Some granted_def env_simps set_block_def split: if_splits)
  next
    case (Mutex m)
    with p poll_mutex_Some [of t m e Woken e'] show ?thesis
      by (auto simp: granted_def env_simps split: if_splits)
  next
    case (Semaphore s)
    with p poll_semaphore_Some [of t s e Woken e'] obtain i x where g: "get_sem e s = Some (i, x)" "0 < sint (so_value x)"
      and e': "e' = set_block t NotBlocked (put_sem i
           (x\<lparr>so_value := so_value x - 1, so_waiting := so_waiting x - {e_current e}\<rparr>) e)"
      by (auto split: if_splits)
    have "sem_value e' s = Some (sint (so_value x) - 1)"
      by (simp add: e' env_simps sem_value_put [OF g(1)] sint_dec [OF g(2)])
    moreover have "sem_value e s = Some (sint (so_value x))" by (simp add: sem_value_def g(1))
    ultimately show ?thesis using g(2) Semaphore by (simp add: granted_def) (simp add: e' put_sem_def set_block_def)
  next
    case (Condition c d)
    with p have "poll_condition H t c d e = Some (Woken, e')" by simp
    then show ?thesis
    proof (cases rule: poll_condition_Some)
      case (signalled x m rest y)
      then have "\<not> mutex_is_locked e m" by (simp add: mutex_is_locked_def)
      with signalled Condition show ?thesis by (simp add: granted_def env_simps) (simp add: set_block_def env_simps)
    next
      case (timed_out x m until time y)
      then have "\<not> mutex_is_locked e m" by (simp add: mutex_is_locked_def)
      with timed_out Condition show ?thesis
        by (simp add: granted_def env_simps) (auto simp: set_block_def put_cond_def)
    qed simp_all
  next
    case (Joining j q)
    with p have "poll_joining t j q e = Some (Woken, e')" by simp
    note f = poll_joining_Some [OF this]
    then have j: "\<not> th_active (e_threads e ! j)" by (simp split: if_splits)
    with f have "\<exists>m. e' = set_block t NotBlocked (e\<lparr>e_mem := m\<rparr>)
        \<and> (if q = 0 then m = e_mem e
           else \<exists>v. th_return (e_threads e ! j) = Some v \<and> mem_write u32_type (e_mem e) q v = Some m)"
      by (simp only: if_False simp_thms)
    then obtain m where "e' = set_block t NotBlocked (e\<lparr>e_mem := m\<rparr>)"
      and m: "if q = 0 then m = e_mem e
         else \<exists>v. th_return (e_threads e ! j) = Some v \<and> mem_write u32_type (e_mem e) q v = Some m"
      by blast
    moreover from m have "q = 0 \<or> mem_read u32_type m q = th_return (e_threads e ! j)"
      by (metis u32_write_read)
    ultimately show ?thesis using j Joining by (auto simp: granted_def env_simps set_block_def)
  next
    case (FileObjectLock f)
    with p poll_file_Some [of t f e Woken e'] show ?thesis
      by (auto simp: granted_def env_simps set_block_def)
  next
    case (Suspended n b)
    with p show ?thesis by (auto simp: run_simps)
  next
    case (WaitingForDebugger n)
    with p show ?thesis by simp
  qed
  then show "e_threads e' = e_threads (set_block t NotBlocked e)" and "e_current e' = e_current e"
    and "granted H ?b t e e'" by blast+
qed

subsection \<open>Scanning the threads\<close>

definition passed_over :: "host \<Rightarrow> env \<Rightarrow> thread_id \<Rightarrow> bool" where
  "passed_over H e t \<longleftrightarrow> (\<exists>l r e'. r \<noteq> Woken \<and> poll_thread H t (relog l e) = Some (r, e'))"

lemma candidate_relog [simp]: "candidate (relog l e) i = candidate e i"
  and passed_over_relog [simp]: "passed_over H (relog l e) t = passed_over H e t"
  by (simp_all add: passed_over_def candidate_def)

lemma relog_self [simp]: "relog (e_log e) e = e"
  by simp

lemma passed_overI: "poll_thread H t e = Some (r, e') \<Longrightarrow> r \<noteq> Woken \<Longrightarrow> passed_over H e t"
  unfolding passed_over_def by (rule exI [of _ "e_log e"]) auto

lemma scan_step:
  assumes "scan_threads H (i # is) nx e = Some (res, e')"
  obtains (woken) "poll_thread H (candidate e i) e = Some (Woken, e')" "res = Inr (candidate e i)"
    | (not_woken) r l nx' where "poll_thread H (candidate e i) e = Some (r, relog l e)" "r \<noteq> Woken"
        "nx' = (case r of Asleep u \<Rightarrow> min_opt nx u | _ \<Rightarrow> nx)" "scan_threads H is nx' (relog l e) = Some (res, e')"
proof -
  from assms obtain r e1 where p: "poll_thread H (candidate e i) e = Some (r, e1)"
    and k: "(case r of Woken \<Rightarrow> Some (Inr (candidate e i), e1)
      | Asleep u \<Rightarrow> scan_threads H is (min_opt nx u) e1 | Waiting \<Rightarrow> scan_threads H is nx e1) = Some (res, e')"
    by (cases "poll_thread H (candidate e i) e") auto
  show ?thesis
  proof (cases "r = Woken")
    case True
    with p k show ?thesis by (intro woken) auto
  next
    case False
    with p poll_not_woken obtain l where "e1 = relog l e" by blast
    with p k False show ?thesis by (intro not_woken [of r l "case r of Asleep u \<Rightarrow> min_opt nx u | _ \<Rightarrow> nx"]) (auto split: poll.splits)
  qed
qed

lemma scan_woken:
  assumes "scan_threads H is nx e = Some (Inr t, e')"
  shows "\<exists>l pre i post. is = pre @ i # post \<and> t = candidate e i
    \<and> poll_thread H t (relog l e) = Some (Woken, e') \<and> (\<forall>j \<in> set pre. passed_over H e (candidate e j))"
  using assms
proof (induction "is" arbitrary: nx e)
  case Nil
  then show ?case by simp
next
  case (Cons i "is")
  from Cons.prems show ?case
  proof (cases rule: scan_step)
    case woken
    then show ?thesis
      by (intro exI [of _ "e_log e"] exI [of _ "[]"] exI [of _ i] exI [of _ "is"]) simp
  next
    case (not_woken r l nx')
    from Cons.IH [OF not_woken(4)] obtain l' pre j post where
      j: "is = pre @ j # post" "t = candidate e j" "poll_thread H t (relog l' e) = Some (Woken, e')"
         "\<forall>j \<in> set pre. passed_over H e (candidate e j)" by auto
    moreover have "passed_over H e (candidate e i)" by (rule passed_overI [OF not_woken(1,2)])
    ultimately show ?thesis by (intro exI [of _ l'] exI [of _ "i # pre"] exI [of _ j] exI [of _ post]) simp
  qed
qed

lemma scan_none:
  assumes "scan_threads H is nx e = Some (Inl nx', e')"
  shows "\<exists>l. e' = relog l e" and "\<forall>i \<in> set is. passed_over H e (candidate e i)"
proof -
  have "(\<exists>l. e' = relog l e) \<and> (\<forall>i \<in> set is. passed_over H e (candidate e i))" using assms
  proof (induction "is" arbitrary: nx e)
    case Nil
    then show ?case by (auto intro: exI [of _ "e_log e"])
  next
    case (Cons i "is")
    from Cons.prems show ?case
    proof (cases rule: scan_step)
      case (not_woken r l nx')
      with Cons.IH [OF not_woken(4)] passed_overI [OF not_woken(1,2)] show ?thesis by auto
    qed simp
  qed
  then show "\<exists>l. e' = relog l e" and "\<forall>i \<in> set is. passed_over H e (candidate e i)" by blast+
qed

text \<open>
  The candidates are all the threads, each once, starting after the current one.
\<close>

definition turn :: "env \<Rightarrow> thread_id \<Rightarrow> nat" where
  "turn e t = (t + length (e_threads e) - 1 - e_current e mod length (e_threads e)) mod length (e_threads e)"

lemma candidate_turn: "t < length (e_threads e) \<Longrightarrow> candidate e (turn e t) = t"
  and turn_less: "t < length (e_threads e) \<Longrightarrow> turn e t < length (e_threads e)"
proof -
  assume t: "t < length (e_threads e)"
  let ?n = "length (e_threads e)"
  have c: "e_current e mod ?n < ?n" using t by (intro mod_less_divisor) linarith
  have "(e_current e + 1 + turn e t) mod ?n = (e_current e mod ?n + 1 + (t + ?n - 1 - e_current e mod ?n)) mod ?n"
    unfolding turn_def by (metis (no_types) mod_add_left_eq mod_add_right_eq)
  also have "e_current e mod ?n + 1 + (t + ?n - 1 - e_current e mod ?n) = t + ?n" using c by simp
  finally show "candidate e (turn e t) = t" using t by (simp add: candidate_def)
  show "turn e t < ?n" using t unfolding turn_def by (intro mod_less_divisor) linarith
qed

text \<open>
  What one call of the scheduler yields: the first thread in the cyclic order that is woken,
  in an environment that differs from the one given by what waking it changes and by readings
  of the clock.
\<close>

lemma upt_split: "[0..<n] = pre @ i # post \<Longrightarrow> set pre = {0..<i}"
proof -
  assume u: "[0..<n] = pre @ i # post"
  have l: "length pre < n" using arg_cong [OF u, of length] by simp
  have "[0..<n] ! length pre = i" by (simp add: u)
  with l have "length pre = i" by simp
  then have "pre = take i [0..<n]" by (simp add: u)
  with l \<open>length pre = i\<close> show ?thesis by (simp add: take_upt)
qed

lemma schedule_picks:
  assumes "schedule_next_thread H e = Some y"
  shows "\<exists>l i. i < length (e_threads e) \<and> fst y = candidate e i
    \<and> poll_thread H (fst y) (relog l e) = Some (Woken, snd y) \<and> (\<forall>j<i. passed_over H e (candidate e j))"
proof (rule schedule_next_thread.raw_induct [OF _ assms])
  fix schedule :: "host \<Rightarrow> env \<Rightarrow> (thread_id \<times> env) option" and H e y
  let ?goal = "\<lambda>H e y. \<exists>l i. i < length (e_threads e) \<and> fst y = candidate e i
    \<and> poll_thread H (fst y) (relog l e) = Some (Woken, snd y) \<and> (\<forall>j<i. passed_over H e (candidate e j))"
  assume IH: "\<And>H e y. schedule H e = Some y \<Longrightarrow> ?goal H e y"
  assume "do {
     (r, e1) \<leftarrow> scan_threads H [0..<length (e_threads e)] None e;
     case r of
       Inl None \<Rightarrow> None
     | Inl (Some u) \<Rightarrow>
         (let (now, e2) = instant_now H e1 in schedule H (thread_sleep (u - now) e2))
     | Inr t \<Rightarrow> Some (t, e1) } = Some y"
  then obtain r e1 where s: "scan_threads H [0..<length (e_threads e)] None e = Some (r, e1)"
    and k: "(case r of Inr t \<Rightarrow> Some (t, e1) | Inl None \<Rightarrow> None
      | Inl (Some u) \<Rightarrow> (let (now, e2) = instant_now H e1 in schedule H (thread_sleep (u - now) e2))) = Some y"
    by (auto simp: bind_Some_iff)
  show "?goal H e y"
  proof (cases r)
    case (Inr t)
    with k have y: "y = (t, e1)" by simp
    from scan_woken [OF s [unfolded Inr]] obtain l pre i post where
      i: "[0..<length (e_threads e)] = pre @ i # post" "t = candidate e i"
         "poll_thread H t (relog l e) = Some (Woken, e1)" "\<forall>j \<in> set pre. passed_over H e (candidate e j)" by blast
    have "i < length (e_threads e)" using arg_cong [OF i(1), of set] by auto
    moreover have "\<forall>j<i. j \<in> set pre" using upt_split [OF i(1)] by simp
    ultimately show ?thesis using i y by (intro exI [of _ l] exI [of _ i]) auto
  next
    case (Inl w)
    with k obtain u where w: "w = Some u" by (auto split: option.splits)
    obtain l where e1: "e1 = relog l e" using scan_none(1) [OF s [unfolded Inl]] by blast
    with k Inl w obtain l' where "schedule H (relog l' e) = Some y"
      by (auto simp: instant_now_def thread_sleep_def)
    from IH [OF this] show ?thesis by simp
  qed
qed

text \<open>C10: the scheduler returns an active thread that is no longer blocked, and only its block
  has changed among the threads. What that thread was waiting for has happened and is granted to
  it: the mutex was free and is now its own, the semaphore was positive and is decremented, the
  condition variable had it first in line (or its deadline is over) and the mutex is its own,
  the thread it joins has finished and the result is stored, its sleep is over. Every thread
  between the current one and it, in cyclic order, was polled and found still waiting.\<close>

theorem scheduler_grants_what_was_waited_for:
  assumes "schedule_next_thread H e = Some (t, e')"
  shows "t < length (e_threads e) \<and> th_active (e_threads e ! t)
    \<and> e_current e' = e_current e
    \<and> e_threads e' = (e_threads e)[t := (e_threads e ! t)\<lparr>th_blocked_by := NotBlocked\<rparr>]
    \<and> granted H (th_blocked_by (e_threads e ! t)) t e e'
    \<and> (\<exists>i < length (e_threads e). t = candidate e i \<and> (\<forall>j<i. passed_over H e (candidate e j)))"
proof -
  from schedule_picks [OF assms] obtain l i where
    i: "i < length (e_threads e)" "t = candidate e i" "poll_thread H t (relog l e) = Some (Woken, e')"
       "\<forall>j<i. passed_over H e (candidate e j)" by auto
  note w = poll_woken [OF i(3)]
  have "granted H b t (relog l e) e' \<longleftrightarrow> granted H b t e e'" for b
    by (cases b) (simp_all add: granted_def env_simps)
  with w i show ?thesis by (auto simp: set_block_def)
qed

subsection \<open>Fairness\<close>

text \<open>A thread that any poll would wake, whatever the clock shows.\<close>

definition ready :: "host \<Rightarrow> thread_id \<Rightarrow> env \<Rightarrow> bool" where
  "ready H t e \<longleftrightarrow> (\<forall>l. \<exists>e'. poll_thread H t (relog l e) = Some (Woken, e'))"

lemma ready_not_passed_over: "ready H t e \<Longrightarrow> \<not> passed_over H e t"
  unfolding ready_def passed_over_def by (metis option.inject prod.inject)

lemma not_blocked_ready:
  "t < length (e_threads e) \<Longrightarrow> th_active (e_threads e ! t) \<Longrightarrow> th_blocked_by (e_threads e ! t) = NotBlocked
    \<Longrightarrow> ready H t e"
  by (simp add: ready_def poll_thread_def index_run_def)

lemma candidate_advance:
  assumes "e_current e2 = candidate e i" and "length (e_threads e2) = length (e_threads e)" and "i < d"
  shows "candidate e2 (d - i - 1) = candidate e d"
proof -
  have "(candidate e i + 1 + (d - i - 1)) mod length (e_threads e)
      = ((e_current e + 1 + i) + 1 + (d - i - 1)) mod length (e_threads e)"
    unfolding candidate_def by (simp only: mod_add_left_eq add.assoc)
  also have "(e_current e + 1 + i) + 1 + (d - i - 1) = e_current e + 1 + d" using assms(3) by simp
  finally show ?thesis using assms(1,2) by (simp add: candidate_def)
qed

lemma ready_thread_runs:
  assumes picks: "\<And>k. k < n \<Longrightarrow> schedule_next_thread H (s k) = Some (pick k, e' k)"
    and switch: "\<And>k. e_current (s (Suc k)) = pick k"
    and same: "\<And>k. length (e_threads (s k)) = n"
    and ready: "\<And>k. k < n \<Longrightarrow> ready H t (s k)"
  shows "candidate (s k) d = t \<Longrightarrow> k + d < n \<Longrightarrow> \<exists>m \<le> k + d. pick m = t"
proof (induction d arbitrary: k rule: less_induct)
  case (less d)
  have k: "k < n" using less.prems(2) by simp
  from schedule_picks [OF picks [OF k]] obtain i where
    i: "pick k = candidate (s k) i" "\<forall>j<i. passed_over H (s k) (candidate (s k) j)" by auto
  have "\<not> d < i" using i(2) less.prems(1) ready_not_passed_over [OF ready [OF k]] by auto
  then consider "i = d" | "i < d" by linarith
  then show ?case
  proof cases
    case 1
    then show ?thesis using i(1) less.prems(1) by (intro exI [of _ k]) simp
  next
    case 2
    have "candidate (s (Suc k)) (d - i - 1) = t"
      using candidate_advance [of "s (Suc k)" "s k" i d] switch [of k] i(1) same 2 less.prems(1) by simp
    moreover have "Suc k + (d - i - 1) < n" and "d - i - 1 < d" and "Suc k + (d - i - 1) \<le> k + d"
      using 2 less.prems(2) by simp_all
    ultimately show ?thesis using less.IH [of "d - i - 1" "Suc k"] by (meson le_trans)
  qed
qed


subsection \<open>The scheduler returns\<close>

definition clock_ok :: "host \<Rightarrow> bool" where
  "clock_ok H \<longleftrightarrow> (\<forall>l ev. h_instant H l \<le> h_instant H (ev # l)) \<and> (\<forall>l d. h_instant H l + d \<le> h_instant H (Slept d # l))"

text \<open>The objects that blocked threads refer to exist, and no wait has a deadline.\<close>

definition block_ok :: "env \<Rightarrow> thread_block \<Rightarrow> bool" where
  "block_ok e b \<longleftrightarrow> (case b of
     NotBlocked \<Rightarrow> True
   | Sleeping _ \<Rightarrow> True
   | Mutex m \<Rightarrow> get_mutex e m \<noteq> None
   | Semaphore s \<Rightarrow> get_sem e s \<noteq> None
   | Condition c d \<Rightarrow> d = None \<and> (case e_conds e c of None \<Rightarrow> False
       | Some x \<Rightarrow> (case co_mutex x of None \<Rightarrow> False | Some m \<Rightarrow> get_mutex e m \<noteq> None))
   | Joining j p \<Rightarrow> j < length (e_threads e) \<and> (th_active (e_threads e ! j) \<or> p = 0
       \<or> (th_return (e_threads e ! j) \<noteq> None \<and> mem_write u32_type (e_mem e) p 0 \<noteq> None))
   | WaitingForDebugger _ \<Rightarrow> False
   | Suspended count _ \<Rightarrow> 0 < count
   | FileObjectLock p \<Rightarrow> (case get_file_host_obj p e of None \<Rightarrow> False
       | Some (x, _) \<Rightarrow> fo_lock_count x = 0 \<longrightarrow> fo_owner x = None))"

definition sched_ok :: "env \<Rightarrow> bool" where
  "sched_ok e \<longleftrightarrow> (\<forall>th \<in> set (e_threads e). th_active th \<longrightarrow> block_ok e (th_blocked_by th))"

lemma mem_write_None: "mem_write u32_type m p v = None \<longleftrightarrow> mem_write u32_type m p w = None"
  by (simp add: mem_write_def bytes_at_mut_put_def u32_type_def rassert_def)

lemma relock_ex:
  "get_mutex e m = Some x \<Longrightarrow> mx_locked x = None \<Longrightarrow> relock_unblocked_mutex_for_thread t m e \<noteq> None"
  by (simp add: relock_unblocked_mutex_for_thread_def rassert_def)

lemma poll_total:
  assumes "sched_ok e" and t: "t < length (e_threads e)"
  shows "poll_thread H t e \<noteq> None"
proof (cases "th_active (e_threads e ! t)")
  case False
  with t show ?thesis by (simp add: poll_thread_def index_run_def)
next
  case True
  with assms have ok: "block_ok e (th_blocked_by (e_threads e ! t))" by (auto simp: sched_ok_def)
  show ?thesis
  proof (cases "th_blocked_by (e_threads e ! t)")
    case (Mutex m)
    with ok obtain x where "get_mutex e m = Some x" by (auto simp: block_ok_def)
    with Mutex True t relock_ex [of "set_block t NotBlocked e" m x t] show ?thesis
      by (cases "mx_locked x")
        (auto simp: poll_thread_def index_run_def poll_mutex_def mutex_is_locked_def env_simps)
  next
    case (Condition c d)
    with ok obtain x m y where "d = None" "e_conds e c = Some x" "co_mutex x = Some m" "get_mutex e m = Some y"
      by (auto simp: block_ok_def split: option.splits)
    with Condition True t relock_ex [of "set_block t NotBlocked (put_cond c (x\<lparr>co_waking := tl (co_waking x)\<rparr>) e)" m y t]
    show ?thesis
      by (cases "mx_locked y")
        (auto simp: poll_thread_def index_run_def poll_condition_def mutex_is_locked_def env_simps)
  next
    case (Joining j p)
    with ok have j: "j < length (e_threads e)" and w: "th_active (e_threads e ! j) \<or> p = 0
        \<or> (th_return (e_threads e ! j) \<noteq> None \<and> mem_write u32_type (e_mem e) p 0 \<noteq> None)"
      by (simp_all add: block_ok_def)
    have "poll_joining t j p e \<noteq> None"
    proof (cases "th_active (e_threads e ! j) \<or> p = 0")
      case True
      with j show ?thesis by (auto simp: poll_joining_def index_run_def)
    next
      case False
      with w obtain v where v: "th_return (e_threads e ! j) = Some v" "mem_write u32_type (e_mem e) p 0 \<noteq> None" by auto
      then obtain m where "mem_write u32_type (e_mem e) p v = Some m" using mem_write_None [of "e_mem e" p v 0] by auto
      with False v(1) j show ?thesis by (simp add: poll_joining_def index_run_def)
    qed
    with Joining True t show ?thesis by (simp add: poll_thread_def index_run_def)
  next
    case (FileObjectLock p)
    with ok obtain x e1 where g: "get_file_host_obj p e = Some (x, e1)" and o: "fo_lock_count x = 0 \<Longrightarrow> fo_owner x = None"
      by (auto simp: block_ok_def split: option.splits)
    have "try_acquire_file_object_lock p t e \<noteq> None"
      using o by (auto simp: try_acquire_file_object_lock_def g)
    with FileObjectLock True t show ?thesis by (auto simp: poll_thread_def index_run_def poll_file_def)
  qed (use ok True t in \<open>auto simp: poll_thread_def index_run_def block_ok_def poll_sleeping_def poll_semaphore_def Let_def
         split_beta\<close>)
qed

lemma sched_ok_relog [simp]: "sched_ok (relog l e) = sched_ok e"
proof -
  have g: "(case get_file_host_obj p (relog l e) of None \<Rightarrow> False
       | Some (x, _) \<Rightarrow> fo_lock_count x = 0 \<longrightarrow> fo_owner x = None)
     = (case get_file_host_obj p e of None \<Rightarrow> False
       | Some (x, _) \<Rightarrow> fo_lock_count x = 0 \<longrightarrow> fo_owner x = None)" for p
    by (cases "mem_read u32_type (e_mem e) p"; cases "e_files e p")
      (simp_all add: get_file_host_obj_def Let_def)
  have "block_ok (relog l e) b = block_ok e b" for b
    by (cases b) (simp_all add: block_ok_def env_simps g split: option.split)
  then show ?thesis by (simp add: sched_ok_def)
qed

lemma scan_total:
  assumes "sched_ok e" and "0 < length (e_threads e)"
  shows "scan_threads H is nx e \<noteq> None"
  using assms
proof (induction "is" arbitrary: nx e)
  case Nil
  then show ?case by simp
next
  case (Cons i "is")
  have "candidate e i < length (e_threads e)"
    unfolding candidate_def using Cons.prems(2) by (rule mod_less_divisor)
  from poll_total [OF Cons.prems(1) this, of H] obtain r e1 where p: "poll_thread H (candidate e i) e = Some (r, e1)" by auto
  show ?case
  proof (cases "r = Woken")
    case True
    with p show ?thesis by simp
  next
    case False
    then obtain l where "e1 = relog l e" using poll_not_woken [OF p] by blast
    with p False Cons.IH [of "relog l e"] Cons.prems show ?thesis by (cases r) auto
  qed
qed

text \<open>The sleepers met by a scan, and the next awakening.\<close>

abbreviation sleeps :: "env \<Rightarrow> thread_id \<Rightarrow> nat \<Rightarrow> bool" where
  "sleeps e t u \<equiv> th_active (e_threads e ! t) \<and> th_blocked_by (e_threads e ! t) = Sleeping u"

lemma poll_asleep:
  assumes "poll_thread H t e = Some (r, e')" and "r \<noteq> Woken"
  shows "r = Asleep u \<longleftrightarrow> sleeps e t u"
proof (cases "th_active (e_threads e ! t)")
  case False
  with assms show ?thesis by (auto simp: poll_thread_def run_simps)
next
  case True
  then have p: "(case th_blocked_by (e_threads e ! t) of
         Sleeping until \<Rightarrow> poll_sleeping H t until e
       | Mutex m \<Rightarrow> poll_mutex t m e
       | Semaphore s \<Rightarrow> poll_semaphore t s e
       | Condition c deadline \<Rightarrow> poll_condition H t c deadline e
       | Joining joinee p \<Rightarrow> poll_joining t joinee p e
       | NotBlocked \<Rightarrow> Some (Woken, e)
       | WaitingForDebugger _ \<Rightarrow> None
       | Suspended count _ \<Rightarrow> do { _ \<leftarrow> rassert (count > 0); Some (Waiting, e) }
       | FileObjectLock p \<Rightarrow> poll_file t p e) = Some (r, e')"
    using assms(1) by (auto simp: poll_thread_def run_simps)
  show ?thesis
  proof (cases "th_blocked_by (e_threads e ! t)")
    case (Condition c d)
    with p have "poll_condition H t c d e = Some (r, e')" by simp
    then show ?thesis by (rule poll_condition_Some) (use assms(2) Condition in auto)
  next
    case (Mutex m)
    with p poll_mutex_Some [of t m e r e'] assms(2) show ?thesis by (auto split: if_splits)
  next
    case (Semaphore s)
    with p poll_semaphore_Some [of t s e r e'] assms(2) show ?thesis by (auto split: if_splits)
  next
    case (Joining j q)
    with p poll_joining_Some [of t j q e r e'] assms(2) show ?thesis by (auto split: if_splits)
  next
    case (FileObjectLock f)
    with p poll_file_Some [of t f e r e'] assms(2) show ?thesis by (auto split: if_splits)
  next
    case (Sleeping w)
    with p assms(2) True show ?thesis by (auto simp: poll_sleeping_Some split: if_splits)
  qed (use p assms(2) in \<open>auto simp: run_simps\<close>)
qed

lemma scan_next_awakening:
  assumes "scan_threads H is nx e = Some (Inl nx', e')"
  shows "i \<in> set is \<Longrightarrow> sleeps e (candidate e i) u \<Longrightarrow> nx' \<noteq> None"
    and "nx \<noteq> None \<Longrightarrow> nx' \<noteq> None"
    and "nx' = Some w \<Longrightarrow> nx = Some w \<or> (\<exists>i \<in> set is. sleeps e (candidate e i) w)"
proof -
  have "(\<forall>i \<in> set is. sleeps e (candidate e i) u \<longrightarrow> nx' \<noteq> None) \<and> (nx \<noteq> None \<longrightarrow> nx' \<noteq> None)
    \<and> (nx' = Some w \<longrightarrow> nx = Some w \<or> (\<exists>i \<in> set is. sleeps e (candidate e i) w))" using assms
  proof (induction "is" arbitrary: nx e)
    case Nil
    then show ?case by simp
  next
    case (Cons i "is")
    from Cons.prems show ?case
    proof (cases rule: scan_step)
      case (not_woken r l nx1)
      note a = poll_asleep [OF not_woken(1,2)]
      have 1: "nx1 \<noteq> None" if "nx \<noteq> None" using that not_woken(2,3) by (cases r; cases nx) simp_all
      have 2: "nx1 \<noteq> None" if "sleeps e (candidate e i) u"
        using a [of u] that not_woken(3) by (cases nx) simp_all
      have 3: "nx = Some w \<or> sleeps e (candidate e i) w" if "nx1 = Some w"
      proof (cases r)
        case (Asleep v)
        with that not_woken(3) have "nx = Some w \<or> w = v" by (cases nx) (auto simp: min_def split: if_splits)
        with a [of v] Asleep show ?thesis by blast
      qed (use that not_woken(2,3) in simp_all)
      note IH = Cons.IH [OF not_woken(4)]
      from IH have 4: "\<forall>i \<in> set is. sleeps e (candidate e i) u \<longrightarrow> nx' \<noteq> None" by simp
      from IH have 5: "nx1 \<noteq> None \<longrightarrow> nx' \<noteq> None" by blast
      from IH have 6: "nx' = Some w \<longrightarrow> nx1 = Some w \<or> (\<exists>i \<in> set is. sleeps e (candidate e i) w)" by simp
      from 1 2 3 4 5 6 show ?thesis by (metis (no_types, lifting) set_ConsD list.set_intros)
    qed simp
  qed
  then show "i \<in> set is \<Longrightarrow> sleeps e (candidate e i) u \<Longrightarrow> nx' \<noteq> None"
    and "nx \<noteq> None \<Longrightarrow> nx' \<noteq> None"
    and "nx' = Some w \<Longrightarrow> nx = Some w \<or> (\<exists>i \<in> set is. sleeps e (candidate e i) w)" by blast+
qed

lemma relog_inject: "relog l e = relog l' e \<longleftrightarrow> l = l'"
proof
  assume "relog l e = relog l' e"
  from arg_cong [OF this, of e_log] show "l = l'" by simp
qed simp

lemma passed_over_sleeping:
  assumes "scan_threads H is nx e = Some (Inl nx', e')" and "i \<in> set is" and "sleeps e (candidate e i) u"
    and "candidate e i < length (e_threads e)" and "clock_ok H"
  shows "\<not> u \<le> h_instant H (e_log e)"
  using assms
proof (induction "is" arbitrary: nx e)
  case Nil
  then show ?case by simp
next
  case (Cons j "is")
  from Cons.prems(1) show ?case
  proof (cases rule: scan_step)
    case (not_woken r l nx1)
    show ?thesis
    proof (cases "i = j")
      case True
      with not_woken(1,2) Cons.prems(3,4) show ?thesis
        by (auto simp: poll_thread_def index_run_def poll_sleeping_Some split: if_splits)
    next
      case False
      from poll_reads_clock [OF not_woken(1,2)] have "l = e_log e \<or> l = Clock_Read # e_log e"
        using relog_inject [of l e "e_log e"] relog_inject [of l e "Clock_Read # e_log e"] by simp
      then have "h_instant H (e_log e) \<le> h_instant H l" using Cons.prems(5) by (auto simp: clock_ok_def)
      moreover have "\<not> u \<le> h_instant H l"
        using Cons.IH [OF not_woken(4)] False Cons.prems(2-5) by simp
      ultimately show ?thesis by simp
    qed
  qed simp
qed

lemma schedule_first_round:
  assumes "scan_threads H [0..<length (e_threads e)] None e = Some (r, e1)"
  shows "schedule_next_thread H e = (case r of
       Inr t \<Rightarrow> Some (t, e1)
     | Inl None \<Rightarrow> None
     | Inl (Some u) \<Rightarrow>
         (let (now, e2) = instant_now H e1 in schedule_next_thread H (thread_sleep (u - now) e2)))"
  by (subst schedule_next_thread.simps) (simp add: assms)


subsection \<open>A concrete environment\<close>

text \<open>
  A clock that advances by one at each reading, and three threads: the current one sleeps, one waits
  for a free mutex, one runs.
\<close>

fun demo_instant :: "host_event list \<Rightarrow> nat" where
  "demo_instant [] = 0"
| "demo_instant (Clock_Read # l) = Suc (demo_instant l)"
| "demo_instant (Slept d # l) = demo_instant l + d"

definition demo_host :: host where
  "demo_host = \<lparr>h_instant = demo_instant, h_wall = (\<lambda>l. Some (demo_instant l))\<rparr>"

definition demo_thread :: "thread_block \<Rightarrow> thread" where
  "demo_thread b = \<lparr>th_active = True, th_blocked_by = b, th_return = None, th_stack = None\<rparr>"

definition empty_libc :: libc_state where
  "empty_libc = \<lparr>lc_pthreads = [], lc_main_thread_object = False, lc_keys = [], lc_gmtime_tmp = None,
     lc_locale = (\<lambda>_. None), lc_langinfo = (\<lambda>_. None)\<rparr>"

definition demo_env :: "thread list \<Rightarrow> env" where
  "demo_env ths = \<lparr>e_mem = demo_mem, e_current = 0, e_threads = ths,
     e_mutexes = \<lparr>ms_mutexes = (\<lambda>m. if m = 5 then Some \<lparr>mx_type = PTHREAD_MUTEX_NORMAL, mx_waiting = 1, mx_locked = None\<rparr> else None),
                  ms_count = 6\<rparr>,
     e_sems = \<lparr>ss_named = (\<lambda>_. None), ss_open = (\<lambda>_. None), ss_store = []\<rparr>,
     e_conds = (\<lambda>_. None), e_files = (\<lambda>_. None), e_errnos = (\<lambda>_. None), e_sync = (\<lambda>_. None),
     e_libc = empty_libc, e_log = []\<rparr>"

lemma demo_clock_ok: "clock_ok demo_host"
proof -
  have "demo_instant l \<le> demo_instant (ev # l)" for l ev by (cases ev) simp_all
  then show ?thesis by (simp add: clock_ok_def demo_host_def)
qed

theorem scheduler_grants_witness:
  "\<exists>e'. schedule_next_thread demo_host (demo_env [demo_thread (Sleeping 3), demo_thread (Mutex 5), demo_thread NotBlocked]) = Some (1, e')
    \<and> lock_of e' 5 = Some (1, 1)"
proof -
  let ?e = "demo_env [demo_thread (Sleeping 3), demo_thread (Mutex 5), demo_thread NotBlocked]"
  have "scan_threads demo_host [0..<3] None ?e \<noteq> None \<and>
      (\<exists>e'. scan_threads demo_host [0..<3] None ?e = Some (Inr 1, e'))"
    by (simp add: upt_rec [of 0 3] candidate_def demo_env_def demo_thread_def poll_thread_def index_run_def
        poll_mutex_def mutex_is_locked_def get_mutex_def relock_unblocked_mutex_for_thread_def set_block_def)
  then obtain e' where s: "scan_threads demo_host [0..<length (e_threads ?e)] None ?e = Some (Inr 1, e')"
    by (auto simp: demo_env_def numeral_3_eq_3)
  then have r: "schedule_next_thread demo_host ?e = Some (1, e')" by (simp add: schedule_first_round)
  from scheduler_grants_what_was_waited_for [OF r] have "granted demo_host (Mutex 5) 1 ?e e'"
    by (simp add: demo_env_def demo_thread_def)
  then show ?thesis using r by (simp add: granted_def)
qed



end
