(* ===== verification/Guest_Sync.thy ===== *)
theory Guest_Sync
  imports Scheduler
begin

text \<open>
  What guest code calls to synchronise: \<open>pthread_mutex_*\<close> (\<open>src/libc/pthread/mutex.rs\<close>),
  \<open>pthread_cond_*\<close> (\<open>src/libc/pthread/cond.rs\<close>), \<open>sem_*\<close> (\<open>src/libc/semaphore.rs\<close>),
  \<open>objc_sync_*\<close> (\<open>src/objc/synchronization.rs\<close>) and \<open>set_errno\<close> (\<open>src/libc/errno.rs\<close>). The
  guest's structures are read and written in guest memory; a call that may block is a
  coroutine, one that does not is a function of the environment.
\<close>

subsection \<open>Structures in guest memory\<close>

record mutexattr =
  ma_magic :: u32
  ma_type :: i32
  ma_unused :: u32

record guest_mutex =
  gm_magic :: u32
  gm_id :: mutex_id

record condattr =
  ca_magic :: u32
  ca_pshared :: i32

record guest_cond =
  gc_magic :: u32
  gc_unused :: "u32 list"

record timespec =
  tv_sec :: i32
  tv_nsec :: i32

text \<open>\<open>#[repr(C, packed)]\<close>: the fields follow one another, little-endian.\<close>

definition field32 :: "nat \<Rightarrow> u8 list \<Rightarrow> u32" where
  "field32 i bs = le_dec (take 4 (drop i bs))"

definition mutexattr_type :: "mutexattr guest_type" where
  "mutexattr_type = \<lparr>gt_size = 12,
     gt_enc = (\<lambda>a. le_enc 4 (ma_magic a) @ le_enc 4 (ma_type a) @ le_enc 4 (ma_unused a)),
     gt_dec = (\<lambda>bs. \<lparr>ma_magic = field32 0 bs, ma_type = field32 4 bs, ma_unused = field32 8 bs\<rparr>)\<rparr>"

definition guest_mutex_type :: "guest_mutex guest_type" where
  "guest_mutex_type = \<lparr>gt_size = 12,
     gt_enc = (\<lambda>x. le_enc 4 (gm_magic x) @ le_enc 8 (gm_id x)),
     gt_dec = (\<lambda>bs. \<lparr>gm_magic = field32 0 bs, gm_id = le_dec (take 8 (drop 4 bs))\<rparr>)\<rparr>"

definition condattr_type :: "condattr guest_type" where
  "condattr_type = \<lparr>gt_size = 8,
     gt_enc = (\<lambda>a. le_enc 4 (ca_magic a) @ le_enc 4 (ca_pshared a)),
     gt_dec = (\<lambda>bs. \<lparr>ca_magic = field32 0 bs, ca_pshared = field32 4 bs\<rparr>)\<rparr>"

text \<open>The unused words of a condition variable are only ever written, as zeros.\<close>

definition guest_cond_type :: "guest_cond guest_type" where
  "guest_cond_type = \<lparr>gt_size = 28,
     gt_enc = (\<lambda>a. le_enc 4 (gc_magic a) @ concat (map (le_enc 4) (gc_unused a))),
     gt_dec = (\<lambda>bs. \<lparr>gc_magic = field32 0 bs, gc_unused = map (\<lambda>i. field32 (4 + 4 * i) bs) [0..<6]\<rparr>)\<rparr>"

definition timespec_type :: "timespec guest_type" where
  "timespec_type = \<lparr>gt_size = 8,
     gt_enc = (\<lambda>t. le_enc 4 (tv_sec t) @ le_enc 4 (tv_nsec t)),
     gt_dec = (\<lambda>bs. \<lparr>tv_sec = field32 0 bs, tv_nsec = field32 4 bs\<rparr>)\<rparr>"

abbreviation MAGIC_MUTEXATTR :: u32 where "MAGIC_MUTEXATTR \<equiv> 0x4D754174"
abbreviation MAGIC_MUTEX :: u32 where "MAGIC_MUTEX \<equiv> 0x4D555458"
abbreviation MAGIC_MUTEX_STATIC :: u32 where "MAGIC_MUTEX_STATIC \<equiv> 0x32AAABA7"
abbreviation MAGIC_CONDATTR :: u32 where "MAGIC_CONDATTR \<equiv> 0x436F4174"
abbreviation MAGIC_COND :: u32 where "MAGIC_COND \<equiv> 0x434F4E44"
abbreviation MAGIC_COND_STATIC :: u32 where "MAGIC_COND_STATIC \<equiv> 0x3CB0B1BB"
abbreviation PTHREAD_PROCESS_SHARED :: i32 where "PTHREAD_PROCESS_SHARED \<equiv> 1"
abbreviation PTHREAD_PROCESS_PRIVATE :: i32 where "PTHREAD_PROCESS_PRIVATE \<equiv> 2"

definition read_env :: "'a guest_type \<Rightarrow> vaddr \<Rightarrow> env \<Rightarrow> 'a run" where
  "read_env T p e = mem_read T (e_mem e) p"

definition write_env :: "'a guest_type \<Rightarrow> vaddr \<Rightarrow> 'a \<Rightarrow> env \<Rightarrow> env run" where
  "write_env T p x e = do { m \<leftarrow> mem_write T (e_mem e) p x; Some (e\<lparr>e_mem := m\<rparr>) }"

text \<open>\<open>check_magic!\<close> of \<open>src/libc/pthread.rs\<close> with the rest of the function it returns from.\<close>

definition check_magic :: "vaddr \<Rightarrow> u32 \<Rightarrow> env \<Rightarrow> (i32 \<times> env) run \<Rightarrow> (i32 \<times> env) run" where
  "check_magic p expected e rest = do {
     actual \<leftarrow> read_env u32_type p e;
     if actual \<noteq> expected then Some (EINVAL, e) else rest }"

subsection \<open>Mutexes\<close>

definition mutex_type_code :: "mutex_type \<Rightarrow> i32" where
  "mutex_type_code t = (case t of PTHREAD_MUTEX_NORMAL \<Rightarrow> 0 | PTHREAD_MUTEX_ERRORCHECK \<Rightarrow> 1
     | PTHREAD_MUTEX_RECURSIVE \<Rightarrow> 2)"

definition pthread_mutexattr_init :: "vaddr \<Rightarrow> env \<Rightarrow> (i32 \<times> env) run" where
  "pthread_mutexattr_init attr e = do {
     e1 \<leftarrow> write_env mutexattr_type attr
            \<lparr>ma_magic = MAGIC_MUTEXATTR, ma_type = mutex_type_code PTHREAD_MUTEX_DEFAULT, ma_unused = 0\<rparr> e;
     Some (0, e1) }"

definition pthread_mutexattr_setpshared :: "vaddr \<Rightarrow> i32 \<Rightarrow> env \<Rightarrow> (i32 \<times> env) run" where
  "pthread_mutexattr_setpshared attr pshared e =
     check_magic attr MAGIC_MUTEXATTR e (do {
       _ \<leftarrow> rassert (pshared = PTHREAD_PROCESS_PRIVATE);
       Some (0, e) })"

definition pthread_mutexattr_settype :: "vaddr \<Rightarrow> i32 \<Rightarrow> env \<Rightarrow> (i32 \<times> env) run" where
  "pthread_mutexattr_settype attr ty e =
     check_magic attr MAGIC_MUTEXATTR e (do {
       a \<leftarrow> read_env mutexattr_type attr e;
       e1 \<leftarrow> write_env mutexattr_type attr (a\<lparr>ma_type := ty\<rparr>) e;
       Some (0, e1) })"

definition pthread_mutexattr_destroy :: "vaddr \<Rightarrow> env \<Rightarrow> (i32 \<times> env) run" where
  "pthread_mutexattr_destroy attr e =
     check_magic attr MAGIC_MUTEXATTR e (do {
       e1 \<leftarrow> write_env mutexattr_type attr
              \<lparr>ma_magic = 0, ma_type = mutex_type_code PTHREAD_MUTEX_DEFAULT, ma_unused = 0\<rparr> e;
       Some (0, e1) })"

definition pthread_mutex_create :: "vaddr \<Rightarrow> mutex_type \<Rightarrow> env \<Rightarrow> (i32 \<times> env) run" where
  "pthread_mutex_create p ty e = do {
     (id, e1) \<leftarrow> init_mutex ty e;
     e2 \<leftarrow> write_env guest_mutex_type p \<lparr>gm_magic = MAGIC_MUTEX, gm_id = id\<rparr> e1;
     Some (0, e2) }"

definition pthread_mutex_init :: "vaddr \<Rightarrow> vaddr \<Rightarrow> env \<Rightarrow> (i32 \<times> env) run" where
  "pthread_mutex_init p attr e =
     (if attr \<noteq> 0 then
        check_magic attr MAGIC_MUTEXATTR e (do {
          a \<leftarrow> read_env mutexattr_type attr e;
          ty \<leftarrow> mutex_type_try_from (ma_type a);
          pthread_mutex_create p ty e })
      else pthread_mutex_create p PTHREAD_MUTEX_DEFAULT e)"

definition check_or_register_mutex :: "vaddr \<Rightarrow> env \<Rightarrow> ((i32 + unit) \<times> env) run" where
  "check_or_register_mutex p e =
     (if p < mm_null (e_mem e) then Some (Inl EINVAL, e)
      else do {
        magic \<leftarrow> read_env u32_type p e;
        if magic = MAGIC_MUTEX_STATIC then do {
          (_, e1) \<leftarrow> pthread_mutex_init p 0 e;
          Some (Inr (), e1) }
        else if magic = MAGIC_MUTEX then Some (Inr (), e)
        else Some (Inl EINVAL, e) })"

text \<open>\<open>.err().unwrap_or(0)\<close>\<close>

definition err_or_0 :: "i32 + 'a \<Rightarrow> i32" where
  "err_or_0 r = (case r of Inl c \<Rightarrow> c | Inr _ \<Rightarrow> 0)"

definition pthread_mutex_lock :: "vaddr \<Rightarrow> env \<Rightarrow> (env, i32) coro run" where
  "pthread_mutex_lock p e = do {
     (r, e1) \<leftarrow> check_or_register_mutex p e;
     case r of
       Inl c \<Rightarrow> Some (Finished c e1)
     | Inr _ \<Rightarrow> do {
         x \<leftarrow> read_env guest_mutex_type p e1;
         c \<leftarrow> lock_mutex (gm_id x) e1;
         coro_bind c (\<lambda>res e2. Some (Finished (err_or_0 res) e2)) } }"

definition pthread_mutex_trylock :: "vaddr \<Rightarrow> env \<Rightarrow> (env, i32) coro run" where
  "pthread_mutex_trylock p e = do {
     (r, e1) \<leftarrow> check_or_register_mutex p e;
     case r of
       Inl c \<Rightarrow> Some (Finished c e1)
     | Inr _ \<Rightarrow> do {
         x \<leftarrow> read_env guest_mutex_type p e1;
         if mutex_is_locked e1 (gm_id x)
            \<and> \<not> (mutex_is_recursive e1 (gm_id x) \<and> mutex_is_locked_by e1 (gm_id x) (e_current e1))
         then Some (Finished EBUSY e1)
         else pthread_mutex_lock p e1 } }"

definition pthread_mutex_unlock :: "vaddr \<Rightarrow> env \<Rightarrow> (i32 \<times> env) run" where
  "pthread_mutex_unlock p e = do {
     (r, e1) \<leftarrow> check_or_register_mutex p e;
     case r of
       Inl c \<Rightarrow> Some (c, e1)
     | Inr _ \<Rightarrow> do {
         x \<leftarrow> read_env guest_mutex_type p e1;
         (res, e2) \<leftarrow> unlock_mutex (gm_id x) e1;
         Some (err_or_0 res, e2) } }"

definition pthread_mutex_destroy :: "vaddr \<Rightarrow> env \<Rightarrow> (i32 \<times> env) run" where
  "pthread_mutex_destroy p e = do {
     (r, e1) \<leftarrow> check_or_register_mutex p e;
     case r of
       Inl c \<Rightarrow> Some (c, e1)
     | Inr _ \<Rightarrow> do {
         x \<leftarrow> read_env guest_mutex_type p e1;
         e2 \<leftarrow> write_env guest_mutex_type p \<lparr>gm_magic = 0, gm_id = 0xFFFFFFFFFFFFFFFF\<rparr> e1;
         (res, e3) \<leftarrow> destroy_mutex (gm_id x) e2;
         Some (err_or_0 res, e3) } }"

subsection \<open>Condition variables\<close>

definition pthread_condattr_init :: "vaddr \<Rightarrow> env \<Rightarrow> (i32 \<times> env) run" where
  "pthread_condattr_init attr e = do {
     e1 \<leftarrow> write_env condattr_type attr \<lparr>ca_magic = MAGIC_CONDATTR, ca_pshared = PTHREAD_PROCESS_PRIVATE\<rparr> e;
     Some (0, e1) }"

definition pthread_condattr_destroy :: "vaddr \<Rightarrow> env \<Rightarrow> (i32 \<times> env) run" where
  "pthread_condattr_destroy attr e =
     check_magic attr MAGIC_CONDATTR e (do {
       e1 \<leftarrow> write_env condattr_type attr \<lparr>ca_magic = 0, ca_pshared = PTHREAD_PROCESS_PRIVATE\<rparr> e;
       Some (0, e1) })"

definition pthread_condattr_getpshared :: "vaddr \<Rightarrow> vaddr \<Rightarrow> env \<Rightarrow> (i32 \<times> env) run" where
  "pthread_condattr_getpshared attr pshared e =
     check_magic attr MAGIC_CONDATTR e (do {
       a \<leftarrow> read_env condattr_type attr e;
       e1 \<leftarrow> write_env u32_type pshared (ca_pshared a) e;
       Some (0, e1) })"

definition pthread_condattr_setpshared :: "vaddr \<Rightarrow> i32 \<Rightarrow> env \<Rightarrow> (i32 \<times> env) run" where
  "pthread_condattr_setpshared attr pshared e =
     check_magic attr MAGIC_CONDATTR e (
       if pshared \<noteq> PTHREAD_PROCESS_PRIVATE \<and> pshared \<noteq> PTHREAD_PROCESS_SHARED then Some (EINVAL, e)
       else do {
         a \<leftarrow> read_env condattr_type attr e;
         e1 \<leftarrow> write_env condattr_type attr (a\<lparr>ca_pshared := pshared\<rparr>) e;
         Some (0, e1) })"

definition pthread_cond_init :: "vaddr \<Rightarrow> vaddr \<Rightarrow> env \<Rightarrow> (i32 \<times> env) run" where
  "pthread_cond_init c attr e =
     (let create = do {
        e1 \<leftarrow> write_env guest_cond_type c \<lparr>gc_magic = MAGIC_COND, gc_unused = replicate 6 0\<rparr> e;
        _ \<leftarrow> rassert (e_conds e1 c = None);
        Some (0, put_cond c \<lparr>co_waiting = [], co_waking = [], co_mutex = None, co_timed_out = {}\<rparr> e1) }
      in if attr \<noteq> 0 then check_magic attr MAGIC_CONDATTR e create else create)"

definition check_or_register_cond :: "vaddr \<Rightarrow> env \<Rightarrow> ((i32 + unit) \<times> env) run" where
  "check_or_register_cond c e = do {
     magic \<leftarrow> read_env u32_type c e;
     if magic = MAGIC_COND_STATIC then do {
       (_, e1) \<leftarrow> pthread_cond_init c 0 e;
       Some (Inr (), e1) }
     else if magic = MAGIC_COND then Some (Inr (), e)
     else Some (Inl EINVAL, e) }"

text \<open>
  The part of both kinds of wait up to the point where the thread yields: the mutex is
  unlocked and the thread queued.
\<close>

definition cond_enqueue :: "vaddr \<Rightarrow> vaddr \<Rightarrow> env \<Rightarrow> env run" where
  "cond_enqueue c p e = do {
     (res, e1) \<leftarrow> pthread_mutex_unlock p e;
     _ \<leftarrow> rassert (res = 0);
     x \<leftarrow> read_env guest_mutex_type p e1;
     w \<leftarrow> e_conds e1 c;
     _ \<leftarrow> rassert (co_mutex w = Some (gm_id x) \<or> (co_waking w = [] \<and> co_waiting w = []));
     Some (put_cond c (w\<lparr>co_mutex := Some (gm_id x), co_waiting := co_waiting w @ [e_current e1]\<rparr>) e1) }"

definition duration_from_timespec :: "timespec \<Rightarrow> unit + nat" where
  "duration_from_timespec t =
     (let sec = sint (tv_sec t); nsec = sint (tv_nsec t) in
      if sec < 0 \<or> \<not> (0 \<le> nsec \<and> nsec < 1000000000) then Inl ()
      else Inr (nat sec * 1000000000 + nat nsec))"

text \<open>\<open>Duration::checked_add\<close>: seconds are a \<open>u64\<close>.\<close>

definition duration_limit :: nat where
  "duration_limit = 2 ^ 64 * 1000000000"

definition pthread_cond_timedwait_until :: "vaddr \<Rightarrow> vaddr \<Rightarrow> nat \<Rightarrow> env \<Rightarrow> (env, i32) coro run" where
  "pthread_cond_timedwait_until c p deadline e = do {
     (r, e1) \<leftarrow> check_or_register_cond c e;
     case r of
       Inl err \<Rightarrow> Some (Finished err e1)
     | Inr _ \<Rightarrow> do {
         e2 \<leftarrow> cond_enqueue c p e1;
         k \<leftarrow> yield_thread (Condition c (Some deadline)) e2;
         coro_bind k (\<lambda>_ e3. do {
           w \<leftarrow> e_conds e3 c;
           if e_current e1 \<in> co_timed_out w
           then Some (Finished ETIMEDOUT (put_cond c (w\<lparr>co_timed_out := co_timed_out w - {e_current e1}\<rparr>) e3))
           else Some (Finished 0 e3) }) } }"

definition pthread_cond_timedwait :: "vaddr \<Rightarrow> vaddr \<Rightarrow> vaddr \<Rightarrow> env \<Rightarrow> (env, i32) coro run" where
  "pthread_cond_timedwait c p abs_time e = do {
     t \<leftarrow> read_env timespec_type abs_time e;
     case duration_from_timespec t of
       Inl _ \<Rightarrow> Some (Finished EINVAL e)
     | Inr deadline \<Rightarrow> pthread_cond_timedwait_until c p deadline e }"

definition pthread_cond_timedwait_relative_np ::
  "host \<Rightarrow> vaddr \<Rightarrow> vaddr \<Rightarrow> vaddr \<Rightarrow> env \<Rightarrow> (env, i32) coro run" where
  "pthread_cond_timedwait_relative_np H c p relative_time e = do {
     t \<leftarrow> read_env timespec_type relative_time e;
     case duration_from_timespec t of
       Inl _ \<Rightarrow> Some (Finished EINVAL e)
     | Inr d \<Rightarrow> do {
         (now, e1) \<leftarrow> wall_now H e;
         if now + d < duration_limit then pthread_cond_timedwait_until c p (now + d) e1
         else Some (Finished EINVAL e1) } }"

definition pthread_cond_wait :: "vaddr \<Rightarrow> vaddr \<Rightarrow> env \<Rightarrow> (env, i32) coro run" where
  "pthread_cond_wait c p e = do {
     (r, e1) \<leftarrow> check_or_register_cond c e;
     case r of
       Inl err \<Rightarrow> Some (Finished err e1)
     | Inr _ \<Rightarrow> do {
         e2 \<leftarrow> cond_enqueue c p e1;
         k \<leftarrow> yield_thread (Condition c None) e2;
         coro_bind k (\<lambda>_ e3. do {
           w \<leftarrow> e_conds e3 c;
           _ \<leftarrow> rassert (e_current e1 \<notin> co_timed_out w);
           Some (Finished 0 e3) }) } }"

definition pthread_cond_signal :: "vaddr \<Rightarrow> env \<Rightarrow> (i32 \<times> env) run" where
  "pthread_cond_signal c e = do {
     (r, e1) \<leftarrow> check_or_register_cond c e;
     case r of
       Inl err \<Rightarrow> Some (err, e1)
     | Inr _ \<Rightarrow> do {
         w \<leftarrow> e_conds e1 c;
         case co_waiting w of
           [] \<Rightarrow> Some (0, e1)
         | t # ts \<Rightarrow> Some (0, put_cond c (w\<lparr>co_waiting := ts, co_waking := co_waking w @ [t]\<rparr>) e1) } }"

definition pthread_cond_broadcast :: "vaddr \<Rightarrow> env \<Rightarrow> (i32 \<times> env) run" where
  "pthread_cond_broadcast c e = do {
     (r, e1) \<leftarrow> check_or_register_cond c e;
     case r of
       Inl err \<Rightarrow> Some (err, e1)
     | Inr _ \<Rightarrow> do {
         w \<leftarrow> e_conds e1 c;
         Some (0, put_cond c (w\<lparr>co_waiting := [], co_waking := co_waking w @ co_waiting w\<rparr>) e1) } }"

definition pthread_cond_destroy :: "vaddr \<Rightarrow> env \<Rightarrow> (i32 \<times> env) run" where
  "pthread_cond_destroy c e = do {
     (r, e1) \<leftarrow> check_or_register_cond c e;
     case r of
       Inl err \<Rightarrow> Some (err, e1)
     | Inr _ \<Rightarrow> do {
         w \<leftarrow> e_conds e1 c;
         _ \<leftarrow> rassert (co_waiting w = [] \<and> co_waking w = []);
         Some (0, e1\<lparr>e_conds := (e_conds e1)(c := None)\<rparr>) } }"

subsection \<open>\<open>errno\<close>\<close>

definition errno_ptr_for_thread :: "thread_id \<Rightarrow> env \<Rightarrow> (vaddr \<times> env) run" where
  "errno_ptr_for_thread t e = (case e_errnos e t of
     Some p \<Rightarrow> Some (p, e)
   | None \<Rightarrow> do {
       (m, p) \<leftarrow> alloc_and_write u32_type (e_mem e) 0;
       Some (p, e\<lparr>e_mem := m, e_errnos := (e_errnos e)(t \<mapsto> p)\<rparr>) })"

definition set_errno_for_thread :: "thread_id \<Rightarrow> i32 \<Rightarrow> env \<Rightarrow> env run" where
  "set_errno_for_thread t v e = do {
     (p, e1) \<leftarrow> errno_ptr_for_thread t e;
     write_env u32_type p v e1 }"

definition set_errno :: "i32 \<Rightarrow> env \<Rightarrow> env run" where
  "set_errno v e = set_errno_for_thread (e_current e) v e"

subsection \<open>Semaphores\<close>

abbreviation O_CREAT :: i32 where "O_CREAT \<equiv> 0x200"
abbreviation O_EXCL :: i32 where "O_EXCL \<equiv> 0x800"
abbreviation SEM_FAILED :: vaddr where "SEM_FAILED \<equiv> 0xFFFFFFFF"

text \<open>\<open>Rc::new(RefCell::new(..))\<close>: a new object in the store.\<close>

definition new_sem_object :: "sem_object \<Rightarrow> env \<Rightarrow> nat \<times> env" where
  "new_sem_object x e =
     (let ss = e_sems e in (length (ss_store ss), e\<lparr>e_sems := ss\<lparr>ss_store := ss_store ss @ [x]\<rparr>\<rparr>))"

definition open_sem :: "vaddr \<Rightarrow> nat option \<Rightarrow> env \<Rightarrow> env" where
  "open_sem s r e = e\<lparr>e_sems := (e_sems e)\<lparr>ss_open := (ss_open (e_sems e))(s := r)\<rparr>\<rparr>"

definition name_sem :: "u8 list \<Rightarrow> nat option \<Rightarrow> env \<Rightarrow> env" where
  "name_sem name r e = e\<lparr>e_sems := (e_sems e)\<lparr>ss_named := (ss_named (e_sems e))(name := r)\<rparr>\<rparr>"

definition sem_init :: "vaddr \<Rightarrow> i32 \<Rightarrow> u32 \<Rightarrow> env \<Rightarrow> (i32 \<times> env) run" where
  "sem_init s pshared v e = do {
     e1 \<leftarrow> set_errno 0 e;
     _ \<leftarrow> rassert (pshared = 0);
     if ss_open (e_sems e1) s \<noteq> None then Some (0, e1)
     else
       (let (r, e2) = new_sem_object \<lparr>so_value = v, so_waiting = {}, so_guest = Some s, so_named = False\<rparr> e1
        in Some (0, open_sem s (Some r) e2)) }"

definition sem_destroy :: "vaddr \<Rightarrow> env \<Rightarrow> (i32 \<times> env) run" where
  "sem_destroy s e = (case ss_open (e_sems e) s of
     None \<Rightarrow> Some (EINVAL, e)
   | Some r \<Rightarrow> do {
       x \<leftarrow> index_run (ss_store (e_sems e)) r;
       _ \<leftarrow> rassert (\<not> so_named x);
       Some (0, open_sem s None e) })"

text \<open>
  \<open>cstr_at_utf8(..).unwrap()\<close>: the well-formed byte sequences of UTF-8 that \<open>str::from_utf8\<close>
  accepts.
\<close>

fun utf8_valid :: "u8 list \<Rightarrow> bool" where
  "utf8_valid [] = True"
| "utf8_valid (b # bs) =
     (let cont = (\<lambda>c. 0x80 \<le> c \<and> c \<le> 0xBF) in
      if b < 0x80 then utf8_valid bs
      else if 0xC2 \<le> b \<and> b \<le> 0xDF then (case bs of c1 # r \<Rightarrow> cont c1 \<and> utf8_valid r | _ \<Rightarrow> False)
      else if 0xE0 \<le> b \<and> b \<le> 0xEF then
        (case bs of c1 # c2 # r \<Rightarrow>
           cont c1 \<and> (b = 0xE0 \<longrightarrow> 0xA0 \<le> c1) \<and> (b = 0xED \<longrightarrow> c1 \<le> 0x9F) \<and> cont c2 \<and> utf8_valid r
         | _ \<Rightarrow> False)
      else if 0xF0 \<le> b \<and> b \<le> 0xF4 then
        (case bs of c1 # c2 # c3 # r \<Rightarrow>
           cont c1 \<and> (b = 0xF0 \<longrightarrow> 0x90 \<le> c1) \<and> (b = 0xF4 \<longrightarrow> c1 \<le> 0x8F) \<and> cont c2 \<and> cont c3 \<and> utf8_valid r
         | _ \<Rightarrow> False)
      else False)"

definition cstr_at_utf8 :: "guest_mem \<Rightarrow> vaddr \<Rightarrow> (u8 list + u8 list) run" where
  "cstr_at_utf8 m p = do { bs \<leftarrow> cstr_at m p; Some (if utf8_valid bs then Inr bs else Inl bs) }"

definition result_run :: "'e + 'a \<Rightarrow> 'a run" where
  "result_run r = (case r of Inl _ \<Rightarrow> None | Inr x \<Rightarrow> Some x)"

definition sem_open_fresh :: "nat \<Rightarrow> env \<Rightarrow> (vaddr \<times> env) run" where
  "sem_open_fresh r e = do {
     (m, s) \<leftarrow> alloc_and_write u32_type (e_mem e) 0;
     x \<leftarrow> index_run (ss_store (e_sems e)) r;
     Some (s, open_sem s (Some r) (put_sem r (x\<lparr>so_guest := Some s\<rparr>) (e\<lparr>e_mem := m\<rparr>))) }"

definition sem_open :: "vaddr \<Rightarrow> i32 \<Rightarrow> u32 \<Rightarrow> env \<Rightarrow> (vaddr \<times> env) run" where
  "sem_open name_ptr oflag v e = do {
     e1 \<leftarrow> set_errno 0 e;
     res \<leftarrow> cstr_at_utf8 (e_mem e1) name_ptr;
     name \<leftarrow> result_run res;
     case ss_named (e_sems e1) name of
       Some r \<Rightarrow>
         if (oflag AND O_EXCL) = 0 then Some (SEM_FAILED, e1)
         else do {
           x \<leftarrow> index_run (ss_store (e_sems e1)) r;
           case so_guest x of
             Some s \<Rightarrow> Some (s, e1)
           | None \<Rightarrow> sem_open_fresh r e1 }
     | None \<Rightarrow>
         if (oflag AND O_CREAT) = 0 then Some (SEM_FAILED, e1)
         else
           (let (r, e2) = new_sem_object \<lparr>so_value = v, so_waiting = {}, so_guest = None, so_named = True\<rparr> e1
            in sem_open_fresh r (name_sem name (Some r) e2)) }"

definition sem_post :: "vaddr \<Rightarrow> env \<Rightarrow> (i32 \<times> env) run" where
  "sem_post s e = do {
     e1 \<leftarrow> set_errno 0 e;
     e2 \<leftarrow> sem_increment s e1;
     Some (0, e2) }"

definition sem_wait :: "vaddr \<Rightarrow> env \<Rightarrow> (env, i32) coro run" where
  "sem_wait s e = do {
     e1 \<leftarrow> set_errno 0 e;
     c \<leftarrow> sem_decrement s True e1;
     coro_bind c (\<lambda>_ e2. Some (Finished 0 e2)) }"

definition sem_trywait :: "vaddr \<Rightarrow> env \<Rightarrow> (env, i32) coro run" where
  "sem_trywait s e = do {
     e1 \<leftarrow> set_errno 0 e;
     c \<leftarrow> sem_decrement s False e1;
     coro_bind c (\<lambda>b e2. Some (Finished (if b then 0 else -1) e2)) }"

definition mem_free :: "host_discard \<Rightarrow> vaddr \<Rightarrow> env \<Rightarrow> env run" where
  "mem_free discard p e = do {
     (m, _) \<leftarrow> free_in_heap discard (e_mem e) None p;
     Some (e\<lparr>e_mem := m\<rparr>) }"

definition sem_close :: "host_discard \<Rightarrow> vaddr \<Rightarrow> env \<Rightarrow> (i32 \<times> env) run" where
  "sem_close discard s e = do {
     e1 \<leftarrow> set_errno 0 e;
     r \<leftarrow> ss_open (e_sems e1) s;
     let e2 = open_sem s None e1;
     x \<leftarrow> index_run (ss_store (e_sems e2)) r;
     _ \<leftarrow> rassert (so_named x);
     g \<leftarrow> so_guest x;
     e3 \<leftarrow> mem_free discard g e2;
     Some (0, put_sem r (x\<lparr>so_guest := None\<rparr>) e3) }"

definition sem_unlink :: "vaddr \<Rightarrow> env \<Rightarrow> (i32 \<times> env) run" where
  "sem_unlink name_ptr e = do {
     e1 \<leftarrow> set_errno 0 e;
     res \<leftarrow> cstr_at_utf8 (e_mem e1) name_ptr;
     name \<leftarrow> result_run res;
     Some (0, name_sem name None e1) }"

definition host_create_semaphore :: "u32 \<Rightarrow> env \<Rightarrow> (vaddr \<times> env) run" where
  "host_create_semaphore v e = do {
     (m, s) \<leftarrow> alloc_and_write u32_type (e_mem e) 0;
     (_, e1) \<leftarrow> sem_init s 0 v (e\<lparr>e_mem := m\<rparr>);
     Some (s, e1) }"

definition host_destroy_semaphore :: "host_discard \<Rightarrow> vaddr \<Rightarrow> env \<Rightarrow> env run" where
  "host_destroy_semaphore discard s e = do {
     (_, e1) \<leftarrow> sem_destroy s e;
     mem_free discard s e1 }"

subsection \<open>\<open>@synchronized\<close>\<close>

definition objc_sync_enter :: "vaddr \<Rightarrow> env \<Rightarrow> (env, i32) coro run" where
  "objc_sync_enter obj e = (case e_sync e obj of
     Some m \<Rightarrow> do {
       c \<leftarrow> lock_mutex m e;
       coro_bind c (\<lambda>r e1. do { _ \<leftarrow> result_run r; Some (Finished 0 e1) }) }
   | None \<Rightarrow> do {
       (m, e1) \<leftarrow> init_mutex PTHREAD_MUTEX_RECURSIVE e;
       c \<leftarrow> lock_mutex m e1;
       coro_bind c (\<lambda>r e2. do {
         _ \<leftarrow> result_run r;
         Some (Finished 0 (e2\<lparr>e_sync := (e_sync e2)(obj \<mapsto> m)\<rparr>)) }) })"

definition objc_sync_exit :: "vaddr \<Rightarrow> env \<Rightarrow> (i32 \<times> env) run" where
  "objc_sync_exit obj e = do {
     m \<leftarrow> e_sync e obj;
     (r, e1) \<leftarrow> unlock_mutex m e;
     n \<leftarrow> result_run r;
     if n = 0 then do {
       (d, e2) \<leftarrow> destroy_mutex m e1;
       Some (0, if isl d then e2 else e2\<lparr>e_sync := (e_sync e2)(obj := None)\<rparr>) }
     else Some (0, e1) }"

end
