(* ===== verification/Sync_Runs.thy ===== *)
theory Sync_Runs
  imports Guest_Sync
begin

text \<open>
  Runs of the synchronisation primitives: a step relation whose steps are the operations of
  the host's mutexes and semaphores, the scheduler, and any other code, which changes neither.
  An event records what a step gives to a thread; the properties compare the state with the
  history of events.
\<close>

subsection \<open>Events and steps\<close>

datatype sync_event =
    Acquire thread_id mutex_id
  | Release thread_id mutex_id
  | Foreign_Release thread_id mutex_id
  | Take thread_id nat
  | Post nat
  | Internal

definition wanted_mutex :: "env \<Rightarrow> thread_block \<Rightarrow> mutex_id option" where
  "wanted_mutex e b = (case b of
     Mutex m \<Rightarrow> Some m
   | Condition c _ \<Rightarrow> Option.bind (e_conds e c) co_mutex
   | _ \<Rightarrow> None)"

definition wanted_sem :: "env \<Rightarrow> thread_block \<Rightarrow> nat option" where
  "wanted_sem e b = (case b of Semaphore s \<Rightarrow> ss_open (e_sems e) s | _ \<Rightarrow> None)"

definition wake_event :: "env \<Rightarrow> thread_id \<Rightarrow> sync_event" where
  "wake_event e t =
     (let b = th_blocked_by (e_threads e ! t) in
      case wanted_mutex e b of Some m \<Rightarrow> Acquire t m
      | None \<Rightarrow> (case wanted_sem e b of Some r \<Rightarrow> Take t r | None \<Rightarrow> Internal))"

definition sem_values :: "env \<Rightarrow> int list" where
  "sem_values e = map (\<lambda>x. sint (so_value x)) (ss_store (e_sems e))"

inductive sync_step :: "host \<Rightarrow> env \<Rightarrow> sync_event \<Rightarrow> env \<Rightarrow> bool" for H where
  lock_done: "lock_mutex m e = Some (Finished (Inr n) e') \<Longrightarrow> sync_step H e (Acquire (e_current e) m) e'"
| lock_fails: "lock_mutex m e = Some (Finished (Inl c) e') \<Longrightarrow> sync_step H e Internal e'"
| lock_blocks: "lock_mutex m e = Some (Yielded e' k) \<Longrightarrow> sync_step H e Internal e'"
| unlock_own: "unlock_mutex m e = Some (Inr n, e') \<Longrightarrow> mutex_is_locked_by e m (e_current e)
    \<Longrightarrow> sync_step H e (Release (e_current e) m) e'"
| unlock_foreign: "unlock_mutex m e = Some (Inr n, e') \<Longrightarrow> \<not> mutex_is_locked_by e m (e_current e)
    \<Longrightarrow> sync_step H e (Foreign_Release (e_current e) m) e'"
| unlock_fails: "unlock_mutex m e = Some (Inl c, e') \<Longrightarrow> sync_step H e Internal e'"
| mutex_created: "init_mutex ty e = Some (m, e') \<Longrightarrow> sync_step H e Internal e'"
| mutex_destroyed: "destroy_mutex m e = Some (r, e') \<Longrightarrow> sync_step H e Internal e'"
| sem_taken: "sem_decrement s w e = Some (Finished True e') \<Longrightarrow> ss_open (e_sems e) s = Some r
    \<Longrightarrow> sync_step H e (Take (e_current e) r) e'"
| sem_busy: "sem_decrement s w e = Some (Finished False e') \<Longrightarrow> sync_step H e Internal e'"
| sem_blocks: "sem_decrement s w e = Some (Yielded e' k) \<Longrightarrow> sync_step H e Internal e'"
| sem_posted: "sem_increment s e = Some e' \<Longrightarrow> ss_open (e_sems e) s = Some r \<Longrightarrow> sync_step H e (Post r) e'"
| wakes: "schedule_next_thread H e = Some (t, e') \<Longrightarrow> sync_step H e (wake_event e t) (e'\<lparr>e_current := t\<rparr>)"
| other: "e_mutexes e' = e_mutexes e \<Longrightarrow> sem_values e' = sem_values e @ new \<Longrightarrow> sync_step H e Internal e'"

inductive sync_run :: "host \<Rightarrow> env \<Rightarrow> sync_event list \<Rightarrow> env \<Rightarrow> bool" for H where
  start: "sync_run H e [] e"
| step: "sync_run H e h e' \<Longrightarrow> sync_step H e' ev e'' \<Longrightarrow> sync_run H e (ev # h) e''"

subsection \<open>How often a thread holds a mutex\<close>

definition lock_depth :: "env \<Rightarrow> thread_id \<Rightarrow> mutex_id \<Rightarrow> int" where
  "lock_depth e t m = (case lock_of e m of Some (u, n) \<Rightarrow> if u = t then int (unat n) else 0 | None \<Rightarrow> 0)"

definition held :: "sync_event list \<Rightarrow> thread_id \<Rightarrow> mutex_id \<Rightarrow> int" where
  "held h t m = int (count_list h (Acquire t m)) - int (count_list h (Release t m))"

text \<open>Identifiers are below the counter, and a lock is held at least once.\<close>

definition mutexes_ok :: "env \<Rightarrow> bool" where
  "mutexes_ok e \<longleftrightarrow> (\<forall>m x. get_mutex e m = Some x \<longrightarrow> m < ms_count (e_mutexes e) \<and> (\<forall>t n. mx_locked x = Some (t, n) \<longrightarrow> n \<noteq> 0))"

lemma mutexes_ok_put:
  "mutexes_ok e \<Longrightarrow> get_mutex e m = Some y \<Longrightarrow> (\<forall>t n. mx_locked x = Some (t, n) \<longrightarrow> n \<noteq> 0) \<Longrightarrow> mutexes_ok (put_mutex m x e)"
  by (auto simp: mutexes_ok_def env_simps) (auto simp: put_mutex_def)

lemma mutexes_ok_cong: "e_mutexes e' = e_mutexes e \<Longrightarrow> mutexes_ok e' = mutexes_ok e"
  and lock_of_cong: "e_mutexes e' = e_mutexes e \<Longrightarrow> lock_of e' m = lock_of e m"
  by (simp_all add: mutexes_ok_def get_mutex_def lock_of_def)

text \<open>The effect of each operation on the locks: what a step does to \<open>lock_of\<close>.\<close>

lemma unat_Suc_eq: "add_chk n 1 = Some (n' :: u32) \<Longrightarrow> unat n' = Suc (unat n)"
  by (simp add: add_chk_Some)

lemma lock_effect:
  assumes "lock_mutex m e = Some c" and "mutexes_ok e"
  shows "case c of
      Finished (Inr n) e' \<Rightarrow> mutexes_ok e' \<and> e_sems e' = e_sems e \<and> (\<forall>k t. lock_depth e' t k =
        lock_depth e t k + (if t = e_current e \<and> k = m then 1 else 0)) \<and> lock_of e' m = Some (e_current e, n)
    | Finished (Inl _) e' \<Rightarrow> e' = e
    | Yielded e' _ \<Rightarrow> mutexes_ok e' \<and> e_sems e' = e_sems e \<and> (\<forall>k. lock_of e' k = lock_of e k)"
proof -
  obtain x where x: "get_mutex e m = Some x" using assms(1) by (auto simp: lock_mutex_def bind_Some_iff)
  show ?thesis
  proof (cases "mx_locked x")
    case None
    with assms x have c: "c = Finished (Inr 1) (put_mutex m (x\<lparr>mx_locked := Some (e_current e, 1)\<rparr>) e)"
      by (simp add: lock_mutex_def)
    have "lock_of e m = None" using x None by (simp add: lock_of_def)
    then show ?thesis using x assms(2) by (simp add: c mutexes_ok_put [where y = x] env_simps lock_depth_def)
  next
    case (Some p)
    then obtain owner n where l: "mx_locked x = Some (owner, n)" by (cases p) auto
    have lo: "lock_of e m = Some (owner, n)" using x l by (simp add: lock_of_def)
    show ?thesis
    proof (cases "owner = e_current e")
      case True
      show ?thesis
      proof (cases "mx_type x")
        case PTHREAD_MUTEX_RECURSIVE
        with assms x l True obtain n' where n': "add_chk n 1 = Some n'"
          and c: "c = Finished (Inr n') (put_mutex m (x\<lparr>mx_locked := Some (owner, n')\<rparr>) e)"
          by (auto simp: lock_mutex_def bind_Some_iff)
        have "n' \<noteq> 0" using unat_Suc_eq [OF n'] by (metis unat_0 nat.distinct(1))
        then show ?thesis using x assms(2) True lo unat_Suc_eq [OF n']
          by (simp add: c mutexes_ok_put [where y = x] env_simps lock_depth_def)
      qed (use assms x l True in \<open>auto simp: lock_mutex_def\<close>)
    next
      case False
      with assms x l obtain w k where c: "c = Yielded (set_block (e_current e) (Mutex m) (put_mutex m (x\<lparr>mx_waiting := w\<rparr>) e)) k"
        by (auto simp: lock_mutex_def bind_Some_iff block_on_mutex_def yield_thread_def env_simps)
      have "mutexes_ok (put_mutex m (x\<lparr>mx_waiting := w\<rparr>) e)"
        using assms(2) x by (intro mutexes_ok_put [where y = x]) (auto simp: mutexes_ok_def)
      then show ?thesis using lo l
        by (simp add: c env_simps mutexes_ok_cong [of "set_block (e_current e) (Mutex m) (put_mutex m (x\<lparr>mx_waiting := w\<rparr>) e)"])
    qed
  qed
qed

lemma unlock_effect:
  assumes "unlock_mutex m e = Some (r, e')" and "mutexes_ok e"
  shows "case r of
      Inl _ \<Rightarrow> e' = e
    | Inr n \<Rightarrow> mutexes_ok e' \<and> e_sems e' = e_sems e
        \<and> (\<exists>t k. lock_of e m = Some (t, k) \<and> unat k = Suc (unat n)
            \<and> (\<forall>j. lock_of e' j = (if j = m then (if n = 0 then None else Some (t, n)) else lock_of e j))
            \<and> (t \<noteq> e_current e \<longrightarrow> (\<exists>x. get_mutex e m = Some x \<and> mx_type x = PTHREAD_MUTEX_NORMAL)))"
proof -
  obtain x where x: "get_mutex e m = Some x" using assms(1) by (auto simp: unlock_mutex_def bind_Some_iff)
  show ?thesis
  proof (cases "mx_locked x")
    case None
    with assms x show ?thesis by (auto simp: unlock_mutex_def split: mutex_type.splits)
  next
    case (Some p)
    then obtain owner n where l: "mx_locked x = Some (owner, n)" by (cases p) auto
    have lo: "lock_of e m = Some (owner, n)" using x l by (simp add: lock_of_def)
    show ?thesis
    proof (cases "owner \<noteq> e_current e \<and> mx_type x \<noteq> PTHREAD_MUTEX_NORMAL")
      case True
      with assms x l show ?thesis by (auto simp: unlock_mutex_def)
    next
      case False
      then have nrm: "owner \<noteq> e_current e \<longrightarrow> mx_type x = PTHREAD_MUTEX_NORMAL" by blast
      show ?thesis
      proof (cases "n = 1")
        case True
        with assms x l False have "r = Inr 0" "e' = put_mutex m (x\<lparr>mx_locked := None\<rparr>) e"
          by (auto simp: unlock_mutex_def)
        then show ?thesis using True lo x nrm assms(2) by (simp add: env_simps mutexes_ok_put [where y = x])
      next
        case n1: False
        with assms x l False obtain n' where n': "sub_chk n 1 = Some n'" "n' \<noteq> 0"
          and c: "r = Inr n'" "e' = put_mutex m (x\<lparr>mx_locked := Some (owner, n')\<rparr>) e"
          by (auto simp: unlock_mutex_def bind_Some_iff rassert_Some)
        have "unat n = Suc (unat n')" using n'(1) by (simp add: sub_chk_Some)
        then show ?thesis using n'(2) c lo x nrm assms(2) by (simp add: env_simps mutexes_ok_put [where y = x])
      qed
    qed
  qed
qed

lemma sem_values_frame [env_simps]:
  "sem_values (set_block t b e) = sem_values e" "sem_values (relog l e) = sem_values e"
  "sem_values (put_mutex m x e) = sem_values e" "sem_values (put_cond c y e) = sem_values e"
  by (simp_all add: sem_values_def env_simps)

lemma sem_values_put [env_simps]: "sem_values (put_sem r x e) = (sem_values e)[r := sint (so_value x)]"
  by (simp add: sem_values_def put_sem_def map_update)

lemma get_sem_value:
  "get_sem e s = Some (r, x) \<Longrightarrow> ss_open (e_sems e) s = Some r \<and> r < length (sem_values e) \<and> sem_values e ! r = sint (so_value x)"
  by (auto simp: get_sem_def sem_values_def run_simps)

lemma sem_effect:
  assumes "sem_decrement s w e = Some c"
  shows "\<exists>r. ss_open (e_sems e) s = Some r \<and> r < length (sem_values e) \<and> (case c of
      Finished True e' \<Rightarrow> e_mutexes e' = e_mutexes e \<and> 0 < sem_values e ! r
        \<and> sem_values e' = (sem_values e)[r := sem_values e ! r - 1]
    | Finished False e' \<Rightarrow> e' = e
    | Yielded e' _ \<Rightarrow> e_mutexes e' = e_mutexes e \<and> sem_values e' = sem_values e)"
proof -
  obtain r x where g: "get_sem e s = Some (r, x)" using assms by (auto simp: sem_decrement_def bind_Some_iff)
  note v = get_sem_value [OF g]
  show ?thesis
  proof (cases "0 < sint (so_value x)")
    case True
    with assms g have "c = Finished True (put_sem r (x\<lparr>so_value := so_value x - 1\<rparr>) e)" by (simp add: sem_decrement_def)
    with v True show ?thesis by (simp add: env_simps sint_dec)
  next
    case False
    show ?thesis
    proof (cases w)
      case True
      with assms g False obtain k where c: "c = Yielded (set_block (e_current e) (Semaphore s)
          (put_sem r (x\<lparr>so_waiting := insert (e_current e) (so_waiting x)\<rparr>) e)) k"
        by (auto simp: sem_decrement_def bind_Some_iff yield_thread_def env_simps)
      have "(sem_values e)[r := sint (so_value x)] = sem_values e" using v by (metis list_update_id)
      with v show ?thesis by (simp add: c env_simps)
    next
      case 2: False
      with assms g False have "c = Finished False e" by (simp add: sem_decrement_def)
      with v show ?thesis by simp
    qed
  qed
qed

lemma sem_increment_effect:
  assumes "sem_increment s e = Some e'" and "ss_open (e_sems e) s = Some r"
  shows "e_mutexes e' = e_mutexes e \<and> r < length (sem_values e) \<and> sem_values e' = (sem_values e)[r := sem_values e ! r + 1]"
proof -
  obtain q x v where g: "get_sem e s = Some (q, x)" "sadd_chk (so_value x) 1 = Some v" "e' = put_sem q (x\<lparr>so_value := v\<rparr>) e"
    using assms(1) by (auto simp: sem_increment_def bind_Some_iff)
  have "sint v = sint (so_value x) + 1"
    using g(2) sint_add_in_range [of "so_value x" 1] by (auto simp: sadd_chk_def split: if_splits)
  with get_sem_value [OF g(1)] g(3) assms(2) show ?thesis by (simp add: env_simps)
qed

lemma relocked_effect:
  assumes "mutexes_ok e" and "get_mutex e m = Some x" and "mx_locked x = None"
    and "e_mutexes e' = e_mutexes (put_mutex m (x\<lparr>mx_locked := Some (t, 1), mx_waiting := w\<rparr>) e)"
  shows "mutexes_ok e' \<and> lock_of e m = None \<and> (\<forall>k. lock_of e' k = (if k = m then Some (t, 1) else lock_of e k))"
proof -
  have "mutexes_ok (put_mutex m (x\<lparr>mx_locked := Some (t, 1), mx_waiting := w\<rparr>) e)"
    by (rule mutexes_ok_put [OF assms(1,2)]) simp
  then show ?thesis using assms(2,3) mutexes_ok_cong [OF assms(4)] lock_of_cong [OF assms(4)]
    by (simp add: env_simps) (simp add: lock_of_def)
qed

lemma poll_woken_effect:
  assumes "poll_thread H t e = Some (Woken, e')" and ok: "mutexes_ok e"
  defines "b \<equiv> th_blocked_by (e_threads e ! t)"
  shows "mutexes_ok e' \<and> (case wanted_mutex e b of
      None \<Rightarrow> (\<forall>k. lock_of e' k = lock_of e k)
    | Some m \<Rightarrow> lock_of e m = None \<and> (\<forall>k. lock_of e' k = (if k = m then Some (t, 1) else lock_of e k)))
    \<and> (case wanted_sem e b of
      None \<Rightarrow> sem_values e' = sem_values e
    | Some r \<Rightarrow> r < length (sem_values e) \<and> 0 < sem_values e ! r \<and> sem_values e' = (sem_values e)[r := sem_values e ! r - 1])"
proof -
  from assms(1) have p: "(case b of
         Sleeping until \<Rightarrow> poll_sleeping H t until e
       | Mutex m \<Rightarrow> poll_mutex t m e
       | Semaphore s \<Rightarrow> poll_semaphore t s e
       | Condition c deadline \<Rightarrow> poll_condition H t c deadline e
       | Joining joinee p \<Rightarrow> poll_joining t joinee p e
       | NotBlocked \<Rightarrow> Some (Woken, e)
       | WaitingForDebugger _ \<Rightarrow> None
       | Suspended count _ \<Rightarrow> do { _ \<leftarrow> rassert (count > 0); Some (Waiting, e) }
       | FileObjectLock p \<Rightarrow> poll_file t p e) = Some (Woken, e')"
    by (auto simp: poll_thread_def run_simps b_def split: if_splits)
  have same: ?thesis if "wanted_mutex e b = None" "wanted_sem e b = None" "e_mutexes e' = e_mutexes e" "e_sems e' = e_sems e"
    using that(1,2,4) ok mutexes_ok_cong [OF that(3)] lock_of_cong [OF that(3)] by (simp add: sem_values_def)
  show ?thesis
  proof (cases b)
    case NotBlocked
    with p show ?thesis by (intro same) (simp_all add: wanted_mutex_def wanted_sem_def)
  next
    case (Sleeping u)
    with p show ?thesis
      by (intro same) (auto simp: wanted_mutex_def wanted_sem_def poll_sleeping_Some env_simps split: if_splits)
  next
    case (Mutex m)
    with p have "poll_mutex t m e = Some (Woken, e')" by simp
    from poll_mutex_Some [OF this] have "\<exists>x. get_mutex e m = Some x \<and> mx_locked x = None
        \<and> e' = put_mutex m (x\<lparr>mx_locked := Some (t, 1),
            mx_waiting := (if 0 < mx_waiting x then mx_waiting x - 1 else mx_waiting x)\<rparr>) (set_block t NotBlocked e)"
      by (cases "mutex_is_locked e m") (simp_all only: if_True if_False poll.distinct simp_thms)
    then obtain x w where x: "get_mutex e m = Some x" "mx_locked x = None"
        "e' = put_mutex m (x\<lparr>mx_locked := Some (t, 1), mx_waiting := w\<rparr>) (set_block t NotBlocked e)" by blast
    then have "e_mutexes e' = e_mutexes (put_mutex m (x\<lparr>mx_locked := Some (t, 1), mx_waiting := w\<rparr>) e)"
      and "e_sems e' = e_sems e" by (simp_all add: put_mutex_def env_simps)
    with relocked_effect [OF ok x(1,2)] Mutex show ?thesis
      by (simp add: wanted_mutex_def wanted_sem_def sem_values_def)
  next
    case (Condition c d)
    with p have "poll_condition H t c d e = Some (Woken, e')" by simp
    then obtain x m w y where y: "e_conds e c = Some x" "co_mutex x = Some m" "get_mutex e m = Some y" "mx_locked y = None"
        "e_mutexes e' = e_mutexes (put_mutex m (y\<lparr>mx_locked := Some (t, 1), mx_waiting := w\<rparr>) e)" "e_sems e' = e_sems e"
      by (cases rule: poll_condition_Some) (auto simp: put_mutex_def env_simps)
    with relocked_effect [OF ok y(3,4,5)] Condition show ?thesis
      by (simp add: wanted_mutex_def wanted_sem_def sem_values_def)
  next
    case (Semaphore s)
    with p have "poll_semaphore t s e = Some (Woken, e')" by simp
    from poll_semaphore_Some [OF this] obtain i x where g: "get_sem e s = Some (i, x)" "0 < sint (so_value x)"
      and e': "e' = set_block t NotBlocked (put_sem i
           (x\<lparr>so_value := so_value x - 1, so_waiting := so_waiting x - {e_current e}\<rparr>) e)"
      by (auto split: if_splits)
    have mu: "e_mutexes e' = e_mutexes e" by (simp add: e' env_simps)
    show ?thesis using get_sem_value [OF g(1)] g(2) Semaphore ok mutexes_ok_cong [OF mu] lock_of_cong [OF mu]
      by (simp add: wanted_mutex_def wanted_sem_def e' env_simps sint_dec)
  next
    case (Joining j q)
    with p have "poll_joining t j q e = Some (Woken, e')" by simp
    from poll_joining_Some [OF this] have "e_mutexes e' = e_mutexes e" "e_sems e' = e_sems e"
      by (auto simp: env_simps split: if_splits)
    then show ?thesis using Joining by (intro same) (simp_all add: wanted_mutex_def wanted_sem_def)
  next
    case (FileObjectLock f)
    with p have "poll_file t f e = Some (Woken, e')" by simp
    from poll_file_Some [OF this] have "e_mutexes e' = e_mutexes e" "e_sems e' = e_sems e"
      by (auto simp: env_simps split: if_splits)
    then show ?thesis using FileObjectLock by (intro same) (simp_all add: wanted_mutex_def wanted_sem_def)
  qed (use p in \<open>auto simp: run_simps\<close>)
qed

subsection \<open>Mutual exclusion and conservation\<close>

text \<open>The effect of a step on the locks and the semaphores, by its event.\<close>

definition lock_change :: "sync_event \<Rightarrow> thread_id \<Rightarrow> mutex_id \<Rightarrow> int" where
  "lock_change ev t m = (case ev of
     Acquire u k \<Rightarrow> if u = t \<and> k = m then 1 else 0
   | Release u k \<Rightarrow> if u = t \<and> k = m then -1 else 0
   | _ \<Rightarrow> 0)"

definition sem_change :: "sync_event \<Rightarrow> nat \<Rightarrow> int" where
  "sem_change ev r = (case ev of Take _ q \<Rightarrow> if q = r then -1 else 0 | Post q \<Rightarrow> if q = r then 1 else 0 | _ \<Rightarrow> 0)"

definition foreign :: "sync_event \<Rightarrow> mutex_id \<Rightarrow> bool" where
  "foreign ev m = (case ev of Foreign_Release _ k \<Rightarrow> k = m | _ \<Rightarrow> False)"

lemma depth_locked: "lock_of e m = Some (t, n) \<Longrightarrow> lock_depth e u m = (if u = t then int (unat n) else 0)"
  and depth_unlocked: "lock_of e m = None \<Longrightarrow> lock_depth e u m = 0"
  and depth_cong: "lock_of e' m = lock_of e m \<Longrightarrow> lock_depth e' u m = lock_depth e u m"
  by (simp_all add: lock_depth_def)

lemma unlock_depth:
  assumes "unlock_mutex m e = Some (Inr n, e')" and "mutexes_ok e"
    and "mutex_is_locked_by e m (e_current e) \<or> m \<noteq> k"
  shows "lock_depth e' u k = lock_depth e u k - (if u = e_current e \<and> k = m then 1 else 0)"
proof -
  from unlock_effect [OF assms(1,2)] obtain v j where l: "lock_of e m = Some (v, j)" "unat j = Suc (unat n)"
    and l': "\<And>q. lock_of e' q = (if q = m then (if n = 0 then None else Some (v, n)) else lock_of e q)" by auto
  show ?thesis
  proof (cases "k = m")
    case True
    with assms(3) have "mutex_is_locked_by e m (e_current e)" by blast
    with l(1) have "v = e_current e"
      by (auto simp: mutex_is_locked_by_def lock_of_def bind_Some_iff split: option.splits)
    with l l' [of m] True show ?thesis by (cases "n = 0") (simp_all add: lock_depth_def)
  next
    case False
    with l' [of k] show ?thesis by (simp add: lock_depth_def)
  qed
qed

lemma destroy_effect:
  assumes "destroy_mutex m e = Some (r, e')" and "mutexes_ok e"
  shows "mutexes_ok e' \<and> (\<forall>k. lock_of e' k = lock_of e k) \<and> e_sems e' = e_sems e"
proof -
  obtain x where x: "get_mutex e m = Some x" using assms(1) by (auto simp: destroy_mutex_def bind_Some_iff)
  show ?thesis
  proof (cases "mx_locked x = None \<and> mx_waiting x = 0")
    case True
    with assms(1) x have e': "e' = e\<lparr>e_mutexes := (e_mutexes e)\<lparr>ms_mutexes := (ms_mutexes (e_mutexes e))(m := None)\<rparr>\<rparr>"
      by (simp add: destroy_mutex_def)
    have g: "get_mutex e' k = (if k = m then None else get_mutex e k)" for k by (simp add: e' get_mutex_def)
    have "lock_of e' k = lock_of e k" for k using x True by (simp add: lock_of_def g)
    moreover have "mutexes_ok e'" unfolding mutexes_ok_def
    proof (intro allI impI)
      fix k y assume "get_mutex e' k = Some y"
      then have "get_mutex e k = Some y" by (simp add: g split: if_splits)
      moreover have "ms_count (e_mutexes e') = ms_count (e_mutexes e)" by (simp add: e')
      ultimately show "k < ms_count (e_mutexes e') \<and> (\<forall>t n. mx_locked y = Some (t, n) \<longrightarrow> n \<noteq> 0)"
        using assms(2) by (simp add: mutexes_ok_def)
    qed
    ultimately show ?thesis by (simp add: e')
  next
    case False
    with assms x have "e' = e" by (auto simp: destroy_mutex_def split: if_splits)
    with assms(2) show ?thesis by simp
  qed
qed

lemma init_effect:
  assumes "init_mutex ty e = Some (m, e')" and "mutexes_ok e"
  shows "mutexes_ok e' \<and> (\<forall>k. lock_of e' k = lock_of e k) \<and> e_sems e' = e_sems e"
proof -
  obtain n where n: "add_chk (ms_count (e_mutexes e)) 1 = Some n" and m: "m = ms_count (e_mutexes e)"
    and e': "e' = e\<lparr>e_mutexes := (e_mutexes e)\<lparr>ms_count := n,
       ms_mutexes := (ms_mutexes (e_mutexes e))(m \<mapsto> \<lparr>mx_type = ty, mx_waiting = 0, mx_locked = None\<rparr>)\<rparr>\<rparr>"
    using assms(1) by (auto simp: init_mutex_def Let_def bind_Some_iff)
  have g: "get_mutex e' k = (if k = m then Some \<lparr>mx_type = ty, mx_waiting = 0, mx_locked = None\<rparr> else get_mutex e k)" for k
    by (simp add: e' get_mutex_def)
  have fresh: "get_mutex e m = None" using assms(2) m by (cases "get_mutex e m") (auto simp: mutexes_ok_def)
  have lt: "m < n" using n m by (simp add: add_chk_Some word_less_nat_alt)
  have c: "ms_count (e_mutexes e') = n" by (simp add: e')
  have "mutexes_ok e'" unfolding mutexes_ok_def
  proof (intro allI impI)
    fix k y assume k: "get_mutex e' k = Some y"
    show "k < ms_count (e_mutexes e') \<and> (\<forall>t j. mx_locked y = Some (t, j) \<longrightarrow> j \<noteq> 0)"
    proof (cases "k = m")
      case True
      with k lt c show ?thesis by (auto simp: g)
    next
      case False
      with k have "get_mutex e k = Some y" by (simp add: g)
      with assms(2) m have "k < m \<and> (\<forall>t j. mx_locked y = Some (t, j) \<longrightarrow> j \<noteq> 0)" by (simp add: mutexes_ok_def)
      with lt c show ?thesis by auto
    qed
  qed
  moreover have "lock_of e' k = lock_of e k" for k using fresh by (simp add: lock_of_def g)
  ultimately show ?thesis by (simp add: e')
qed

lemma schedule_effect:
  assumes "schedule_next_thread H e = Some (t, e')" and "mutexes_ok e"
  defines "b \<equiv> th_blocked_by (e_threads e ! t)"
  shows "mutexes_ok e'"
    and "lock_depth e' u k = lock_depth e u k + (if wanted_mutex e b = Some k \<and> u = t then 1 else 0)"
    and "case wanted_sem e b of
      None \<Rightarrow> sem_values e' = sem_values e
    | Some r \<Rightarrow> r < length (sem_values e) \<and> 0 < sem_values e ! r \<and> sem_values e' = (sem_values e)[r := sem_values e ! r - 1]"
proof -
  from schedule_picks [OF assms(1)] obtain l where p: "poll_thread H t (relog l e) = Some (Woken, e')" by auto
  have ok: "mutexes_ok (relog l e)" using assms(2) mutexes_ok_cong [of "relog l e" e] by simp
  have w: "wanted_mutex (relog l e) b = wanted_mutex e b" "wanted_sem (relog l e) b = wanted_sem e b"
    by (cases b; simp add: wanted_mutex_def wanted_sem_def)+
  note f = poll_woken_effect [OF p ok, folded b_def, simplified, folded b_def, unfolded w env_simps]
  then show "mutexes_ok e'" by blast
  show "lock_depth e' u k = lock_depth e u k + (if wanted_mutex e b = Some k \<and> u = t then 1 else 0)"
  proof (cases "wanted_mutex e b")
    case None
    with f show ?thesis by (simp add: lock_depth_def)
  next
    case (Some m)
    with f have "lock_of e m = None" "lock_of e' k = (if k = m then Some (t, 1) else lock_of e k)" by simp_all
    with Some show ?thesis by (auto simp: lock_depth_def)
  qed
  from f show "case wanted_sem e b of
      None \<Rightarrow> sem_values e' = sem_values e
    | Some r \<Rightarrow> r < length (sem_values e) \<and> 0 < sem_values e ! r \<and> sem_values e' = (sem_values e)[r := sem_values e ! r - 1]"
    by blast
qed

lemma step_locks:
  assumes "sync_step H e ev e'" and ok: "mutexes_ok e"
  shows "mutexes_ok e' \<and> (\<not> foreign ev k \<longrightarrow> lock_depth e' t k = lock_depth e t k + lock_change ev t k)"
  using assms(1)
proof cases
  case (lock_done m n)
  from lock_effect [OF lock_done(2) ok] show ?thesis by (simp add: lock_done(1) lock_change_def)
next
  case (lock_fails m c)
  from lock_effect [OF lock_fails(2) ok] ok show ?thesis by (simp add: lock_fails(1) lock_change_def)
next
  case (lock_blocks m k)
  from lock_effect [OF lock_blocks(2) ok] show ?thesis by (simp add: lock_blocks(1) lock_change_def lock_depth_def)
next
  case (unlock_own m n)
  with unlock_effect [OF unlock_own(2) ok] unlock_depth [OF unlock_own(2) ok, of k t]
  show ?thesis by (simp add: lock_change_def)
next
  case (unlock_foreign m n)
  with unlock_effect [OF unlock_foreign(2) ok] unlock_depth [OF unlock_foreign(2) ok, of k t]
  show ?thesis by (auto simp: lock_change_def foreign_def)
next
  case (unlock_fails m c)
  from unlock_effect [OF unlock_fails(2) ok] ok show ?thesis by (simp add: unlock_fails(1) lock_change_def)
next
  case (mutex_created ty m)
  from init_effect [OF mutex_created(2) ok] show ?thesis
    by (simp add: mutex_created(1) lock_change_def lock_depth_def)
next
  case (mutex_destroyed m r)
  from destroy_effect [OF mutex_destroyed(2) ok] show ?thesis
    by (simp add: mutex_destroyed(1) lock_change_def lock_depth_def)
next
  case (sem_taken s w r)
  from sem_effect [OF sem_taken(2)] have "e_mutexes e' = e_mutexes e" by auto
  from mutexes_ok_cong [OF this] lock_of_cong [OF this] ok show ?thesis
    by (simp add: sem_taken(1) lock_change_def lock_depth_def)
next
  case (sem_busy s w)
  from sem_effect [OF sem_busy(2)] have "e' = e" by auto
  with ok show ?thesis by (simp add: sem_busy(1) lock_change_def)
next
  case (sem_blocks s w k)
  from sem_effect [OF sem_blocks(2)] have "e_mutexes e' = e_mutexes e" by auto
  from mutexes_ok_cong [OF this] lock_of_cong [OF this] ok show ?thesis
    by (simp add: sem_blocks(1) lock_change_def lock_depth_def)
next
  case (sem_posted s r)
  from sem_increment_effect [OF sem_posted(2,3)] have "e_mutexes e' = e_mutexes e" by auto
  from mutexes_ok_cong [OF this] lock_of_cong [OF this] ok show ?thesis
    by (simp add: sem_posted(1) lock_change_def lock_depth_def)
next
  case (wakes u e1)
  have eq: "e_mutexes (e1\<lparr>e_current := u\<rparr>) = e_mutexes e1" by simp
  from schedule_effect(1,2) [OF wakes(3) ok] mutexes_ok_cong [OF eq] lock_of_cong [OF eq] show ?thesis
    by (auto simp: wakes(1,2) wake_event_def lock_change_def Let_def lock_depth_def split: option.splits)
next
  case (other new)
  from mutexes_ok_cong [OF other(2)] lock_of_cong [OF other(2)] ok show ?thesis
    by (simp add: other(1) lock_change_def lock_depth_def)
qed

lemma step_sems:
  assumes "sync_step H e ev e'" and ok: "mutexes_ok e" and r: "r < length (sem_values e)"
  shows "length (sem_values e) \<le> length (sem_values e') \<and> sem_values e' ! r = sem_values e ! r + sem_change ev r
    \<and> (\<forall>t. ev = Take t r \<longrightarrow> 0 < sem_values e ! r)"
  using assms(1)
proof cases
  case (lock_done m n)
  with lock_effect [OF lock_done(2) ok] show ?thesis by (simp add: sem_values_def sem_change_def)
next
  case (lock_fails m c)
  with lock_effect [OF lock_fails(2) ok] show ?thesis by (simp add: sem_change_def)
next
  case (lock_blocks m k)
  with lock_effect [OF lock_blocks(2) ok] show ?thesis by (simp add: sem_values_def sem_change_def)
next
  case (unlock_own m n)
  with unlock_effect [OF unlock_own(2) ok] show ?thesis by (simp add: sem_values_def sem_change_def)
next
  case (unlock_foreign m n)
  with unlock_effect [OF unlock_foreign(2) ok] show ?thesis by (simp add: sem_values_def sem_change_def)
next
  case (unlock_fails m c)
  with unlock_effect [OF unlock_fails(2) ok] show ?thesis by (simp add: sem_change_def)
next
  case (mutex_created ty m)
  with init_effect [OF mutex_created(2) ok] show ?thesis by (simp add: sem_values_def sem_change_def)
next
  case (mutex_destroyed m q)
  with destroy_effect [OF mutex_destroyed(2) ok] show ?thesis by (simp add: sem_values_def sem_change_def)
next
  case (sem_taken s w q)
  with sem_effect [OF sem_taken(2)] r show ?thesis by (auto simp: sem_change_def nth_list_update)
next
  case (sem_busy s w)
  with sem_effect [OF sem_busy(2)] show ?thesis by (auto simp: sem_change_def)
next
  case (sem_blocks s w k)
  with sem_effect [OF sem_blocks(2)] show ?thesis by (auto simp: sem_change_def)
next
  case (sem_posted s q)
  with sem_increment_effect [OF sem_posted(2,3)] r show ?thesis by (auto simp: sem_change_def nth_list_update)
next
  case (wakes u e1)
  have eq: "sem_values (e1\<lparr>e_current := u\<rparr>) = sem_values e1" by (simp add: sem_values_def)
  let ?b = "th_blocked_by (e_threads e ! u)"
  have excl: "wanted_mutex e ?b = None \<or> wanted_sem e ?b = None"
    by (cases ?b) (simp_all add: wanted_mutex_def wanted_sem_def)
  from schedule_effect(3) [OF wakes(3) ok] r excl show ?thesis
    unfolding wakes(1,2) eq
    by (auto simp: wake_event_def sem_change_def Let_def nth_list_update split: option.splits)
next
  case (other new)
  with r show ?thesis by (simp add: sem_change_def nth_append)
qed


text \<open>C14: conservation. Over every run, the value of a semaphore is its initial value plus the posts
  minus the waits that succeeded, at once or by being woken; it never becomes negative.\<close>

theorem semaphore_conservation:
  assumes "sync_run H e h e'" and "mutexes_ok e" and "r < length (sem_values e)" and "0 \<le> sem_values e ! r"
  shows "sem_values e' ! r = sem_values e ! r + int (count_list h (Post r)) - (\<Sum>ev\<leftarrow>h. case ev of Take _ q \<Rightarrow> if q = r then 1 else 0 | _ \<Rightarrow> 0)
    \<and> 0 \<le> sem_values e' ! r"
proof -
  have "mutexes_ok e' \<and> length (sem_values e) \<le> length (sem_values e')
    \<and> sem_values e' ! r = sem_values e ! r + int (count_list h (Post r)) - (\<Sum>ev\<leftarrow>h. case ev of Take _ q \<Rightarrow> if q = r then 1 else 0 | _ \<Rightarrow> 0)
    \<and> 0 \<le> sem_values e' ! r" using assms
  proof (induction rule: sync_run.induct)
    case (start e)
    then show ?case by simp
  next
    case (step e h e1 ev e2)
    then have IH: "mutexes_ok e1" "r < length (sem_values e1)" by auto
    note s = step_sems [OF step.hyps(2) IH]
    have "mutexes_ok e2" using step_locks [OF step.hyps(2) IH(1)] by blast
    moreover have "0 \<le> sem_values e2 ! r" using s step.IH step.prems by (cases ev) (auto simp: sem_change_def split: if_splits)
    ultimately show ?case using s step.IH step.prems by (cases ev) (auto simp: sem_change_def split: if_splits)
  qed
  then show ?thesis by blast
qed

end
