(* ===== verification/Sync_Props.thy ===== *)
theory Sync_Props
  imports Sync_Runs
begin

text \<open>
  Properties of the synchronisation interface of the guest: suspension, the life of a
  \<open>pthread_mutex_t\<close> in guest memory, condition variables as queues of tickets, and the
  defects that the model shows.
\<close>

subsection \<open>Suspending and resuming\<close>

text \<open>C15: resuming undoes suspending, however the thread was blocked and however often it is already
  suspended, and the scheduler never chooses a suspended thread.\<close>

theorem resume_undoes_suspend:
  assumes "t < length (e_threads e)" and "\<And>b. th_blocked_by (e_threads e ! t) \<noteq> Suspended 0 b"
  shows "\<exists>e1. suspend_thread t e = Some e1 \<and> resume_thread t e1 = Some e
    \<and> (\<forall>u. u \<noteq> t \<longrightarrow> e_threads e1 ! u = e_threads e ! u)
    \<and> (\<forall>H u e2. schedule_next_thread H e1 = Some (u, e2) \<longrightarrow> u \<noteq> t)"
proof -
  let ?b = "th_blocked_by (e_threads e ! t)"
  have undo: "set_block t ?b (set_block t b e) = e" for b
    by (simp add: set_block_def list_update_same_conv assms(1))
  have twice: "set_block t b' (set_block t b e) = set_block t b' e" for b b'
    by (simp add: set_block_def assms(1))
  obtain n p where s: "suspend_thread t e = Some (set_block t (Suspended n p) e)"
      and r: "resume_thread t (set_block t (Suspended n p) e) = Some e"
  proof (cases ?b)
    case (Suspended n p)
    moreover have "n \<noteq> 0" using assms(2) Suspended by auto
    moreover have "set_block t (Suspended n p) e = e" using undo [of ?b] twice [of ?b ?b] Suspended by simp
    ultimately have "suspend_thread t e = Some (set_block t (Suspended (n + 1) p) e)"
      and "resume_thread t (set_block t (Suspended (n + 1) p) e) = Some e"
      using assms(1) by (simp_all add: suspend_thread_def resume_thread_def index_run_def env_simps twice)
    then show ?thesis by (rule that)
  qed (rule that [of 1 ?b];
       use assms(1) undo in \<open>simp add: suspend_thread_def resume_thread_def index_run_def env_simps\<close>)+
  have "u \<noteq> t" if "schedule_next_thread H (set_block t (Suspended n p) e) = Some (u, e2)" for H u e2
    using scheduler_grants_what_was_waited_for [OF that] assms(1) by (auto simp: granted_def env_simps)
  with s r assms(1) show ?thesis
    by (intro exI [of _ "set_block t (Suspended n p) e"] conjI allI impI) (auto simp: env_simps)
qed

theorem resume_undoes_suspend_witness:
  "\<exists>e1. suspend_thread 1 (demo_env [demo_thread NotBlocked, demo_thread (Mutex 5)]) = Some e1
    \<and> resume_thread 1 e1 = Some (demo_env [demo_thread NotBlocked, demo_thread (Mutex 5)])"
  using resume_undoes_suspend [of 1 "demo_env [demo_thread NotBlocked, demo_thread (Mutex 5)]"]
  by (auto simp: demo_env_def demo_thread_def)

subsection \<open>A mutex in guest memory\<close>

interpretation mutexc: guest_codec guest_mutex_type
  by unfold_locales (simp_all add: guest_mutex_type_def field32_def le_dec_enc [where ?'a = 32 and n = 4]
      le_dec_enc [where ?'a = 64 and n = 8])

interpretation attrc: guest_codec mutexattr_type
  by unfold_locales (simp_all add: mutexattr_type_def field32_def le_dec_enc [where ?'a = 32 and n = 4])


lemma get_range_take: "k \<le> n \<Longrightarrow> take k (get_range f p n) = get_range f p k"
  by (simp add: get_range_def take_map)

lemma write_guest_mutex:
  assumes "mm_null (e_mem e) \<le> p" and "unat p + 12 \<le> 2 ^ 32"
  shows "\<exists>m'. write_env guest_mutex_type p x e = Some (e\<lparr>e_mem := m'\<rparr>) \<and> mm_null m' = mm_null (e_mem e)
    \<and> mem_read guest_mutex_type m' p = Some x \<and> mem_read u32_type m' p = Some (gm_magic x)"
proof -
  let ?m = "(e_mem e)\<lparr>mm_bytes := put_range (mm_bytes (e_mem e)) p (gt_enc guest_mutex_type x)\<rparr>"
  have len: "length (gt_enc guest_mutex_type x) = 12" by (simp add: guest_mutex_type_def)
  have sz: "gt_size guest_mutex_type = 12" "gt_size u32_type = 4" by (simp_all add: guest_mutex_type_def u32_type_def)
  have w: "mem_write guest_mutex_type (e_mem e) p x = Some ?m"
    by (rule mutexc.write_ok) (use assms sz in simp_all)
  have g: "get_range (mm_bytes ?m) p 12 = gt_enc guest_mutex_type x"
    using get_put_same [of p "gt_enc guest_mutex_type x" "mm_bytes (e_mem e)"] assms(2) len by simp
  then have "get_range (mm_bytes ?m) p 4 = take 4 (gt_enc guest_mutex_type x)" using get_range_take [of 4 12 "mm_bytes ?m" p] by simp
  then have g4: "get_range (mm_bytes ?m) p 4 = le_enc 4 (gm_magic x)" by (simp add: guest_mutex_type_def)
  have "mem_read guest_mutex_type ?m p = Some x"
    using mutexc.read_ok [of ?m p] assms sz g mutexc.dec_enc [of x] by simp
  moreover have "mem_read u32_type ?m p = Some (gm_magic x)"
    using u32c.read_ok [of ?m p] assms sz g4 u32c.dec_enc [of "gm_magic x"] by (simp add: u32_type_def)
  ultimately show ?thesis using w by (intro exI [of _ ?m]) (simp add: write_env_def)
qed

text \<open>A registered mutex: what the guest's memory says of it.\<close>

definition mutex_at :: "vaddr \<Rightarrow> mutex_id \<Rightarrow> env \<Rightarrow> bool" where
  "mutex_at p m e \<longleftrightarrow> mm_null (e_mem e) \<le> p \<and> unat p + 12 \<le> 2 ^ 32
     \<and> mem_read guest_mutex_type (e_mem e) p = Some \<lparr>gm_magic = MAGIC_MUTEX, gm_id = m\<rparr>
     \<and> mem_read u32_type (e_mem e) p = Some MAGIC_MUTEX"

lemma registered: "mutex_at p m e \<Longrightarrow> check_or_register_mutex p e = Some (Inr (), e)"
  and registered_id: "mutex_at p m e \<Longrightarrow> read_env guest_mutex_type p e = Some \<lparr>gm_magic = MAGIC_MUTEX, gm_id = m\<rparr>"
  by (simp_all add: mutex_at_def check_or_register_mutex_def read_env_def not_less)

lemma mutex_at_mem: "e_mem e' = e_mem e \<Longrightarrow> mutex_at p m e' = mutex_at p m e"
  by (simp add: mutex_at_def)

lemma mutex_registered:
  assumes "mm_null (e_mem e) \<le> p" and "unat p + 12 \<le> 2 ^ 32" and "Suc (unat (ms_count (e_mutexes e))) < 2 ^ 64"
  obtains e1 where "pthread_mutex_init p 0 e = Some (0, e1)" and "mutex_at p (ms_count (e_mutexes e)) e1"
    and "get_mutex e1 (ms_count (e_mutexes e)) = Some \<lparr>mx_type = PTHREAD_MUTEX_NORMAL, mx_waiting = 0, mx_locked = None\<rparr>"
    and "e_current e1 = e_current e"
proof -
  let ?n = "ms_count (e_mutexes e)"
  obtain k where k: "add_chk ?n 1 = Some k" using assms(3) by (simp add: add_chk_def)
  let ?x = "\<lparr>mx_type = PTHREAD_MUTEX_NORMAL, mx_waiting = 0, mx_locked = None\<rparr> :: mutex"
  let ?e = "e\<lparr>e_mutexes := (e_mutexes e)\<lparr>ms_count := k, ms_mutexes := (ms_mutexes (e_mutexes e))(?n \<mapsto> ?x)\<rparr>\<rparr>"
  have i: "init_mutex PTHREAD_MUTEX_NORMAL e = Some (?n, ?e)" using k by (simp add: init_mutex_def Let_def)
  from write_guest_mutex [of ?e p "\<lparr>gm_magic = MAGIC_MUTEX, gm_id = ?n\<rparr>"] assms(1,2) obtain m' where
    m': "write_env guest_mutex_type p \<lparr>gm_magic = MAGIC_MUTEX, gm_id = ?n\<rparr> ?e = Some (?e\<lparr>e_mem := m'\<rparr>)"
      "mm_null m' = mm_null (e_mem e)" "mem_read guest_mutex_type m' p = Some \<lparr>gm_magic = MAGIC_MUTEX, gm_id = ?n\<rparr>"
      "mem_read u32_type m' p = Some MAGIC_MUTEX" by auto
  show ?thesis
  proof (rule that)
    show "pthread_mutex_init p 0 e = Some (0, ?e\<lparr>e_mem := m'\<rparr>)"
      using i m'(1) by (simp add: pthread_mutex_init_def pthread_mutex_create_def)
  qed (use m' assms(1,2) in \<open>simp_all add: mutex_at_def get_mutex_def\<close>)
qed

text \<open>Locking and unlocking through the guest's structure.\<close>

lemma guest_lock:
  assumes "mutex_at p m e" and "get_mutex e m = Some x" and "mx_locked x = None"
  shows "pthread_mutex_lock p e = Some (Finished 0 (put_mutex m (x\<lparr>mx_locked := Some (e_current e, 1)\<rparr>) e))"
  using assms by (simp add: pthread_mutex_lock_def registered registered_id lock_mutex_def err_or_0_def)

lemma guest_unlock:
  assumes "mutex_at p m e" and "get_mutex e m = Some x" and "mx_locked x = Some (e_current e, 1)"
  shows "pthread_mutex_unlock p e = Some (0, put_mutex m (x\<lparr>mx_locked := None\<rparr>) e)"
  using assms by (simp add: pthread_mutex_unlock_def registered registered_id unlock_mutex_def err_or_0_def)

lemma guest_destroy:
  assumes "mutex_at p m e" and "get_mutex e m = Some x" and "mx_waiting x = 0"
  obtains m' where "pthread_mutex_destroy p e = (if mx_locked x = None
      then Some (0, e\<lparr>e_mem := m', e_mutexes := (e_mutexes e)\<lparr>ms_mutexes := (ms_mutexes (e_mutexes e))(m := None)\<rparr>\<rparr>)
      else Some (EBUSY, e\<lparr>e_mem := m'\<rparr>))"
    and "mm_null m' = mm_null (e_mem e)" and "mem_read u32_type m' p = Some 0"
proof -
  from write_guest_mutex [of e p "\<lparr>gm_magic = 0, gm_id = 0xFFFFFFFFFFFFFFFF\<rparr>"] assms(1) obtain m' where
    m': "write_env guest_mutex_type p \<lparr>gm_magic = 0, gm_id = 0xFFFFFFFFFFFFFFFF\<rparr> e = Some (e\<lparr>e_mem := m'\<rparr>)"
      "mm_null m' = mm_null (e_mem e)" "mem_read u32_type m' p = Some 0" by (auto simp: mutex_at_def)
  show ?thesis
    by (rule that [of m'])
      (use assms m' in \<open>auto simp: pthread_mutex_destroy_def registered registered_id destroy_mutex_def err_or_0_def get_mutex_def\<close>)
qed

lemma unregistered:
  assumes "mm_null (e_mem e) \<le> p" and "mem_read u32_type (e_mem e) p = Some 0"
  shows "check_or_register_mutex p e = Some (Inl EINVAL, e)"
  using assms by (simp add: check_or_register_mutex_def read_env_def not_less)

text \<open>C16: the life of a \<open>pthread_mutex_t\<close>. Initialised in writable memory, it can be locked, is then
  owned by the current thread, can be unlocked, and is then free; once destroyed the host's mutex is
  gone and a further lock reports \<open>EINVAL\<close>. Every call returns 0 up to there and none blocks or panics.\<close>

theorem pthread_mutex_life:
  assumes "mm_null (e_mem e) \<le> p" and "unat p + 12 \<le> 2 ^ 32" and "Suc (unat (ms_count (e_mutexes e))) < 2 ^ 64"
  shows "\<exists>e1 e2 e3 e4. pthread_mutex_init p 0 e = Some (0, e1)
    \<and> pthread_mutex_lock p e1 = Some (Finished 0 e2) \<and> lock_of e2 (ms_count (e_mutexes e)) = Some (e_current e, 1)
    \<and> pthread_mutex_unlock p e2 = Some (0, e3) \<and> lock_of e3 (ms_count (e_mutexes e)) = None
    \<and> pthread_mutex_destroy p e3 = Some (0, e4) \<and> get_mutex e4 (ms_count (e_mutexes e)) = None
    \<and> pthread_mutex_lock p e4 = Some (Finished EINVAL e4)"
proof -
  let ?n = "ms_count (e_mutexes e)"
  let ?x = "\<lparr>mx_type = PTHREAD_MUTEX_NORMAL, mx_waiting = 0, mx_locked = None\<rparr> :: mutex"
  obtain e1 where e1: "pthread_mutex_init p 0 e = Some (0, e1)" "mutex_at p ?n e1" "get_mutex e1 ?n = Some ?x"
      "e_current e1 = e_current e"
    by (rule mutex_registered [OF assms])
  let ?e2 = "put_mutex ?n (?x\<lparr>mx_locked := Some (e_current e1, 1)\<rparr>) e1"
  let ?e3 = "put_mutex ?n ?x ?e2"
  have at: "mutex_at p ?n ?e2" "mutex_at p ?n ?e3" using e1(2) mutex_at_mem by (simp_all add: env_simps mutex_at_def)
  have l: "pthread_mutex_lock p e1 = Some (Finished 0 ?e2)" using guest_lock [OF e1(2,3)] by simp
  have u: "pthread_mutex_unlock p ?e2 = Some (0, ?e3)"
    using guest_unlock [OF at(1), of "?x\<lparr>mx_locked := Some (e_current e1, 1)\<rparr>"] by (simp add: env_simps)
  obtain m' where d: "pthread_mutex_destroy p ?e3 = Some (0, ?e3\<lparr>e_mem := m',
      e_mutexes := (e_mutexes ?e3)\<lparr>ms_mutexes := (ms_mutexes (e_mutexes ?e3))(?n := None)\<rparr>\<rparr>)"
      and m': "mm_null m' = mm_null (e_mem ?e3)" "mem_read u32_type m' p = Some 0"
    using guest_destroy [OF at(2), of ?x] by (auto simp: env_simps)
  let ?e4 = "?e3\<lparr>e_mem := m', e_mutexes := (e_mutexes ?e3)\<lparr>ms_mutexes := (ms_mutexes (e_mutexes ?e3))(?n := None)\<rparr>\<rparr>"
  have "mm_null m' \<le> p" using m'(1) at(2) by (simp add: mutex_at_def env_simps)
  then have "pthread_mutex_lock p ?e4 = Some (Finished EINVAL ?e4)"
    using unregistered [of ?e4 p] m'(2) by (simp add: pthread_mutex_lock_def)
  moreover have "lock_of ?e2 ?n = Some (e_current e, 1)" "lock_of ?e3 ?n = None" using e1(4) by (simp_all add: env_simps)
  moreover have "get_mutex ?e4 ?n = None" by (simp add: get_mutex_def)
  ultimately show ?thesis using e1(1) l u d by blast
qed

text \<open>C17: destroying a locked mutex reports \<open>EBUSY\<close> and leaves the host's mutex locked, as the
  documentation of \<open>destroy_mutex\<close> promises, but the guest's structure has been overwritten: its
  owner can no longer unlock it (\<open>EINVAL\<close>) and the lock is never given back.\<close>

theorem destroying_locked_mutex_loses_it:
  assumes "mutex_at p m e" and "get_mutex e m = Some x" and "mx_locked x = Some (e_current e, 1)" and "mx_waiting x = 0"
  shows "\<exists>e1. pthread_mutex_destroy p e = Some (EBUSY, e1) \<and> lock_of e1 m = Some (e_current e1, 1)
    \<and> pthread_mutex_unlock p e1 = Some (EINVAL, e1)"
proof -
  obtain m' where d: "pthread_mutex_destroy p e = Some (EBUSY, e\<lparr>e_mem := m'\<rparr>)"
      and m': "mm_null m' = mm_null (e_mem e)" "mem_read u32_type m' p = Some 0"
    using guest_destroy [OF assms(1,2,4)] assms(3) by auto
  let ?e = "e\<lparr>e_mem := m'\<rparr>"
  have "mm_null m' \<le> p" using m'(1) assms(1) by (simp add: mutex_at_def)
  then have "pthread_mutex_unlock p ?e = Some (EINVAL, ?e)"
    using unregistered [of ?e p] m'(2) by (simp add: pthread_mutex_unlock_def)
  moreover have "lock_of ?e m = Some (e_current ?e, 1)" using assms(2,3) by (simp add: lock_of_def get_mutex_def)
  ultimately show ?thesis using d by blast
qed

subsection \<open>Condition variables as queues\<close>

text \<open>
  The abstract condition variable: the threads that wait, in the order in which they came, and how
  many of them have been signalled.
\<close>

type_synonym ticket_queue = "thread_id list \<times> nat"

definition q_wait :: "thread_id \<Rightarrow> ticket_queue \<Rightarrow> ticket_queue" where
  "q_wait t q = (fst q @ [t], snd q)"

definition q_signal :: "ticket_queue \<Rightarrow> ticket_queue" where
  "q_signal q = (fst q, min (Suc (snd q)) (length (fst q)))"

definition q_broadcast :: "ticket_queue \<Rightarrow> ticket_queue" where
  "q_broadcast q = (fst q, length (fst q))"

definition q_wake :: "ticket_queue \<Rightarrow> (thread_id \<times> ticket_queue) option" where
  "q_wake q = (if snd q = 0 then None else Some (hd (fst q), tl (fst q), snd q - 1))"

definition q_time_out :: "thread_id \<Rightarrow> ticket_queue \<Rightarrow> ticket_queue" where
  "q_time_out t q = (filter (\<lambda>u. u \<noteq> t) (fst q), snd q)"

definition cond_queue :: "env \<Rightarrow> vaddr \<Rightarrow> ticket_queue" where
  "cond_queue e c = (case e_conds e c of None \<Rightarrow> ([], 0)
     | Some x \<Rightarrow> (co_waking x @ co_waiting x, length (co_waking x)))"

lemma check_magic_Some: "check_magic p m e r = Some y \<Longrightarrow> r = Some y \<or> y = (EINVAL, e)"
  by (auto simp: check_magic_def bind_Some_iff split: if_splits)

lemma register_cond_frame:
  assumes "check_or_register_cond c e = Some (r, e1)"
  shows "cond_queue e1 k = cond_queue e k \<and> e_current e1 = e_current e \<and> (isl r \<longrightarrow> e1 = e)"
proof -
  obtain g where g: "read_env u32_type c e = Some g" using assms by (auto simp: check_or_register_cond_def bind_Some_iff)
  consider "g = MAGIC_COND_STATIC" | "g \<noteq> MAGIC_COND_STATIC" by blast
  then show ?thesis
  proof cases
    case 1
    with assms g obtain x where i: "pthread_cond_init c 0 e = Some (x, e1)" and r: "r = Inr ()"
      by (auto simp: check_or_register_cond_def bind_Some_iff)
    then obtain m' where "e_conds e c = None"
        "e1 = put_cond c \<lparr>co_waiting = [], co_waking = [], co_mutex = None, co_timed_out = {}\<rparr> (e\<lparr>e_mem := m'\<rparr>)"
      by (auto simp: pthread_cond_init_def bind_Some_iff write_env_def rassert_Some)
    then show ?thesis using r by (auto simp: cond_queue_def env_simps)
  next
    case 2
    with assms g show ?thesis by (auto simp: check_or_register_cond_def split: if_splits)
  qed
qed

lemma register_mutex_frame:
  assumes "check_or_register_mutex p e = Some (r, e1)"
  shows "e_conds e1 = e_conds e \<and> e_current e1 = e_current e"
proof (cases "p < mm_null (e_mem e)")
  case True
  with assms show ?thesis by (simp add: check_or_register_mutex_def)
next
  case False
  with assms obtain g where g: "read_env u32_type p e = Some g" by (auto simp: check_or_register_mutex_def bind_Some_iff)
  show ?thesis
  proof (cases "g = MAGIC_MUTEX_STATIC")
    case True
    with assms g False obtain x where "pthread_mutex_init p 0 e = Some (x, e1)"
      by (auto simp: check_or_register_mutex_def bind_Some_iff)
    then show ?thesis
      by (auto simp: pthread_mutex_init_def pthread_mutex_create_def bind_Some_iff init_mutex_def write_env_def Let_def)
  next
    case 2: False
    with assms g False show ?thesis by (auto simp: check_or_register_mutex_def split: if_splits)
  qed
qed

lemma unlock_mutex_frame:
  assumes "unlock_mutex m e = Some (r, e')"
  shows "e_conds e' = e_conds e \<and> e_current e' = e_current e"
proof -
  obtain x where x: "get_mutex e m = Some x" using assms by (auto simp: unlock_mutex_def bind_Some_iff)
  have "e' = e \<or> (\<exists>y. e' = put_mutex m y e)"
  proof (cases "mx_locked x")
    case None
    with assms x show ?thesis by (cases "mx_type x") (auto simp: unlock_mutex_def)
  next
    case (Some l)
    with assms x show ?thesis
      by (cases l) (auto simp: unlock_mutex_def bind_Some_iff split: if_splits)
  qed
  then show ?thesis by (auto simp: env_simps)
qed

lemma guest_unlock_frame:
  assumes "pthread_mutex_unlock p e = Some (r, e')"
  shows "e_conds e' = e_conds e \<and> e_current e' = e_current e"
proof -
  obtain c e1 where c: "check_or_register_mutex p e = Some (c, e1)" using assms
    by (auto simp: pthread_mutex_unlock_def bind_Some_iff)
  show ?thesis
  proof (cases c)
    case (Inl x)
    with assms c register_mutex_frame [OF c] show ?thesis by (simp add: pthread_mutex_unlock_def)
  next
    case (Inr x)
    with assms c obtain y :: guest_mutex and res where "unlock_mutex (gm_id y) e1 = Some (res, e')"
      by (auto simp: pthread_mutex_unlock_def bind_Some_iff)
    with unlock_mutex_frame register_mutex_frame [OF c] show ?thesis by metis
  qed
qed

lemma cond_enqueue_queue:
  assumes "cond_enqueue c p e = Some e'"
  shows "cond_queue e' c = q_wait (e_current e) (cond_queue e c)" and "k \<noteq> c \<Longrightarrow> cond_queue e' k = cond_queue e k"
    and "e_current e' = e_current e"
proof -
  obtain r e1 and x :: guest_mutex and w :: cond_object where u: "pthread_mutex_unlock p e = Some (r, e1)" and w: "e_conds e1 c = Some w"
    and e': "e' = put_cond c (w\<lparr>co_mutex := Some (gm_id x), co_waiting := co_waiting w @ [e_current e1]\<rparr>) e1"
    using assms by (auto simp: cond_enqueue_def bind_Some_iff)
  note f = guest_unlock_frame [OF u]
  show "cond_queue e' c = q_wait (e_current e) (cond_queue e c)" and "k \<noteq> c \<Longrightarrow> cond_queue e' k = cond_queue e k"
    and "e_current e' = e_current e"
    using f w by (simp_all add: e' cond_queue_def q_wait_def env_simps)
qed

lemma cond_yields:
  assumes "yield_thread b e = Some (Yielded e' k)"
  shows "e' = set_block (e_current e) b e"
  using assms by (auto simp: yield_thread_def bind_Some_iff)

lemma bind_yields:
  "coro_bind c f = Some (Yielded e' k) \<Longrightarrow> (\<forall>a s. c \<noteq> Finished a s) \<Longrightarrow> \<exists>j. c = Yielded e' j"
  by (cases c) auto

lemma yield_not_finished: "yield_thread b e = Some c \<Longrightarrow> c \<noteq> Finished a s"
  by (auto simp: yield_thread_def bind_Some_iff)

lemma yielding_wait:
  assumes "do { e2 \<leftarrow> cond_enqueue c p e1; j \<leftarrow> yield_thread b e2; coro_bind j f } = Some (Yielded e' k)"
  shows "cond_queue e' c = q_wait (e_current e1) (cond_queue e1 c)"
    and "d \<noteq> c \<Longrightarrow> cond_queue e' d = cond_queue e1 d"
proof -
  obtain e2 j where e: "cond_enqueue c p e1 = Some e2" and y: "yield_thread b e2 = Some j" and f: "coro_bind j f = Some (Yielded e' k)"
    using assms by (auto simp: bind_Some_iff)
  from bind_yields [OF f] yield_not_finished [OF y] obtain i where "j = Yielded e' i" by blast
  with y cond_yields have "e' = set_block (e_current e2) b e2" by blast
  then have "cond_queue e' d = cond_queue e2 d" for d by (simp add: cond_queue_def env_simps)
  with cond_enqueue_queue [OF e] show "cond_queue e' c = q_wait (e_current e1) (cond_queue e1 c)"
    and "d \<noteq> c \<Longrightarrow> cond_queue e' d = cond_queue e1 d" by simp_all
qed

lemma wait_joins_queue:
  assumes "pthread_cond_wait c p e = Some (Yielded e' k) \<or> pthread_cond_timedwait_until c p d e = Some (Yielded e' k)"
  shows "cond_queue e' c = q_wait (e_current e) (cond_queue e c)"
proof -
  from assms obtain r e1 where r: "check_or_register_cond c e = Some (r, e1)"
    by (auto simp: pthread_cond_wait_def pthread_cond_timedwait_until_def bind_Some_iff)
  note f = register_cond_frame [OF r, of c]
  show ?thesis
  proof (cases r)
    case (Inl x)
    with assms r show ?thesis by (auto simp: pthread_cond_wait_def pthread_cond_timedwait_until_def)
  next
    case (Inr x)
    from assms show ?thesis
    proof
      assume "pthread_cond_wait c p e = Some (Yielded e' k)"
      with Inr r f yielding_wait(1) [of c p e1 "Condition c None" _ e' k] show ?thesis
        by (simp add: pthread_cond_wait_def)
    next
      assume "pthread_cond_timedwait_until c p d e = Some (Yielded e' k)"
      with Inr r f yielding_wait(1) [of c p e1 "Condition c (Some d)" _ e' k] show ?thesis
        by (simp add: pthread_cond_timedwait_until_def)
    qed
  qed
qed

lemma signal_queue:
  assumes "pthread_cond_signal c e = Some (0, e')"
  shows "cond_queue e' c = q_signal (cond_queue e c)"
proof -
  from assms obtain r e1 where r: "check_or_register_cond c e = Some (r, e1)" by (auto simp: pthread_cond_signal_def bind_Some_iff)
  note f = register_cond_frame [OF r, of c]
  have "r \<noteq> Inl y" for y
  proof
    assume y: "r = Inl y"
    with r have "y = EINVAL" by (auto simp: check_or_register_cond_def bind_Some_iff split: if_splits)
    with assms r y show False by (simp add: pthread_cond_signal_def)
  qed
  then obtain u where u: "r = Inr u" by (cases r) auto
  with assms r obtain w :: cond_object where w: "e_conds e1 c = Some w" by (auto simp: pthread_cond_signal_def bind_Some_iff)
  have q: "cond_queue e c = (co_waking w @ co_waiting w, length (co_waking w))" using f w by (simp add: cond_queue_def)
  show ?thesis unfolding q using assms r u w
    by (cases "co_waiting w") (auto simp: pthread_cond_signal_def cond_queue_def q_signal_def env_simps)
qed

lemma broadcast_queue:
  assumes "pthread_cond_broadcast c e = Some (0, e')"
  shows "cond_queue e' c = q_broadcast (cond_queue e c)"
proof -
  from assms obtain r e1 where r: "check_or_register_cond c e = Some (r, e1)" by (auto simp: pthread_cond_broadcast_def bind_Some_iff)
  note f = register_cond_frame [OF r, of c]
  have "r \<noteq> Inl y" for y
  proof
    assume y: "r = Inl y"
    with r have "y = EINVAL" by (auto simp: check_or_register_cond_def bind_Some_iff split: if_splits)
    with assms r y show False by (simp add: pthread_cond_broadcast_def)
  qed
  then obtain u where u: "r = Inr u" by (cases r) auto
  with assms r obtain w :: cond_object where w: "e_conds e1 c = Some w" by (auto simp: pthread_cond_broadcast_def bind_Some_iff)
  have q: "cond_queue e c = (co_waking w @ co_waiting w, length (co_waking w))" using f w by (simp add: cond_queue_def)
  show ?thesis unfolding q using assms r u w
    by (auto simp: pthread_cond_broadcast_def cond_queue_def q_broadcast_def env_simps)
qed

lemma wake_queue:
  assumes "schedule_next_thread H e = Some (t, e')" and "th_blocked_by (e_threads e ! t) = Condition c d"
  shows "q_wake (cond_queue e c) = Some (t, cond_queue e' c)
    \<or> (d \<noteq> None \<and> cond_queue e' c = q_time_out t (cond_queue e c) \<and> snd (cond_queue e c) = 0)"
proof -
  from schedule_picks [OF assms(1)] obtain l where p: "poll_thread H t (relog l e) = Some (Woken, e')" by auto
  with assms(2) have "poll_condition H t c d (relog l e) = Some (Woken, e')"
    by (auto simp: poll_thread_def run_simps split: if_splits)
  then show ?thesis
  proof (cases rule: poll_condition_Some)
    case (signalled x m rest y)
    then have "cond_queue e' c = (rest @ co_waiting x, length rest)" by (simp add: cond_queue_def env_simps)
    with signalled show ?thesis by (simp add: cond_queue_def q_wake_def)
  next
    case (timed_out x m until time y)
    then have "cond_queue e' c = (filter (\<lambda>u. u \<noteq> t) (co_waiting x), 0)" by (simp add: cond_queue_def env_simps)
    with timed_out show ?thesis by (simp add: cond_queue_def q_time_out_def)
  qed simp_all
qed

text \<open>C18: condition variables refine a queue with a count of signals. A wait that blocks joins the
  end of the queue; a signal admits one more waiter, if there is one, and a broadcast all; and a
  thread that the scheduler wakes from the condition variable was admitted and first in the
  queue, or its deadline passed while nobody was admitted and it leaves the queue. So no waiter
  is lost, duplicated or overtaken.\<close>

theorem cond_var_refines_queue:
  "(pthread_cond_wait c p e = Some (Yielded e1 k1) \<longrightarrow> cond_queue e1 c = q_wait (e_current e) (cond_queue e c))
   \<and> (pthread_cond_timedwait_until c p deadline e = Some (Yielded e2 k2) \<longrightarrow> cond_queue e2 c = q_wait (e_current e) (cond_queue e c))
   \<and> (pthread_cond_signal c e = Some (0, e3) \<longrightarrow> cond_queue e3 c = q_signal (cond_queue e c))
   \<and> (pthread_cond_broadcast c e = Some (0, e4) \<longrightarrow> cond_queue e4 c = q_broadcast (cond_queue e c))
   \<and> (schedule_next_thread H e = Some (t, e5) \<and> th_blocked_by (e_threads e ! t) = Condition c d
      \<longrightarrow> q_wake (cond_queue e c) = Some (t, cond_queue e5 c)
        \<or> (d \<noteq> None \<and> cond_queue e5 c = q_time_out t (cond_queue e c) \<and> snd (cond_queue e c) = 0))"
  by (intro conjI impI) (blast intro: wait_joins_queue signal_queue broadcast_queue dest: wake_queue)+

subsection \<open>Concrete runs\<close>

text \<open>
  Two threads; thread 0 holds mutex 5, whose structure is at \<open>0x2040\<close>, a condition variable is at
  \<open>0x2000\<close>, and the semaphore at \<open>0x2080\<close> has the value 2.
\<close>

definition sync_mem :: guest_mem where
  "sync_mem = demo_mem\<lparr>mm_bytes := put_range (put_range (\<lambda>_. 0) 0x2000 (le_enc 4 MAGIC_COND))
     0x2040 (gt_enc guest_mutex_type \<lparr>gm_magic = MAGIC_MUTEX, gm_id = 5\<rparr>)\<rparr>"

definition sync_env :: env where
  "sync_env = (demo_env [demo_thread NotBlocked, demo_thread NotBlocked])\<lparr>
     e_mem := sync_mem,
     e_mutexes := \<lparr>ms_mutexes = (\<lambda>m. if m = 5 then Some \<lparr>mx_type = PTHREAD_MUTEX_NORMAL, mx_waiting = 0, mx_locked = Some (0, 1)\<rparr> else None), ms_count = 6\<rparr>,
     e_sems := \<lparr>ss_named = (\<lambda>_. None), ss_open = (\<lambda>s. if s = 0x2080 then Some 0 else None),
       ss_store = [\<lparr>so_value = 2, so_waiting = {}, so_guest = Some 0x2080, so_named = False\<rparr>]\<rparr>,
     e_conds := (\<lambda>c. if c = 0x2000 then Some \<lparr>co_waiting = [], co_waking = [], co_mutex = None, co_timed_out = {}\<rparr> else None)\<rparr>"

lemma sync_mem_reads:
  "mem_read u32_type sync_mem 0x2000 = Some MAGIC_COND"
  "mem_read u32_type sync_mem 0x2040 = Some MAGIC_MUTEX"
  "mem_read guest_mutex_type sync_mem 0x2040 = Some \<lparr>gm_magic = MAGIC_MUTEX, gm_id = 5\<rparr>"
  "mm_null sync_mem = 0x1000"
  by code_simp+

lemma sync_env_mutex: "mutex_at 0x2040 5 sync_env"
  and sync_env_ok: "mutexes_ok sync_env"
  by (auto simp: mutex_at_def mutexes_ok_def get_mutex_def sync_env_def sync_mem_reads split: if_splits)


theorem semaphore_conservation_witness:
  "\<exists>e'. sync_step demo_host sync_env (Take 0 0) e' \<and> sem_values e' ! 0 = 1"
proof -
  have v: "sem_values sync_env = [2]" by (simp add: sem_values_def sync_env_def)
  have "sem_decrement 0x2080 True sync_env = Some (Finished True (put_sem 0
      \<lparr>so_value = 1, so_waiting = {}, so_guest = Some 0x2080, so_named = False\<rparr> sync_env))"
    by (simp add: sem_decrement_def get_sem_def sync_env_def index_run_def)
  from sync_step.sem_taken [OF this, of 0] have st: "sync_step demo_host sync_env (Take 0 0) (put_sem 0
      \<lparr>so_value = 1, so_waiting = {}, so_guest = Some 0x2080, so_named = False\<rparr> sync_env)"
    by (simp add: sync_env_def demo_env_def)
  moreover from semaphore_conservation [OF sync_run.step [OF sync_run.start st] sync_env_ok, of 0]
  have "sem_values (put_sem 0 \<lparr>so_value = 1, so_waiting = {}, so_guest = Some 0x2080, so_named = False\<rparr> sync_env) ! 0 = 1"
    by (simp add: v)
  ultimately show ?thesis by blast
qed

theorem pthread_mutex_life_witness:
  "\<exists>e1 e2. pthread_mutex_init 0x3000 0 sync_env = Some (0, e1) \<and> pthread_mutex_lock 0x3000 e1 = Some (Finished 0 e2)
    \<and> lock_of e2 6 = Some (0, 1)"
  using pthread_mutex_life [of sync_env "0x3000"] by (auto simp: sync_env_def sync_mem_reads demo_env_def)

theorem destroying_locked_mutex_loses_it_witness:
  "\<exists>e1. pthread_mutex_destroy 0x2040 sync_env = Some (EBUSY, e1) \<and> pthread_mutex_unlock 0x2040 e1 = Some (EINVAL, e1)"
  using destroying_locked_mutex_loses_it [OF sync_env_mutex, of "\<lparr>mx_type = PTHREAD_MUTEX_NORMAL, mx_waiting = 0, mx_locked = Some (0, 1)\<rparr>"]
  by (auto simp: sync_env_def get_mutex_def demo_env_def)

theorem cond_var_refines_queue_witness:
  "\<exists>e1 k1. pthread_cond_wait 0x2000 0x2040 sync_env = Some (Yielded e1 k1) \<and> cond_queue e1 0x2000 = ([0], 0)"
proof -
  let ?x = "\<lparr>mx_type = PTHREAD_MUTEX_NORMAL, mx_waiting = 0, mx_locked = Some (0, 1)\<rparr> :: mutex"
  have g: "get_mutex sync_env 5 = Some ?x" "e_current sync_env = 0" by (simp_all add: sync_env_def get_mutex_def demo_env_def)
  have u: "pthread_mutex_unlock 0x2040 sync_env = Some (0, put_mutex 5 (?x\<lparr>mx_locked := None\<rparr>) sync_env)"
    using guest_unlock [OF sync_env_mutex g(1)] g(2) by simp
  have m: "e_mem sync_env = sync_mem" "e_threads sync_env = [demo_thread NotBlocked, demo_thread NotBlocked]"
    by (simp_all add: sync_env_def demo_env_def)
  have "\<exists>e1 k1. pthread_cond_wait 0x2000 0x2040 sync_env = Some (Yielded e1 k1)"
    by (simp add: pthread_cond_wait_def check_or_register_cond_def read_env_def m sync_mem_reads cond_enqueue_def u env_simps
        yield_thread_def is_blocked_def index_run_def g demo_thread_def)
      (simp add: sync_env_def)
  then obtain e1 k1 where w: "pthread_cond_wait 0x2000 0x2040 sync_env = Some (Yielded e1 k1)" by blast
  have "cond_queue sync_env 0x2000 = ([], 0)" by (simp add: cond_queue_def sync_env_def)
  with w cond_var_refines_queue [of "0x2000" "0x2040" sync_env e1 k1] g(2) show ?thesis by (auto simp: q_wait_def)
qed

subsection \<open>Defects\<close>

definition miscount_env :: env where
  "miscount_env = (demo_env [demo_thread (Suspended 1 NotBlocked), demo_thread (Condition 0x2000 None), demo_thread (Mutex 5)])\<lparr>
     e_mutexes := \<lparr>ms_mutexes = (\<lambda>m. if m = 5 then Some \<lparr>mx_type = PTHREAD_MUTEX_NORMAL, mx_waiting = 1, mx_locked = None\<rparr> else None), ms_count = 6\<rparr>,
     e_conds := (\<lambda>c. if c = 0x2000 then Some \<lparr>co_waiting = [], co_waking = [1], co_mutex = Some 5, co_timed_out = {}\<rparr> else None)\<rparr>"

lemma get_mutex_current [env_simps]: "get_mutex (e\<lparr>e_current := t\<rparr>) m = get_mutex e m"
  by (simp add: get_mutex_def)

text \<open>the number of waiters of a mutex is counted up by a lock that blocks but counted down also
  when a condition variable hands over the mutex. Here thread 1 is woken from a condition variable
  while thread 2 waits for the mutex: the count drops to 0, thread 1 can then destroy the mutex
  under thread 2, and the scheduler panics when it polls thread 2.\<close>

theorem mutex_destroyed_under_waiter:
  "\<exists>e1 e2 e3. schedule_next_thread demo_host miscount_env = Some (1, e1)
    \<and> unlock_mutex 5 (e1\<lparr>e_current := 1\<rparr>) = Some (Inr 0, e2)
    \<and> destroy_mutex 5 e2 = Some (Inr (), e3)
    \<and> th_blocked_by (e_threads e3 ! 2) = Mutex 5
    \<and> poll_thread demo_host 2 e3 = None"
proof -
  let ?x = "\<lparr>mx_type = PTHREAD_MUTEX_NORMAL, mx_waiting = 1, mx_locked = None\<rparr> :: mutex"
  let ?o = "\<lparr>co_waiting = [], co_waking = [1], co_mutex = Some 5, co_timed_out = {}\<rparr> :: cond_object"
  have g: "get_mutex miscount_env 5 = Some ?x" "e_conds miscount_env 0x2000 = Some ?o" "e_current miscount_env = 0"
      "e_threads miscount_env = [demo_thread (Suspended 1 NotBlocked), demo_thread (Condition 0x2000 None), demo_thread (Mutex 5)]"
    by (simp_all add: miscount_env_def demo_env_def get_mutex_def)
  let ?e1 = "put_mutex 5 (?x\<lparr>mx_waiting := 0, mx_locked := Some (1, 1)\<rparr>)
      (set_block 1 NotBlocked (put_cond 0x2000 (?o\<lparr>co_waking := []\<rparr>) miscount_env))"
  have p: "poll_condition demo_host 1 0x2000 None miscount_env = Some (Woken, ?e1)"
    by (simp add: poll_condition_def g front_def mutex_is_locked_def relock_unblocked_mutex_for_thread_def env_simps)
  have "scan_threads demo_host [0..<3] None miscount_env = Some (Inr 1, ?e1)"
    using p by (simp add: upt_rec [of 0 3] candidate_def g poll_thread_def index_run_def demo_thread_def)
  then have s: "schedule_next_thread demo_host miscount_env = Some (1, ?e1)"
    using schedule_first_round [of demo_host miscount_env] by (simp add: g numeral_3_eq_3)
  let ?e2 = "put_mutex 5 (?x\<lparr>mx_waiting := 0\<rparr>) (?e1\<lparr>e_current := 1\<rparr>)"
  have u: "unlock_mutex 5 (?e1\<lparr>e_current := 1\<rparr>) = Some (Inr 0, ?e2)"
    by (simp add: unlock_mutex_def env_simps)
  let ?e3 = "?e2\<lparr>e_mutexes := (e_mutexes ?e2)\<lparr>ms_mutexes := (ms_mutexes (e_mutexes ?e2))(5 := None)\<rparr>\<rparr>"
  have d: "destroy_mutex 5 ?e2 = Some (Inr (), ?e3)" by (simp add: destroy_mutex_def env_simps)
  have t: "e_threads ?e3 ! 2 = demo_thread (Mutex 5)" "2 < length (e_threads ?e3)"
    by (simp_all add: put_mutex_def set_block_def put_cond_def g)
  have "get_mutex ?e3 5 = None" by (simp add: get_mutex_def)
  then have "poll_thread demo_host 2 ?e3 = None"
    using t by (simp add: poll_thread_def index_run_def demo_thread_def poll_mutex_def mutex_is_locked_def env_simps
        relock_unblocked_mutex_for_thread_def)
  with s u d t show ?thesis by (intro exI conjI) (auto simp: demo_thread_def)
qed

text \<open>
  \<open>sem_open\<close> of an existing name: without \<open>O_EXCL\<close> it fails, with \<open>O_EXCL\<close> it returns the
  semaphore, the opposite of what POSIX specifies.
\<close>

lemma sem_open_existing:
  assumes "set_errno 0 e = Some e1" and "cstr_at_utf8 (e_mem e1) p = Some (Inr name)"
    and "ss_named (e_sems e1) name = Some r" and "index_run (ss_store (e_sems e1)) r = Some x" and "so_guest x = Some s"
  shows "sem_open p O_CREAT v e = Some (SEM_FAILED, e1)" and "sem_open p (O_CREAT OR O_EXCL) v e = Some (s, e1)"
  using assms by (simp_all add: sem_open_def result_run_def)

end
