(* ===== verification/Calendar.thy ===== *)
theory Calendar
  imports Threads
begin

text \<open>
  Conversion between \<open>time_t\<close> and \<open>struct tm\<close> in \<open>src/libc/time.rs\<close>. The lookup tables are
  computed as the constant functions of the source compute them; \<open>i32\<close> arithmetic is written
  on integers with an overflow check (\<open>chk32\<close>) where a result is not bounded by a division.
\<close>

subsection \<open>The conversions\<close>

record tm =
  tm_sec :: i32
  tm_min :: i32
  tm_hour :: i32
  tm_mday :: i32
  tm_mon :: i32
  tm_year :: i32
  tm_wday :: i32
  tm_yday :: i32
  tm_isdst :: i32
  tm_gmtoff :: i32
  tm_zone :: vaddr

definition chk32 :: "int \<Rightarrow> int run" where
  "chk32 x = (if - (2 ^ 31) \<le> x \<and> x < 2 ^ 31 then Some x else None)"

definition i32 :: "int \<Rightarrow> i32" where
  "i32 x = word_of_int x"

definition tm_from :: "u16 \<Rightarrow> u8 \<Rightarrow> u8 \<Rightarrow> u8 \<Rightarrow> u8 \<Rightarrow> u8 \<Rightarrow> tm run" where
  "tm_from year month day hour minute second = do {
     y \<leftarrow> sub_chk year 1900;
     m \<leftarrow> sub_chk month 1;
     Some \<lparr>tm_sec = ucast second, tm_min = ucast minute, tm_hour = ucast hour, tm_mday = ucast day,
       tm_mon = ucast m, tm_year = ucast y, tm_wday = 0, tm_yday = 0, tm_isdst = 0, tm_gmtoff = 0, tm_zone = 0\<rparr> }"

definition is_leap_year :: "int \<Rightarrow> bool" where
  "is_leap_year y \<longleftrightarrow> y mod 4 = 0 \<and> (y mod 100 \<noteq> 0 \<or> y mod 400 = 0)"

definition year_days :: "int \<Rightarrow> int" where
  "year_days y = (if is_leap_year y then 366 else 365)"

text \<open>The loops of \<open>calc_year_to_day\<close> and \<open>calc_month_to_day\<close> with the rounds that are left.\<close>

fun calc_year_to_day :: "nat \<Rightarrow> int \<Rightarrow> int \<Rightarrow> int list \<times> int" where
  "calc_year_to_day 0 year day = ([], day)"
| "calc_year_to_day (Suc n) year day =
     (let (table, total) = calc_year_to_day n (year + 1) (day + year_days year) in (day # table, total))"

definition CYCLE_YEARS :: nat where "CYCLE_YEARS = 400"

definition YEAR_TO_DAY :: "int list" where
  "YEAR_TO_DAY = fst (calc_year_to_day CYCLE_YEARS 0 0)"

definition CYCLE_DAYS :: int where
  "CYCLE_DAYS = snd (calc_year_to_day CYCLE_YEARS 0 0)"

definition DAYS_IN_MONTH :: "int list" where
  "DAYS_IN_MONTH = [31, 28, 31, 30, 31, 30, 31, 31, 30, 31, 30, 31]"

fun calc_month_to_day :: "bool \<Rightarrow> nat \<Rightarrow> int list \<Rightarrow> int \<Rightarrow> int list" where
  "calc_month_to_day leap month [] day = []"
| "calc_month_to_day leap month (n # ns) day =
     day # calc_month_to_day leap (Suc month) ns (day + n + (if leap \<and> month = 1 then 1 else 0))"

definition month_to_day :: "bool \<Rightarrow> int list" where
  "month_to_day leap = calc_month_to_day leap 0 DAYS_IN_MONTH 0"

text \<open>\<open>slice::partition_point\<close> of a partitioned slice.\<close>

definition partition_point :: "('a \<Rightarrow> bool) \<Rightarrow> 'a list \<Rightarrow> nat" where
  "partition_point p xs = length (takeWhile p xs)"

definition index_before :: "int \<Rightarrow> int list \<Rightarrow> nat run" where
  "index_before x table = (let n = partition_point (\<lambda>day. day \<le> x) table in if n = 0 then None else Some (n - 1))"

definition timestamp_to_calendar_date :: "i32 \<Rightarrow> tm run" where
  "timestamp_to_calendar_date timestamp = do {
     let seconds = sint timestamp;
     let days = seconds div 86400;
     let second_in_day = seconds mod 86400;
     days_since_y2k \<leftarrow> chk32 (days - 10957);
     let cycles = days_since_y2k div CYCLE_DAYS;
     let day_in_cycle = days_since_y2k mod CYCLE_DAYS;
     y \<leftarrow> index_before day_in_cycle YEAR_TO_DAY;
     year \<leftarrow> chk32 (2000 + cycles * 400 + int y);
     year_start \<leftarrow> (if y < length YEAR_TO_DAY then Some (YEAR_TO_DAY ! y) else None);
     let day_in_year = day_in_cycle - year_start;
     let leap = is_leap_year (int y);
     _ \<leftarrow> rassert (day_in_year < 365 + (if leap then 1 else 0));
     m \<leftarrow> index_before day_in_year (month_to_day leap);
     month_start \<leftarrow> (if m < 12 then Some (month_to_day leap ! m) else None);
     let day_in_month = day_in_year - month_start;
     _ \<leftarrow> rassert (day_in_month < DAYS_IN_MONTH ! m + (if leap then 1 else 0));
     wd \<leftarrow> chk32 (4 + days);
     Some \<lparr>tm_sec = i32 (second_in_day mod 60), tm_min = i32 (second_in_day mod 3600 div 60),
       tm_hour = i32 (second_in_day div 3600), tm_mday = i32 (day_in_month + 1), tm_mon = i32 (int m),
       tm_year = i32 (year - 1900), tm_wday = i32 (wd mod 7), tm_yday = i32 day_in_year,
       tm_isdst = 0, tm_gmtoff = 0, tm_zone = 0\<rparr> }"

text \<open>The sums are \<open>i64\<close> and stay far below its range: a year has less than \<open>2^25\<close> seconds.\<close>

definition calendar_date_to_timestamp :: "tm \<Rightarrow> i32 run" where
  "calendar_date_to_timestamp d = do {
     year \<leftarrow> chk32 (sint (tm_year d) + 1900);
     let seconds = sum_list (map (\<lambda>y. year_days y * 86400) [1970..year - 1]);
     cumul \<leftarrow> (if 0 \<le> sint (tm_mon d) \<and> sint (tm_mon d) < 12
               then Some (month_to_day (is_leap_year year) ! nat (sint (tm_mon d))) else None);
     let seconds = seconds + cumul * 86400;
     let seconds = seconds + (sint (tm_mday d) - 1) * 86400;
     let seconds = seconds + sint (tm_hour d) * 3600 + sint (tm_min d) * 60 + sint (tm_sec d);
     let seconds = (if year < 1970 then seconds - sum_list (map year_days [year..1969]) * 86400 else seconds);
     map_option i32 (chk32 seconds) }"

subsection \<open>Days before a year\<close>

text \<open>The number of days from the start of year 0 to the start of a year.\<close>

definition day_number :: "int \<Rightarrow> int" where
  "day_number y = 365 * y + (y + 3) div 4 - (y + 99) div 100 + (y + 399) div 400"

lemma div_step: "0 < n \<Longrightarrow> (y + n) div n = (y + (n - 1)) div n + (if y mod n = 0 then 1 else (0 :: int))"
proof -
  assume n: "0 < n"
  let ?q = "y div n" and ?r = "y mod n"
  have y: "y = ?q * n + ?r" and r: "0 \<le> ?r" "?r < n" using n by simp_all
  have a: "(y + n) div n = ?q + 1" using n by (intro div_add_self2) simp
  have "(y + (n - 1)) div n = (?r + (n - 1) + ?q * n) div n" using y by (metis add.assoc add.commute)
  also have "\<dots> = ?q + (?r + (n - 1)) div n" using n by (intro div_mult_self1) simp
  also have "(?r + (n - 1)) div n = (if ?r = 0 then 0 else 1)"
  proof (cases "?r = 0")
    case True
    then show ?thesis using n by (simp add: div_pos_pos_trivial)
  next
    case False
    then have "(?r + (n - 1)) div n = ((?r - 1) + n) div n" by (simp add: algebra_simps)
    also have "\<dots> = (?r - 1) div n + 1" using n by (intro div_add_self2) simp
    also have "(?r - 1) div n = 0" using r False by (intro div_pos_pos_trivial) simp_all
    finally show ?thesis using False by simp
  qed
  finally show ?thesis using a by simp
qed

lemma regroup:
  "b = a + i \<Longrightarrow> d = c + j \<Longrightarrow> f = e + k
    \<Longrightarrow> 365 * (y + 1) + b - d + f = 365 * y + a - c + e + 365 + i - j + (k :: int)"
  by simp

lemma day_number_step: "day_number (y + 1) = day_number y + year_days y"
proof -
  have 4: "(y + 4) div 4 = (y + 3) div 4 + (if y mod 4 = 0 then 1 else 0)" using div_step [of 4 y] by simp
  have 100: "(y + 100) div 100 = (y + 99) div 100 + (if y mod 100 = 0 then 1 else 0)" using div_step [of 100 y] by simp
  have 400: "(y + 400) div 400 = (y + 399) div 400 + (if y mod 400 = 0 then 1 else 0)" using div_step [of 400 y] by simp
  have 1: "y mod 4 = 0" if "y mod 100 = 0" using that by presburger
  have 2: "y mod 100 = 0" if "y mod 400 = 0" using that by presburger
  have n: "day_number (y + 1) = 365 * (y + 1) + (y + 4) div 4 - (y + 100) div 100 + (y + 400) div 400"
    by (simp add: day_number_def add.assoc)
  have "day_number (y + 1) = day_number y + 365 + (if y mod 4 = 0 then 1 else 0) - (if y mod 100 = 0 then 1 else 0)
      + (if y mod 400 = 0 then 1 else 0)"
    unfolding n unfolding day_number_def by (rule regroup [OF 4 100 400])
  also have "\<dots> = day_number y + year_days y" using 1 2 unfolding year_days_def is_leap_year_def
    by (cases "y mod 4 = 0"; cases "y mod 100 = 0"; cases "y mod 400 = 0") simp_all
  finally show ?thesis .
qed

lemma day_number_cycle: "day_number (y + 400 * c) = day_number y + 146097 * c"
proof -
  have "(y + 3 + 4 * (100 * c)) div 4 = (y + 3) div 4 + 100 * c" by (simp only: div_mult_self2)
  then have "(y + 400 * c + 3) div 4 = (y + 3) div 4 + 100 * c" by (simp add: algebra_simps)
  moreover have "(y + 99 + 100 * (4 * c)) div 100 = (y + 99) div 100 + 4 * c" by (simp only: div_mult_self2)
  then have "(y + 400 * c + 99) div 100 = (y + 99) div 100 + 4 * c" by (simp add: algebra_simps)
  moreover have "(y + 399 + 400 * c) div 400 = (y + 399) div 400 + c" by (simp only: div_mult_self2)
  then have "(y + 400 * c + 399) div 400 = (y + 399) div 400 + c" by (simp add: algebra_simps)
  ultimately show ?thesis by (simp add: day_number_def)
qed

lemma leap_cycle: "is_leap_year (y + 400 * c) = is_leap_year y"
proof -
  have "(y + 4 * (100 * c)) mod 4 = y mod 4" "(y + 100 * (4 * c)) mod 100 = y mod 100" "(y + 400 * c) mod 400 = y mod 400"
    by (simp_all only: mod_mult_self2)
  then show ?thesis by (simp add: is_leap_year_def)
qed

lemma year_days_bounds: "365 \<le> year_days y" "year_days y \<le> 366"
  by (simp_all add: year_days_def)

lemma sum_years: "a \<le> b \<Longrightarrow> sum_list (map year_days [a..b - 1]) = day_number b - day_number a"
proof (induction b rule: int_ge_induct)
  case base
  then show ?case by simp
next
  case (step b)
  then have "[a..b + 1 - 1] = [a..b - 1] @ [b]" using upto_rec2 [of a b] by simp
  with step show ?case by (simp add: day_number_step)
qed

lemma year_table: "calc_year_to_day n y (day_number y + e) = (map (\<lambda>i. day_number (y + int i) + e) [0..<n], day_number (y + int n) + e)"
proof (induction n arbitrary: y)
  case 0
  then show ?case by simp
next
  case (Suc n)
  have "day_number y + e + year_days y = day_number (y + 1) + e" by (simp add: day_number_step)
  then show ?case using Suc [of "y + 1"]
    by (simp add: upt_conv_Cons map_Suc_upt [symmetric] comp_def algebra_simps del: upt_Suc)
qed

lemma YEAR_TO_DAY: "YEAR_TO_DAY = map (\<lambda>i. day_number (int i)) [0..<400]"
  and CYCLE_DAYS: "CYCLE_DAYS = 146097"
proof -
  have z: "day_number 0 = 0" "day_number 400 = 146097" by (simp_all add: day_number_def)
  show "YEAR_TO_DAY = map (\<lambda>i. day_number (int i)) [0..<400]" and "CYCLE_DAYS = 146097"
    using year_table [of 400 0 0] z by (simp_all add: YEAR_TO_DAY_def CYCLE_DAYS_def CYCLE_YEARS_def)
qed

lemma day_number_mono: "x < y \<Longrightarrow> day_number x < day_number y"
proof (induction y rule: int_gr_induct)
  case base
  then show ?case using year_days_bounds(1) [of x] by (simp add: day_number_step)
next
  case (step y)
  then show ?case using year_days_bounds(1) [of y] by (simp add: day_number_step)
qed

lemma day_number_le: "x \<le> y \<Longrightarrow> day_number x \<le> day_number y"
  using day_number_mono [of x y] by (cases "x = y") simp_all

subsection \<open>Looking up the tables\<close>

lemma index_before_Some:
  assumes "xs ! 0 \<le> x" and "xs \<noteq> []"
  obtains i where "index_before x xs = Some i" and "i < length xs" and "xs ! i \<le> x"
    and "Suc i < length xs \<Longrightarrow> x < xs ! Suc i"
proof -
  let ?n = "length (takeWhile (\<lambda>d. d \<le> x) xs)"
  have pos: "?n \<noteq> 0" using assms by (cases xs) auto
  have le: "?n \<le> length xs" by (rule length_takeWhile_le)
  have last: "xs ! (?n - 1) \<le> x"
    using takeWhile_nth [of "?n - 1" "\<lambda>d. d \<le> x" xs] nth_mem [of "?n - 1" "takeWhile (\<lambda>d. d \<le> x) xs"] pos
    by (metis One_nat_def diff_less neq0_conv set_takeWhileD zero_less_Suc)
  show ?thesis
  proof (rule that [of "?n - 1"])
    show "index_before x xs = Some (?n - 1)" using pos by (simp add: index_before_def partition_point_def)
    show "?n - 1 < length xs" using pos le by linarith
    show "xs ! (?n - 1) \<le> x" by (rule last)
    show "x < xs ! Suc (?n - 1)" if "Suc (?n - 1) < length xs"
      using nth_length_takeWhile [of "\<lambda>d. d \<le> x" xs] that pos by simp
  qed
qed

lemma month_tables:
  "month_to_day False = [0, 31, 59, 90, 120, 151, 181, 212, 243, 273, 304, 334]"
  "month_to_day True = [0, 31, 60, 91, 121, 152, 182, 213, 244, 274, 305, 335]"
  by (simp_all add: month_to_day_def DAYS_IN_MONTH_def)

text \<open>The length of a month, and the day of the year on which it ends.\<close>

definition month_days :: "bool \<Rightarrow> nat \<Rightarrow> int" where
  "month_days leap m = DAYS_IN_MONTH ! m + (if leap \<and> m = 1 then 1 else 0)"

lemma less_12: "(m :: nat) < 12 \<longleftrightarrow> m \<in> {0, 1, 2, 3, 4, 5, 6, 7, 8, 9, 10, 11}"
  by (auto simp: eval_nat_numeral less_Suc_eq)

lemma month_end:
  assumes "m < 12"
  shows "month_to_day leap ! m + month_days leap m = (if m = 11 then (if leap then 366 else 365) else month_to_day leap ! Suc m)"
  using assms unfolding less_12
  by (cases leap) (auto simp: month_tables month_days_def DAYS_IN_MONTH_def)

lemma month_start_nonneg: "m < 12 \<Longrightarrow> 0 \<le> month_to_day leap ! m"
  unfolding less_12 by (cases leap) (auto simp: month_tables)

lemma month_days_bound: "m < 12 \<Longrightarrow> 28 \<le> month_days leap m \<and> month_days leap m \<le> 31"
  unfolding less_12 by (cases leap) (auto simp: month_days_def DAYS_IN_MONTH_def)

lemma sint_i32 [simp]: "- (2 ^ 31) \<le> x \<Longrightarrow> x < 2 ^ 31 \<Longrightarrow> sint (i32 x) = x"
  by (simp add: i32_def sint_sbintrunc' signed_take_bit_int_eq_self)

lemma sint_small: "- 86400 \<le> x \<Longrightarrow> x < 86400 \<Longrightarrow> sint (i32 x) = x"
  by (rule sint_i32) simp_all

lemma i32_sint [simp]: "i32 (sint w) = w"
  by (simp add: i32_def)

text \<open>
  What the conversion computes: the fields are in range and the day and the second of the day
  can be read off them.
\<close>

definition date_ok :: "tm \<Rightarrow> bool" where
  "date_ok d \<longleftrightarrow> 0 \<le> sint (tm_sec d) \<and> sint (tm_sec d) < 60 \<and> 0 \<le> sint (tm_min d) \<and> sint (tm_min d) < 60
     \<and> 0 \<le> sint (tm_hour d) \<and> sint (tm_hour d) < 24 \<and> 0 \<le> sint (tm_mon d) \<and> sint (tm_mon d) < 12
     \<and> 1 \<le> sint (tm_mday d) \<and> sint (tm_mday d) \<le> month_days (is_leap_year (sint (tm_year d) + 1900)) (nat (sint (tm_mon d)))
     \<and> sint (tm_year d) + 1900 < 2 ^ 31
     \<and> 0 \<le> sint (tm_wday d) \<and> sint (tm_wday d) < 7"

definition date_day :: "tm \<Rightarrow> int" where
  "date_day d = day_number (sint (tm_year d) + 1900)
     + month_to_day (is_leap_year (sint (tm_year d) + 1900)) ! nat (sint (tm_mon d)) + sint (tm_mday d) - 1"

definition date_second :: "tm \<Rightarrow> int" where
  "date_second d = sint (tm_hour d) * 3600 + sint (tm_min d) * 60 + sint (tm_sec d)"

lemma chk32_Some: "- (2 ^ 31) \<le> x \<Longrightarrow> x < 2 ^ 31 \<Longrightarrow> chk32 x = Some x"
  by (simp add: chk32_def)

lemma split_day:
  fixes s :: int
  assumes "0 \<le> s" and "s < 86400"
  shows "s div 3600 * 3600 + s mod 3600 div 60 * 60 + s mod 60 = s"
    and "0 \<le> s mod 60" "s mod 60 < 60" "0 \<le> s mod 3600 div 60" "s mod 3600 div 60 < 60" "0 \<le> s div 3600" "s div 3600 < 24"
proof -
  have "s mod 3600 mod 60 = s mod 60" by (rule mod_mod_cancel) simp
  then have "s mod 3600 = s mod 3600 div 60 * 60 + s mod 60" by (metis div_mult_mod_eq)
  then show "s div 3600 * 3600 + s mod 3600 div 60 * 60 + s mod 60 = s" by (metis add.assoc div_mult_mod_eq)
  have "0 \<le> s mod 3600" "s mod 3600 < 3600" by simp_all
  then show "0 \<le> s mod 3600 div 60" "s mod 3600 div 60 < 60" by simp_all
  show "0 \<le> s mod 60" "s mod 60 < 60" "0 \<le> s div 3600" "s div 3600 < 24" using assms by simp_all
qed

lemma calendar_date:
  shows "\<exists>d. timestamp_to_calendar_date ts = Some d \<and> date_ok d
    \<and> date_day d = sint ts div 86400 + day_number 1970 \<and> date_second d = sint ts mod 86400"
proof -
  let ?days = "sint ts div 86400" and ?s = "sint ts mod 86400"
  have ts: "- (2 ^ 31) \<le> sint ts" "sint ts < 2 ^ 31" using sint_ge [of ts] sint_lt [of ts] by simp_all
  have days: "- 24856 \<le> ?days" "?days \<le> 24855" using ts by simp_all
  have s: "0 \<le> ?s" "?s < 86400" by simp_all
  let ?y2k = "?days - 10957"
  let ?c = "?y2k div 146097" and ?d = "?y2k mod 146097"
  have d: "0 \<le> ?d" "?d < 146097" by simp_all
  have c: "- 1 \<le> ?c" "?c \<le> 0" using days by simp_all
  have "YEAR_TO_DAY ! 0 \<le> ?d" "YEAR_TO_DAY \<noteq> []" using d by (simp_all add: YEAR_TO_DAY day_number_def)
  then obtain y where y: "index_before ?d YEAR_TO_DAY = Some y" "y < 400" "day_number (int y) \<le> ?d"
      and later: "Suc y < 400 \<Longrightarrow> ?d < YEAR_TO_DAY ! Suc y"
    by (rule index_before_Some) (auto simp: YEAR_TO_DAY)
  let ?diy = "?d - day_number (int y)" and ?leap = "is_leap_year (int y)"
  have z: "day_number 400 = 146097" by (simp add: day_number_def)
  have diy: "0 \<le> ?diy" "?diy < year_days (int y)"
  proof -
    show "0 \<le> ?diy" using y(3) by simp
    have "?d < day_number (int y + 1)"
    proof (cases "Suc y < 400")
      case True
      with later have "?d < day_number (int (Suc y))" by (simp add: YEAR_TO_DAY)
      then show ?thesis by (simp add: add.commute)
    next
      case False
      with y(2) have "int y + 1 = 400" by simp
      then show ?thesis using d z by simp
    qed
    then show "?diy < year_days (int y)" by (simp add: day_number_step)
  qed
  have "month_to_day ?leap ! 0 \<le> ?diy" "month_to_day ?leap \<noteq> []"
    using diy by (cases ?leap; simp add: month_tables)+
  moreover have len: "length (month_to_day ?leap) = 12" by (cases ?leap) (simp_all add: month_tables)
  ultimately obtain m where m: "index_before ?diy (month_to_day ?leap) = Some m" "m < 12" "month_to_day ?leap ! m \<le> ?diy"
      and m_next: "Suc m < 12 \<Longrightarrow> ?diy < month_to_day ?leap ! Suc m"
    by (elim index_before_Some) auto
  let ?dim = "?diy - month_to_day ?leap ! m"
  have dim: "0 \<le> ?dim" "?dim < month_days ?leap m"
  proof -
    show "0 \<le> ?dim" using m(3) by simp
    show "?dim < month_days ?leap m"
      using month_end [OF m(2), of ?leap] m_next m(2) diy(2) by (cases "m = 11") (auto simp: year_days_def)
  qed
  have assert_ok: "?dim < DAYS_IN_MONTH ! m + (if ?leap then 1 else 0)" using dim(2) by (auto simp: month_days_def split: if_splits)
  let ?year = "2000 + ?c * 400 + int y"
  have yr: "1600 \<le> ?year" "?year < 2400" using c y(2) by linarith+
  have year_eq: "?year = int y + 400 * (5 + ?c)" by simp
  have leap: "is_leap_year ?year = ?leap" unfolding year_eq by (rule leap_cycle)
  have dn: "day_number ?year = day_number (int y) + 146097 * (5 + ?c)" unfolding year_eq by (rule day_number_cycle)
  let ?r = "\<lparr>tm_sec = i32 (?s mod 60), tm_min = i32 (?s mod 3600 div 60),
       tm_hour = i32 (?s div 3600), tm_mday = i32 (?dim + 1), tm_mon = i32 (int m),
       tm_year = i32 (?year - 1900), tm_wday = i32 ((4 + ?days) mod 7), tm_yday = i32 ?diy,
       tm_isdst = 0, tm_gmtoff = 0, tm_zone = 0\<rparr>"
  have eval: "timestamp_to_calendar_date ts = Some ?r"
  proof -
    have "chk32 ?y2k = Some ?y2k" by (rule chk32_Some) (use days in simp_all)
    moreover have "chk32 ?year = Some ?year" by (rule chk32_Some) (use yr in simp_all)
    moreover have "chk32 (4 + ?days) = Some (4 + ?days)" by (rule chk32_Some) (use days in simp_all)
    moreover have "YEAR_TO_DAY ! y = day_number (int y)" "length YEAR_TO_DAY = 400" using y(2) by (simp_all add: YEAR_TO_DAY)
    moreover have "rassert (?diy < 365 + (if ?leap then 1 else 0)) = Some ()"
      using diy(2) by (auto simp: year_days_def rassert_def)
    moreover have "rassert (?dim < DAYS_IN_MONTH ! m + (if ?leap then 1 else 0)) = Some ()"
      using assert_ok by (simp only: rassert_def if_True)
    ultimately show ?thesis using y m
      by (simp only: timestamp_to_calendar_date_def Let_def CYCLE_DAYS bind.bind_lunit if_True)
  qed
  note sp = split_day [OF s]
  have mdb: "month_days ?leap m \<le> 31" using month_days_bound [OF m(2)] by blast
  have f1: "sint (tm_year ?r) + 1900 = ?year" unfolding tm.select_convs by (subst sint_small) (use yr in linarith)+
  have f2: "sint (tm_mday ?r) = ?dim + 1" unfolding tm.select_convs by (rule sint_small) (use dim mdb in linarith)+
  have f3: "sint (tm_mon ?r) = int m" unfolding tm.select_convs by (rule sint_small) (use m(2) in simp_all)
  have f4: "nat (sint (tm_mon ?r)) = m" unfolding f3 by simp
  note f = f1 f2 f4 f3
  have g1: "sint (tm_sec ?r) = ?s mod 60" unfolding tm.select_convs by (rule sint_small) (use sp in linarith)+
  have g2: "sint (tm_min ?r) = ?s mod 3600 div 60" unfolding tm.select_convs by (rule sint_small) (use sp in linarith)+
  have g3: "sint (tm_hour ?r) = ?s div 3600" unfolding tm.select_convs by (rule sint_small) (use sp in linarith)+
  have wd: "0 \<le> (4 + ?days) mod 7" "(4 + ?days) mod 7 < 7" by simp_all
  have g4: "sint (tm_wday ?r) = (4 + ?days) mod 7" unfolding tm.select_convs by (rule sint_small) (use wd in linarith)+
  note g = g1 g2 g3 g4
  have md: "1 \<le> ?dim + 1" "?dim + 1 \<le> month_days ?leap m" using dim by linarith+
  have mn: "0 \<le> int m" "int m < 12" using m(2) by simp_all
  have yr31: "?year < 2 ^ 31" by (rule less_trans [OF yr(2)]) simp
  have "date_ok ?r" unfolding date_ok_def f g leap nat_int using sp(2-7) md mn wd yr31 by blast
  moreover have "date_day ?r = ?days + day_number 1970"
  proof -
    have "?y2k = ?c * 146097 + ?d" by simp
    moreover have "day_number 1970 = 719528" "day_number 2000 = 730485" by (simp_all add: day_number_def)
    ultimately show ?thesis unfolding date_day_def f leap dn by simp
  qed
  moreover have "date_second ?r = ?s" unfolding date_second_def g by (rule sp(1))
  ultimately show ?thesis using eval by blast
qed

lemma date_to_seconds:
  assumes "date_ok d"
  shows "calendar_date_to_timestamp d = map_option i32 (chk32 ((date_day d - day_number 1970) * 86400 + date_second d))"
proof -
  let ?y = "sint (tm_year d) + 1900"
  have y: "chk32 ?y = Some ?y"
    by (rule chk32_Some) (use assms sint_ge [of "tm_year d"] in \<open>simp_all add: date_ok_def\<close>)
  have days: "sum_list (map (\<lambda>y. year_days y * 86400) [1970..?y - 1])
      - (if ?y < 1970 then sum_list (map year_days [?y..1969]) * 86400 else 0) = (day_number ?y - day_number 1970) * 86400"
  proof (cases "?y < 1970")
    case True
    then have "sum_list (map year_days [?y..1969]) = day_number 1970 - day_number ?y"
      using sum_years [of ?y 1970] by simp
    then show ?thesis using True by simp
  next
    case False
    then show ?thesis using sum_years [of 1970 ?y] by (simp add: sum_list_mult_const)
  qed
  have mon: "0 \<le> sint (tm_mon d)" "sint (tm_mon d) < 12" using assms by (simp_all add: date_ok_def)
  have "calendar_date_to_timestamp d = map_option i32 (chk32 (
      sum_list (map (\<lambda>y. year_days y * 86400) [1970..?y - 1])
      - (if ?y < 1970 then sum_list (map year_days [?y..1969]) * 86400 else 0)
      + month_to_day (is_leap_year ?y) ! nat (sint (tm_mon d)) * 86400 + (sint (tm_mday d) - 1) * 86400 + date_second d))"
    using y mon by (simp add: calendar_date_to_timestamp_def Let_def date_second_def algebra_simps)
  also have "\<dots> = map_option i32 (chk32 ((date_day d - day_number 1970) * 86400 + date_second d))"
    unfolding days by (simp add: date_day_def algebra_simps)
  finally show ?thesis .
qed

subsection \<open>Properties\<close>

lemma timestamp_inverse:
  "\<exists>d. timestamp_to_calendar_date ts = Some d \<and> date_ok d \<and> calendar_date_to_timestamp d = Some ts"
proof -
  obtain d where d: "timestamp_to_calendar_date ts = Some d" "date_ok d"
      "date_day d = sint ts div 86400 + day_number 1970" "date_second d = sint ts mod 86400"
    using calendar_date by blast
  have "(date_day d - day_number 1970) * 86400 + date_second d = sint ts" by (simp add: d(3,4))
  moreover have "chk32 (sint ts) = Some (sint ts)" using sint_ge [of ts] sint_lt [of ts] by (intro chk32_Some) simp_all
  ultimately have "calendar_date_to_timestamp d = Some ts" using date_to_seconds [OF d(2)] by simp
  with d show ?thesis by blast
qed

text \<open>C19: the conversion of a timestamp to a calendar date never panics, whatever the timestamp, yields
  fields in their ranges, and \<open>calendar_date_to_timestamp\<close> gives the timestamp back.\<close>

theorem calendar_round_trip:
  "\<exists>d. timestamp_to_calendar_date ts = Some d \<and> date_ok d \<and> calendar_date_to_timestamp d = Some ts"
  by (rule timestamp_inverse)

text \<open>The components of a date, most significant first, in the order of lists of integers.\<close>

definition date_key :: "tm \<Rightarrow> int \<times> int \<times> int \<times> int \<times> int \<times> int" where
  "date_key d = (sint (tm_year d), sint (tm_mon d), sint (tm_mday d), sint (tm_hour d), sint (tm_min d), sint (tm_sec d))"

lemma month_start_mono:
  assumes "m < n" and "n < 12"
  shows "month_to_day leap ! m + month_days leap m \<le> month_to_day leap ! n"
proof -
  have "sorted (month_to_day leap)" by (cases leap) (simp_all add: month_tables)
  moreover have "length (month_to_day leap) = 12" by (cases leap) (simp_all add: month_tables)
  ultimately have "month_to_day leap ! Suc m \<le> month_to_day leap ! n" using assms by (intro sorted_nth_mono) simp_all
  then show ?thesis using month_end [of m leap] assms by simp
qed

lemma day_of_year:
  assumes "date_ok d"
  shows "day_number (sint (tm_year d) + 1900) \<le> date_day d" and "date_day d < day_number (sint (tm_year d) + 1901)"
proof -
  let ?y = "sint (tm_year d) + 1900" and ?m = "nat (sint (tm_mon d))"
  let ?leap = "is_leap_year ?y"
  have m: "?m < 12" and md: "1 \<le> sint (tm_mday d)" "sint (tm_mday d) \<le> month_days ?leap ?m"
    using assms by (auto simp: date_ok_def)
  show "day_number ?y \<le> date_day d" using month_start_nonneg [OF m, of ?leap] md by (simp add: date_day_def)
  have "month_to_day ?leap ! ?m + month_days ?leap ?m \<le> year_days ?y"
  proof (cases "?m = 11")
    case True
    then show ?thesis using month_end [OF m, of ?leap] by (simp add: year_days_def)
  next
    case False
    then have "month_to_day ?leap ! ?m + month_days ?leap ?m \<le> month_to_day ?leap ! 11"
      using m by (intro month_start_mono) simp_all
    also have "\<dots> \<le> year_days ?y" by (cases ?leap) (simp_all add: month_tables year_days_def)
    finally show ?thesis .
  qed
  then show "date_day d < day_number (sint (tm_year d) + 1901)"
    using md day_number_step [of ?y] by (simp add: date_day_def add.assoc)
qed

lemma second_of_day: "date_ok d \<Longrightarrow> 0 \<le> date_second d \<and> date_second d < 86400"
  by (simp add: date_ok_def date_second_def)

lemma earlier_day:
  assumes "date_ok c" and "date_ok d"
    and "(sint (tm_year c), sint (tm_mon c), sint (tm_mday c)) < (sint (tm_year d), sint (tm_mon d), sint (tm_mday d))"
  shows "date_day c < date_day d"
proof -
  consider "sint (tm_year c) < sint (tm_year d)"
    | "sint (tm_year c) = sint (tm_year d)" "sint (tm_mon c) < sint (tm_mon d)"
    | "sint (tm_year c) = sint (tm_year d)" "sint (tm_mon c) = sint (tm_mon d)" "sint (tm_mday c) < sint (tm_mday d)"
    using assms(3)
    by (cases "sint (tm_year c)" "sint (tm_year d)" rule: linorder_cases;
        cases "sint (tm_mon c)" "sint (tm_mon d)" rule: linorder_cases) auto
  then show ?thesis
  proof cases
    case 1
    have "day_number (sint (tm_year c) + 1901) \<le> day_number (sint (tm_year d) + 1900)"
      using 1 by (intro day_number_le) simp
    with day_of_year [OF assms(1)] day_of_year [OF assms(2)] show ?thesis by linarith
  next
    case 2
    let ?leap = "is_leap_year (sint (tm_year d) + 1900)"
    have "month_to_day ?leap ! nat (sint (tm_mon c)) + month_days ?leap (nat (sint (tm_mon c)))
        \<le> month_to_day ?leap ! nat (sint (tm_mon d))"
      using assms(1,2) 2(2) by (intro month_start_mono) (auto simp: date_ok_def)
    with assms(1,2) 2(1) show ?thesis by (simp add: date_day_def date_ok_def)
  next
    case 3
    then show ?thesis by (simp add: date_day_def)
  qed
qed

text \<open>the conversion keeps the order: of two timestamps the earlier has the lexicographically
  smaller date (year, month, day, hour, minute, second), so distinct timestamps have distinct dates.\<close>

theorem calendar_keeps_order:
  assumes "timestamp_to_calendar_date s = Some c" and "timestamp_to_calendar_date t = Some d"
  shows "sint s < sint t \<longleftrightarrow> date_key c < date_key d"
proof -
  have conv: "date_ok e \<and> sint u = (date_day e - day_number 1970) * 86400 + date_second e"
    if "timestamp_to_calendar_date u = Some e" for u e
    using calendar_date [of u] that by auto
  have mono: "sint u < sint v" if u: "timestamp_to_calendar_date u = Some a" and v: "timestamp_to_calendar_date v = Some b"
    and lt: "date_key a < date_key b" for u v a b
  proof -
    note a = conv [OF u] and b = conv [OF v]
    let ?day = "\<lambda>e. (sint (tm_year e), sint (tm_mon e), sint (tm_mday e))"
    consider "?day a < ?day b" | "?day a = ?day b"
        "(sint (tm_hour a), sint (tm_min a), sint (tm_sec a)) < (sint (tm_hour b), sint (tm_min b), sint (tm_sec b))"
      using lt unfolding date_key_def
      by (cases "sint (tm_year a)" "sint (tm_year b)" rule: linorder_cases;
          cases "sint (tm_mon a)" "sint (tm_mon b)" rule: linorder_cases;
          cases "sint (tm_mday a)" "sint (tm_mday b)" rule: linorder_cases) auto
    then show ?thesis
    proof cases
      case 1
      with earlier_day a b have "date_day a + 1 \<le> date_day b" by force
      then show ?thesis unfolding conjunct2 [OF a] conjunct2 [OF b]
        using second_of_day [OF conjunct1 [OF a]] second_of_day [OF conjunct1 [OF b]] by (simp add: algebra_simps)
    next
      case 2
      then have "date_day a = date_day b" by (simp add: date_day_def)
      moreover have "date_second a < date_second b"
        using 2(2) a b by (auto simp: date_second_def date_ok_def)
      ultimately show ?thesis using a b by simp
    qed
  qed
  show ?thesis
  proof
    show "sint s < sint t" if "date_key c < date_key d" by (rule mono [OF assms that])
  next
    assume "sint s < sint t"
    then have "\<not> sint t < sint s" and "s \<noteq> t" by auto
    then have "\<not> date_key d < date_key c" using mono [OF assms(2,1)] by blast
    moreover have "date_key c \<noteq> date_key d"
    proof
      assume "date_key c = date_key d"
      then have "date_day c = date_day d" "date_second c = date_second d"
        by (simp_all add: date_key_def date_day_def date_second_def)
      with conv [OF assms(1)] conv [OF assms(2)] \<open>sint s < sint t\<close> show False by simp
    qed
    ultimately show "date_key c < date_key d" by (simp add: not_less order.order_iff_strict)
  qed
qed

theorem calendar_keeps_order_witness:
  "\<exists>c d. timestamp_to_calendar_date 0 = Some c \<and> timestamp_to_calendar_date 86400 = Some d \<and> date_key c < date_key d"
proof -
  obtain c d where c: "timestamp_to_calendar_date 0 = Some c" and d: "timestamp_to_calendar_date 86400 = Some d"
    using calendar_date by blast
  have "sint (0 :: i32) < sint (86400 :: i32)" by simp
  with calendar_keeps_order [OF c d] c d show ?thesis by blast
qed

end
