(* ===== verification/Guest_Time.thy ===== *)
theory Guest_Time
  imports Calendar Sync_Props
begin

text \<open>
  The functions of \<open>src/libc/time.rs\<close> that guest code calls and the locale they consult
  (\<open>src/libc/clocale.rs\<close>). The loops of \<open>strptime\<close> and \<open>strftime\<close> over the format are
  functions of the position; each ends because the position is a checked \<open>u32\<close>.
\<close>

subsection \<open>Structures in guest memory\<close>

record timeval =
  tv_s :: i32
  tv_usec :: i32

record timezone =
  tz_minuteswest :: i32
  tz_dsttime :: i32

definition tm_type :: "tm guest_type" where
  "tm_type = \<lparr>gt_size = 44,
     gt_enc = (\<lambda>d. concat (map (le_enc 4) [tm_sec d, tm_min d, tm_hour d, tm_mday d, tm_mon d, tm_year d,
       tm_wday d, tm_yday d, tm_isdst d, tm_gmtoff d, tm_zone d])),
     gt_dec = (\<lambda>bs. \<lparr>tm_sec = field32 0 bs, tm_min = field32 4 bs, tm_hour = field32 8 bs, tm_mday = field32 12 bs,
       tm_mon = field32 16 bs, tm_year = field32 20 bs, tm_wday = field32 24 bs, tm_yday = field32 28 bs,
       tm_isdst = field32 32 bs, tm_gmtoff = field32 36 bs, tm_zone = field32 40 bs\<rparr>)\<rparr>"

definition timeval_type :: "timeval guest_type" where
  "timeval_type = \<lparr>gt_size = 8, gt_enc = (\<lambda>t. le_enc 4 (tv_s t) @ le_enc 4 (tv_usec t)),
     gt_dec = (\<lambda>bs. \<lparr>tv_s = field32 0 bs, tv_usec = field32 4 bs\<rparr>)\<rparr>"

definition timezone_type :: "timezone guest_type" where
  "timezone_type = \<lparr>gt_size = 8, gt_enc = (\<lambda>t. le_enc 4 (tz_minuteswest t) @ le_enc 4 (tz_dsttime t)),
     gt_dec = (\<lambda>bs. \<lparr>tz_minuteswest = field32 0 bs, tz_dsttime = field32 4 bs\<rparr>)\<rparr>"

subsection \<open>The locale\<close>

text \<open>The bytes of a string of characters.\<close>

definition bytes_of_string :: "string \<Rightarrow> u8 list" where
  "bytes_of_string s = map of_char s"

abbreviation LC_CTYPE :: i32 where "LC_CTYPE \<equiv> 2"

definition setlocale :: "host_discard \<Rightarrow> i32 \<Rightarrow> vaddr \<Rightarrow> env \<Rightarrow> (vaddr \<times> env) run" where
  "setlocale discard category locale e = do {
     _ \<leftarrow> rassert (0 \<le> sint category \<and> sint category \<le> 6);
     e1 \<leftarrow> (if locale \<noteq> 0 then do {
         str \<leftarrow> cstr_at (e_mem e) locale;
         _ \<leftarrow> rassert (length str \<noteq> 0);
         (m, new) \<leftarrow> alloc_and_write_cstr (e_mem e) str;
         let old = lc_locale (e_libc e) category;
         let e' = e\<lparr>e_mem := m, e_libc := (e_libc e)\<lparr>lc_locale := (lc_locale (e_libc e))(category \<mapsto> new)\<rparr>\<rparr>;
         (case old of Some p \<Rightarrow> mem_free discard p e' | None \<Rightarrow> Some e') }
       else (case lc_locale (e_libc e) category of
         None \<Rightarrow> do {
           (m, def) \<leftarrow> alloc_and_write_cstr (e_mem e) (bytes_of_string ''C'');
           Some (e\<lparr>e_mem := m, e_libc := (e_libc e)\<lparr>lc_locale := (lc_locale (e_libc e))(category \<mapsto> def)\<rparr>\<rparr>) }
       | Some _ \<Rightarrow> Some e));
     p \<leftarrow> lc_locale (e_libc e1) category;
     Some (p, e1) }"

definition days_long :: "string list" where
  "days_long = [''Sunday'', ''Monday'', ''Tuesday'', ''Wednesday'', ''Thursday'', ''Friday'', ''Saturday'']"

definition days_short :: "string list" where
  "days_short = [''Sun'', ''Mon'', ''Tue'', ''Wed'', ''Thu'', ''Fri'', ''Sat'']"

definition months_long :: "string list" where
  "months_long = [''January'', ''February'', ''March'', ''April'', ''May'', ''June'', ''July'', ''August'',
     ''September'', ''October'', ''November'', ''December'']"

definition months_short :: "string list" where
  "months_short = [''Jan'', ''Feb'', ''Mar'', ''Apr'', ''May'', ''Jun'', ''Jul'', ''Aug'', ''Sep'', ''Oct'', ''Nov'', ''Dec'']"

definition langinfo_value :: "i32 \<Rightarrow> u8 list" where
  "langinfo_value item = bytes_of_string (let i = sint item in
     if i = 0 then ''UTF-8'' else if i = 1 then ''%a %b %e %H:%M:%S %Y'' else if i = 2 then ''%m/%d/%y''
     else if i = 3 then ''%H:%M:%S'' else if i = 4 then ''%I:%M:%S %p'' else if i = 5 then ''AM''
     else if i = 6 then ''PM''
     else if 7 \<le> i \<and> i \<le> 13 then days_long ! nat (i - 7)
     else if 14 \<le> i \<and> i \<le> 20 then days_short ! nat (i - 14)
     else if 21 \<le> i \<and> i \<le> 32 then months_long ! nat (i - 21)
     else if 33 \<le> i \<and> i \<le> 44 then months_short ! nat (i - 33)
     else if i = 50 then ''.'' else if i = 51 then '''' else if i = 52 then ''^[yY]'' else if i = 53 then ''^[nN]''
     else if i = 54 then ''yes'' else if i = 55 then ''no'' else if i = 56 then '''' else if i = 57 then ''md''
     else '''')"

definition nl_langinfo :: "i32 \<Rightarrow> env \<Rightarrow> (vaddr \<times> env) run" where
  "nl_langinfo item e = (case lc_langinfo (e_libc e) item of
     Some p \<Rightarrow> Some (p, e)
   | None \<Rightarrow> do {
       (m, p) \<leftarrow> alloc_and_write_cstr (e_mem e) (langinfo_value item);
       Some (p, e\<lparr>e_mem := m, e_libc := (e_libc e)\<lparr>lc_langinfo := (lc_langinfo (e_libc e))(item \<mapsto> p)\<rparr>\<rparr>) })"

definition get_mb_cur_max :: "env \<Rightarrow> (vaddr \<times> env) run" where
  "get_mb_cur_max e = do { (m, p) \<leftarrow> alloc_and_write u32_type (e_mem e) 1; Some (p, e\<lparr>e_mem := m\<rparr>) }"

subsection \<open>Clocks\<close>

text \<open>\<open>duration_since\<close> of an \<open>Instant\<close> saturates at zero, \<open>as_secs\<close> drops the nanoseconds.\<close>

definition libc_clock :: "host \<Rightarrow> nat \<Rightarrow> env \<Rightarrow> u64 \<times> env" where
  "libc_clock H startup e =
     (let (now, e1) = instant_now H e in (of_nat ((now - startup) div 1000000000) * 1000000, e1))"

definition libc_time :: "host \<Rightarrow> vaddr \<Rightarrow> env \<Rightarrow> (i32 \<times> env) run" where
  "libc_time H out e = do {
     e1 \<leftarrow> set_errno 0 e;
     (now, e2) \<leftarrow> wall_now H e1;
     let t = (of_nat (now div 1000000000) :: i32);
     e3 \<leftarrow> (if out \<noteq> 0 then write_env u32_type out t e2 else Some e2);
     Some (t, e3) }"

definition gettimeofday :: "host \<Rightarrow> vaddr \<Rightarrow> vaddr \<Rightarrow> env \<Rightarrow> (i32 \<times> env) run" where
  "gettimeofday H timeval_ptr timezone_ptr e = do {
     e1 \<leftarrow> set_errno 0 e;
     e2 \<leftarrow> (if timezone_ptr \<noteq> 0
       then write_env timezone_type timezone_ptr \<lparr>tz_minuteswest = 0, tz_dsttime = 0\<rparr> e1 else Some e1);
     if timeval_ptr = 0 then Some (0, e2)
     else do {
       (now, e3) \<leftarrow> wall_now H e2;
       e4 \<leftarrow> write_env timeval_type timeval_ptr
              \<lparr>tv_s = of_nat (now div 1000000000), tv_usec = of_nat (now mod 1000000000 div 1000)\<rparr> e3;
       Some (0, e4) } }"

definition nanosleep :: "host \<Rightarrow> nat \<Rightarrow> vaddr \<Rightarrow> vaddr \<Rightarrow> env \<Rightarrow> (env, i32) coro run" where
  "nanosleep H instant_max rqtp rmtp e = do {
     e1 \<leftarrow> set_errno 0 e;
     t \<leftarrow> read_env timespec_type rqtp e1;
     _ \<leftarrow> rassert (0 \<le> sint (tv_sec t));
     _ \<leftarrow> rassert (0 \<le> sint (tv_nsec t));
     c \<leftarrow> env_sleep H instant_max (nat (sint (tv_sec t)) * 1000000000 + nat (sint (tv_nsec t))) e1;
     coro_bind c (\<lambda>_ e2. Some (Finished 0 e2)) }"

subsection \<open>Calendar dates in guest memory\<close>

definition gmtime_r :: "vaddr \<Rightarrow> vaddr \<Rightarrow> env \<Rightarrow> (vaddr \<times> env) run" where
  "gmtime_r timestamp res e = do {
     ts \<leftarrow> read_env u32_type timestamp e;
     d \<leftarrow> timestamp_to_calendar_date ts;
     e1 \<leftarrow> write_env tm_type res d e;
     Some (res, e1) }"

definition gmtime :: "vaddr \<Rightarrow> env \<Rightarrow> (vaddr \<times> env) run" where
  "gmtime timestamp e = (case lc_gmtime_tmp (e_libc e) of
     Some tmp \<Rightarrow> gmtime_r timestamp tmp e
   | None \<Rightarrow> do {
       (m, tmp) \<leftarrow> mem_alloc (e_mem e) (gt_size tm_type);
       gmtime_r timestamp tmp (e\<lparr>e_mem := m, e_libc := (e_libc e)\<lparr>lc_gmtime_tmp := Some tmp\<rparr>\<rparr>) })"

definition localtime_r :: "vaddr \<Rightarrow> vaddr \<Rightarrow> env \<Rightarrow> (vaddr \<times> env) run" where
  "localtime_r timestamp res e = gmtime_r timestamp res e"

definition localtime :: "vaddr \<Rightarrow> env \<Rightarrow> (vaddr \<times> env) run" where
  "localtime timestamp e = gmtime timestamp e"

definition mktime :: "vaddr \<Rightarrow> env \<Rightarrow> i32 run" where
  "mktime p e = do { d \<leftarrow> read_env tm_type p e; calendar_date_to_timestamp d }"

subsection \<open>\<open>strptime\<close>\<close>

definition isspace_inner :: "u8 \<Rightarrow> bool" where
  "isspace_inner c \<longleftrightarrow> c = 0x20 \<or> c = 0x09 \<or> c = 0x0A \<or> c = 0x0C \<or> c = 0x0D \<or> c = 0x0B"

definition libc_isspace :: "guest_mem \<Rightarrow> vaddr \<Rightarrow> bool run" where
  "libc_isspace m p = map_option isspace_inner (mem_read u8_type m p)"

text \<open>\<open>while isspace_inner(cc) { .. }\<close>\<close>

function skip_spaces :: "guest_mem \<Rightarrow> vaddr \<Rightarrow> u8 \<Rightarrow> guest_usize \<Rightarrow> guest_usize run" where
  "skip_spaces m buffer cc i =
     (if isspace_inner cc then do {
        i' \<leftarrow> add_chk i 1;
        cc' \<leftarrow> elem_at u8_type m buffer i';
        skip_spaces m buffer cc' i' }
      else Some i)"
  by auto
termination
  by (relation "measure (\<lambda>(_, _, _, i). 2 ^ 32 - unat i)") (auto dest: add_chk_decreases)

text \<open>The loop of \<open>parse_2_digits\<close>; the number stays below 100.\<close>

function digits_loop :: "guest_mem \<Rightarrow> vaddr \<Rightarrow> guest_usize \<Rightarrow> int \<Rightarrow> nat \<Rightarrow> (guest_usize \<times> int \<times> nat) run" where
  "digits_loop m buffer i num count = do {
     c \<leftarrow> elem_at u8_type m buffer i;
     if 0x30 \<le> c \<and> c \<le> 0x39 then
       if 2 \<le> count then Some (i, num, count)
       else do {
         i' \<leftarrow> add_chk i 1;
         digits_loop m buffer i' (num * 10 + uint (c - 0x30)) (count + 1) }
     else Some (i, num, count) }"
  by auto
termination
  by (relation "measure (\<lambda>(_, _, _, _, count). 2 - count)") auto

definition parse_2_digits :: "guest_mem \<Rightarrow> vaddr \<Rightarrow> guest_usize \<Rightarrow> int \<Rightarrow> ((unit + i32) \<times> guest_usize) run" where
  "parse_2_digits m buffer i hi = do {
     (i', num, count) \<leftarrow> digits_loop m buffer i 0 0;
     if count \<noteq> 2 then Some (Inl (), i')
     else do {
       _ \<leftarrow> rassert (0 \<le> num \<and> num < hi);
       Some (Inr (i32 num), i') } }"

text \<open>\<open>None\<close> inside the result stands for \<open>conversation_failed\<close>.\<close>

function strptime_loop ::
    "guest_mem \<Rightarrow> vaddr \<Rightarrow> vaddr \<Rightarrow> guest_usize \<Rightarrow> guest_usize \<Rightarrow> tm \<Rightarrow> (tm \<times> guest_usize option) run" where
  "strptime_loop m buffer format bi fi d = do {
     c \<leftarrow> elem_at u8_type m format fi;
     fi1 \<leftarrow> add_chk fi 1;
     if c = 0 then Some (d, Some bi)
     else if c \<noteq> 0x25 then do {
       cc \<leftarrow> elem_at u8_type m buffer bi;
       q \<leftarrow> ptr_add 1 format fi1;
       q' \<leftarrow> ptr_sub 1 q 1;
       space \<leftarrow> libc_isspace m q';
       if space then do {
         bi' \<leftarrow> skip_spaces m buffer cc bi;
         strptime_loop m buffer format bi' fi1 d }
       else if c \<noteq> cc then Some (d, None)
       else do {
         bi' \<leftarrow> add_chk bi 1;
         strptime_loop m buffer format bi' fi1 d } }
     else do {
       s \<leftarrow> elem_at u8_type m format fi1;
       fi2 \<leftarrow> add_chk fi1 1;
       hi \<leftarrow> (if s = 0x48 then Some 24 else if s = 0x4D then Some 60 else if s = 0x53 then Some 61 else None);
       (r, bi') \<leftarrow> parse_2_digits m buffer bi hi;
       case r of
         Inl _ \<Rightarrow> Some (d, None)
       | Inr v \<Rightarrow> strptime_loop m buffer format bi' fi2
           (if s = 0x48 then d\<lparr>tm_hour := v\<rparr> else if s = 0x4D then d\<lparr>tm_min := v\<rparr> else d\<lparr>tm_sec := v\<rparr>) } }"
  by auto
termination
  by (relation "measure (\<lambda>(_, _, _, _, fi, _). 2 ^ 32 - unat fi)")
    (auto dest!: add_chk_decreases simp del: One_nat_def)

declare skip_spaces.simps [simp del] digits_loop.simps [simp del] strptime_loop.simps [simp del]

definition strptime :: "vaddr \<Rightarrow> vaddr \<Rightarrow> vaddr \<Rightarrow> env \<Rightarrow> (vaddr \<times> env) run" where
  "strptime buffer format time_ptr e = do {
     d \<leftarrow> read_env tm_type time_ptr e;
     (d', r) \<leftarrow> strptime_loop (e_mem e) buffer format 0 0 d;
     e1 \<leftarrow> write_env tm_type time_ptr d' e;
     case r of
       None \<Rightarrow> Some (0, e1)
     | Some bi \<Rightarrow> do { p \<leftarrow> ptr_add 1 buffer bi; Some (p, e1) } }"

subsection \<open>\<open>strftime\<close>\<close>

text \<open>\<open>format!("{}", n)\<close> and \<open>format!("{:02}", n)\<close> of a number that is not negative.\<close>

fun decimal :: "nat \<Rightarrow> u8 list" where
  "decimal n = (if n < 10 then [] else decimal (n div 10)) @ [of_nat (0x30 + n mod 10)]"

declare decimal.simps [simp del]

definition decimal_02 :: "nat \<Rightarrow> u8 list" where
  "decimal_02 n = (let ds = decimal n in replicate (2 - length ds) 0x30 @ ds)"

definition padded_in :: "int \<Rightarrow> int \<Rightarrow> int \<Rightarrow> u8 list run" where
  "padded_in lo hi x = do { _ \<leftarrow> rassert (lo \<le> x \<and> x \<le> hi); Some (decimal_02 (nat x)) }"

definition strftime_field :: "u8 \<Rightarrow> tm \<Rightarrow> u8 list run" where
  "strftime_field s d =
     (if s = of_char CHR ''m'' then do { month \<leftarrow> chk32 (sint (tm_mon d) + 1); padded_in 1 12 month }
      else if s = of_char CHR ''d'' then padded_in 1 31 (sint (tm_mday d))
      else if s = of_char CHR ''H'' then padded_in 0 23 (sint (tm_hour d))
      else if s = of_char CHR ''M'' then padded_in 0 59 (sint (tm_min d))
      else if s = of_char CHR ''I'' then
        (let h = sint (tm_hour d); hour12 = (if h < 0 then - (- h mod 12) else h mod 12) in
         padded_in 1 12 (if hour12 = 0 then 12 else hour12))
      else if s = of_char CHR ''p'' then Some (bytes_of_string (if sint (tm_hour d) < 12 then ''AM'' else ''PM''))
      else if s = of_char CHR ''a'' then
        (let wday = sint (tm_wday d) in do {
           _ \<leftarrow> rassert (0 \<le> wday \<and> wday < 7); Some (bytes_of_string (days_short ! nat wday)) })
      else if s = of_char CHR ''b'' then
        (let mon = sint (tm_mon d) in do {
           _ \<leftarrow> rassert (0 \<le> mon \<and> mon < 12); Some (bytes_of_string (months_short ! nat mon)) })
      else if s = of_char CHR ''Y'' then do {
         year \<leftarrow> chk32 (sint (tm_year d) + 1900);
         _ \<leftarrow> rassert (0 \<le> year \<and> year \<le> 9999);
         Some (decimal (nat year)) }
      else if s = of_char CHR ''S'' then padded_in 0 60 (sint (tm_sec d))
      else if s = of_char CHR ''Z'' then do { _ \<leftarrow> rassert (tm_zone d = 0); Some (bytes_of_string ''GMT'') }
      else if s = of_char CHR ''z'' then
        (let offset = sint (tm_gmtoff d); a = nat \<bar>offset\<bar>; hours = a div 3600; minutes = a mod 3600 div 60 in do {
           _ \<leftarrow> rassert (hours \<le> 24 \<and> minutes < 60);
           Some (bytes_of_string (if offset < 0 then ''-'' else ''+'') @ decimal_02 hours @ decimal_02 minutes) })
      else None)"

function strftime_loop :: "guest_mem \<Rightarrow> vaddr \<Rightarrow> tm \<Rightarrow> guest_usize \<Rightarrow> u8 list \<Rightarrow> u8 list run" where
  "strftime_loop m format d fi res = do {
     c \<leftarrow> elem_at u8_type m format fi;
     fi1 \<leftarrow> add_chk fi 1;
     if c = 0 then Some res
     else if c \<noteq> 0x25 then strftime_loop m format d fi1 (res @ [c])
     else do {
       s \<leftarrow> elem_at u8_type m format fi1;
       fi2 \<leftarrow> add_chk fi1 1;
       bs \<leftarrow> strftime_field s d;
       strftime_loop m format d fi2 (res @ bs) } }"
  by auto
termination
  by (relation "measure (\<lambda>(_, _, _, fi, _). 2 ^ 32 - unat fi)")
    (auto dest!: add_chk_decreases)

declare strftime_loop.simps [simp del]

definition strftime :: "host_discard \<Rightarrow> vaddr \<Rightarrow> guest_usize \<Rightarrow> vaddr \<Rightarrow> vaddr \<Rightarrow> env \<Rightarrow> (guest_usize \<times> env) run" where
  "strftime discard s max_size format time_ptr e = do {
     (ctype, e1) \<leftarrow> setlocale discard LC_CTYPE 0 e;
     c \<leftarrow> read_env u8_type ctype e1;
     _ \<leftarrow> rassert (c = of_char CHR ''C'');
     d \<leftarrow> read_env tm_type time_ptr e1;
     res \<leftarrow> strftime_loop (e_mem e1) format d 0 [];
     room \<leftarrow> sub_chk max_size 1;
     let middle = (if unat room < length res then take (unat room) res else res);
     m \<leftarrow> bytes_at_mut_put (e_mem e1) s max_size (middle @ [0]);
     n \<leftarrow> (if length res < 2 ^ 32 then Some (of_nat (length res)) else None);
     Some (n, e1\<lparr>e_mem := m\<rparr>) }"

subsection \<open>What the loops compute\<close>

interpretation tmc: guest_codec tm_type
  by unfold_locales (simp_all add: tm_type_def field32_def le_dec_enc [where ?'a = 32 and n = 4])

lemma cells_u8:
  assumes "zstring u8_type 0 m p xs"
  shows "i < length xs \<Longrightarrow> elem_at u8_type m p (ix i) = Some (xs ! i) \<and> xs ! i \<noteq> 0"
    and "elem_at u8_type m p (ix (length xs)) = Some 0"
    and "i \<le> length xs \<Longrightarrow> add_chk (ix i) 1 = Some (ix (Suc i))"
    and "i \<le> length xs \<Longrightarrow> ptr_add 1 p (ix i) = Some (elem_ptr u8_type p i)"
proof -
  have c: "cells u8_type m p (xs @ [0])" and nz: "0 \<notin> set xs" and b: "length xs + 1 < 2 ^ 32"
    using assms by (simp_all add: zstring_def)
  show "elem_at u8_type m p (ix i) = Some (xs ! i) \<and> xs ! i \<noteq> 0" if "i < length xs"
    using u8c.cells_nth [OF c, of i] that nz by (simp add: nth_append) (metis nth_mem)
  show "elem_at u8_type m p (ix (length xs)) = Some 0"
    using u8c.cells_nth [OF c, of "length xs"] by simp
  show "add_chk (ix i) 1 = Some (ix (Suc i))" if "i \<le> length xs" using that b by (intro add_chk_ix) simp
  show "ptr_add 1 p (ix i) = Some (elem_ptr u8_type p i)" if "i \<le> length xs"
    using u8c.cells_ptr [OF c, of i] that by (simp add: u8_type_def)
qed

text \<open>\<open>strftime\<close> as a function of the bytes of the format.\<close>

fun strftime_text :: "tm \<Rightarrow> u8 list \<Rightarrow> u8 list option" where
  "strftime_text d [] = Some []"
| "strftime_text d [c] = (if c = 0x25 then None else Some [c])"
| "strftime_text d (c # s # cs) =
     (if c = 0x25 then do { bs \<leftarrow> strftime_field s d; rest \<leftarrow> strftime_text d cs; Some (bs @ rest) }
      else map_option ((#) c) (strftime_text d (s # cs)))"

lemma strftime_field_nul: "strftime_field 0 d = None"
  by (simp add: strftime_field_def)

lemma strftime_loop_law:
  assumes z: "zstring u8_type 0 m f xs"
  shows "i \<le> length xs \<Longrightarrow> strftime_loop m f d (ix i) res = map_option ((@) res) (strftime_text d (drop i xs))"
proof (induction "length xs - i" arbitrary: i res rule: less_induct)
  case less
  note at = cells_u8 [OF z]
  show ?case
  proof (cases "i < length xs")
    case False
    with less.prems at(2,3) show ?thesis by (subst strftime_loop.simps) simp
  next
    case True
    then have d: "drop i xs = xs ! i # drop (Suc i) xs" by (rule Cons_nth_drop_Suc [symmetric])
    have IH: "strftime_loop m f d (ix j) r = map_option ((@) r) (strftime_text d (drop j xs))"
      if "i < j" "j \<le> length xs" for j r
      using less.hyps [of j r] that True by simp
    show ?thesis
    proof (cases "xs ! i = 0x25")
      case lit: False
      have "map_option ((@) (res @ [xs ! i])) (strftime_text d (drop (Suc i) xs))
          = map_option ((@) res) (strftime_text d (xs ! i # drop (Suc i) xs))"
        using lit by (cases "drop (Suc i) xs") (simp_all add: option.map_comp comp_def fun_eq_iff cong: option.map_cong)
      then show ?thesis using lit True at(1) [of i] at(3) [of i] IH [of "Suc i" "res @ [xs ! i]"] d
        by (subst strftime_loop.simps) simp
    next
      case pct: True
      show ?thesis
      proof (cases "Suc i < length xs")
        case False
        then have "Suc i = length xs" using True by simp
        then show ?thesis using pct True at(1) [of i] at(3) [of i] at(2,3) d
          by (subst strftime_loop.simps) (simp add: strftime_field_nul del: One_nat_def)
      next
        case two: True
        then have d2: "drop i xs = xs ! i # xs ! Suc i # drop (Suc (Suc i)) xs"
          using d by (simp add: Cons_nth_drop_Suc)
        show ?thesis
        proof (cases "strftime_field (xs ! Suc i) d")
          case None
          then show ?thesis using pct True two at(1) [of i] at(1) [of "Suc i"] at(3) [of i] at(3) [of "Suc i"] d2
            by (subst strftime_loop.simps) simp
        next
          case (Some bs)
          have "strftime_loop m f d (ix (Suc (Suc i))) (res @ bs)
              = map_option ((@) (res @ bs)) (strftime_text d (drop (Suc (Suc i)) xs))"
            using two by (intro IH) simp_all
          then show ?thesis using Some pct True two at(1) [of i] at(1) [of "Suc i"] at(3) [of i] at(3) [of "Suc i"] d2
            by (subst strftime_loop.simps) (cases "strftime_text d (drop (Suc (Suc i)) xs)"; simp)
        qed
      qed
    qed
  qed
qed

subsection \<open>Formats that \<open>strptime\<close> reads back\<close>

datatype time_item = Hour | Minute | Second | Literal u8

fun item_format :: "time_item \<Rightarrow> u8 list" where
  "item_format Hour = [0x25, 0x48]"
| "item_format Minute = [0x25, 0x4D]"
| "item_format Second = [0x25, 0x53]"
| "item_format (Literal c) = [c]"

fun item_text :: "tm \<Rightarrow> time_item \<Rightarrow> u8 list" where
  "item_text d Hour = decimal_02 (nat (sint (tm_hour d)))"
| "item_text d Minute = decimal_02 (nat (sint (tm_min d)))"
| "item_text d Second = decimal_02 (nat (sint (tm_sec d)))"
| "item_text d (Literal c) = [c]"

fun item_ok :: "time_item \<Rightarrow> bool" where
  "item_ok (Literal c) \<longleftrightarrow> c \<noteq> 0 \<and> c \<noteq> 0x25 \<and> \<not> isspace_inner c"
| "item_ok _ \<longleftrightarrow> True"

text \<open>What \<open>strptime\<close> stores when it reads back the item of \<open>c\<close>.\<close>

fun item_store :: "tm \<Rightarrow> time_item \<Rightarrow> tm \<Rightarrow> tm" where
  "item_store c Hour d = d\<lparr>tm_hour := tm_hour c\<rparr>"
| "item_store c Minute d = d\<lparr>tm_min := tm_min c\<rparr>"
| "item_store c Second d = d\<lparr>tm_sec := tm_sec c\<rparr>"
| "item_store c (Literal _) d = d"

definition time_ok :: "tm \<Rightarrow> bool" where
  "time_ok d \<longleftrightarrow> 0 \<le> sint (tm_hour d) \<and> sint (tm_hour d) < 24 \<and> 0 \<le> sint (tm_min d) \<and> sint (tm_min d) < 60
     \<and> 0 \<le> sint (tm_sec d) \<and> sint (tm_sec d) \<le> 60"

definition format_of :: "time_item list \<Rightarrow> u8 list" where
  "format_of items = concat (map item_format items)"

definition text_of :: "tm \<Rightarrow> time_item list \<Rightarrow> u8 list" where
  "text_of d items = concat (map (item_text d) items)"

lemma decimal_02_two: "n < 100 \<Longrightarrow> decimal_02 n = [of_nat (0x30 + n div 10), of_nat (0x30 + n mod 10)]"
proof (cases "n < 10")
  case True
  then show ?thesis by (simp add: decimal_02_def decimal.simps [of n])
next
  case False
  moreover assume "n < 100"
  then have "n div 10 < 10" by simp
  ultimately show ?thesis by (simp add: decimal_02_def decimal.simps [of n] decimal.simps [of "n div 10"])
qed

lemma digit_byte:
  assumes "k < 10"
  shows "(0x30 :: u8) \<le> of_nat (0x30 + k)" and "of_nat (0x30 + k) \<le> (0x39 :: u8)"
    and "uint (of_nat (0x30 + k) - 0x30 :: u8) = int k" and "of_nat (0x30 + k) \<noteq> (0 :: u8)"
proof -
  have u: "unat (of_nat (0x30 + k) :: u8) = 0x30 + k" using assms by (simp add: unat_of_nat take_bit_eq_mod del: of_nat_add)
  show "(0x30 :: u8) \<le> of_nat (0x30 + k)" "of_nat (0x30 + k) \<le> (0x39 :: u8)"
    using u assms by (simp_all add: word_le_nat_alt del: of_nat_add)
  show "of_nat (0x30 + k) \<noteq> (0 :: u8)" using u by (auto simp: unat_eq_iff simp del: of_nat_add)
  have "(of_nat (0x30 + k) - 0x30 :: u8) = of_nat k" by simp
  then show "uint (of_nat (0x30 + k) - 0x30 :: u8) = int k" using assms by (simp add: uint_nat unat_of_nat take_bit_eq_mod)
qed

lemma digits_loop_law:
  assumes z: "zstring u8_type 0 m p xs" and d: "drop i xs = decimal_02 n @ ys" and n: "n < 100"
  shows "digits_loop m p (ix i) 0 0 = Some (ix (i + 2), int n, 2)"
proof -
  let ?a = "of_nat (0x30 + n div 10) :: u8" and ?b = "of_nat (0x30 + n mod 10) :: u8"
  have x: "drop i xs = [?a, ?b] @ ys" using d n by (simp add: decimal_02_two)
  have "length (drop i xs) = 2 + length ys" unfolding x by simp
  then have len: "i + 2 \<le> length xs" unfolding length_drop by linarith
  have nth: "xs ! i = ?a" "xs ! Suc i = ?b"
    using nth_drop [of i xs 0] nth_drop [of i xs 1] len unfolding x by (simp_all del: of_nat_add)
  note at = cells_u8 [OF z]
  have at2: "\<exists>c. elem_at u8_type m p (ix (Suc (Suc i))) = Some c"
    using at(1) [of "Suc (Suc i)"] at(2) len by (cases "Suc (Suc i) < length xs") (auto simp: le_antisym)
  have a: "n div 10 < 10" and b: "n mod 10 < 10" using n by simp_all
  have u: "uint (?a - 0x30) * 10 + uint (?b - 0x30) = int n"
    using digit_byte(3) [OF a] digit_byte(3) [OF b] by (simp del: of_nat_add) presburger
  show ?thesis
    using at(1) [of i] at(1) [of "Suc i"] at(3) [of i] at(3) [of "Suc i"] at2 len nth u
      digit_byte(1,2) [OF a] digit_byte(1,2) [OF b]
    by (subst digits_loop.simps, subst digits_loop.simps, subst digits_loop.simps)
      (auto simp del: of_nat_add)
qed

lemma strftime_text_append:
  "strftime_text d xs = Some ys \<Longrightarrow> strftime_text d (xs @ zs) = map_option ((@) ys) (strftime_text d zs)"
proof (induction d xs arbitrary: ys rule: strftime_text.induct)
  case (1 d)
  then show ?case by (simp add: map_option.identity [unfolded id_def, symmetric] option.map_ident)
next
  case (2 d c)
  then show ?case by (cases zs; cases "strftime_text d zs") (auto split: if_splits)
next
  case (3 d c s cs)
  show ?case
  proof (cases "c = 0x25")
    case True
    then obtain bs rest where b: "strftime_field s d = Some bs" "strftime_text d cs = Some rest" "ys = bs @ rest"
      using 3(3) by (auto simp: run_simps)
    then show ?thesis using True 3(1) [OF True b(1) b(2)] by (cases "strftime_text d zs") simp_all
  next
    case False
    then obtain rest where b: "strftime_text d (s # cs) = Some rest" "ys = c # rest" using 3(3) by auto
    then show ?thesis using False 3(2) [OF False b(1)] by (cases "strftime_text d zs") simp_all
  qed
qed

lemma strftime_text_items:
  assumes "time_ok d" and "\<forall>x \<in> set items. item_ok x"
  shows "strftime_text d (format_of items) = Some (text_of d items)"
  using assms(2)
proof (induction items)
  case Nil
  then show ?case by (simp add: format_of_def text_of_def)
next
  case (Cons x items)
  have "strftime_text d (item_format x) = Some (item_text d x)"
    using assms(1) Cons.prems by (cases x) (simp_all add: strftime_field_def time_ok_def padded_in_def)
  from strftime_text_append [OF this, of "format_of items"] Cons
  show ?case by (simp add: format_of_def text_of_def)
qed

lemma drop_Cons_iff: "drop i xs = x # ys \<longleftrightarrow> i < length xs \<and> xs ! i = x \<and> drop (Suc i) xs = ys"
  by (cases "i < length xs") (auto simp: Cons_nth_drop_Suc [symmetric])

lemma parse_2_digits_law:
  assumes z: "zstring u8_type 0 m p xs" and d: "drop i xs = decimal_02 (nat (sint v)) @ ys"
    and v: "0 \<le> sint v" "sint v < hi" "hi \<le> 100"
  shows "parse_2_digits m p (ix i) hi = Some (Inr v, ix (i + 2))"
  using digits_loop_law [OF z d] v by (simp add: parse_2_digits_def)

text \<open>The address of the character before the position \<open>i + 1\<close>.\<close>

lemma previous_char:
  assumes z: "zstring u8_type 0 m p xs" and i: "i < length xs"
  shows "ptr_sub 1 (elem_ptr u8_type p (Suc i)) 1 = Some (elem_ptr u8_type p i)"
    and "libc_isspace m (elem_ptr u8_type p i) = Some (isspace_inner (xs ! i))"
proof -
  have c: "cells u8_type m p (xs @ [0])" using z by (simp add: zstring_def)
  then have ok: "array_ok u8_type m p (length (xs @ [0]))" by (simp add: cells_def)
  have sz: "gt_size u8_type = 1" by (simp add: u8_type_def)
  have "unat (elem_ptr u8_type p i) = unat p + i" "unat (elem_ptr u8_type p (Suc i)) = unat p + Suc i"
    using u8c.elem_ptr_ok(1) [OF ok, of i] u8c.elem_ptr_ok(1) [OF ok, of "Suc i"] i by (simp_all add: sz)
  then have "ptr_add 1 (elem_ptr u8_type p i) 1 = Some (elem_ptr u8_type p (Suc i))" by (simp add: ptr_add_Some)
  then show "ptr_sub 1 (elem_ptr u8_type p (Suc i)) 1 = Some (elem_ptr u8_type p i)" by (simp add: ptr_sub_add)
  show "libc_isspace m (elem_ptr u8_type p i) = Some (isspace_inner (xs ! i))"
    using u8c.cells_read [OF c, of i] i by (simp add: libc_isspace_def nth_append)
qed

lemma strptime_loop_law:
  assumes zb: "zstring u8_type 0 m p xs" and zf: "zstring u8_type 0 m f fs" and c: "time_ok c"
  shows "\<forall>x \<in> set items. item_ok x \<Longrightarrow> drop fi fs = format_of items \<Longrightarrow> drop bi xs = text_of c items
    \<Longrightarrow> fi \<le> length fs \<Longrightarrow> bi \<le> length xs
    \<Longrightarrow> strptime_loop m p f (ix bi) (ix fi) d = Some (fold (item_store c) items d, Some (ix (length xs)))"
proof (induction items arbitrary: fi bi d)
  case Nil
  then have "fi = length fs" "bi = length xs" by (simp_all add: format_of_def text_of_def)
  then show ?case using cells_u8(2,3) [OF zf] by (subst strptime_loop.simps) simp
next
  case (Cons x items)
  note f_at = cells_u8 [OF zf] and b_at = cells_u8 [OF zb]
  have field: ?case
    if x: "item_format x = [0x25, s]" "s \<in> {0x48, 0x4D, 0x53}"
      and t: "item_text c x = decimal_02 (nat (sint v))"
      and hi: "hi = (if s = 0x48 then 24 else if s = 0x4D then 60 else 61)" "0 \<le> sint v" "sint v < hi"
      and st: "item_store c x d = (if s = 0x48 then d\<lparr>tm_hour := v\<rparr> else if s = 0x4D then d\<lparr>tm_min := v\<rparr> else d\<lparr>tm_sec := v\<rparr>)"
    for s v hi
  proof -
    have "drop fi fs = 0x25 # s # format_of items" using Cons.prems(2) x by (simp add: format_of_def)
    then have fs: "fi < length fs" "fs ! fi = 0x25" "Suc fi < length fs" "fs ! Suc fi = s"
      "drop (fi + 2) fs = format_of items" by (auto simp: drop_Cons_iff)
    have b: "drop bi xs = decimal_02 (nat (sint v)) @ text_of c items" using Cons.prems(3) t by (simp add: text_of_def)
    have parse: "parse_2_digits m p (ix bi) hi = Some (Inr v, ix (bi + 2))"
      by (rule parse_2_digits_law [OF zb b]) (use hi in \<open>auto split: if_splits\<close>)
    have "length (decimal_02 (nat (sint v))) = 2" using hi by (simp add: decimal_02_two split: if_splits)
    then have b2: "drop (bi + 2) xs = text_of c items" "bi + 2 \<le> length xs"
      using arg_cong [OF b, of "drop 2"] arg_cong [OF b, of length] Cons.prems(5) by (simp_all add: add.commute)
    have "strptime_loop m p f (ix (bi + 2)) (ix (fi + 2)) (item_store c x d)
        = Some (fold (item_store c) items (item_store c x d), Some (ix (length xs)))"
      by (rule Cons.IH) (use Cons.prems(1) fs b2 in auto)
    then show ?thesis
      using fs f_at(1) [of fi] f_at(1) [of "Suc fi"] f_at(3) [of fi] f_at(3) [of "Suc fi"] parse x(2) hi(1) st
      by (subst strptime_loop.simps) auto
  qed
  show ?case
  proof (cases x)
    case Hour
    then show ?thesis using c by (intro field [of "0x48" "tm_hour c" 24]) (simp_all add: time_ok_def)
  next
    case Minute
    then show ?thesis using c by (intro field [of "0x4D" "tm_min c" 60]) (simp_all add: time_ok_def)
  next
    case Second
    then show ?thesis using c by (intro field [of "0x53" "tm_sec c" 61]) (simp_all add: time_ok_def)
  next
    case (Literal ch)
    have "drop fi fs = ch # format_of items" "drop bi xs = ch # text_of c items"
      using Cons.prems(2,3) Literal by (simp_all add: format_of_def text_of_def)
    then have at: "fi < length fs" "fs ! fi = ch" "drop (Suc fi) fs = format_of items"
      "bi < length xs" "xs ! bi = ch" "drop (Suc bi) xs = text_of c items" by (simp_all add: drop_Cons_iff)
    have "strptime_loop m p f (ix (Suc bi)) (ix (Suc fi)) d = Some (fold (item_store c) items d, Some (ix (length xs)))"
      by (rule Cons.IH) (use Cons.prems(1) at in auto)
    then show ?thesis
      using Cons.prems(1) Literal at f_at(1) [of fi] f_at(3) [of fi] f_at(4) [of "Suc fi"] b_at(1) [of bi] b_at(3) [of bi]
        previous_char [OF zf, of fi]
      by (subst strptime_loop.simps) simp
  qed
qed

subsection \<open>\<open>strftime\<close> into guest memory\<close>

lemma decimal_nonzero: "0 \<notin> set (decimal n)"
proof (induction n rule: decimal.induct)
  case (1 n)
  have "n mod 10 < 10" by simp
  from digit_byte(4) [OF this] 1 show ?case by (subst decimal.simps) (auto simp del: of_nat_add)
qed

lemma decimal_02_nonzero: "0 \<notin> set (decimal_02 n)"
  using decimal_nonzero [of n] by (simp add: decimal_02_def Let_def)

lemma names_nonzero: "t \<in> set (days_short @ months_short @ [''AM'', ''PM'', ''GMT'', ''+'', ''-'']) \<Longrightarrow> 0 \<notin> set (bytes_of_string t)"
  by (auto simp: days_short_def months_short_def bytes_of_string_def of_char_def)

lemma padded_in_nonzero: "padded_in lo hi x = Some bs \<Longrightarrow> 0 \<notin> set bs"
  using decimal_02_nonzero by (auto simp: padded_in_def run_simps)

lemma short_names: "0 \<le> i \<Longrightarrow> i < 7 \<Longrightarrow> days_short ! nat i \<in> set days_short"
  "0 \<le> i \<Longrightarrow> i < 12 \<Longrightarrow> months_short ! nat i \<in> set months_short"
proof -
  have len: "length days_short = 7" "length months_short = 12" by (simp_all add: days_short_def months_short_def)
  show "0 \<le> i \<Longrightarrow> i < 7 \<Longrightarrow> days_short ! nat i \<in> set days_short" by (rule nth_mem) (simp add: len)
  show "0 \<le> i \<Longrightarrow> i < 12 \<Longrightarrow> months_short ! nat i \<in> set months_short" by (rule nth_mem) (simp add: len)
qed

lemma strftime_field_nonzero:
  assumes "strftime_field s d = Some bs"
  shows "0 \<notin> set bs"
  using assms decimal_nonzero decimal_02_nonzero names_nonzero padded_in_nonzero short_names
  unfolding strftime_field_def Let_def
  by (simp add: run_simps split: if_splits) auto

lemma strftime_text_nonzero: "strftime_text d xs = Some ys \<Longrightarrow> 0 \<notin> set xs \<Longrightarrow> 0 \<notin> set ys"
proof (induction d xs arbitrary: ys rule: strftime_text.induct)
  case (3 d c s cs)
  show ?case
  proof (cases "c = 0x25")
    case True
    with 3 show ?thesis using strftime_field_nonzero by (auto simp: run_simps)
  next
    case False
    with 3 show ?thesis by auto
  qed
qed (auto split: if_splits)

lemma cells_put:
  assumes "mm_null m \<le> p" and "unat p + length xs \<le> 2 ^ 32" and "length xs < 2 ^ 32"
  shows "cells u8_type (m\<lparr>mm_bytes := put_range (mm_bytes m) p xs\<rparr>) p xs"
proof -
  let ?m = "m\<lparr>mm_bytes := put_range (mm_bytes m) p xs\<rparr>"
  have ok: "array_ok u8_type ?m p (length xs)" using assms by (simp add: array_ok_def u8_type_def)
  have g: "get_range (mm_bytes ?m) p (length xs) = xs" using get_put_same [OF assms(2,3)] by simp
  have "elem_at u8_type ?m p (ix i) = Some (xs ! i)" if i: "i < length xs" for i
  proof -
    have "get_range (mm_bytes ?m) p (length xs) ! i = xs ! i" unfolding g ..
    then show ?thesis using u8c.elem_at_ok [OF ok i] i by (simp add: u8_type_def elem_ptr_def get_range_def)
  qed
  then show ?thesis using ok by (simp add: cells_def)
qed

text \<open>The locale has been set to \<open>C\<close>, as it is after the first call.\<close>

definition c_locale :: "env \<Rightarrow> bool" where
  "c_locale e \<longleftrightarrow> (\<exists>p. lc_locale (e_libc e) LC_CTYPE = Some p \<and> read_env u8_type p e = Some 0x43)"

lemma strftime_run:
  assumes loc: "c_locale e" and d: "read_env tm_type tp e = Some d" and z: "zstring u8_type 0 (e_mem e) f fs"
    and res: "strftime_text d fs = Some res" "length res < 2 ^ 32"
    and buf: "mm_null (e_mem e) \<le> s" "unat s + unat n \<le> 2 ^ 32" "n \<noteq> 0"
  shows "\<exists>m. strftime discard s n f tp e = Some (of_nat (length res), e\<lparr>e_mem := m\<rparr>)
    \<and> zstring u8_type 0 m s (take (unat n - 1) res)
    \<and> agree_on (- {unat s ..< unat s + min (unat n) (length res + 1)}) (mm_bytes m) (mm_bytes (e_mem e))
    \<and> mm_null m = mm_null (e_mem e)"
proof -
  let ?out = "take (unat n - 1) res @ [0]"
  let ?m = "(e_mem e)\<lparr>mm_bytes := put_range (mm_bytes (e_mem e)) s ?out\<rparr>"
  have n: "0 < unat n" "unat n < 2 ^ 32" using buf(3) unat_bound32 [of n] by (simp_all add: unat_pos_iff)
  have len: "length ?out = min (unat n) (length res + 1)" using n by simp
  then have out: "unat s + length ?out \<le> 2 ^ 32" "length ?out < 2 ^ 32" using buf(2) n by linarith+
  obtain room where room: "sub_chk n 1 = Some room" "unat room = unat n - 1"
    using sub_chk_ex [of 1 n] n by (auto simp: sub_chk_Some)
  have "strftime_loop (e_mem e) f d 0 [] = Some res"
    using strftime_loop_law [OF z, of 0 d "[]"] res(1) by simp
  moreover have "setlocale discard LC_CTYPE 0 e = Some (lp, e)" if "lc_locale (e_libc e) LC_CTYPE = Some lp" for lp
    using that by (simp add: setlocale_def)
  moreover have "bytes_at_mut_put (e_mem e) s n ?out = Some ?m"
    using buf by (simp add: bytes_at_mut_put_def in_bounds_nat not_less)
  moreover have "(if unat room < length res then take (unat room) res else res) = take (unat n - 1) res"
    using room(2) by simp
  ultimately have run: "strftime discard s n f tp e = Some (of_nat (length res), e\<lparr>e_mem := ?m\<rparr>)"
    using loc d room(1) res(2) unfolding strftime_def c_locale_def by (auto simp: of_char_def)
  have "0 \<notin> set res" using strftime_text_nonzero [OF res(1)] z by (simp add: zstring_def)
  then have "0 \<notin> set (take (unat n - 1) res)" using set_take_subset [of "unat n - 1" res] by blast
  moreover have "cells u8_type ?m s ?out" by (rule cells_put [OF buf(1) out])
  moreover have "length (take (unat n - 1) res) + 1 < 2 ^ 32" using out(2) by simp
  ultimately have "zstring u8_type 0 ?m s (take (unat n - 1) res)" unfolding zstring_def by blast
  moreover have "agree_on (- {unat s ..< unat s + min (unat n) (length res + 1)}) (mm_bytes ?m) (mm_bytes (e_mem e))"
    using agree_on_put [OF out] unfolding len [symmetric] by simp
  ultimately show ?thesis using run by (intro exI [of _ ?m] conjI) simp_all
qed

subsection \<open>Properties\<close>

text \<open>C20: \<open>strftime\<close> with a buffer of \<open>n\<close> bytes writes the text of the date, cut off after \<open>n - 1\<close>
  bytes, and a terminator, changes no byte outside the buffer, and returns the length of the whole
  text also where it did not fit (C has it return 0 then); an empty buffer makes it panic.\<close>

theorem strftime_fills_buffer:
  assumes "c_locale e" and "read_env tm_type tp e = Some d" and "zstring u8_type 0 (e_mem e) f fs"
    and "strftime_text d fs = Some res" and "length res < 2 ^ 32"
    and "mm_null (e_mem e) \<le> s" and "unat s + unat n \<le> 2 ^ 32"
  shows "if n = 0 then strftime discard s n f tp e = None
    else \<exists>m. strftime discard s n f tp e = Some (of_nat (length res), e\<lparr>e_mem := m\<rparr>)
      \<and> zstring u8_type 0 m s (take (unat n - 1) res)
      \<and> agree_on (- {unat s ..< unat s + min (unat n) (length res + 1)}) (mm_bytes m) (mm_bytes (e_mem e))"
proof (cases "n = 0")
  case False
  then show ?thesis using strftime_run [OF assms(1-7)] by auto
next
  case True
  have "sub_chk n 1 = None" using True by (simp add: sub_chk_None)
  moreover have "strftime_loop (e_mem e) f d 0 [] = Some res"
    using strftime_loop_law [OF assms(3), of 0 d "[]"] assms(4) by simp
  ultimately have "strftime discard s n f tp e = None"
    using assms(1,2) unfolding strftime_def c_locale_def by (auto simp: setlocale_def)
  with True show ?thesis by simp
qed

text \<open>C21: \<open>strptime\<close> reads back what \<open>strftime\<close> wrote: for a format of literal characters,
  hours, minutes and seconds it accepts the whole text, returns the address of its end, and
  stores the fields of the date that the format names.\<close>

theorem strptime_inverts_strftime:
  assumes "c_locale e" and "read_env tm_type tp e = Some c" and "time_ok c" and "\<forall>x \<in> set items. item_ok x"
    and "zstring u8_type 0 (e_mem e) f (format_of items)" and "length (text_of c items) < unat n"
    and "mm_null (e_mem e) \<le> s" and "unat s + unat n \<le> 2 ^ 32"
    and "{unat s ..< unat s + unat n} \<inter> array_bytes u8_type f (length (format_of items) + 1) = {}"
    and "mm_null (e_mem e) \<le> q" and "unat q + 44 \<le> 2 ^ 32"
  shows "\<exists>e1 d e2. strftime discard s n f tp e = Some (of_nat (length (text_of c items)), e1)
    \<and> read_env tm_type q e1 = Some d
    \<and> strptime s f q e1 = Some (s + of_nat (length (text_of c items)), e2)
    \<and> read_env tm_type q e2 = Some (fold (item_store c) items d)"
proof -
  let ?t = "text_of c items"
  have len: "length ?t < 2 ^ 32" "n \<noteq> 0" using assms(6) unat_bound32 [of n] by auto
  from strftime_run [OF assms(1,2,5) strftime_text_items [OF assms(3,4)] len(1) assms(7,8) len(2)]
  obtain m where run: "strftime discard s n f tp e = Some (of_nat (length ?t), e\<lparr>e_mem := m\<rparr>)"
    and z: "zstring u8_type 0 m s (take (unat n - 1) ?t)"
    and agree: "agree_on (- {unat s ..< unat s + min (unat n) (length ?t + 1)}) (mm_bytes m) (mm_bytes (e_mem e))"
    and null: "mm_null m = mm_null (e_mem e)" by blast
  have zb: "zstring u8_type 0 m s ?t" using z assms(6) by simp
  have "array_bytes u8_type f (length (format_of items @ [0])) \<subseteq> - {unat s ..< unat s + min (unat n) (length ?t + 1)}"
  proof -
    have "{unat s ..< unat s + min (unat n) (length ?t + 1)} \<subseteq> {unat s ..< unat s + unat n}" by auto
    moreover have "array_bytes u8_type f (length (format_of items @ [0])) \<subseteq> - {unat s ..< unat s + unat n}"
      using assms(9) by (simp add: disjoint_eq_subset_Compl Int_commute)
    ultimately show ?thesis by blast
  qed
  with agree have "agree_on (array_bytes u8_type f (length (format_of items @ [0]))) (mm_bytes m) (mm_bytes (e_mem e))"
    by (rule agree_on_mono)
  then have zf: "zstring u8_type 0 m f (format_of items)"
    using assms(5) null u8c.cells_agree unfolding zstring_def by blast
  have loop: "strptime_loop m s f 0 0 d = Some (fold (item_store c) items d, Some (ix (length ?t)))" for d
    using strptime_loop_law [OF zb zf assms(3,4), of 0 0 d] by simp
  have sz: "gt_size tm_type = 44" by (simp add: tm_type_def)
  have rd: "\<exists>d. mem_read tm_type m q = Some d" using tmc.read_ok [of m q] assms(10,11) null sz by simp
  then obtain d where d: "mem_read tm_type m q = Some d" ..
  let ?m2 = "m\<lparr>mm_bytes := put_range (mm_bytes m) q (gt_enc tm_type (fold (item_store c) items d))\<rparr>"
  have w: "mem_write tm_type m q (fold (item_store c) items d) = Some ?m2"
    using tmc.write_ok [of m q] assms(10,11) null sz by simp
  have "mem_read tm_type ?m2 q = Some (fold (item_store c) items d)"
    using tmc.read_ok [of ?m2 q] assms(10,11) null sz get_put_same [of q "gt_enc tm_type (fold (item_store c) items d)" "mm_bytes m"]
    by (simp add: tmc.enc_length tmc.dec_enc)
  moreover have "ptr_add 1 s (ix (length ?t)) = Some (s + of_nat (length ?t))"
    using cells_u8(4) [OF zb, of "length ?t"] by (simp add: elem_ptr_def u8_type_def)
  ultimately show ?thesis using run d loop [of d] w
    by (intro exI [of _ "e\<lparr>e_mem := m\<rparr>"] exI [of _ d] exI [of _ "e\<lparr>e_mem := ?m2\<rparr>"])
      (simp add: strptime_def read_env_def write_env_def)
qed

text \<open>C22: \<open>mktime\<close> inverts \<open>gmtime_r\<close> through guest memory: of every time that can be read and for
  every place of a \<open>struct tm\<close> in memory.\<close>

theorem mktime_inverts_gmtime:
  assumes "read_env u32_type p e = Some ts" and "mm_null (e_mem e) \<le> res" and "unat res + 44 \<le> 2 ^ 32"
  shows "\<exists>e'. gmtime_r p res e = Some (res, e') \<and> localtime_r p res e = Some (res, e') \<and> mktime res e' = Some ts"
proof -
  obtain d where d: "timestamp_to_calendar_date ts = Some d" "calendar_date_to_timestamp d = Some ts"
    using timestamp_inverse by blast
  have sz: "gt_size tm_type = 44" by (simp add: tm_type_def)
  let ?m = "(e_mem e)\<lparr>mm_bytes := put_range (mm_bytes (e_mem e)) res (gt_enc tm_type d)\<rparr>"
  have "mem_write tm_type (e_mem e) res d = Some ?m" using tmc.write_ok [of "e_mem e" res] assms(2,3) sz by simp
  moreover have "mem_read tm_type ?m res = Some d"
    using tmc.read_ok [of ?m res] assms(2,3) sz get_put_same [of res "gt_enc tm_type d" "mm_bytes (e_mem e)"]
    by (simp add: tmc.enc_length tmc.dec_enc)
  ultimately show ?thesis using assms(1) d
    by (simp add: gmtime_r_def localtime_r_def mktime_def read_env_def write_env_def)
qed

text \<open>
  The examples' memory: the locale's name at \<open>0x1100\<close>, the date 13:37:08 at \<open>0x1200\<close>, the format
  \<open>%H:%M:%S\<close> at \<open>0x1300\<close> and the time 1000000000 at \<open>0x1500\<close>.
\<close>

definition demo_items :: "time_item list" where
  "demo_items = [Hour, Literal 0x3A, Minute, Literal 0x3A, Second]"

definition demo_date :: tm where
  "demo_date = \<lparr>tm_sec = 8, tm_min = 37, tm_hour = 13, tm_mday = 9, tm_mon = 8, tm_year = 101, tm_wday = 0, tm_yday = 251,
     tm_isdst = 0, tm_gmtoff = 0, tm_zone = 0\<rparr>"

definition time_mem :: guest_mem where
  "time_mem = demo_mem\<lparr>mm_bytes := put_range (put_range (put_range (put_range (\<lambda>_. 0) 0x1100 [0x43])
     0x1200 (gt_enc tm_type demo_date)) 0x1300 (format_of demo_items)) 0x1500 (le_enc 4 (1000000000 :: u32))\<rparr>"

definition time_env :: env where
  "time_env = (demo_env [demo_thread NotBlocked])\<lparr>e_mem := time_mem,
     e_libc := empty_libc\<lparr>lc_locale := (\<lambda>c. if c = LC_CTYPE then Some 0x1100 else None)\<rparr>\<rparr>"

lemma zstring_u8_type: "zstring u8_type 0 m p xs = zstring u8_char 0 m p xs"
  by (simp add: zstring_def cells_def array_ok_def elem_at_def mem_read_def u8_char_def u8_type_def)

lemma time_mem_reads:
  "mem_read u8_type time_mem 0x1100 = Some 0x43"
  "mem_read tm_type time_mem 0x1200 = Some demo_date"
  "mem_read u32_type time_mem 0x1500 = Some 1000000000"
  "mm_null time_mem = 0x1000"
  "get_range (mm_bytes time_mem) 0x1300 9 = format_of demo_items @ [0]"
  by code_simp+

lemma time_env_ok:
  "c_locale time_env" "read_env tm_type 0x1200 time_env = Some demo_date" "read_env u32_type 0x1500 time_env = Some 1000000000"
  "zstring u8_type 0 (e_mem time_env) 0x1300 (format_of demo_items)" "mm_null (e_mem time_env) = 0x1000"
proof -
  have l: "length (format_of demo_items) + 1 = 9" by (simp add: format_of_def demo_items_def)
  have "0 \<notin> set (format_of demo_items)" by (simp add: format_of_def demo_items_def)
  then have "zstring u8_char 0 time_mem 0x1300 (format_of demo_items)"
    by (intro u8_zstring) (unfold l, simp_all add: time_mem_reads)
  then show "zstring u8_type 0 (e_mem time_env) 0x1300 (format_of demo_items)"
    by (simp add: time_env_def zstring_u8_type)
qed (simp_all add: c_locale_def time_env_def read_env_def time_mem_reads)

lemma demo_text:
  "strftime_text demo_date (format_of demo_items) = Some [0x31, 0x33, 0x3A, 0x33, 0x37, 0x3A, 0x30, 0x38]"
  "text_of demo_date demo_items = [0x31, 0x33, 0x3A, 0x33, 0x37, 0x3A, 0x30, 0x38]"
  by code_simp+

theorem strftime_fills_buffer_witness:
  "\<exists>m. strftime (\<lambda>_ _ f. Some f) 0x1400 6 0x1300 0x1200 time_env = Some (8, time_env\<lparr>e_mem := m\<rparr>)
    \<and> zstring u8_type 0 m 0x1400 [0x31, 0x33, 0x3A, 0x33, 0x37]"
  using strftime_fills_buffer [OF time_env_ok(1,2,4) demo_text(1), of "0x1400" 6 "\<lambda>_ _ f. Some f"] time_env_ok(5) by auto

theorem strptime_inverts_strftime_witness:
  "\<exists>e1 d e2. strftime (\<lambda>_ _ f. Some f) 0x1400 16 0x1300 0x1200 time_env = Some (8, e1)
    \<and> strptime 0x1400 0x1300 0x1600 e1 = Some (0x1408, e2)
    \<and> read_env tm_type 0x1600 e2 = Some (d\<lparr>tm_hour := 13, tm_min := 37, tm_sec := 8\<rparr>)"
proof -
  have "fold (item_store demo_date) demo_items d = d\<lparr>tm_hour := 13, tm_min := 37, tm_sec := 8\<rparr>" for d :: tm
    by (simp add: demo_items_def demo_date_def)
  moreover have "time_ok demo_date" "\<forall>x \<in> set demo_items. item_ok x"
    by (simp_all add: time_ok_def demo_date_def demo_items_def isspace_inner_def)
  moreover have "length (format_of demo_items) = 8" by (simp add: format_of_def demo_items_def)
  ultimately show ?thesis
    using strptime_inverts_strftime [OF time_env_ok(1,2) _ _ time_env_ok(4), of 16 "0x1400" "0x1600" "\<lambda>_ _ f. Some f"] time_env_ok(5)
    by (simp add: demo_text array_bytes_def u8_type_def) blast
qed

theorem mktime_inverts_gmtime_witness:
  "\<exists>e'. gmtime_r 0x1500 0x1600 time_env = Some (0x1600, e') \<and> mktime 0x1600 e' = Some 1000000000"
  using mktime_inverts_gmtime [OF time_env_ok(3), of "0x1600"] time_env_ok(5) by auto

end
