(* ===== verification/Load_Order.thy ===== *)
theory Load_Order
  imports Rust_Prelude
begin

text \<open>
  The order in which the static initializers of the application's binaries run:
  \<open>generate_binary_load_order\<close> of \<open>src/environment.rs\<close>, Kahn's algorithm. The order in which a
  \<open>HashMap\<close> enumerates its keys is not specified; it is the parameter \<open>keys\<close>, a list of the
  keys of \<open>node_in_degrees\<close>. The loop is a partial function; that it ends is proved.
\<close>

subsection \<open>The algorithm\<close>

record binary_node =
  bn_name :: string
  bn_dependencies :: "string list"

datatype load_error = No_Mapping string | Cycle_With string

text \<open>\<open>path.strip_prefix("/usr/lib/").unwrap_or(path)\<close>\<close>

definition dylib_name :: "string \<Rightarrow> string" where
  "dylib_name path = (if take 9 path = ''/usr/lib/'' then drop 9 path else path)"

fun index_names :: "nat \<Rightarrow> binary_node list \<Rightarrow> (string \<Rightarrow> nat option) \<Rightarrow> string \<Rightarrow> nat option" where
  "index_names i [] idx = idx"
| "index_names i (node # nodes) idx = index_names (Suc i) nodes (idx(bn_name node \<mapsto> i))"

definition node_to_index :: "binary_node list \<Rightarrow> string \<Rightarrow> nat option" where
  "node_to_index graph = index_names 0 graph Map.empty"

type_synonym dep_state = "(nat \<Rightarrow> nat list option) \<times> (nat \<Rightarrow> int option)"

text \<open>One dependency: \<open>dylib\<close> gets a dependent and \<open>bin\<close> one more incoming edge.\<close>

fun add_edge :: "nat \<times> nat \<Rightarrow> dep_state \<Rightarrow> dep_state" where
  "add_edge (dylib, bin) (dependents, degrees) =
     (dependents(dylib \<mapsto> (case dependents dylib of None \<Rightarrow> [] | Some bs \<Rightarrow> bs) @ [bin]),
      degrees(bin := map_option (\<lambda>d. d + 1) (degrees bin)))"

fun add_dependencies :: "(string \<Rightarrow> nat option) \<Rightarrow> nat \<Rightarrow> string list \<Rightarrow> dep_state \<Rightarrow> dep_state" where
  "add_dependencies idx bin [] st = st"
| "add_dependencies idx bin (path # paths) st =
     (case idx (dylib_name path) of
        None \<Rightarrow> add_dependencies idx bin paths st
      | Some dylib \<Rightarrow> add_dependencies idx bin paths (add_edge (dylib, bin) st))"

fun build_graph :: "(string \<Rightarrow> nat option) \<Rightarrow> binary_node list \<Rightarrow> dep_state \<Rightarrow> load_error + dep_state" where
  "build_graph idx [] st = Inr st"
| "build_graph idx (node # nodes) st =
     (case idx (bn_name node) of
        None \<Rightarrow> Inl (No_Mapping (bn_name node))
      | Some bin \<Rightarrow> build_graph idx nodes (add_dependencies idx bin (bn_dependencies node) st))"

text \<open>The values of \<open>node_to_index\<close> are the values at the nodes' names.\<close>

definition zero_degrees :: "binary_node list \<Rightarrow> nat \<Rightarrow> int option" where
  "zero_degrees graph i =
     (if Some i \<in> set (map (\<lambda>node. node_to_index graph (bn_name node)) graph) then Some 0 else None)"

text \<open>The inner loop: the dependents of a node that has been taken from the queue.\<close>

fun relax :: "nat list \<Rightarrow> (nat \<Rightarrow> int option) \<Rightarrow> nat list \<Rightarrow> (nat \<Rightarrow> int option) \<times> nat list" where
  "relax [] degrees leaves = (degrees, leaves)"
| "relax (b # bs) degrees leaves =
     (case degrees b of
        None \<Rightarrow> relax bs degrees leaves
      | Some d \<Rightarrow> relax bs (degrees(b \<mapsto> d - 1)) (if d - 1 = 0 then leaves @ [b] else leaves))"

partial_function (option) kahn_loop ::
    "(nat \<Rightarrow> nat list option) \<Rightarrow> (nat \<Rightarrow> int option) \<Rightarrow> nat list \<Rightarrow> nat list \<Rightarrow> ((nat \<Rightarrow> int option) \<times> nat list) option" where
  "kahn_loop dependents degrees leaves order =
     (case leaves of
        [] \<Rightarrow> Some (degrees, order)
      | node # rest \<Rightarrow>
          (case dependents node of
             None \<Rightarrow> kahn_loop dependents degrees rest (order @ [node])
           | Some bs \<Rightarrow>
               (case relax bs degrees rest of
                  (degrees', leaves') \<Rightarrow> kahn_loop dependents degrees' leaves' (order @ [node]))))"

definition generate_binary_load_order :: "nat list \<Rightarrow> binary_node list \<Rightarrow> (load_error + nat list) run" where
  "generate_binary_load_order keys graph =
     (case build_graph (node_to_index graph) graph (\<lambda>_. None, zero_degrees graph) of
        Inl err \<Rightarrow> Some (Inl err)
      | Inr (dependents, degrees) \<Rightarrow> do {
          (degrees', order) \<leftarrow> kahn_loop dependents degrees (filter (\<lambda>i. degrees i = Some 0) keys) [];
          case find (\<lambda>i. case degrees' i of Some d \<Rightarrow> 0 < d | None \<Rightarrow> False) keys of
            Some i \<Rightarrow> if i < length graph then Some (Inl (Cycle_With (bn_name (graph ! i)))) else None
          | None \<Rightarrow> Some (Inr order) })"

subsection \<open>The graph that is built\<close>

fun dependency_edges :: "(string \<Rightarrow> nat option) \<Rightarrow> nat \<Rightarrow> string list \<Rightarrow> (nat \<times> nat) list" where
  "dependency_edges idx bin [] = []"
| "dependency_edges idx bin (path # paths) =
     (case idx (dylib_name path) of None \<Rightarrow> [] | Some dylib \<Rightarrow> [(dylib, bin)]) @ dependency_edges idx bin paths"

definition graph_edges :: "binary_node list \<Rightarrow> (nat \<times> nat) list" where
  "graph_edges graph = concat (map (\<lambda>i. dependency_edges (node_to_index graph) i (bn_dependencies (graph ! i))) [0..<length graph])"

text \<open>\<open>depends graph\<close>: the pairs of a binary and a binary of the graph that it names as a dependency.\<close>

definition depends :: "binary_node list \<Rightarrow> (nat \<times> nat) set" where
  "depends graph = {(i, j). i < length graph \<and>
     (\<exists>path \<in> set (bn_dependencies (graph ! i)). node_to_index graph (dylib_name path) = Some j)}"

lemma dependency_edges_iff:
  "(j, i) \<in> set (dependency_edges idx b paths) \<longleftrightarrow> i = b \<and> (\<exists>path \<in> set paths. idx (dylib_name path) = Some j)"
  by (induction paths) (auto split: option.splits)

lemma graph_edges_iff: "(j, i) \<in> set (graph_edges graph) \<longleftrightarrow> (i, j) \<in> depends graph"
  by (auto simp: graph_edges_def depends_def dependency_edges_iff)

lemma add_dependencies_fold: "add_dependencies idx b paths st = fold add_edge (dependency_edges idx b paths) st"
  by (induction paths arbitrary: st) (auto split: option.splits)

lemma index_names_other: "n \<notin> bn_name ` set nodes \<Longrightarrow> index_names i nodes idx n = idx n"
  by (induction i nodes idx rule: index_names.induct) auto

lemma index_names_at:
  "distinct (map bn_name nodes) \<Longrightarrow> k < length nodes \<Longrightarrow> index_names i nodes idx (bn_name (nodes ! k)) = Some (i + k)"
proof (induction i nodes idx arbitrary: k rule: index_names.induct)
  case (2 i node nodes idx)
  then show ?case by (cases k) (auto simp: index_names_other fun_upd_def)
qed simp

lemma index_names_range:
  "index_names i nodes idx n = Some k \<Longrightarrow> idx n = Some k \<or> (i \<le> k \<and> k < i + length nodes)"
  by (induction i nodes idx rule: index_names.induct) (force split: if_splits)+

lemma node_to_index_at: "distinct (map bn_name graph) \<Longrightarrow> k < length graph \<Longrightarrow> node_to_index graph (bn_name (graph ! k)) = Some k"
  using index_names_at [of graph k 0] by (simp add: node_to_index_def)

lemma node_to_index_less: "node_to_index graph n = Some k \<Longrightarrow> k < length graph"
  using index_names_range [of 0 graph Map.empty n k] by (simp add: node_to_index_def)

lemma build_graph_fold:
  assumes "\<forall>k < length nodes. idx (bn_name (nodes ! k)) = Some (i + k)"
  shows "build_graph idx nodes st =
    Inr (fold add_edge (concat (map (\<lambda>k. dependency_edges idx (i + k) (bn_dependencies (nodes ! k))) [0..<length nodes])) st)"
  using assms
proof (induction nodes arbitrary: i st)
  case (Cons node nodes)
  have "\<forall>k < length nodes. idx (bn_name (nodes ! k)) = Some (Suc i + k)"
    using Cons.prems by auto
  moreover have "idx (bn_name node) = Some i" using Cons.prems [rule_format, of 0] by simp
  ultimately show ?case using Cons.IH [of "Suc i"]
    by (auto simp: add_dependencies_fold upt_conv_Cons map_Suc_upt [symmetric] comp_def simp del: upt_Suc)
qed simp

definition in_degree :: "(nat \<times> nat) list \<Rightarrow> nat set \<Rightarrow> nat \<Rightarrow> nat" where
  "in_degree es fin i = length (filter (\<lambda>(j, k). k = i \<and> j \<notin> fin) es)"

definition dependents_of :: "(nat \<times> nat) list \<Rightarrow> nat \<Rightarrow> nat list" where
  "dependents_of es j = map snd (filter (\<lambda>e. fst e = j) es)"

lemma fold_edges:
  assumes "\<forall>i. degs i = (if i < n then Some 0 else None)"
  shows "fold add_edge es (\<lambda>_. None, degs) =
    (\<lambda>j. if j \<in> fst ` set es then Some (dependents_of es j) else None,
     \<lambda>i. if i < n then Some (int (in_degree es {} i)) else None)"
proof (induction es rule: rev_induct)
  case Nil
  then show ?case using assms by (auto simp: in_degree_def)
next
  case (snoc e es)
  obtain j b where e: "e = (j, b)" by (cases e)
  show ?case
    by (auto simp: snoc e fun_eq_iff dependents_of_def in_degree_def image_iff filter_empty_conv)
qed

subsection \<open>The loop\<close>

lemma relax_law:
  assumes "\<forall>b \<in> set bs. b < n" and "\<forall>b. count_list bs b \<le> f b"
  shows "\<exists>new. relax bs (\<lambda>i. if i < n then Some (int (f i)) else None) q
      = ((\<lambda>i. if i < n then Some (int (f i - count_list bs i)) else None), q @ new)
    \<and> distinct new \<and> set new = {b \<in> set bs. f b = count_list bs b}"
  using assms
proof (induction bs arbitrary: f q)
  case Nil
  then show ?case by (auto simp: fun_eq_iff)
next
  case (Cons b bs)
  define g where "g = f(b := f b - 1)"
  have fb: "1 + count_list bs b \<le> f b" using Cons.prems(2) [rule_format, of b] by simp
  have "count_list bs x \<le> g x" for x
    using Cons.prems(2) [rule_format, of x] fb by (cases "x = b") (simp_all add: g_def)
  then have g: "\<forall>x. count_list bs x \<le> g x" ..
  let ?q = "if f b = 1 then q @ [b] else q"
  from Cons.IH [OF _ g, of ?q] Cons.prems(1) obtain new where
    new: "relax bs (\<lambda>i. if i < n then Some (int (g i)) else None) ?q
      = ((\<lambda>i. if i < n then Some (int (g i - count_list bs i)) else None), ?q @ new)"
      "distinct new" "set new = {x \<in> set bs. g x = count_list bs x}" by auto
  have degs: "(\<lambda>i. if i < n then Some (int (f i)) else None)(b \<mapsto> int (f b) - 1)
      = (\<lambda>i. if i < n then Some (int (g i)) else None)"
    using Cons.prems(1) fb by (auto simp: g_def fun_eq_iff)
  have step: "relax (b # bs) (\<lambda>i. if i < n then Some (int (f i)) else None) q
      = relax bs (\<lambda>i. if i < n then Some (int (g i)) else None) ?q"
    using Cons.prems(1) fb degs by auto
  have sub: "g i - count_list bs i = f i - count_list (b # bs) i" for i using fb by (auto simp: g_def)
  show ?case
  proof (cases "f b = 1")
    case True
    then have "count_list bs b = 0" using fb by simp
    then have "b \<notin> set bs" by (simp add: count_list_0_iff)
    then have "set (b # new) = {x \<in> set (b # bs). f x = count_list (b # bs) x}" "distinct (b # new)"
      using new(2,3) True by (auto simp: g_def)
    then show ?thesis using step new(1) True unfolding sub by (intro exI [of _ "b # new"]) simp
  next
    case False
    have member: "b \<in> set bs" if "f b = count_list (b # bs) b"
    proof -
      have "0 < count_list bs b" using that False fb by simp
      then show ?thesis using count_list_0_iff [of bs b] by auto
    qed
    have "x \<in> set new \<longleftrightarrow> x \<in> set (b # bs) \<and> f x = count_list (b # bs) x" for x
    proof (cases "x = b")
      case True
      have "f b - 1 = count_list bs b \<longleftrightarrow> f b = count_list bs b + 1" using fb by linarith
      then show ?thesis using new(3) member True by (simp add: g_def) blast
    next
      case False
      then show ?thesis using new(3) by (simp add: g_def)
    qed
    then have "set new = {x \<in> set (b # bs). f x = count_list (b # bs) x}" by blast
    then show ?thesis using step new(1,2) False unfolding sub by (intro exI [of _ new]) simp
  qed
qed

text \<open>The invariant of the loop, for the edges \<open>es\<close> between the nodes below \<open>n\<close>.\<close>

definition kahn_inv :: "nat \<Rightarrow> (nat \<times> nat) list \<Rightarrow> (nat \<Rightarrow> int option) \<Rightarrow> nat list \<Rightarrow> nat list \<Rightarrow> bool" where
  "kahn_inv n es degrees leaves order \<longleftrightarrow> distinct (order @ leaves) \<and> set (order @ leaves) \<subseteq> {..<n}
     \<and> degrees = (\<lambda>i. if i < n then Some (int (in_degree es (set order) i)) else None)
     \<and> (\<forall>i < n. in_degree es (set order) i = 0 \<longleftrightarrow> i \<in> set (order @ leaves))
     \<and> (\<forall>xs i ys j. order @ leaves = xs @ i # ys \<longrightarrow> (j, i) \<in> set es \<longrightarrow> j \<in> set xs)"

lemma in_degree_0: "in_degree es fin i = 0 \<longleftrightarrow> (\<forall>j. (j, i) \<in> set es \<longrightarrow> j \<in> fin)"
  by (auto simp: in_degree_def filter_empty_conv)

lemma in_degree_insert:
  "v \<notin> fin \<Longrightarrow> in_degree es fin i = in_degree es (insert v fin) i + count_list (dependents_of es v) i"
  by (induction es) (auto simp: in_degree_def dependents_of_def)

lemma dependents_of_iff: "i \<in> set (dependents_of es v) \<longleftrightarrow> (v, i) \<in> set es"
  by (force simp: dependents_of_def)

lemma append_split:
  assumes "as @ bs = xs @ i # ys"
  shows "(\<exists>us. as = xs @ i # us) \<or> (\<exists>us. xs = as @ us \<and> bs = us @ i # ys)"
proof -
  from assms obtain us where "as = xs @ us \<and> us @ bs = i # ys \<or> as @ us = xs \<and> bs = us @ i # ys"
    unfolding append_eq_append_conv2 by blast
  then show ?thesis by (cases us) auto
qed

lemma kahn_step:
  assumes inv: "kahn_inv n es degrees (v # rest) order" and es: "\<forall>(j, i) \<in> set es. j < n \<and> i < n"
  shows "\<exists>new degrees'. relax (dependents_of es v) degrees rest = (degrees', rest @ new)
    \<and> kahn_inv n es degrees' (rest @ new) (order @ [v])"
proof -
  let ?S = "set order" and ?bs = "dependents_of es v"
  have v: "v \<notin> ?S" "v < n" and dist: "distinct (order @ v # rest)"
    and degs: "degrees = (\<lambda>i. if i < n then Some (int (in_degree es ?S i)) else None)"
    and zero: "\<And>i. i < n \<Longrightarrow> in_degree es ?S i = 0 \<longleftrightarrow> i \<in> set (order @ v # rest)"
    and pre: "\<And>xs i ys j. order @ v # rest = xs @ i # ys \<Longrightarrow> (j, i) \<in> set es \<Longrightarrow> j \<in> set xs"
    using inv unfolding kahn_inv_def by auto
  note ins = in_degree_insert [OF v(1), of es]
  have bs: "\<forall>b \<in> set ?bs. b < n" using es by (auto simp: dependents_of_iff)
  have cnt: "\<forall>b. count_list ?bs b \<le> in_degree es ?S b" using ins by simp
  from relax_law [OF bs cnt, of rest] obtain new where
    new: "relax ?bs degrees rest = ((\<lambda>i. if i < n then Some (int (in_degree es ?S i - count_list ?bs i)) else None), rest @ new)"
      "distinct new" "set new = {b \<in> set ?bs. in_degree es ?S b = count_list ?bs b}"
    unfolding degs by blast
  have after: "in_degree es ?S i - count_list ?bs i = in_degree es (insert v ?S) i" for i using ins [of i] by simp
  have newly: "i \<in> set new \<longleftrightarrow> i \<in> set ?bs \<and> in_degree es (insert v ?S) i = 0" for i
    using new(3) ins [of i] by auto
  have old: "i \<notin> set new" if "i \<in> set (order @ v # rest)" for i
  proof
    assume "i \<in> set new"
    then have "i \<in> set ?bs" by (simp add: newly)
    then have "count_list ?bs i \<noteq> 0" and "i < n" using bs count_list_0_iff [of ?bs i] by auto
    then show False using zero [of i] that ins [of i] by simp
  qed
  have zero': "in_degree es (insert v ?S) i = 0 \<longleftrightarrow> i \<in> set (order @ v # rest @ new)" if "i < n" for i
  proof (cases "i \<in> set ?bs")
    case True
    then show ?thesis using zero [OF that] ins [of i] newly [of i] by auto
  next
    case False
    then have "count_list ?bs i = 0" by simp
    then show ?thesis using zero [OF that] ins [of i] newly [of i] False by auto
  qed
  have pre': "j \<in> set xs" if split: "order @ v # rest @ new = xs @ i # ys" and e: "(j, i) \<in> set es" for xs i ys j
  proof -
    from split have "(\<exists>us. (order @ v # rest) = xs @ i # us) \<or> (\<exists>us. xs = (order @ v # rest) @ us \<and> new = us @ i # ys)"
      by (intro append_split) simp
    then show ?thesis
    proof
      assume "\<exists>us. (order @ v # rest) = xs @ i # us"
      with pre e show ?thesis by blast
    next
      assume "\<exists>us. xs = (order @ v # rest) @ us \<and> new = us @ i # ys"
      then have "i \<in> set new" and sub: "set (order @ v # rest) \<subseteq> set xs" by auto
      then have "in_degree es (insert v ?S) i = 0" by (simp add: newly)
      then have "j \<in> insert v ?S" using e by (simp add: in_degree_0)
      with sub show ?thesis by auto
    qed
  qed
  have "kahn_inv n es (\<lambda>i. if i < n then Some (int (in_degree es ?S i - count_list ?bs i)) else None) (rest @ new) (order @ [v])"
    unfolding kahn_inv_def
  proof (intro conjI allI impI)
    show "distinct ((order @ [v]) @ rest @ new)" using dist new(2) old by auto
    show "set ((order @ [v]) @ rest @ new) \<subseteq> {..<n}" using inv bs newly by (auto simp: kahn_inv_def)
    show "(\<lambda>i. if i < n then Some (int (in_degree es ?S i - count_list ?bs i)) else None)
        = (\<lambda>i. if i < n then Some (int (in_degree es (set (order @ [v])) i)) else None)" by (simp add: after cong: if_cong)
    show "in_degree es (set (order @ [v])) i = 0 \<longleftrightarrow> i \<in> set ((order @ [v]) @ rest @ new)" if "i < n" for i
      using zero' [OF that] by simp
    show "j \<in> set xs" if "(order @ [v]) @ rest @ new = xs @ i # ys" "(j, i) \<in> set es" for xs i ys j
      using pre' [of xs i ys j] that by simp
  qed
  then show ?thesis using new(1) by blast
qed

lemma kahn_skip:
  assumes inv: "kahn_inv n es degrees (v # rest) order" and no: "dependents_of es v = []"
  shows "kahn_inv n es degrees rest (order @ [v])"
proof -
  have "v \<notin> set order" using inv by (simp add: kahn_inv_def)
  from in_degree_insert [OF this, of es] no have "in_degree es (set (order @ [v])) i = in_degree es (set order) i" for i
    by simp
  then show ?thesis using inv unfolding kahn_inv_def by (simp cong: if_cong)
qed

lemma kahn_loop_law:
  assumes es: "\<forall>(j, i) \<in> set es. j < n \<and> i < n"
  shows "kahn_inv n es degrees leaves order
    \<Longrightarrow> \<exists>degrees' order'. kahn_loop (\<lambda>j. if j \<in> fst ` set es then Some (dependents_of es j) else None) degrees leaves order
        = Some (degrees', order') \<and> kahn_inv n es degrees' [] order'"
proof (induction "n - length order" arbitrary: degrees leaves order rule: less_induct)
  case less
  show ?case
  proof (cases leaves)
    case Nil
    then show ?thesis using less.prems by (subst kahn_loop.simps) simp
  next
    case (Cons v rest)
    have "card (set (order @ leaves)) \<le> card {..<n}"
      using less.prems by (intro card_mono) (auto simp: kahn_inv_def)
    moreover have "distinct (order @ leaves)" using less.prems by (simp add: kahn_inv_def)
    ultimately have "length (order @ leaves) \<le> n" using distinct_card [of "order @ leaves"] by simp
    then have fewer: "n - length (order @ [v]) < n - length order" using Cons by simp
    show ?thesis
    proof (cases "v \<in> fst ` set es")
      case True
      from kahn_step [OF less.prems [unfolded Cons] es] obtain new degrees' where
        new: "relax (dependents_of es v) degrees rest = (degrees', rest @ new)"
          "kahn_inv n es degrees' (rest @ new) (order @ [v])" by blast
      from less.hyps [OF fewer new(2)] show ?thesis using new(1) True Cons by (subst kahn_loop.simps) simp
    next
      case False
      then have "dependents_of es v = []" by (auto simp: dependents_of_def filter_empty_conv)
      from less.hyps [OF fewer kahn_skip [OF less.prems [unfolded Cons] this]] show ?thesis
        using False Cons by (subst kahn_loop.simps) simp
    qed
  qed
qed

text \<open>When the loop ends with nodes left over, each of them depends on another one left over.\<close>

lemma left_over_reaches_cycle:
  assumes "finite R" and "i \<in> R" and next_in: "\<And>k. k \<in> R \<Longrightarrow> \<exists>j \<in> R. (k, j) \<in> r"
  shows "\<exists>j. (j, j) \<in> r\<^sup>+ \<and> (i, j) \<in> r\<^sup>*"
proof -
  define Q where "Q = {k \<in> R. (i, k) \<in> r\<^sup>*}"
  let ?r = "(r \<inter> Q \<times> Q)\<inverse>"
  have fin: "finite Q" using assms(1) by (simp add: Q_def)
  have "finite ?r" using finite_subset [of "r \<inter> Q \<times> Q" "Q \<times> Q"] fin by blast
  have "\<not> wf ?r"
  proof
    assume "wf ?r"
    moreover have "i \<in> Q" using assms(2) by (simp add: Q_def)
    ultimately obtain z where z: "z \<in> Q" "\<And>y. (y, z) \<in> ?r \<Longrightarrow> y \<notin> Q" by (metis wfE_min)
    then obtain j where "j \<in> R" "(z, j) \<in> r" using next_in by (auto simp: Q_def)
    moreover from this z(1) have "j \<in> Q" by (auto simp: Q_def intro: rtrancl_into_rtrancl)
    ultimately show False using z by blast
  qed
  then have "\<not> acyclic ?r" using finite_acyclic_wf [OF \<open>finite ?r\<close>] by blast
  then obtain j where j: "(j, j) \<in> (r \<inter> Q \<times> Q)\<^sup>+"
    by (auto simp: acyclic_def trancl_converse)
  then have "(j, j) \<in> r\<^sup>+" by (rule trancl_mono) simp
  moreover from j have "j \<in> Q" by (induction rule: trancl_induct) auto
  ultimately show ?thesis by (auto simp: Q_def)
qed

lemma takeWhile_first: "i \<notin> set xs \<Longrightarrow> takeWhile (\<lambda>k. k \<noteq> i) (xs @ i # ys) = xs"
  by (induction xs) auto

lemma ordered_acyclic:
  assumes "\<And>i j. (i, j) \<in> r \<Longrightarrow> i \<in> set order"
    and "\<And>xs i ys j. order = xs @ i # ys \<Longrightarrow> (i, j) \<in> r \<Longrightarrow> j \<in> set xs"
  shows "acyclic (r :: (nat \<times> nat) set)"
proof -
  define pos where "pos i = length (takeWhile (\<lambda>k. k \<noteq> i) order)" for i
  have "pos j < pos i" if e: "(i, j) \<in> r" for i j
  proof -
    from split_list_first [OF assms(1) [OF e]] obtain xs ys where xs: "order = xs @ i # ys" "i \<notin> set xs" by blast
    then have "pos i = length xs" by (simp add: pos_def takeWhile_first)
    moreover have "j \<in> set xs" by (rule assms(2) [OF xs(1) e])
    then obtain us vs where "xs = us @ j # vs" "j \<notin> set us" by (meson split_list_first)
    moreover from this have "pos j = length us" using takeWhile_first [of j us "vs @ i # ys"] xs(1) by (simp add: pos_def)
    ultimately show ?thesis by simp
  qed
  then have "r \<subseteq> (measure pos)\<inverse>" by auto
  moreover have "acyclic ((measure pos)\<inverse>)" by (simp add: wf_acyclic)
  ultimately show ?thesis by (rule acyclic_subset [rotated])
qed

subsection \<open>Properties\<close>

lemma build_graph_law:
  assumes "distinct (map bn_name graph)"
  shows "build_graph (node_to_index graph) graph (\<lambda>_. None, zero_degrees graph) = Inr
    (\<lambda>j. if j \<in> fst ` set (graph_edges graph) then Some (dependents_of (graph_edges graph) j) else None,
     \<lambda>i. if i < length graph then Some (int (in_degree (graph_edges graph) {} i)) else None)"
proof -
  have "Some i \<in> set (map (\<lambda>node. node_to_index graph (bn_name node)) graph) \<longleftrightarrow> i < length graph" for i
  proof
    assume i: "i < length graph"
    have "node_to_index graph (bn_name (graph ! i)) \<in> set (map (\<lambda>node. node_to_index graph (bn_name node)) graph)"
      using nth_mem [OF i] by simp
    then show "Some i \<in> set (map (\<lambda>node. node_to_index graph (bn_name node)) graph)"
      by (simp only: node_to_index_at [OF assms i])
  next
    assume "Some i \<in> set (map (\<lambda>node. node_to_index graph (bn_name node)) graph)"
    then obtain node :: binary_node where "Some i = node_to_index graph (bn_name node)" by auto
    from this [symmetric] show "i < length graph" by (rule node_to_index_less)
  qed
  then have "\<forall>i. zero_degrees graph i = (if i < length graph then Some 0 else None)"
    by (simp add: zero_degrees_def)
  note edges = fold_edges [OF this]
  have "build_graph (node_to_index graph) graph st = Inr (fold add_edge (graph_edges graph) st)" for st
    using build_graph_fold [of graph "node_to_index graph" 0 st] node_to_index_at [OF assms]
    by (simp add: graph_edges_def)
  then show ?thesis by (simp only: edges)
qed

lemma kahn_inv_start:
  assumes "distinct keys" and "set keys = {..<n}"
  shows "kahn_inv n es (\<lambda>i. if i < n then Some (int (in_degree es {} i)) else None)
    (filter (\<lambda>i. (if i < n then Some (int (in_degree es {} i)) else None) = Some 0) keys) []"
proof -
  let ?q = "filter (\<lambda>i. (if i < n then Some (int (in_degree es {} i)) else None) = Some 0) keys"
  have q: "i \<in> set ?q \<longleftrightarrow> i < n \<and> in_degree es {} i = 0" for i using assms(2) by auto
  show ?thesis unfolding kahn_inv_def
  proof (intro conjI allI impI)
    show "in_degree es (set []) i = 0 \<longleftrightarrow> i \<in> set ([] @ ?q)" if "i < n" for i using q [of i] that by simp
    show "j \<in> set xs" if "[] @ ?q = xs @ i # ys" "(j, i) \<in> set es" for xs i ys j
    proof -
      have "i \<in> set ?q" unfolding that(1) [simplified append_Nil] by simp
      then have "in_degree es {} i = 0" unfolding q ..
      then show ?thesis using that(2) unfolding in_degree_0 by blast
    qed
    show "set ([] @ ?q) \<subseteq> {..<n}" using q by auto
  qed (use assms(1) in \<open>simp_all cong: if_cong\<close>)
qed

text \<open>C23: for binaries of distinct names, and however the hash map enumerates its keys, the
  computation ends. It yields an order that has every binary once and each after the binaries
  it depends on, and this happens exactly if the dependencies are acyclic; otherwise it reports
  a binary from which a cycle is reached.\<close>

theorem load_order_is_topological:
  assumes "distinct (map bn_name graph)" and "distinct keys" and "set keys = {..<length graph}"
  shows "\<exists>r. generate_binary_load_order keys graph = Some r \<and> (case r of
      Inr order \<Rightarrow> acyclic (depends graph) \<and> distinct order \<and> set order = {..<length graph}
        \<and> (\<forall>xs i ys j. order = xs @ i # ys \<longrightarrow> (i, j) \<in> depends graph \<longrightarrow> j \<in> set xs)
    | Inl err \<Rightarrow> \<exists>i j. i < length graph \<and> err = Cycle_With (bn_name (graph ! i))
        \<and> (i, j) \<in> (depends graph)\<^sup>* \<and> (j, j) \<in> (depends graph)\<^sup>+)"
proof -
  let ?n = "length graph" and ?es = "graph_edges graph"
  have es: "\<forall>(j, i) \<in> set ?es. j < ?n \<and> i < ?n"
    using node_to_index_less by (auto simp: graph_edges_iff depends_def)
  from kahn_loop_law [OF es kahn_inv_start [OF assms(2,3), of ?es]] obtain degs order where
    run: "kahn_loop (\<lambda>j. if j \<in> fst ` set ?es then Some (dependents_of ?es j) else None)
        (\<lambda>i. if i < ?n then Some (int (in_degree ?es {} i)) else None)
        (filter (\<lambda>i. (if i < ?n then Some (int (in_degree ?es {} i)) else None) = Some 0) keys) [] = Some (degs, order)"
    and inv: "kahn_inv ?n ?es degs [] order" by blast
  let ?left = "\<lambda>i. case degs i of Some d \<Rightarrow> 0 < d | None \<Rightarrow> False"
  have order: "distinct order" "set order \<subseteq> {..<?n}"
    and zero: "\<And>i. i < ?n \<Longrightarrow> in_degree ?es (set order) i = 0 \<longleftrightarrow> i \<in> set order"
    and pre: "\<And>xs i ys j. order = xs @ i # ys \<Longrightarrow> (i, j) \<in> depends graph \<Longrightarrow> j \<in> set xs"
    using inv unfolding kahn_inv_def by (auto simp: graph_edges_iff)
  have left: "?left i \<longleftrightarrow> i \<notin> set order" if "i < ?n" for i
    using inv zero [OF that] that by (auto simp: kahn_inv_def)
  show ?thesis
  proof (cases "find ?left keys")
    case None
    then have "set order = {..<?n}" using left order(2) assms(3) by (auto simp: find_None_iff)
    moreover have "acyclic (depends graph)"
      by (rule ordered_acyclic [OF _ pre]) (use calculation in \<open>auto simp: depends_def\<close>)
    moreover have "generate_binary_load_order keys graph = Some (Inr order)"
      using None run build_graph_law [OF assms(1)] by (simp add: generate_binary_load_order_def)
    moreover have "\<forall>xs i ys j. order = xs @ i # ys \<longrightarrow> (i, j) \<in> depends graph \<longrightarrow> j \<in> set xs"
      using pre by blast
    ultimately show ?thesis using order(1) by (intro exI [of _ "Inr order"]) simp
  next
    case (Some i)
    then have i: "i < ?n" "?left i" using assms(3) by (auto simp: find_Some_iff)
    let ?R = "{..<?n} - set order"
    have "\<exists>j \<in> ?R. (k, j) \<in> depends graph" if "k \<in> ?R" for k
    proof -
      have "in_degree ?es (set order) k \<noteq> 0" using that zero [of k] by simp
      then obtain j where j: "(j, k) \<in> set ?es" "j \<notin> set order" by (auto simp: in_degree_0)
      with es have "j < ?n" by blast
      with j show ?thesis by (auto simp: graph_edges_iff)
    qed
    from left_over_reaches_cycle [of ?R i, OF _ _ this] i left [OF i(1)]
    obtain j where "(j, j) \<in> (depends graph)\<^sup>+" "(i, j) \<in> (depends graph)\<^sup>*" by auto
    moreover have "generate_binary_load_order keys graph = Some (Inl (Cycle_With (bn_name (graph ! i))))"
      using Some run i(1) build_graph_law [OF assms(1)] by (simp add: generate_binary_load_order_def)
    ultimately show ?thesis using i(1)
      by (intro exI [of _ "Inl (Cycle_With (bn_name (graph ! i)))"]) auto
  qed
qed

definition demo_graph :: "binary_node list" where
  "demo_graph = [\<lparr>bn_name = ''App'', bn_dependencies = [''/usr/lib/libstdc++.dylib'', ''libgcc.dylib'', ''/usr/lib/libSystem.dylib'']\<rparr>,
     \<lparr>bn_name = ''libgcc.dylib'', bn_dependencies = []\<rparr>,
     \<lparr>bn_name = ''libstdc++.dylib'', bn_dependencies = [''/usr/lib/libgcc.dylib'']\<rparr>]"

theorem load_order_witness:
  "\<exists>order. generate_binary_load_order [2, 0, 1] demo_graph = Some (Inr order)
    \<and> set order = {..<3} \<and> (\<forall>xs ys. order = xs @ 0 # ys \<longrightarrow> 2 \<in> set xs)"
proof -
  have edge: "(0, 2) \<in> depends demo_graph"
    by (auto simp: depends_def demo_graph_def node_to_index_def dylib_name_def)
  have "distinct (map bn_name demo_graph)" "set [2, 0, 1] = {..<length demo_graph}" "length demo_graph = 3"
    by (auto simp: demo_graph_def lessThan_Suc numeral_3_eq_3)
  moreover have run: "generate_binary_load_order [2, 0, 1] demo_graph = Some (Inr [1, 2, 0])"
    by (simp add: generate_binary_load_order_def demo_graph_def node_to_index_def zero_degrees_def dylib_name_def kahn_loop.simps)
  ultimately show ?thesis using load_order_is_topological [of demo_graph "[2, 0, 1]"] edge by auto
qed

end
