(* ===== verification/Sort_Search.thy ===== *)
theory Sort_Search
  imports Generic_Char "HOL-Library.Multiset"
begin

text \<open>
  \<open>qsort\<close> of \<open>src/libc/stdlib/qsort.rs\<close> and \<open>bsearch\<close> of \<open>src/libc/stdlib.rs\<close>. As in the source
  the sort is generic in the data, the comparison and the swap; its contract with them is the
  locale \<open>sort_client\<close>. The guest's comparison function is a parameter.
\<close>

subsection \<open>The generic sort\<close>

text \<open>The indices of \<open>low..=hi\<close>.\<close>

definition u32_range :: "u32 \<Rightarrow> u32 \<Rightarrow> u32 list" where
  "u32_range low hi = map of_nat [unat low ..< Suc (unat hi)]"

type_synonym 't compare = "'t \<Rightarrow> u32 \<Rightarrow> u32 \<Rightarrow> (u32 \<times> 't) run"
type_synonym 't exchange = "'t \<Rightarrow> u32 \<Rightarrow> u32 \<Rightarrow> 't run"

fun partition_loop :: "'t compare \<Rightarrow> 't exchange \<Rightarrow> u32 \<Rightarrow> u32 list \<Rightarrow> 't \<Rightarrow> u32 \<Rightarrow> ('t \<times> u32) run" where
  "partition_loop compar swap pivot [] d separator = Some (d, separator)"
| "partition_loop compar swap pivot (i # is) d separator = do {
     (r, d1) \<leftarrow> compar d i pivot;
     if sint r < 0 then do {
       d2 \<leftarrow> swap d1 i separator;
       separator' \<leftarrow> add_chk separator 1;
       partition_loop compar swap pivot is d2 separator' }
     else partition_loop compar swap pivot is d1 separator }"

partial_function (option) qsort_rec :: "'t compare \<Rightarrow> 't exchange \<Rightarrow> 't \<Rightarrow> u32 \<Rightarrow> u32 \<Rightarrow> 't run" where
  "qsort_rec compar swap d low hi =
     (if low \<ge> hi then Some d
      else do {
        start \<leftarrow> add_chk low 1;
        (d1, separator) \<leftarrow> partition_loop compar swap low (u32_range start hi) d start;
        last_less \<leftarrow> sub_chk separator 1;
        d2 \<leftarrow> swap d1 low last_less;
        d3 \<leftarrow> (if 1 < separator then do {
                left_hi \<leftarrow> sub_chk separator 2;
                qsort_rec compar swap d2 low left_hi }
              else Some d2);
        qsort_rec compar swap d3 separator hi })"

definition qsort_generic :: "'t compare \<Rightarrow> 't exchange \<Rightarrow> 't \<Rightarrow> u32 \<Rightarrow> 't run" where
  "qsort_generic compar swap d nitems =
     (if nitems < 2 then Some d
      else do { hi \<leftarrow> sub_chk nitems 1; qsort_rec compar swap d 0 hi })"

subsection \<open>The guest's \<open>qsort\<close>\<close>

text \<open>A call of the guest's comparison function on two addresses.\<close>

type_synonym guest_compare = "guest_mem \<Rightarrow> vaddr \<Rightarrow> vaddr \<Rightarrow> (u32 \<times> guest_mem) run"

definition qsort_compare :: "guest_compare \<Rightarrow> vaddr \<Rightarrow> u32 \<Rightarrow> guest_mem compare" where
  "qsort_compare call base sz m i j = do {
     io \<leftarrow> mul_chk i sz;
     p \<leftarrow> ptr_add 1 base io;
     jo \<leftarrow> mul_chk j sz;
     q \<leftarrow> ptr_add 1 base jo;
     call m p q }"

text \<open>\<open>left[..size].swap_with_slice(&mut right[..size])\<close> on the bytes of the array.\<close>

definition swap_slices :: "nat \<Rightarrow> nat \<Rightarrow> nat \<Rightarrow> u8 list \<Rightarrow> u8 list run" where
  "swap_slices i j sz bs = do {
     _ \<leftarrow> rassert (i \<le> length bs);
     _ \<leftarrow> rassert (j \<le> length bs);
     _ \<leftarrow> rassert (sz \<le> j - i);
     _ \<leftarrow> rassert (sz \<le> length bs - j);
     let left = take sz (drop i bs);
     let right = take sz (drop j bs);
     Some (take i bs @ right @ take (j - i - sz) (drop (i + sz) bs) @ left @ drop (j + sz) bs) }"

definition qsort_swap :: "vaddr \<Rightarrow> u32 \<Rightarrow> u32 \<Rightarrow> guest_mem exchange" where
  "qsort_swap base nitems sz m i0 j0 =
     (if i0 = j0 then Some m
      else do {
        let i = min i0 j0;
        let j = max i0 j0;
        n \<leftarrow> mul_chk nitems sz;
        bs \<leftarrow> bytes_at m base n;
        io \<leftarrow> mul_chk i sz;
        jo \<leftarrow> mul_chk j sz;
        _ \<leftarrow> sub_chk jo io;
        bs' \<leftarrow> swap_slices (unat io) (unat jo) (unat sz) bs;
        bytes_at_mut_put m base n bs' })"

definition qsort :: "guest_compare \<Rightarrow> guest_mem \<Rightarrow> vaddr \<Rightarrow> u32 \<Rightarrow> u32 \<Rightarrow> guest_mem run" where
  "qsort call m base nitems sz =
     qsort_generic (qsort_compare call base sz) (qsort_swap base nitems sz) m nitems"

subsection \<open>\<open>bsearch\<close>\<close>

function bsearch_loop ::
    "guest_compare \<Rightarrow> vaddr \<Rightarrow> vaddr \<Rightarrow> u32 \<Rightarrow> guest_mem \<Rightarrow> u32 \<Rightarrow> u32 \<Rightarrow> (vaddr \<times> guest_mem) run" where
  "bsearch_loop call key items sz m low len =
     (if 0 < len then do {
        let half = len div 2;
        mid \<leftarrow> add_chk low half;
        off \<leftarrow> mul_chk sz mid;
        item \<leftarrow> ptr_add 1 items off;
        (r, m1) \<leftarrow> call m key item;
        if sint r = 0 then Some (item, m1)
        else if 0 < sint r then do {
          low' \<leftarrow> add_chk mid 1;
          rest \<leftarrow> sub_chk len half;
          len' \<leftarrow> sub_chk rest 1;
          bsearch_loop call key items sz m1 low' len' }
        else bsearch_loop call key items sz m1 low half }
      else Some (0, m))"
  by auto
termination
proof (relation "measure (\<lambda>(_, _, _, _, _, _, len). unat len)", simp)
  show "((call, key, items, sz, m1, low', len'), (call, key, items, sz, m, low, len)) \<in> measure (\<lambda>(_, _, _, _, _, _, len). unat len)"
    if "0 < len" "half = len div 2" "sub_chk len half = Some rest" "sub_chk rest 1 = Some len'"
    for call key items sz m low len half rest low' len' m1
    using that by (auto simp: sub_chk_Some)
  show "((call, key, items, sz, m1, low, half), (call, key, items, sz, m, low, len)) \<in> measure (\<lambda>(_, _, _, _, _, _, len). unat len)"
    if "0 < len" "half = len div 2" for call key items sz m low len half m1
    using that by (auto simp: word_less_nat_alt unat_div)
qed

declare bsearch_loop.simps [simp del]

definition bsearch :: "guest_compare \<Rightarrow> guest_mem \<Rightarrow> vaddr \<Rightarrow> vaddr \<Rightarrow> u32 \<Rightarrow> u32 \<Rightarrow> (vaddr \<times> guest_mem) run" where
  "bsearch call m key items item_count sz = bsearch_loop call key items sz m 0 item_count"

subsection \<open>The sort sorts\<close>

text \<open>\<open>ys\<close> rearranges the elements of \<open>xs\<close> at the positions from \<open>lo\<close> below \<open>n\<close>.\<close>

definition rearranges :: "nat \<Rightarrow> nat \<Rightarrow> 'a list \<Rightarrow> 'a list \<Rightarrow> bool" where
  "rearranges lo n xs ys \<longleftrightarrow> length ys = length xs \<and> mset ys = mset xs
     \<and> (\<forall>k < length xs. k < lo \<or> n \<le> k \<longrightarrow> ys ! k = xs ! k)"

lemma rearranges_refl [simp]: "rearranges lo n xs xs"
  by (simp add: rearranges_def)

lemma rearranges_trans: "rearranges lo n xs ys \<Longrightarrow> rearranges lo n ys zs \<Longrightarrow> rearranges lo n xs zs"
  by (simp add: rearranges_def)

lemma rearranges_mono: "rearranges lo n xs ys \<Longrightarrow> lo' \<le> lo \<Longrightarrow> n \<le> n' \<Longrightarrow> rearranges lo' n' xs ys"
  by (auto simp: rearranges_def)

lemma rearranges_swap:
  "lo \<le> i \<Longrightarrow> i < n \<Longrightarrow> lo \<le> j \<Longrightarrow> j < n \<Longrightarrow> n \<le> length xs \<Longrightarrow> rearranges lo n xs (xs[i := xs ! j, j := xs ! i])"
  by (auto simp: rearranges_def mset_swap nth_list_update)

lemma split_slice: "lo \<le> n \<Longrightarrow> n \<le> length xs \<Longrightarrow> xs = take lo xs @ take (n - lo) (drop lo xs) @ drop n xs"
proof -
  assume "lo \<le> n" "n \<le> length xs"
  then have "drop n xs = drop (n - lo) (drop lo xs)" by simp
  then show ?thesis by (metis append_take_drop_id)
qed

lemma rearranges_from:
  assumes r: "rearranges lo n xs ys" and n: "n \<le> length xs" and k: "lo \<le> k" "k < n"
  shows "\<exists>j. lo \<le> j \<and> j < n \<and> ys ! k = xs ! j"
proof -
  let ?s = "\<lambda>zs. take (n - lo) (drop lo zs)"
  have len: "length ys = length xs" and m: "mset ys = mset xs" using r by (simp_all add: rearranges_def)
  have "take lo ys = take lo xs" using r n k by (intro nth_equalityI) (simp_all add: rearranges_def)
  moreover have "drop n ys = drop n xs" using r n by (intro nth_equalityI) (simp_all add: rearranges_def)
  moreover have "mset xs = mset (take lo xs @ ?s xs @ drop n xs)" using split_slice [of lo n xs] n k by simp
  moreover have "mset ys = mset (take lo ys @ ?s ys @ drop n ys)" using split_slice [of lo n ys] n k len by simp
  ultimately have "mset (?s ys) = mset (?s xs)" using m by simp
  then have set: "set (?s ys) = set (?s xs)" by (rule mset_eq_setD)
  have "?s ys ! (k - lo) = ys ! k" and "k - lo < length (?s ys)" using k n len by simp_all
  then have "ys ! k \<in> set (?s xs)" unfolding set [symmetric] by (metis nth_mem)
  then obtain i where "i < length (?s xs)" "?s xs ! i = ys ! k" by (auto simp: in_set_conv_nth)
  then show ?thesis using n k by (intro exI [of _ "lo + i"]) auto
qed

lemma u32_range_ix: "u32_range a b = map ix [unat a..<Suc (unat b)]"
  by (simp add: u32_range_def ix_def [abs_def])

locale sort_client =
  fixes compar :: "'t compare" and swap :: "'t exchange"
    and view :: "'t \<Rightarrow> 'a list" and ok :: "'t \<Rightarrow> bool" and less :: "'a \<Rightarrow> 'a \<Rightarrow> bool"
  assumes compar_law: "ok d \<Longrightarrow> unat i < length (view d) \<Longrightarrow> unat j < length (view d)
      \<Longrightarrow> \<exists>r d'. compar d i j = Some (r, d') \<and> ok d' \<and> view d' = view d
        \<and> (sint r < 0 \<longleftrightarrow> less (view d ! unat i) (view d ! unat j))"
    and swap_law: "ok d \<Longrightarrow> unat i < length (view d) \<Longrightarrow> unat j < length (view d)
      \<Longrightarrow> \<exists>d'. swap d i j = Some d' \<and> ok d'
        \<and> view d' = (view d)[unat i := view d ! unat j, unat j := view d ! unat i]"
    and view_size: "ok d \<Longrightarrow> length (view d) < 2 ^ 32"
    and asym: "less a b \<Longrightarrow> \<not> less b a"
    and neg_trans: "\<not> less a b \<Longrightarrow> \<not> less b c \<Longrightarrow> \<not> less a c"
begin

lemma partition_law:
  "ok d \<Longrightarrow> p < s \<Longrightarrow> s \<le> i \<Longrightarrow> i \<le> n \<Longrightarrow> n \<le> length (view d)
    \<Longrightarrow> (\<forall>k. p < k \<longrightarrow> k < s \<longrightarrow> less (view d ! k) (view d ! p))
    \<Longrightarrow> (\<forall>k. s \<le> k \<longrightarrow> k < i \<longrightarrow> \<not> less (view d ! k) (view d ! p))
    \<Longrightarrow> \<exists>d' s'. partition_loop compar swap (ix p) (map ix [i..<n]) d (ix s) = Some (d', ix s') \<and> ok d'
      \<and> s \<le> s' \<and> s' \<le> n \<and> rearranges (Suc p) n (view d) (view d')
      \<and> (\<forall>k. p < k \<longrightarrow> k < s' \<longrightarrow> less (view d' ! k) (view d' ! p))
      \<and> (\<forall>k. s' \<le> k \<longrightarrow> k < n \<longrightarrow> \<not> less (view d' ! k) (view d' ! p))"
proof (induction "n - i" arbitrary: d s i)
  case 0
  then show ?case by (intro exI [of _ d] exI [of _ s]) simp
next
  case (Suc m)
  then have i: "i < n" by simp
  have big: "n < 2 ^ 32" using view_size [OF Suc.prems(1)] Suc.prems(5) by simp
  have u: "unat (ix i) = i" "unat (ix p) = p" "unat (ix s) = s" using i big Suc.prems by (simp_all add: unat_ix)
  have m: "m = n - Suc i" using Suc.hyps(2) by simp
  have upt: "map ix [i..<n] = ix i # map ix [Suc i..<n]" using i by (simp add: upt_conv_Cons)
  obtain r d1 where c: "compar d (ix i) (ix p) = Some (r, d1)" "ok d1" "view d1 = view d"
      "sint r < 0 \<longleftrightarrow> less (view d ! i) (view d ! p)"
    using compar_law [OF Suc.prems(1), of "ix i" "ix p"] u i Suc.prems by auto
  show ?case
  proof (cases "sint r < 0")
    case False
    have "\<forall>k. s \<le> k \<longrightarrow> k < Suc i \<longrightarrow> \<not> less (view d1 ! k) (view d1 ! p)"
      using Suc.prems(7) False c by (auto simp: less_Suc_eq)
    with Suc.hyps(1) [OF m, of d1 s] Suc.prems c i show ?thesis
      unfolding upt using False by simp
  next
    case True
    obtain d2 where d2: "swap d1 (ix i) (ix s) = Some d2" "ok d2" "view d2 = (view d)[i := view d ! s, s := view d ! i]"
      using swap_law [OF c(2), of "ix i" "ix s"] u i Suc.prems c(3) by auto
    have len: "length (view d2) = length (view d)" by (simp add: d2(3))
    have p: "view d2 ! p = view d ! p" using Suc.prems by (simp add: d2(3))
    have lt: "less (view d2 ! k) (view d2 ! p)" if "p < k" "k < Suc s" for k
      using Suc.prems that True c(4) i unfolding p by (cases "k = s") (simp_all add: d2(3) nth_list_update)
    have ge: "\<not> less (view d2 ! k) (view d2 ! p)" if "Suc s \<le> k" "k < Suc i" for k
    proof (cases "k = i")
      case True
      then show ?thesis using Suc.prems(7) [rule_format, of s] that i Suc.prems unfolding p by (simp add: d2(3))
    next
      case False
      then show ?thesis using Suc.prems(7) [rule_format, of k] that i Suc.prems unfolding p by (simp add: d2(3))
    qed
    from Suc.hyps(1) [OF m, of d2 "Suc s"] Suc.prems(2-5) d2(2) len lt ge i obtain d' s' where
      d': "partition_loop compar swap (ix p) (map ix [Suc i..<n]) d2 (ix (Suc s)) = Some (d', ix s')" "ok d'"
        "Suc s \<le> s'" "s' \<le> n" "rearranges (Suc p) n (view d2) (view d')"
        "\<forall>k. p < k \<longrightarrow> k < s' \<longrightarrow> less (view d' ! k) (view d' ! p)"
        "\<forall>k. s' \<le> k \<longrightarrow> k < n \<longrightarrow> \<not> less (view d' ! k) (view d' ! p)" by auto
    have "rearranges (Suc p) n (view d) (view d2)"
      unfolding d2(3) by (rule rearranges_swap) (use Suc.prems i in simp_all)
    with d'(5) have "rearranges (Suc p) n (view d) (view d')" by (rule rearranges_trans [rotated])
    moreover have "add_chk (ix s) 1 = Some (ix (Suc s))" using Suc.prems i big by (intro add_chk_ix) simp
    ultimately show ?thesis unfolding upt using True c(1) d2(1) d' by (intro exI [of _ d'] exI [of _ s']) simp
  qed
qed

text \<open>After the partition the pivot is between the smaller elements and the others.\<close>

lemma pivot_step:
  assumes "ok d" and "lo < hi" and "hi < length (view d)"
  shows "\<exists>d1 d2 q. partition_loop compar swap (ix lo) (u32_range (ix (Suc lo)) (ix hi)) d (ix (Suc lo)) = Some (d1, ix (Suc q))
    \<and> swap d1 (ix lo) (ix q) = Some d2 \<and> ok d2 \<and> lo \<le> q \<and> q \<le> hi \<and> rearranges lo (Suc hi) (view d) (view d2)
    \<and> (\<forall>k. lo \<le> k \<longrightarrow> k < q \<longrightarrow> less (view d2 ! k) (view d2 ! q))
    \<and> (\<forall>k. q < k \<longrightarrow> k \<le> hi \<longrightarrow> \<not> less (view d2 ! k) (view d2 ! q))"
proof -
  have big: "hi < 2 ^ 32" using view_size [OF assms(1)] assms(3) by simp
  have range: "u32_range (ix (Suc lo)) (ix hi) = map ix [Suc lo..<Suc hi]"
  proof -
    have "unat (ix (Suc lo)) = Suc lo" "unat (ix hi) = hi" using assms(2) big by (simp_all add: unat_ix)
    then show ?thesis by (simp only: u32_range_ix)
  qed
  from partition_law [of d lo "Suc lo" "Suc lo" "Suc hi"] assms obtain d1 s where
    d1: "partition_loop compar swap (ix lo) (map ix [Suc lo..<Suc hi]) d (ix (Suc lo)) = Some (d1, ix s)" "ok d1"
      "Suc lo \<le> s" "s \<le> Suc hi" "rearranges (Suc lo) (Suc hi) (view d) (view d1)"
    and lt: "\<And>k. lo < k \<Longrightarrow> k < s \<Longrightarrow> less (view d1 ! k) (view d1 ! lo)"
    and ge: "\<And>k. s \<le> k \<Longrightarrow> k < Suc hi \<Longrightarrow> \<not> less (view d1 ! k) (view d1 ! lo)" by auto
  define q where "q = s - 1"
  have s: "s = Suc q" "lo \<le> q" "q \<le> hi" using d1(3,4) by (simp_all add: q_def)
  have len: "length (view d1) = length (view d)" using d1(5) by (simp add: rearranges_def)
  have u: "unat (ix lo) = lo" "unat (ix q) = q" using s assms big by (simp_all add: unat_ix)
  obtain d2 where d2: "swap d1 (ix lo) (ix q) = Some d2" "ok d2" "view d2 = (view d1)[lo := view d1 ! q, q := view d1 ! lo]"
    using swap_law [OF d1(2), of "ix lo" "ix q"] u s assms len by auto
  have q: "view d2 ! q = view d1 ! lo" using s assms len by (simp add: d2(3))
  have "rearranges lo (Suc hi) (view d1) (view d2)"
    unfolding d2(3) by (rule rearranges_swap) (use s assms len in simp_all)
  with rearranges_mono [OF d1(5), of lo "Suc hi"] have "rearranges lo (Suc hi) (view d) (view d2)"
    by (auto intro: rearranges_trans)
  moreover have "less (view d2 ! k) (view d2 ! q)" if "lo \<le> k" "k < q" for k
    using lt [of k] lt [of q] that s assms len unfolding q by (cases "k = lo") (simp_all add: d2(3) nth_list_update)
  moreover have "\<not> less (view d2 ! k) (view d2 ! q)" if "q < k" "k \<le> hi" for k
    using ge [of k] that s assms len unfolding q by (simp add: d2(3) nth_list_update)
  ultimately show ?thesis using d1(1) d2(1,2) s range by (intro exI [of _ d1] exI [of _ d2] exI [of _ q]) auto
qed

lemma qsort_rec_law:
  "ok d \<Longrightarrow> lo \<le> n \<Longrightarrow> n \<le> length (view d) \<Longrightarrow> 0 < n
    \<Longrightarrow> \<exists>d'. qsort_rec compar swap d (ix lo) (ix (n - 1)) = Some d' \<and> ok d' \<and> rearranges lo n (view d) (view d')
      \<and> (\<forall>i j. lo \<le> i \<longrightarrow> i < j \<longrightarrow> j < n \<longrightarrow> \<not> less (view d' ! j) (view d' ! i))"
proof (induction "n - lo" arbitrary: d lo n rule: less_induct)
  case less
  have big: "n < 2 ^ 32" using view_size [OF less.prems(1)] less.prems(3) by simp
  have le: "ix lo \<ge> ix (n - 1) \<longleftrightarrow> lo \<ge> n - 1" using big less.prems by (simp add: word_le_nat_alt unat_ix)
  show ?case
  proof (cases "lo \<ge> n - 1")
    case True
    then show ?thesis using le less.prems by (subst qsort_rec.simps) (auto intro: exI [of _ d])
  next
    case False
    then have lo: "lo < n - 1" "n - 1 < length (view d)" using less.prems by simp_all
    from pivot_step [OF less.prems(1) lo] obtain d1 d2 q where
      part: "partition_loop compar swap (ix lo) (u32_range (ix (Suc lo)) (ix (n - 1))) d (ix (Suc lo)) = Some (d1, ix (Suc q))"
        "swap d1 (ix lo) (ix q) = Some d2"
      and d2: "ok d2" "lo \<le> q" "q \<le> n - 1" "rearranges lo n (view d) (view d2)"
      and lt: "\<And>k. lo \<le> k \<Longrightarrow> k < q \<Longrightarrow> less (view d2 ! k) (view d2 ! q)"
      and ge: "\<And>k. q < k \<Longrightarrow> k \<le> n - 1 \<Longrightarrow> \<not> less (view d2 ! k) (view d2 ! q)"
      using less.prems(4) by auto
    have len: "length (view d2) = length (view d)" using d2(4) by (simp add: rearranges_def)
    obtain d3 where d3: "(if 1 < ix (Suc q) then do { left_hi \<leftarrow> sub_chk (ix (Suc q)) 2; qsort_rec compar swap d2 (ix lo) left_hi }
          else Some d2) = Some d3" "ok d3" "rearranges lo q (view d2) (view d3)"
        "\<forall>i j. lo \<le> i \<longrightarrow> i < j \<longrightarrow> j < q \<longrightarrow> \<not> less (view d3 ! j) (view d3 ! i)"
    proof (cases "q = 0")
      case True
      then have "\<not> 1 < ix (Suc q)" by (simp add: ix_def)
      with True d2(1) show ?thesis by (intro that [of d2]) simp_all
    next
      case False
      have u: "unat (ix (Suc q)) = Suc q" using d2(3) lo big by (simp add: unat_ix)
      then have "1 < ix (Suc q)" using False by (simp add: word_less_nat_alt)
      moreover have "sub_chk (ix (Suc q)) 2 = Some (ix (q - 1))"
        using u False d2(3) lo big by (simp add: sub_chk_Some unat_ix)
      moreover have "q - lo < n - lo" "lo \<le> q" "q \<le> length (view d2)" "0 < q" using d2 lo len False by auto
      ultimately show ?thesis using less.hyps [of q lo d2] d2(1) that by auto
    qed
    have len3: "length (view d3) = length (view d)" using d3(3) len by (simp add: rearranges_def)
    have "n - Suc q < n - lo" "Suc q \<le> n" using d2(2,3) lo by auto
    from less.hyps [OF this(1) d3(2) this(2)] less.prems len3 obtain d4 where
      d4: "qsort_rec compar swap d3 (ix (Suc q)) (ix (n - 1)) = Some d4" "ok d4" "rearranges (Suc q) n (view d3) (view d4)"
        "\<forall>i j. Suc q \<le> i \<longrightarrow> i < j \<longrightarrow> j < n \<longrightarrow> \<not> less (view d4 ! j) (view d4 ! i)" by auto
    have run: "qsort_rec compar swap d (ix lo) (ix (n - 1)) = Some d4"
    proof -
      have "add_chk (ix lo) 1 = Some (ix (Suc lo))" using lo big by (intro add_chk_ix) simp
      moreover have "sub_chk (ix (Suc q)) 1 = Some (ix q)" using d2(3) lo big by (intro sub_chk_ix) simp
      ultimately show ?thesis using part d3(1) d4(1) le False by (subst qsort_rec.simps) simp
    qed
    have "rearranges lo n (view d2) (view d3)" by (rule rearranges_mono [OF d3(3)]) (use d2(3) lo in simp_all)
    moreover have "rearranges lo n (view d3) (view d4)" by (rule rearranges_mono [OF d4(3)]) (use d2(2) in simp_all)
    ultimately have all: "rearranges lo n (view d) (view d4)" using rearranges_trans [OF rearranges_trans [OF d2(4)]] by blast
    have low: "view d4 ! k = view d3 ! k" if "k \<le> q" for k
      using d4(3) that d2(3) lo len3 by (simp add: rearranges_def)
    have q3: "view d3 ! k = view d2 ! k" if "q \<le> k" "k < n" for k
      using d3(3) that less.prems(3) len by (simp add: rearranges_def)
    have left: "less (view d4 ! k) (view d2 ! q)" if k: "lo \<le> k" "k < q" for k
    proof -
      obtain j where "lo \<le> j" "j < q" "view d3 ! k = view d2 ! j"
        using rearranges_from [OF d3(3) _ k] d2(3) lo len by auto
      then show ?thesis using lt [of j] low [of k] k by simp
    qed
    have right: "\<not> less (view d4 ! k) (view d2 ! q)" if k: "Suc q \<le> k" "k < n" for k
    proof -
      obtain j where "Suc q \<le> j" "j < n" "view d4 ! k = view d3 ! j"
        using rearranges_from [OF d4(3) _ k] less.prems(3) len3 by auto
      then show ?thesis using ge [of j] q3 [of j] by simp
    qed
    have "\<not> less (view d4 ! j) (view d4 ! i)" if "lo \<le> i" "i < j" "j < n" for i j
    proof -
      have qq: "view d4 ! q = view d2 ! q" using low [of q] q3 [of q] d2(3) lo by simp
      consider "j < q" | "i < q" "j = q" | "i < q" "q < j" | "i = q" | "q < i" using that by linarith
      then show ?thesis
      proof cases
        case 1
        then show ?thesis using d3(4) that low [of i] low [of j] by simp
      next
        case 2
        then show ?thesis using left [of i] that asym qq by simp
      next
        case 3
        then show ?thesis using left [of i] right [of j] that asym neg_trans by (meson Suc_leI)
      next
        case 4
        then show ?thesis using right [of j] that qq by simp
      next
        case 5
        then show ?thesis using d4(4) that by simp
      qed
    qed
    then show ?thesis using run d4(2) all by blast
  qed
qed

lemma qsort_generic_law:
  assumes "ok d" and "length (view d) = unat nitems"
  shows "\<exists>d'. qsort_generic compar swap d nitems = Some d' \<and> ok d' \<and> mset (view d') = mset (view d)
    \<and> sorted_wrt (\<lambda>a b. \<not> less b a) (view d')"
proof (cases "nitems < 2")
  case True
  then have "length (view d) < 2" using assms(2) by (simp add: word_less_nat_alt)
  then have "sorted_wrt (\<lambda>a b. \<not> less b a) (view d)"
    by (cases "view d" rule: remdups_adj.cases) simp_all
  then show ?thesis using True assms(1) by (simp add: qsort_generic_def)
next
  case False
  then have n: "2 \<le> unat nitems" by (simp add: word_less_nat_alt)
  then obtain hi where hi: "sub_chk nitems 1 = Some hi" "unat hi = unat nitems - 1"
    using sub_chk_ex [of 1 nitems] by (auto simp: sub_chk_Some)
  then have "hi = ix (unat nitems - 1)" using unat_bound32 [of hi] by (simp add: unat_eq_iff unat_ix)
  moreover from qsort_rec_law [OF assms(1), of 0 "unat nitems"] assms(2) n obtain d' where
    "qsort_rec compar swap d (ix 0) (ix (unat nitems - 1)) = Some d'" "ok d'" "rearranges 0 (unat nitems) (view d) (view d')"
      "\<forall>i j. 0 \<le> i \<longrightarrow> i < j \<longrightarrow> j < unat nitems \<longrightarrow> \<not> less (view d' ! j) (view d' ! i)" by auto
  ultimately show ?thesis using False hi(1) assms(2)
    by (intro exI [of _ d']) (simp add: qsort_generic_def rearranges_def sorted_wrt_iff_nth_less)
qed

end

subsection \<open>The guest's array\<close>

text \<open>The elements of the array, each as its bytes.\<close>

definition elems :: "vaddr \<Rightarrow> u32 \<Rightarrow> u32 \<Rightarrow> guest_mem \<Rightarrow> u8 list list" where
  "elems base n sz m = map (\<lambda>i. get_range (mm_bytes m) (base + of_nat (i * unat sz)) (unat sz)) [0..<unat n]"

text \<open>
  The guest's function returns, leaves the array alone and orders elements by some key of their
  bytes; any order that treats incomparable elements alike is of this form, since there are only
  finitely many elements of a size.
\<close>

definition compares :: "guest_compare \<Rightarrow> (u8 list \<Rightarrow> int) \<Rightarrow> vaddr \<Rightarrow> u32 \<Rightarrow> u32 \<Rightarrow> bool" where
  "compares call key base n sz \<longleftrightarrow> (\<forall>m i j. mm_null m \<le> base \<longrightarrow> i < unat n \<longrightarrow> j < unat n \<longrightarrow>
     (\<exists>r f. call m (base + of_nat (i * unat sz)) (base + of_nat (j * unat sz)) = Some (r, m\<lparr>mm_bytes := f\<rparr>)
       \<and> get_range f base (unat n * unat sz) = get_range (mm_bytes m) base (unat n * unat sz)
       \<and> (sint r < 0 \<longleftrightarrow> key (elems base n sz m ! i) < key (elems base n sz m ! j))))"

definition sortable :: "guest_compare \<Rightarrow> (u8 list \<Rightarrow> int) \<Rightarrow> vaddr \<Rightarrow> u32 \<Rightarrow> u32 \<Rightarrow> guest_mem \<Rightarrow> bool" where
  "sortable call key base n sz m \<longleftrightarrow> compares call key base n sz \<and> mm_null m \<le> base
     \<and> unat n * unat sz < 2 ^ 32 \<and> unat base + unat n * unat sz \<le> 2 ^ 32"

lemma get_range_part: "a + b \<le> n \<Longrightarrow> take b (drop a (get_range f p n)) = get_range f (p + of_nat a) b"
  by (auto intro: nth_equalityI simp: algebra_simps)

lemma chunk_fits: "i < n \<Longrightarrow> i * s + s \<le> n * (s :: nat)"
  using mult_le_mono1 [of "Suc i" n s] by simp

lemma elems_chunks:
  "elems base n sz m = map (\<lambda>i. take (unat sz) (drop (i * unat sz) (get_range (mm_bytes m) base (unat n * unat sz)))) [0..<unat n]"
  unfolding elems_def using chunk_fits [of _ "unat n" "unat sz"]
  by (intro map_cong refl) (simp add: get_range_part)

lemma swap_slices_law:
  assumes "i + s \<le> j" and "j + s \<le> length bs"
  shows "\<exists>bs'. swap_slices i j s bs = Some bs' \<and> length bs' = length bs
    \<and> (\<forall>x < length bs. bs' ! x = (if i \<le> x \<and> x < i + s then bs ! (j + (x - i))
        else if j \<le> x \<and> x < j + s then bs ! (i + (x - j)) else bs ! x))"
proof -
  let ?bs = "take i bs @ take s (drop j bs) @ take (j - i - s) (drop (i + s) bs) @ take s (drop i bs) @ drop (j + s) bs"
  have "swap_slices i j s bs = Some ?bs" 
  proof -
    have "s \<le> j - i" "s \<le> length bs - j" "i \<le> length bs" "j \<le> length bs" using assms by linarith+
    then show ?thesis by (simp add: swap_slices_def)
  qed
  moreover have "length ?bs = length bs" using assms by simp
  moreover have "?bs ! x = (if i \<le> x \<and> x < i + s then bs ! (j + (x - i))
      else if j \<le> x \<and> x < j + s then bs ! (i + (x - j)) else bs ! x)" if "x < length bs" for x
  proof -
    consider "x < i" | "i \<le> x" "x < i + s" | "i + s \<le> x" "x < j" | "j \<le> x" "x < j + s" | "j + s \<le> x" by linarith
    then show ?thesis
    proof cases
      case 1
      then show ?thesis using assms that by (simp add: nth_append)
    next
      case 2
      then have "x - i < s" by linarith
      then show ?thesis using 2 assms that by (simp add: nth_append)
    next
      case 3
      then have "x - i - s < j - i - s" "\<not> x - i < s" using assms by linarith+
      then show ?thesis using 3 assms that by (simp add: nth_append)
    next
      case 4
      then have "x - j < s" "\<not> x - i - s < j - i - s" "\<not> x - i < s" using assms by linarith+
      then show ?thesis using 4 assms that by (simp add: nth_append)
    next
      case 5
      then have "\<not> x - j < s" "\<not> x - i - s < j - i - s" "\<not> x - i < s" using assms by linarith+
      then show ?thesis using 5 assms that by (simp add: nth_append)
    qed
  qed
  ultimately show ?thesis by blast
qed

lemma swap_chunks:
  assumes "i < j" and "j < n" and "length bs = n * s"
  shows "\<exists>bs'. swap_slices (i * s) (j * s) s bs = Some bs' \<and> length bs' = length bs
    \<and> map (\<lambda>k. take s (drop (k * s) bs')) [0..<n]
      = (map (\<lambda>k. take s (drop (k * s) bs)) [0..<n])[i := take s (drop (j * s) bs), j := take s (drop (i * s) bs)]"
proof -
  have ij: "i * s + s \<le> j * s" and jn: "j * s + s \<le> length bs"
    using chunk_fits [OF assms(1)] chunk_fits [OF assms(2)] assms(3) by simp_all
  from swap_slices_law [OF ij jn] obtain bs' where
    bs': "swap_slices (i * s) (j * s) s bs = Some bs'" "length bs' = length bs"
    and nth: "\<And>x. x < length bs \<Longrightarrow> bs' ! x = (if i * s \<le> x \<and> x < i * s + s then bs ! (j * s + (x - i * s))
        else if j * s \<le> x \<and> x < j * s + s then bs ! (i * s + (x - j * s)) else bs ! x)" by blast
  have "take s (drop (k * s) bs') = take s (drop ((if k = i then j else if k = j then i else k) * s) bs)" if k: "k < n" for k
  proof (rule nth_equalityI)
    have fits: "l * s + s \<le> length bs" if "l < n" for l using chunk_fits [OF that, of s] assms(3) by simp
    show "length (take s (drop (k * s) bs')) = length (take s (drop ((if k = i then j else if k = j then i else k) * s) bs))"
      using fits [of k] fits [of i] fits [of j] bs'(2) k assms by auto
    fix y assume "y < length (take s (drop (k * s) bs'))"
    then have y: "y < s" by simp
    then have x: "k * s + y < length bs" using fits [OF k] by simp
    have inside: "l * s \<le> k * s + y \<and> k * s + y < l * s + s \<longleftrightarrow> k = l" for l
      using chunk_fits [of k l s] chunk_fits [of l k s] y by (cases k l rule: linorder_cases) auto
    show "take s (drop (k * s) bs') ! y = take s (drop ((if k = i then j else if k = j then i else k) * s) bs) ! y"
      using nth [OF x] y x bs'(2) fits [of i] fits [of j] fits [of k] k assms unfolding inside by auto
  qed
  then have "map (\<lambda>k. take s (drop (k * s) bs')) [0..<n]
      = (map (\<lambda>k. take s (drop (k * s) bs)) [0..<n])[i := take s (drop (j * s) bs), j := take s (drop (i * s) bs)]"
    using assms(1,2) by (intro nth_equalityI) (auto simp: nth_list_update)
  with bs' show ?thesis by blast
qed

lemma mul_chk_ex: "unat a * unat b < 2 ^ 32 \<Longrightarrow> \<exists>c. mul_chk a b = Some c \<and> unat c = unat a * unat (b :: u32)"
proof -
  assume "unat a * unat b < 2 ^ 32"
  then have "mul_chk a b \<noteq> None" by (simp add: mul_chk_def)
  then show ?thesis by (auto simp: mul_chk_Some)
qed

lemma sub_chk_diff: "unat b \<le> unat a \<Longrightarrow> \<exists>c. sub_chk a b = Some c \<and> unat c = unat a - unat (b :: u32)"
  using sub_chk_ex [of b a] by (auto simp: sub_chk_Some)

lemma array_address:
  assumes "mm_null m \<le> base" "unat n * unat sz < 2 ^ 32" "unat base + unat n * unat sz \<le> 2 ^ 32" "unat i < unat n"
  shows "\<exists>io. mul_chk i sz = Some io \<and> unat io = unat i * unat sz
    \<and> ptr_add 1 base io = Some (base + of_nat (unat i * unat sz))"
proof -
  have le: "unat i * unat sz + unat sz \<le> unat n * unat sz" by (rule chunk_fits [OF assms(4)])
  then obtain io where io: "mul_chk i sz = Some io" "unat io = unat i * unat sz"
    using assms(2) mul_chk_ex [of i sz] unat_pos_iff [of sz] assms(4)
    by (metis le_add1 le_less_trans order.trans)
  have "unat base + unat i * unat sz < 2 ^ 32"
    using le assms(3) unat_bound32 [of base] by (cases "unat sz = 0") (simp, linarith)
  then have "ptr_add 1 base io = Some (base + of_nat (unat i * unat sz))"
    using io(2) by (simp add: ptr_add_Some unat_offset del: of_nat_mult)
  with io show ?thesis by blast
qed

lemma elems_same:
  "get_range (mm_bytes m') base (unat n * unat sz) = get_range (mm_bytes m) base (unat n * unat sz) \<Longrightarrow> elems base n sz m' = elems base n sz m"
  by (simp add: elems_chunks)

lemma elems_length [simp]: "length (elems base n sz m) = unat n"
  by (simp add: elems_def)

lemma qsort_compare_law:
  assumes s: "sortable call key base n sz m" and i: "unat i < length (elems base n sz m)" and j: "unat j < length (elems base n sz m)"
  shows "\<exists>r m'. qsort_compare call base sz m i j = Some (r, m') \<and> sortable call key base n sz m'
    \<and> elems base n sz m' = elems base n sz m
    \<and> (sint r < 0 \<longleftrightarrow> key (elems base n sz m ! unat i) < key (elems base n sz m ! unat j))"
proof -
  have b: "mm_null m \<le> base" "unat n * unat sz < 2 ^ 32" "unat base + unat n * unat sz \<le> 2 ^ 32" and c: "compares call key base n sz"
    using s by (simp_all add: sortable_def)
  from array_address [OF b, of i] array_address [OF b, of j] i j obtain io jo where
    io: "mul_chk i sz = Some io" "ptr_add 1 base io = Some (base + of_nat (unat i * unat sz))"
      "mul_chk j sz = Some jo" "ptr_add 1 base jo = Some (base + of_nat (unat j * unat sz))" by auto
  from c b(1) i j obtain r f where
    r: "call m (base + of_nat (unat i * unat sz)) (base + of_nat (unat j * unat sz)) = Some (r, m\<lparr>mm_bytes := f\<rparr>)"
      "get_range f base (unat n * unat sz) = get_range (mm_bytes m) base (unat n * unat sz)"
      "sint r < 0 \<longleftrightarrow> key (elems base n sz m ! unat i) < key (elems base n sz m ! unat j)"
    unfolding compares_def by fastforce
  have "elems base n sz (m\<lparr>mm_bytes := f\<rparr>) = elems base n sz m" by (rule elems_same) (simp add: r(2))
  moreover have "sortable call key base n sz (m\<lparr>mm_bytes := f\<rparr>)" using s by (simp add: sortable_def)
  ultimately show ?thesis using io r(1,3) by (intro exI [of _ r] exI [of _ "m\<lparr>mm_bytes := f\<rparr>"]) (simp add: qsort_compare_def)
qed

lemma qsort_swap_ordered:
  assumes s: "sortable call key base n sz m" and ij: "unat i < unat j" and j: "unat j < unat n"
  shows "\<exists>m'. qsort_swap base n sz m i j = Some m' \<and> qsort_swap base n sz m j i = Some m' \<and> sortable call key base n sz m'
    \<and> elems base n sz m' = (elems base n sz m)[unat i := elems base n sz m ! unat j, unat j := elems base n sz m ! unat i]"
proof -
  let ?l = "unat n * unat sz" and ?bs = "get_range (mm_bytes m) base (unat n * unat sz)"
  have b: "mm_null m \<le> base" "?l < 2 ^ 32" "unat base + ?l \<le> 2 ^ 32" using s by (simp_all add: sortable_def)
  have w: "i \<noteq> j" "min i j = i" "max i j = j" "min j i = i" "max j i = j"
    using ij by (auto simp: min_def max_def word_le_nat_alt)
  obtain io where io: "mul_chk i sz = Some io" "unat io = unat i * unat sz" using array_address [OF b, of i] ij j by auto
  obtain jo where jo: "mul_chk j sz = Some jo" "unat jo = unat j * unat sz" using array_address [OF b, of j] j by auto
  obtain l where l: "mul_chk n sz = Some l" "unat l = ?l" using b(2) mul_chk_ex by blast
  have bs: "bytes_at m base l = Some ?bs" using b l(2) by (simp add: bytes_at_def unchecked_bytes_at_def in_bounds_nat not_less)
  from swap_chunks [OF ij j, of ?bs "unat sz"] obtain bs' where
    bs': "swap_slices (unat io) (unat jo) (unat sz) ?bs = Some bs'" "length bs' = ?l"
    and chunks: "map (\<lambda>k. take (unat sz) (drop (k * unat sz) bs')) [0..<unat n]
      = (elems base n sz m)[unat i := take (unat sz) (drop (unat j * unat sz) ?bs), unat j := take (unat sz) (drop (unat i * unat sz) ?bs)]"
    using io(2) jo(2) by (auto simp: elems_chunks)
  let ?m = "m\<lparr>mm_bytes := put_range (mm_bytes m) base bs'\<rparr>"
  have put: "bytes_at_mut_put m base l bs' = Some ?m" using b l(2) by (simp add: bytes_at_mut_put_def in_bounds_nat not_less)
  have "get_range (mm_bytes ?m) base ?l = bs'" using get_put_same [of base bs' "mm_bytes m"] b bs'(2) by simp
  then have "elems base n sz ?m = map (\<lambda>k. take (unat sz) (drop (k * unat sz) bs')) [0..<unat n]" by (simp add: elems_chunks)
  also note chunks
  finally have el: "elems base n sz ?m = (elems base n sz m)[unat i := elems base n sz m ! unat j, unat j := elems base n sz m ! unat i]"
    using ij j by (simp add: elems_chunks)
  have "unat io \<le> unat jo" using ij io(2) jo(2) by simp
  then obtain off where "sub_chk jo io = Some off" using sub_chk_ex by blast
  then have "qsort_swap base n sz m i j = Some ?m" "qsort_swap base n sz m j i = Some ?m"
    using w io(1) jo(1) l(1) bs bs'(1) put by (simp_all add: qsort_swap_def)
  moreover have "sortable call key base n sz ?m" using s by (simp add: sortable_def)
  ultimately show ?thesis using el by blast
qed

lemma qsort_swap_law:
  assumes s: "sortable call key base n sz m" and i: "unat i < length (elems base n sz m)" and j: "unat j < length (elems base n sz m)"
  shows "\<exists>m'. qsort_swap base n sz m i j = Some m' \<and> sortable call key base n sz m'
    \<and> elems base n sz m' = (elems base n sz m)[unat i := elems base n sz m ! unat j, unat j := elems base n sz m ! unat i]"
proof (cases "unat i" "unat j" rule: linorder_cases)
  case less
  then show ?thesis using qsort_swap_ordered [OF s less] j by auto
next
  case equal
  then show ?thesis using s by (simp add: qsort_swap_def unat_eq_iff [symmetric])
next
  case greater
  then show ?thesis using qsort_swap_ordered [OF s greater] i by (auto simp: list_update_swap)
qed

interpretation guest_sort: sort_client "qsort_compare call base sz" "qsort_swap base n sz" "elems base n sz"
    "sortable call key base n sz" "\<lambda>a b. key a < key b"
  for call base n sz key
proof unfold_locales
  show "length (elems base n sz m) < 2 ^ 32" for m using unat_bound32 [of n] by simp
qed (use qsort_compare_law qsort_swap_law in \<open>auto intro: order.strict_trans1 simp: not_less\<close>)

subsection \<open>The search finds\<close>

text \<open>
  The guest's function compares the key, of rank \<open>k\<close>, with the elements of an array that it
  leaves alone, in memories that satisfy \<open>I\<close> (which hold the key, say), and maintains \<open>I\<close>.
\<close>

definition probes :: "guest_compare \<Rightarrow> (u8 list \<Rightarrow> int) \<Rightarrow> vaddr \<Rightarrow> int \<Rightarrow> vaddr \<Rightarrow> u32 \<Rightarrow> u32 \<Rightarrow> (guest_mem \<Rightarrow> bool) \<Rightarrow> bool" where
  "probes call key p k base n sz I \<longleftrightarrow> (\<forall>m i. I m \<longrightarrow> mm_null m \<le> base \<longrightarrow> i < unat n \<longrightarrow>
     (\<exists>r f. call m p (base + of_nat (i * unat sz)) = Some (r, m\<lparr>mm_bytes := f\<rparr>)
       \<and> get_range f base (unat n * unat sz) = get_range (mm_bytes m) base (unat n * unat sz)
       \<and> sgn (sint r) = sgn (k - key (elems base n sz m ! i)) \<and> I (m\<lparr>mm_bytes := f\<rparr>)))"

text \<open>The address of an element of rank \<open>k\<close>, or null if there is none.\<close>

definition finds :: "(u8 list \<Rightarrow> int) \<Rightarrow> int \<Rightarrow> vaddr \<Rightarrow> u32 \<Rightarrow> u32 \<Rightarrow> guest_mem \<Rightarrow> vaddr \<Rightarrow> bool" where
  "finds key k base n sz m p \<longleftrightarrow> (if k \<in> set (map key (elems base n sz m))
     then \<exists>i < unat n. p = base + of_nat (i * unat sz) \<and> key (elems base n sz m ! i) = k else p = 0)"

lemma finds_none:
  assumes "\<And>i. i < unat n \<Longrightarrow> key (elems base n sz m ! i) \<noteq> k"
  shows "finds key k base n sz m 0"
proof -
  have "k \<notin> set (map key (elems base n sz m))"
  proof
    assume "k \<in> set (map key (elems base n sz m))"
    then obtain i where "i < unat n" "key (elems base n sz m ! i) = k" by (auto simp: in_set_conv_nth)
    with assms show False by blast
  qed
  then show ?thesis by (simp add: finds_def)
qed

lemma sgn_cases: "sgn (a :: int) = sgn b \<Longrightarrow> (a = 0 \<longleftrightarrow> b = 0) \<and> (0 < a \<longleftrightarrow> 0 < b)"
  by (auto simp: sgn_if split: if_splits)

lemma bsearch_loop_law:
  assumes b: "mm_null m \<le> base" "unat n * unat sz < 2 ^ 32" "unat base + unat n * unat sz \<le> 2 ^ 32"
    and pr: "probes call key kp k base n sz I"
  shows "sorted (map key (elems base n sz m)) \<Longrightarrow> mm_null m \<le> base \<Longrightarrow> I m \<Longrightarrow> unat low + unat len \<le> unat n
    \<Longrightarrow> (\<And>i. i < unat low \<Longrightarrow> key (elems base n sz m ! i) < k)
    \<Longrightarrow> (\<And>i. unat low + unat len \<le> i \<Longrightarrow> i < unat n \<Longrightarrow> k < key (elems base n sz m ! i))
    \<Longrightarrow> \<exists>p f. bsearch_loop call kp base sz m low len = Some (p, m\<lparr>mm_bytes := f\<rparr>)
      \<and> elems base n sz (m\<lparr>mm_bytes := f\<rparr>) = elems base n sz m \<and> finds key k base n sz m p"
  using b(1)
proof (induction "unat len" arbitrary: m low len rule: less_induct)
  case less
  let ?E = "elems base n sz m"
  show ?case
  proof (cases "len = 0")
    case True
    have "key (?E ! i) \<noteq> k" if "i < unat n" for i
      using less.prems(5) [of i] less.prems(6) [of i] that True by (cases "i < unat low") auto
    then have "finds key k base n sz m 0" by (rule finds_none)
    then show ?thesis using True by (subst bsearch_loop.simps) (auto intro!: exI [of _ "mm_bytes m"])
  next
    case False
    then have pos: "0 < unat len" by (simp add: unat_pos_iff)
    define h where "h = unat len div 2"
    have h: "unat (len div 2) = h" "h < unat len" using pos by (simp_all add: h_def unat_div)
    have "unat low + h < 4294967296" using less.prems(4) h unat_bound32 [of n] by linarith
    then obtain mid where mid: "add_chk low (len div 2) = Some mid" "unat mid = unat low + h"
      using add_chk_ex [of low "len div 2"] h(1) by (auto simp: add_chk_Some)
    have in_array: "unat mid < unat n" using mid(2) h(2) less.prems(4) by linarith
    from array_address [OF less.prems(2) b(2,3) in_array] obtain off where
      off: "mul_chk mid sz = Some off" "ptr_add 1 base off = Some (base + of_nat (unat mid * unat sz))" by blast
    have comm: "mul_chk sz mid = Some off" using off(1) by (simp add: mul_chk_def mult.commute split: if_splits)
    from pr less.prems(2,3) in_array obtain r f where
      r: "call m kp (base + of_nat (unat mid * unat sz)) = Some (r, m\<lparr>mm_bytes := f\<rparr>)"
        "get_range f base (unat n * unat sz) = get_range (mm_bytes m) base (unat n * unat sz)"
        "sgn (sint r) = sgn (k - key (?E ! unat mid))" "I (m\<lparr>mm_bytes := f\<rparr>)"
      unfolding probes_def by blast
    let ?m = "m\<lparr>mm_bytes := f\<rparr>"
    have same: "elems base n sz ?m = ?E" by (rule elems_same) (simp add: r(2))
    have finds_same: "finds key k base n sz ?m = finds key k base n sz m" by (simp add: fun_eq_iff finds_def same)
    have null: "mm_null ?m \<le> base" using less.prems(2) by simp
    note sg = sgn_cases [OF r(3)]
    have sorted_nth: "key (?E ! i) \<le> key (?E ! j)" if "i \<le> j" "j < unat n" for i j
      using sorted_nth_mono [OF less.prems(1), of i j] that by simp
    have step: "bsearch_loop call kp base sz m low len = (if sint r = 0 then Some (base + of_nat (unat mid * unat sz), ?m)
        else if 0 < sint r then do {
          low' \<leftarrow> add_chk mid 1; rest \<leftarrow> sub_chk len (len div 2); len' \<leftarrow> sub_chk rest 1;
          bsearch_loop call kp base sz ?m low' len' }
        else bsearch_loop call kp base sz ?m low (len div 2))"
      using False mid(1) comm off(2) r(1) by (subst bsearch_loop.simps) (simp add: Let_def word_gt_0)
    consider "sint r = 0" | "0 < sint r" | "sint r < 0" by linarith
    then show ?thesis
    proof cases
      case 1
      then have "key (?E ! unat mid) = k" using sg by simp
      then have "finds key k base n sz m (base + of_nat (unat mid * unat sz))"
      proof -
        have "k \<in> set (map key ?E)" using \<open>key (?E ! unat mid) = k\<close> in_array nth_mem [of "unat mid" ?E] by auto
        then show ?thesis using \<open>key (?E ! unat mid) = k\<close> in_array unfolding finds_def by (simp only: if_True) blast
      qed
      then show ?thesis using step 1 same by (intro exI conjI) auto
    next
      case 2
      then have gt: "key (?E ! unat mid) < k" using sg by simp
      obtain low' where low': "add_chk mid 1 = Some low'" "unat low' = Suc (unat mid)"
        using add_chk_ex [of mid 1] in_array unat_bound32 [of n] by (auto simp: add_chk_Some)
      obtain rest where rest: "sub_chk len (len div 2) = Some rest" "unat rest = unat len - h"
        using sub_chk_diff [of "len div 2" len] h by auto
      obtain len' where len': "sub_chk rest 1 = Some len'" "unat len' = unat len - h - 1"
      proof -
        have "unat (1 :: u32) \<le> unat rest" using rest(2) h(2) by simp
        then show ?thesis using sub_chk_diff [of 1 rest] rest(2) that by auto
      qed
      have "\<exists>p g. bsearch_loop call kp base sz ?m low' len' = Some (p, ?m\<lparr>mm_bytes := g\<rparr>)
          \<and> elems base n sz (?m\<lparr>mm_bytes := g\<rparr>) = elems base n sz ?m \<and> finds key k base n sz ?m p"
      proof (rule less.hyps)
        show "unat len' < unat len" using len'(2) pos by simp
        show "unat low' + unat len' \<le> unat n" using low'(2) len'(2) mid(2) h(2) less.prems(4) by simp
        show "key (elems base n sz ?m ! i) < k" if "i < unat low'" for i
          unfolding same using sorted_nth [of i "unat mid"] that low'(2) in_array gt by simp
        show "k < key (elems base n sz ?m ! i)" if "unat low' + unat len' \<le> i" "i < unat n" for i
          unfolding same using that low'(2) len'(2) mid(2) h(2) by (intro less.prems(6)) simp_all
      qed (use less.prems(1) null same r(4) in simp_all)
      then obtain p g where "bsearch_loop call kp base sz ?m low' len' = Some (p, ?m\<lparr>mm_bytes := g\<rparr>)"
          "elems base n sz (?m\<lparr>mm_bytes := g\<rparr>) = ?E" "finds key k base n sz m p" unfolding same finds_same by blast
      then show ?thesis using step 2 low'(1) rest(1) len'(1) by (intro exI [of _ p] exI [of _ g]) simp
    next
      case 3
      then have lt: "k < key (?E ! unat mid)" using sg by linarith
      have "\<exists>p g. bsearch_loop call kp base sz ?m low (len div 2) = Some (p, ?m\<lparr>mm_bytes := g\<rparr>)
          \<and> elems base n sz (?m\<lparr>mm_bytes := g\<rparr>) = elems base n sz ?m \<and> finds key k base n sz ?m p"
      proof (rule less.hyps)
        show "unat (len div 2) < unat len" using h by simp
        show "unat low + unat (len div 2) \<le> unat n" using h less.prems(4) by simp
        show "key (elems base n sz ?m ! i) < k" if "i < unat low" for i unfolding same by (rule less.prems(5) [OF that])
        show "k < key (elems base n sz ?m ! i)" if "unat low + unat (len div 2) \<le> i" "i < unat n" for i
          unfolding same using sorted_nth [of "unat mid" i] that h(1) mid(2) lt by simp
      qed (use less.prems(1) null same r(4) in simp_all)
      then obtain p g where "bsearch_loop call kp base sz ?m low (len div 2) = Some (p, ?m\<lparr>mm_bytes := g\<rparr>)"
          "elems base n sz (?m\<lparr>mm_bytes := g\<rparr>) = ?E" "finds key k base n sz m p" unfolding same finds_same by blast
      then show ?thesis using step 3 by (intro exI [of _ p] exI [of _ g]) simp
    qed
  qed
qed

subsection \<open>Properties\<close>

text \<open>C24: \<open>qsort\<close> returns and sorts: the array then has the same elements, in the order of the
  guest's comparison function, for every array that lies in memory and every size of elements.
  No index overflows and no access is out of bounds.\<close>

theorem qsort_sorts:
  assumes "sortable call key base n sz m"
  shows "\<exists>m'. qsort call m base n sz = Some m' \<and> mset (elems base n sz m') = mset (elems base n sz m)
    \<and> sorted (map key (elems base n sz m'))"
  using guest_sort.qsort_generic_law [OF assms, of n]
  by (auto simp: qsort_def sorted_map not_less)

text \<open>C25: in a sorted array \<open>bsearch\<close> returns the address of an element that the guest's function
  says equals the key, and null if there is none; it returns and leaves the array alone.\<close>

theorem bsearch_finds:
  assumes "sorted (map key (elems base n sz m))" and "mm_null m \<le> base" and "unat n * unat sz < 2 ^ 32"
    and "unat base + unat n * unat sz \<le> 2 ^ 32" and "probes call key kp k base n sz I" and "I m"
  shows "\<exists>p m'. bsearch call m kp base n sz = Some (p, m') \<and> elems base n sz m' = elems base n sz m
    \<and> (if k \<in> set (map key (elems base n sz m))
       then \<exists>i < unat n. p = base + of_nat (i * unat sz) \<and> key (elems base n sz m ! i) = k else p = 0)"
proof -
  have "\<exists>p f. bsearch_loop call kp base sz m 0 n = Some (p, m\<lparr>mm_bytes := f\<rparr>)
      \<and> elems base n sz (m\<lparr>mm_bytes := f\<rparr>) = elems base n sz m \<and> finds key k base n sz m p"
    by (rule bsearch_loop_law [OF assms(2-5,1,2,6)]) simp_all
  then show ?thesis unfolding bsearch_def finds_def by blast
qed

text \<open>The bytes 3, 1, 2 at \<open>0x2000\<close> and 1, 2, 4 at \<open>0x2010\<close>, compared as unsigned numbers.\<close>

definition byte_compare :: guest_compare where
  "byte_compare m p q = do {
     a \<leftarrow> mem_read u8_type m p;
     b \<leftarrow> mem_read u8_type m q;
     Some (if a < b then - 1 else if a = b then 0 else 1, m) }"

definition byte_key :: "u8 list \<Rightarrow> int" where
  "byte_key bs = uint (hd bs)"

definition sort_mem :: guest_mem where
  "sort_mem = demo_mem\<lparr>mm_bytes := put_range (put_range (\<lambda>_. 0) 0x2000 [3, 1, 2]) 0x2010 [1, 2, 4]\<rparr>"

lemma byte_elem:
  assumes "mm_null m \<le> p" "unat p + 3 < 2 ^ 32" "i < 3"
  shows "mem_read u8_type m (p + of_nat i) = Some (hd (elems p 3 1 m ! i))"
proof -
  have "unat (p + of_nat i) = unat p + i" using assms(2,3) by (intro unat_offset) simp
  then have "mm_null m \<le> p + of_nat i" "unat (p + of_nat i) + unat (gt_size u8_type) \<le> 2 ^ 32"
    using assms by (simp_all add: word_le_nat_alt u8_type_def)
  from u8c.read_ok [OF this] show ?thesis using assms(3) by (simp add: elems_def u8_type_def get_range_def)
qed

lemma byte_order: "a < b \<longleftrightarrow> uint a < uint b" "a = b \<longleftrightarrow> uint a = uint b" for a b :: u8
  by (simp_all add: word_less_def word_uint_eq_iff)

lemma byte_sign: "sgn (sint (if a < b then - 1 else if a = b then 0 else 1 :: u32)) = sgn (uint a - uint b)" for a b :: u8
  by (simp add: byte_order)

lemma sort_mem_elems:
  "elems 0x2000 3 1 sort_mem = [[3], [1], [2]]" "elems 0x2010 3 1 sort_mem = [[1], [2], [4]]" "mm_null sort_mem = 0x1000"
  by code_simp+

lemma sort_mem_sortable: "sortable byte_compare byte_key 0x2000 3 1 sort_mem"
proof -
  have "\<exists>r f. byte_compare m (0x2000 + of_nat (i * unat (1 :: u32))) (0x2000 + of_nat (j * unat (1 :: u32))) = Some (r, m\<lparr>mm_bytes := f\<rparr>)
      \<and> get_range f 0x2000 3 = get_range (mm_bytes m) 0x2000 3
      \<and> (sint r < 0 \<longleftrightarrow> byte_key (elems 0x2000 3 1 m ! i) < byte_key (elems 0x2000 3 1 m ! j))"
    if "mm_null m \<le> 0x2000" "i < 3" "j < 3" for m i j
    using byte_elem [of m "0x2000" i] byte_elem [of m "0x2000" j] that
    by (intro exI [of _ "if hd (elems 0x2000 3 1 m ! i) < hd (elems 0x2000 3 1 m ! j) then - 1
          else if hd (elems 0x2000 3 1 m ! i) = hd (elems 0x2000 3 1 m ! j) then 0 else 1"] exI [of _ "mm_bytes m"])
      (simp add: byte_compare_def byte_key_def word_less_def)
  then show ?thesis by (simp add: sortable_def compares_def sort_mem_elems)
qed

theorem qsort_sorts_witness:
  "\<exists>m'. qsort byte_compare sort_mem 0x2000 3 1 = Some m' \<and> map byte_key (elems 0x2000 3 1 m') = [1, 2, 3]"
proof -
  obtain m' where m': "qsort byte_compare sort_mem 0x2000 3 1 = Some m'"
      "mset (elems 0x2000 3 1 m') = mset (elems 0x2000 3 1 sort_mem)" "sorted (map byte_key (elems 0x2000 3 1 m'))"
    using qsort_sorts [OF sort_mem_sortable] by blast
  have "mset (map byte_key (elems 0x2000 3 1 m')) = mset [3, 1, 2]"
    using arg_cong [OF m'(2), of "image_mset byte_key"] by (simp add: sort_mem_elems byte_key_def)
  from properties_for_sort [OF this m'(3)] m'(1) show ?thesis by simp
qed

text \<open>The key 2 is the byte at \<open>0x2011\<close>, an element of the second array.\<close>

definition key_there :: "guest_mem \<Rightarrow> bool" where
  "key_there m \<longleftrightarrow> mm_null m \<le> 0x2010 \<and> mem_read u8_type m 0x2011 = Some 2"

lemma sort_mem_probes: "probes byte_compare byte_key 0x2011 2 0x2010 3 1 key_there"
proof -
  have "\<exists>r f. byte_compare m 0x2011 (0x2010 + of_nat (i * unat (1 :: u32))) = Some (r, m\<lparr>mm_bytes := f\<rparr>)
      \<and> get_range f 0x2010 3 = get_range (mm_bytes m) 0x2010 3
      \<and> sgn (sint r) = sgn (2 - byte_key (elems 0x2010 3 1 m ! i)) \<and> key_there (m\<lparr>mm_bytes := f\<rparr>)"
    if "key_there m" "i < 3" for m i
    using byte_elem [of m "0x2010" i] that byte_sign [of 2 "hd (elems 0x2010 3 1 m ! i)"]
    by (intro exI [of _ "if 2 < hd (elems 0x2010 3 1 m ! i) then - 1
          else if 2 = hd (elems 0x2010 3 1 m ! i) then 0 else 1"] exI [of _ "mm_bytes m"])
      (simp add: byte_compare_def byte_key_def key_there_def)
  then show ?thesis by (simp add: probes_def)
qed

theorem bsearch_finds_witness:
  "\<exists>m'. bsearch byte_compare sort_mem 0x2011 0x2010 3 1 = Some (0x2011, m')"
proof -
  have "mem_read u8_type sort_mem 0x2011 = Some 2" by code_simp
  then have "key_there sort_mem" by (simp add: key_there_def sort_mem_elems)
  moreover have "sorted (map byte_key (elems 0x2010 3 1 sort_mem))" "2 \<in> set (map byte_key (elems 0x2010 3 1 sort_mem))"
    by (simp_all add: sort_mem_elems byte_key_def)
  moreover have "i = 1" if "i < 3" "byte_key (elems 0x2010 3 1 sort_mem ! i) = 2" for i
  proof -
    from that(1) consider "i = 0" | "i = 1" | "i = 2" by linarith
    then show ?thesis using that(2) by cases (simp_all add: sort_mem_elems byte_key_def)
  qed
  ultimately show ?thesis using bsearch_finds [OF _ _ _ _ sort_mem_probes, of sort_mem] sort_mem_elems(3) by fastforce
qed

end
