(* ===== verification/Abi.thy ===== *)
theory Abi
  imports Scheduler
begin

text \<open>
  Calls between host and guest: \<open>src/abi.rs\<close> and the part of \<open>src/cpu.rs\<close> that it uses. The 16
  registers are a function of their number. Running the CPU is a parameter. An argument type is
  a record of what its \<open>GuestArg\<close> implementation says, an argument tuple a record built from these
  by \<open>args_nil\<close> and \<open>args_cons\<close> as the macros build tuples.
\<close>

subsection \<open>The CPU\<close>

record cpu_env =
  ce_regs :: "nat \<Rightarrow> u32"
  ce_cpsr :: u32
  ce_mem :: guest_mem

abbreviation CPU_SP :: nat where "CPU_SP \<equiv> 13"
abbreviation CPU_LR :: nat where "CPU_LR \<equiv> 14"
abbreviation CPU_PC :: nat where "CPU_PC \<equiv> 15"
abbreviation FRAME_POINTER :: nat where "FRAME_POINTER \<equiv> 7"
abbreviation CPSR_THUMB :: u32 where "CPSR_THUMB \<equiv> 0x20"

definition set_reg :: "nat \<Rightarrow> u32 \<Rightarrow> cpu_env \<Rightarrow> cpu_env" where
  "set_reg r v e = e\<lparr>ce_regs := (ce_regs e)(r := v)\<rparr>"

text \<open>\<open>GuestFunction\<close>, an address with the Thumb bit.\<close>

type_synonym guest_function = u32

definition from_addr_and_thumb_flag :: "u32 \<Rightarrow> bool \<Rightarrow> guest_function" where
  "from_addr_and_thumb_flag pc thumb = or pc (if thumb then 1 else 0)"

definition is_thumb :: "guest_function \<Rightarrow> bool" where
  "is_thumb f \<longleftrightarrow> and f 1 = 1"

definition addr_without_thumb_bit :: "guest_function \<Rightarrow> u32" where
  "addr_without_thumb_bit f = and f (not 1)"

definition pc_with_thumb_bit :: "cpu_env \<Rightarrow> guest_function" where
  "pc_with_thumb_bit e = from_addr_and_thumb_flag (ce_regs e CPU_PC) (and (ce_cpsr e) CPSR_THUMB = CPSR_THUMB)"

definition branch :: "guest_function \<Rightarrow> cpu_env \<Rightarrow> cpu_env" where
  "branch f e = (set_reg CPU_PC (addr_without_thumb_bit f) e)
     \<lparr>ce_cpsr := or (and (ce_cpsr e) (not CPSR_THUMB)) (if is_thumb f then CPSR_THUMB else 0)\<rparr>"

definition branch_with_link :: "guest_function \<Rightarrow> guest_function \<Rightarrow> cpu_env \<Rightarrow> (guest_function \<times> guest_function) \<times> cpu_env" where
  "branch_with_link new_pc new_lr e =
     ((pc_with_thumb_bit e, ce_regs e CPU_LR), set_reg CPU_LR new_lr (branch new_pc e))"

subsection \<open>Arguments\<close>

record 'a guest_arg =
  ga_count :: nat
  ga_from :: "u32 list \<Rightarrow> 'a"
  ga_to :: "'a \<Rightarrow> u32 list"

definition to_u32 :: "nat \<Rightarrow> u32 run" where
  "to_u32 n = (if n < 2 ^ 32 then Some (of_nat n) else None)"

text \<open>Where the argument word number \<open>off\<close> is read and written.\<close>

definition arg_slot :: "(nat \<Rightarrow> u32) \<Rightarrow> vaddr \<Rightarrow> guest_mem \<Rightarrow> nat \<Rightarrow> u32 run" where
  "arg_slot regs sp m off =
     (if off < 4 then Some (regs off) else do { k \<leftarrow> to_u32 (off - 4); elem_at u32_type m sp k })"

definition put_slot :: "nat \<Rightarrow> u32 \<Rightarrow> cpu_env \<Rightarrow> cpu_env run" where
  "put_slot off w e =
     (if off < 4 then Some (set_reg off w e)
      else do {
        k \<leftarrow> to_u32 (off - 4);
        m \<leftarrow> set_elem u32_type (ce_mem e) (ce_regs e CPU_SP) k w;
        Some (e\<lparr>ce_mem := m\<rparr>) })"

fun read_words :: "(nat \<Rightarrow> u32) \<Rightarrow> vaddr \<Rightarrow> guest_mem \<Rightarrow> nat \<Rightarrow> nat \<Rightarrow> u32 list run" where
  "read_words regs sp m off 0 = Some []"
| "read_words regs sp m off (Suc n) = do {
     w \<leftarrow> arg_slot regs sp m off;
     ws \<leftarrow> read_words regs sp m (off + 1) n;
     Some (w # ws) }"

definition read_next_arg ::
    "('a, 'z) guest_arg_scheme \<Rightarrow> nat \<Rightarrow> (nat \<Rightarrow> u32) \<Rightarrow> vaddr \<Rightarrow> guest_mem \<Rightarrow> ('a \<times> nat) run" where
  "read_next_arg T off regs sp m = do {
     _ \<leftarrow> rassert (ga_count T \<le> 16);
     ws \<leftarrow> read_words regs sp m off (ga_count T);
     Some (ga_from T ws, off + ga_count T) }"

fun write_words :: "u32 list \<Rightarrow> nat \<Rightarrow> cpu_env \<Rightarrow> cpu_env run" where
  "write_words [] off e = Some e"
| "write_words (w # ws) off e = do { e1 \<leftarrow> put_slot off w e; write_words ws (off + 1) e1 }"

definition write_next_arg :: "('a, 'z) guest_arg_scheme \<Rightarrow> 'a \<Rightarrow> nat \<Rightarrow> cpu_env \<Rightarrow> (nat \<times> cpu_env) run" where
  "write_next_arg T x off e = do {
     _ \<leftarrow> rassert (ga_count T \<le> 16);
     e1 \<leftarrow> write_words (ga_to T x) off e;
     Some (off + ga_count T, e1) }"

definition extend_stack_for_args :: "nat \<Rightarrow> cpu_env \<Rightarrow> (u32 \<times> cpu_env) run" where
  "extend_stack_for_args reg_count_sum e = (let old = ce_regs e CPU_SP in
     if 4 < reg_count_sum then do {
       k \<leftarrow> to_u32 (reg_count_sum - 4);
       sp \<leftarrow> ptr_sub 4 old k;
       Some (old, set_reg CPU_SP sp e) }
     else Some (old, e))"

definition va_list_next :: "('a, 'z) guest_arg_scheme \<Rightarrow> nat \<times> vaddr \<Rightarrow> cpu_env \<Rightarrow> ('a \<times> nat \<times> vaddr) run" where
  "va_list_next T va e = do {
     (x, off) \<leftarrow> read_next_arg T (fst va) (ce_regs e) (snd va) (ce_mem e);
     Some (x, off, snd va) }"

text \<open>The implementations of \<open>GuestArg\<close>. \<open>u16\<close>, \<open>u8\<close>, \<open>i16\<close> and \<open>i8\<close> are converted by \<open>as\<close>.\<close>

definition u32_arg :: "u32 guest_arg" where
  "u32_arg = \<lparr>ga_count = 1, ga_from = (\<lambda>ws. ws ! 0), ga_to = (\<lambda>x. [x])\<rparr>"

definition narrow_arg :: "'a::len word guest_arg" where
  "narrow_arg = \<lparr>ga_count = 1, ga_from = (\<lambda>ws. ucast (ws ! 0)), ga_to = (\<lambda>x. [ucast x])\<rparr>"

definition narrow_signed_arg :: "'a::len word guest_arg" where
  "narrow_signed_arg = \<lparr>ga_count = 1, ga_from = (\<lambda>ws. ucast (ws ! 0)), ga_to = (\<lambda>x. [scast x])\<rparr>"

definition bool_arg :: "bool guest_arg" where
  "bool_arg = \<lparr>ga_count = 1, ga_from = (\<lambda>ws. ws ! 0 \<noteq> 0), ga_to = (\<lambda>b. [if b then 1 else 0])\<rparr>"

definition u64_arg :: "u64 guest_arg" where
  "u64_arg = \<lparr>ga_count = 2,
     ga_from = (\<lambda>ws. le_dec (le_enc 4 (ws ! 0) @ le_enc 4 (ws ! 1))),
     ga_to = (\<lambda>x. [le_dec (take 4 (le_enc 8 x)), le_dec (drop 4 (le_enc 8 x))])\<rparr>"

subsection \<open>Tuples of arguments\<close>

record 'p guest_args =
  gs_sum :: nat
  gs_read :: "nat \<Rightarrow> (nat \<Rightarrow> u32) \<Rightarrow> vaddr \<Rightarrow> guest_mem \<Rightarrow> ('p \<times> nat) run"
  gs_write :: "'p \<Rightarrow> nat \<Rightarrow> cpu_env \<Rightarrow> (nat \<times> cpu_env) run"

definition args_nil :: "unit guest_args" where
  "args_nil = \<lparr>gs_sum = 0, gs_read = (\<lambda>off regs sp m. Some ((), off)), gs_write = (\<lambda>_ off e. Some (off, e))\<rparr>"

definition args_cons :: "'a guest_arg \<Rightarrow> 'p guest_args \<Rightarrow> ('a \<times> 'p) guest_args" where
  "args_cons T A = \<lparr>gs_sum = ga_count T + gs_sum A,
     gs_read = (\<lambda>off regs sp m. do {
       (x, off1) \<leftarrow> read_next_arg T off regs sp m;
       (p, off2) \<leftarrow> gs_read A off1 regs sp m;
       Some ((x, p), off2) }),
     gs_write = (\<lambda>(x, p) off e. do {
       (off1, e1) \<leftarrow> write_next_arg T x off e;
       gs_write A p off1 e1 })\<rparr>"

subsection \<open>Return values and calls\<close>

record 'r guest_ret =
  gr_size_in_mem :: "guest_usize option"
  gr_from_regs :: "(nat \<Rightarrow> u32) \<Rightarrow> 'r run"
  gr_to_regs :: "'r \<Rightarrow> (nat \<Rightarrow> u32) \<Rightarrow> (nat \<Rightarrow> u32) run"
  gr_from_mem :: "vaddr \<Rightarrow> guest_mem \<Rightarrow> 'r run"
  gr_to_mem :: "'r \<Rightarrow> vaddr \<Rightarrow> guest_mem \<Rightarrow> guest_mem run"

text \<open>\<open>impl GuestRet for u32\<close>, for \<open>()\<close> and \<open>u64\<close>, and \<open>impl_GuestRet_for_large_struct!\<close>.\<close>

definition u32_ret :: "u32 guest_ret" where
  "u32_ret = \<lparr>gr_size_in_mem = None, gr_from_regs = (\<lambda>regs. Some (regs 0)),
     gr_to_regs = (\<lambda>x regs. Some (regs(0 := x))), gr_from_mem = (\<lambda>_ _. None), gr_to_mem = (\<lambda>_ _ _. None)\<rparr>"

definition unit_ret :: "unit guest_ret" where
  "unit_ret = \<lparr>gr_size_in_mem = None, gr_from_regs = (\<lambda>regs. Some ()),
     gr_to_regs = (\<lambda>x regs. Some regs), gr_from_mem = (\<lambda>_ _. None), gr_to_mem = (\<lambda>_ _ _. None)\<rparr>"

definition u64_ret :: "u64 guest_ret" where
  "u64_ret = \<lparr>gr_size_in_mem = None,
     gr_from_regs = (\<lambda>regs. Some (le_dec (le_enc 4 (regs 0) @ le_enc 4 (regs 1)))),
     gr_to_regs = (\<lambda>x regs. Some (regs(0 := le_dec (take 4 (le_enc 8 x)), 1 := le_dec (drop 4 (le_enc 8 x))))),
     gr_from_mem = (\<lambda>_ _. None), gr_to_mem = (\<lambda>_ _ _. None)\<rparr>"

definition struct_ret :: "'r guest_type \<Rightarrow> 'r guest_ret" where
  "struct_ret T = \<lparr>gr_size_in_mem = Some (gt_size T), gr_from_regs = (\<lambda>_. None), gr_to_regs = (\<lambda>_ _. None),
     gr_from_mem = (\<lambda>p m. mem_read T m p), gr_to_mem = (\<lambda>r p m. mem_write T m p r)\<rparr>"

type_synonym ('p, 'r) host_function = "'p \<Rightarrow> cpu_env \<Rightarrow> ('r \<times> cpu_env) run"

definition call_from_guest :: "'r guest_ret \<Rightarrow> 'p guest_args \<Rightarrow> ('p, 'r) host_function \<Rightarrow> cpu_env \<Rightarrow> cpu_env run" where
  "call_from_guest R A f e = do {
     (retval_ptr, off) \<leftarrow> (case gr_size_in_mem R of
         None \<Rightarrow> Some (None, 0)
       | Some _ \<Rightarrow> do {
           (p, off) \<leftarrow> read_next_arg u32_arg 0 (ce_regs e) (ce_regs e CPU_SP) (ce_mem e);
           Some (Some p, off) });
     (args, _) \<leftarrow> gs_read A off (ce_regs e) (ce_regs e CPU_SP) (ce_mem e);
     (retval, e1) \<leftarrow> f args e;
     case retval_ptr of
       Some p \<Rightarrow> do { m \<leftarrow> gr_to_mem R retval p (ce_mem e1); Some (e1\<lparr>ce_mem := m\<rparr>) }
     | None \<Rightarrow> do { regs \<leftarrow> gr_to_regs R retval (ce_regs e1); Some (e1\<lparr>ce_regs := regs\<rparr>) } }"

text \<open>The same for a variadic function, which also gets the \<open>VaList\<close> of what follows the fixed arguments.\<close>

definition call_from_guest_variadic ::
    "'r guest_ret \<Rightarrow> 'p guest_args \<Rightarrow> ('p \<times> nat \<times> vaddr, 'r) host_function \<Rightarrow> cpu_env \<Rightarrow> cpu_env run" where
  "call_from_guest_variadic R A f e = do {
     (retval_ptr, off) \<leftarrow> (case gr_size_in_mem R of
         None \<Rightarrow> Some (None, 0)
       | Some _ \<Rightarrow> do {
           (p, off) \<leftarrow> read_next_arg u32_arg 0 (ce_regs e) (ce_regs e CPU_SP) (ce_mem e);
           Some (Some p, off) });
     (args, off') \<leftarrow> gs_read A off (ce_regs e) (ce_regs e CPU_SP) (ce_mem e);
     (retval, e1) \<leftarrow> f (args, off', ce_regs e CPU_SP) e;
     case retval_ptr of
       Some p \<Rightarrow> do { m \<leftarrow> gr_to_mem R retval p (ce_mem e1); Some (e1\<lparr>ce_mem := m\<rparr>) }
     | None \<Rightarrow> do { regs \<leftarrow> gr_to_regs R retval (ce_regs e1); Some (e1\<lparr>ce_regs := regs\<rparr>) } }"

text \<open>\<open>CallFromHost\<close> for what implements \<open>CallFromGuest\<close>, a host function.\<close>

definition call_from_host ::
    "'r guest_ret \<Rightarrow> 'p guest_args \<Rightarrow> (cpu_env \<Rightarrow> cpu_env run) \<Rightarrow> 'p \<Rightarrow> cpu_env \<Rightarrow> ('r \<times> cpu_env) run" where
  "call_from_host R A callee args e = do {
     (retval_ptr, off, e1) \<leftarrow> (case gr_size_in_mem R of
         None \<Rightarrow> Some (None, 0, e)
       | Some n \<Rightarrow> do {
           p \<leftarrow> sub_chk (ce_regs e CPU_SP) n;
           (off, e1) \<leftarrow> write_next_arg u32_arg p 0 (set_reg CPU_SP p e);
           Some (Some p, off, e1) });
     (old_sp, e2) \<leftarrow> extend_stack_for_args (gs_sum A) e1;
     (_, e3) \<leftarrow> gs_write A args off e2;
     e4 \<leftarrow> callee e3;
     let e5 = set_reg CPU_SP old_sp e4;
     case retval_ptr of
       Some p \<Rightarrow> do {
         n \<leftarrow> gr_size_in_mem R;
         sp \<leftarrow> add_chk (ce_regs e5 CPU_SP) n;
         let e6 = set_reg CPU_SP sp e5;
         r \<leftarrow> gr_from_mem R p (ce_mem e6);
         Some (r, e6) }
     | None \<Rightarrow> do { r \<leftarrow> gr_from_regs R (ce_regs e5); Some (r, e5) } }"

text \<open>
  \<open>CallFromHost\<close> for \<open>GuestFunction\<close>; \<open>run_call\<close> is \<open>Environment::run_call\<close>, \<open>return_routine\<close>
  the address of the routine that returns to the host.
\<close>

definition call_guest_function ::
    "(cpu_env \<Rightarrow> cpu_env run) \<Rightarrow> guest_function \<Rightarrow> 'r guest_ret \<Rightarrow> 'p guest_args \<Rightarrow> guest_function \<Rightarrow> 'p \<Rightarrow> cpu_env
      \<Rightarrow> ('r \<times> cpu_env) run" where
  "call_guest_function run_call return_routine R A f args e = do {
     let ((old_pc, old_lr), e1) = branch_with_link f return_routine e;
     let old_sp = ce_regs e1 CPU_SP;
     let old_fp = ce_regs e1 FRAME_POINTER;
     sp \<leftarrow> sub_chk old_sp 8;
     let e2 = set_reg FRAME_POINTER sp (set_reg CPU_SP sp e1);
     m1 \<leftarrow> mem_write u32_type (ce_mem e2) sp old_fp;
     sp4 \<leftarrow> add_chk sp 4;
     m2 \<leftarrow> mem_write u32_type m1 sp4 old_lr;
     _ \<leftarrow> rassert (gr_size_in_mem R = None);
     (_, e3) \<leftarrow> extend_stack_for_args (gs_sum A) (e2\<lparr>ce_mem := m2\<rparr>);
     (_, e4) \<leftarrow> gs_write A args 0 e3;
     e5 \<leftarrow> run_call e4;
     let e6 = branch old_pc e5;
     let e7 = set_reg FRAME_POINTER old_fp (set_reg CPU_SP old_sp (set_reg CPU_LR old_lr e6));
     r \<leftarrow> gr_from_regs R (ce_regs e7);
     Some (r, e7) }"

definition call_without_pushing_stack_frame ::
    "(cpu_env \<Rightarrow> cpu_env run) \<Rightarrow> guest_function \<Rightarrow> guest_function \<Rightarrow> cpu_env \<Rightarrow> cpu_env run" where
  "call_without_pushing_stack_frame run_call return_routine f e = do {
     let ((old_pc, old_lr), e1) = branch_with_link f return_routine e;
     e2 \<leftarrow> run_call e1;
     Some (set_reg CPU_LR old_lr (branch old_pc e2)) }"

subsection \<open>Argument words\<close>

abbreviation slot :: "cpu_env \<Rightarrow> nat \<Rightarrow> u32 run" where
  "slot e \<equiv> arg_slot (ce_regs e) (ce_regs e CPU_SP) (ce_mem e)"

text \<open>There is room for \<open>n\<close> argument words: four in registers, the others at the stack pointer.\<close>

definition arg_room :: "cpu_env \<Rightarrow> nat \<Rightarrow> bool" where
  "arg_room e n \<longleftrightarrow> n \<le> 4 \<or> array_ok u32_type (ce_mem e) (ce_regs e CPU_SP) (n - 4)"

text \<open>What writing argument words from number \<open>off\<close> below number \<open>n\<close> leaves alone.\<close>

definition passed :: "nat \<Rightarrow> nat \<Rightarrow> cpu_env \<Rightarrow> cpu_env \<Rightarrow> bool" where
  "passed off n e e' \<longleftrightarrow> (\<forall>j < off. slot e' j = slot e j) \<and> (\<forall>r \<ge> 4. ce_regs e' r = ce_regs e r)
     \<and> agree_on (- array_bytes u32_type (ce_regs e CPU_SP) (n - 4)) (mm_bytes (ce_mem e')) (mm_bytes (ce_mem e))
     \<and> same_allocators (ce_mem e) (ce_mem e') \<and> ce_cpsr e' = ce_cpsr e"

lemma same_allocators_refl [simp]: "same_allocators m m"
  by (simp add: same_allocators_def)

lemma same_allocators_trans: "same_allocators l m \<Longrightarrow> same_allocators m n \<Longrightarrow> same_allocators l n"
  by (simp add: same_allocators_def)

lemma passed_refl [simp]: "passed off n e e"
  by (simp add: passed_def)

lemma passedD:
  assumes "passed off n e e'"
  shows "j < off \<Longrightarrow> slot e' j = slot e j" "4 \<le> r \<Longrightarrow> ce_regs e' r = ce_regs e r"
    "agree_on (- array_bytes u32_type (ce_regs e CPU_SP) (n - 4)) (mm_bytes (ce_mem e')) (mm_bytes (ce_mem e))"
    "same_allocators (ce_mem e) (ce_mem e')" "ce_cpsr e' = ce_cpsr e"
  using assms unfolding passed_def by blast+

lemma passed_trans:
  assumes a: "passed off n e e1" and b: "passed off' n e1 e2" and le: "off \<le> off'"
  shows "passed off n e e2"
proof -
  have sp: "ce_regs e1 CPU_SP = ce_regs e CPU_SP" using passedD(2) [OF a] by simp
  have "agree_on (- array_bytes u32_type (ce_regs e CPU_SP) (n - 4)) (mm_bytes (ce_mem e2)) (mm_bytes (ce_mem e))"
    using agree_on_trans [OF passedD(3) [OF b, unfolded sp] passedD(3) [OF a]] .
  moreover have "\<forall>j < off. slot e2 j = slot e j" using passedD(1) [OF a] passedD(1) [OF b] le by fastforce
  moreover have "\<forall>r \<ge> 4. ce_regs e2 r = ce_regs e r" using passedD(2) [OF a] passedD(2) [OF b] by metis
  moreover have "same_allocators (ce_mem e) (ce_mem e2)"
    by (rule same_allocators_trans [OF passedD(4) [OF a] passedD(4) [OF b]])
  ultimately show ?thesis using passedD(5) [OF a] passedD(5) [OF b] unfolding passed_def by metis
qed

lemma passed_mono: "passed off n e e' \<Longrightarrow> n \<le> n' \<Longrightarrow> passed off n' e e'"
proof -
  assume p: "passed off n e e'" and "n \<le> n'"
  then have "- array_bytes u32_type (ce_regs e CPU_SP) (n' - 4) \<subseteq> - array_bytes u32_type (ce_regs e CPU_SP) (n - 4)"
    by (auto simp: array_bytes_def u32_type_def)
  from agree_on_mono [OF passedD(3) [OF p] this] show ?thesis using p unfolding passed_def by blast
qed

lemma passed_room: "passed off n e e' \<Longrightarrow> arg_room e' k = arg_room e k"
  by (simp add: passed_def arg_room_def array_ok_def same_allocators_def)

lemma room_mono: "arg_room e n \<Longrightarrow> k \<le> n \<Longrightarrow> arg_room e k"
  unfolding arg_room_def using u32c.array_ok_mono [of "ce_mem e" "ce_regs e CPU_SP" "n - 4" "k - 4", OF _ diff_le_mono]
  by (metis le_trans)

lemma to_u32_ix: "n < 2 ^ 32 \<Longrightarrow> to_u32 n = Some (ix n)"
  by (simp add: to_u32_def ix_def)

lemma put_slot_law:
  assumes room: "arg_room e n" and off: "off < n"
  shows "\<exists>e'. put_slot off w e = Some e' \<and> slot e' off = Some w \<and> passed off n e e'"
proof (cases "off < 4")
  case True
  then show ?thesis by (intro exI [of _ "set_reg off w e"]) (auto simp: put_slot_def set_reg_def passed_def arg_slot_def)
next
  case False
  let ?sp = "ce_regs e CPU_SP"
  have ok: "array_ok u32_type (ce_mem e) ?sp (n - 4)" using room False off by (simp add: arg_room_def)
  have k: "off - 4 < n - 4" using False off by simp
  have big: "j - 4 < 2 ^ 32" if "j < n" for j
    using u32c.elem_ptr_ok(4) [OF ok, of "j - 4"] that k by (cases "j < 4") auto
  obtain m where m: "set_elem u32_type (ce_mem e) ?sp (ix (off - 4)) w = Some m"
    using u32c.set_elem_ok [OF ok k] by blast
  note laws = u32c.elem_set_elem [OF ok k m]
  have "arg_slot (ce_regs e) ?sp m j = (if j = off then Some w else slot e j)" if "j < n" for j
    using laws(2) [of "j - 4"] that big [OF that] big [OF off] False k by (auto simp: arg_slot_def to_u32_ix ix_inj)
  then show ?thesis using m False big [OF off] laws(3-6) off
    by (intro exI [of _ "e\<lparr>ce_mem := m\<rparr>"]) (simp add: put_slot_def to_u32_ix passed_def same_allocators_def)
qed

lemma write_words_law:
  "arg_room e (off + length ws) \<Longrightarrow> \<exists>e'. write_words ws off e = Some e'
    \<and> (\<forall>j < length ws. slot e' (off + j) = Some (ws ! j)) \<and> passed off (off + length ws) e e'"
proof (induction ws arbitrary: off e)
  case Nil
  then show ?case by simp
next
  case (Cons w ws)
  from put_slot_law [OF Cons.prems, of off w] obtain e1 where
    e1: "put_slot off w e = Some e1" "slot e1 off = Some w" "passed off (off + length (w # ws)) e e1" by auto
  have "arg_room e1 (Suc off + length ws)" using Cons.prems passed_room [OF e1(3)] by simp
  from Cons.IH [OF this] obtain e2 where
    e2: "write_words ws (Suc off) e1 = Some e2" "\<forall>j < length ws. slot e2 (Suc off + j) = Some (ws ! j)"
      "passed (Suc off) (Suc off + length ws) e1 e2" by blast
  have "slot e2 off = Some w" using e1(2) passedD(1) [OF e2(3), of off] by (metis lessI)
  then have "\<forall>j < length (w # ws). slot e2 (off + j) = Some ((w # ws) ! j)"
    using e2(2) by (auto simp: less_Suc_eq_0_disj)
  moreover have "passed off (off + length (w # ws)) e e2" using passed_trans [OF e1(3)] e2(3) by simp
  ultimately show ?case using e1(1) e2(1) by auto
qed

lemma read_words_law:
  "(\<forall>j < length ws. arg_slot regs sp m (off + j) = Some (ws ! j)) \<Longrightarrow> read_words regs sp m off (length ws) = Some ws"
proof (induction ws arbitrary: off)
  case (Cons w ws)
  have "arg_slot regs sp m off = Some w" using Cons.prems [rule_format, of 0] by simp
  moreover have "\<forall>j < length ws. arg_slot regs sp m (Suc off + j) = Some (ws ! j)"
    using Cons.prems by (auto dest: spec [of _ "Suc _"])
  ultimately show ?case using Cons.IH [of "Suc off"] by simp
qed simp

lemma read_words_cong:
  "(\<And>j. off \<le> j \<Longrightarrow> j < off + n \<Longrightarrow> arg_slot regs sp m j = arg_slot regs' sp' m' j)
    \<Longrightarrow> read_words regs sp m off n = read_words regs' sp' m' off n"
  by (induction n arbitrary: off) simp_all

subsection \<open>What a type of arguments or of return values promises\<close>

locale arg_codec =
  fixes T :: "'a guest_arg"
  assumes count: "length (ga_to T x) = ga_count T"
    and few: "ga_count T \<le> 16"
    and from_to: "ga_from T (ga_to T x) = x"
begin

lemma write_next:
  assumes "arg_room e (off + ga_count T)"
  shows "\<exists>e'. write_next_arg T x off e = Some (off + ga_count T, e')
    \<and> read_next_arg T off (ce_regs e') (ce_regs e' CPU_SP) (ce_mem e') = Some (x, off + ga_count T)
    \<and> passed off (off + ga_count T) e e'"
proof -
  from write_words_law [of e off "ga_to T x"] assms obtain e' where
    e': "write_words (ga_to T x) off e = Some e'" "\<forall>j < length (ga_to T x). slot e' (off + j) = Some (ga_to T x ! j)"
      "passed off (off + ga_count T) e e'" by (auto simp: count)
  from read_words_law [OF e'(2)] have "read_words (ce_regs e') (ce_regs e' CPU_SP) (ce_mem e') off (ga_count T) = Some (ga_to T x)"
    by (simp add: count)
  then show ?thesis using e' few by (simp add: write_next_arg_def read_next_arg_def from_to)
qed

end

lemma read_next_cong:
  "(\<And>j. off \<le> j \<Longrightarrow> j < off + ga_count T \<Longrightarrow> arg_slot regs sp m j = arg_slot regs' sp' m' j)
    \<Longrightarrow> read_next_arg T off regs sp m = read_next_arg T off regs' sp' m'"
  unfolding read_next_arg_def by (simp add: read_words_cong [of off "ga_count T" regs sp m regs' sp' m'])

lemma read_next_off: "read_next_arg T off regs sp m = Some (x, off') \<Longrightarrow> off' = off + ga_count T"
  by (auto simp: read_next_arg_def run_simps)

locale args_codec =
  fixes A :: "'p guest_args"
  assumes write_args: "arg_room e (off + gs_sum A) \<Longrightarrow> \<exists>e'. gs_write A p off e = Some (off + gs_sum A, e')
      \<and> gs_read A off (ce_regs e') (ce_regs e' CPU_SP) (ce_mem e') = Some (p, off + gs_sum A)
      \<and> passed off (off + gs_sum A) e e'"
    and read_cong: "(\<And>j. off \<le> j \<Longrightarrow> j < off + gs_sum A \<Longrightarrow> arg_slot regs sp m j = arg_slot regs' sp' m' j)
      \<Longrightarrow> gs_read A off regs sp m = gs_read A off regs' sp' m'"

locale ret_codec =
  fixes R :: "'r guest_ret"
  assumes in_regs: "gr_size_in_mem R = None \<Longrightarrow> \<exists>regs'. gr_to_regs R x regs = Some regs'
      \<and> gr_from_regs R (regs'(CPU_SP := sp)) = Some x \<and> (\<forall>i \<ge> 4. regs' i = regs i)"
    and in_mem: "gr_size_in_mem R = Some n \<Longrightarrow> mm_null m \<le> p \<Longrightarrow> unat p + unat n \<le> 2 ^ 32
      \<Longrightarrow> \<exists>m'. gr_to_mem R x p m = Some m' \<and> gr_from_mem R p m' = Some x \<and> same_allocators m m'
        \<and> agree_on (- {unat p ..< unat p + unat n}) (mm_bytes m') (mm_bytes m)"

interpretation u32a: arg_codec u32_arg
  by unfold_locales (simp_all add: u32_arg_def)

lemma narrow_round_trip [simp]:
  "ucast (ucast (x :: u16) :: u32) = x" "ucast (ucast (y :: u8) :: u32) = y"
  "ucast (scast (x :: u16) :: u32) = x" "ucast (scast (y :: u8) :: u32) = y"
  by (rule bit_word_eqI; simp add: bit_simps)+

interpretation u16a: arg_codec "narrow_arg :: u16 guest_arg"
  by unfold_locales (simp_all add: narrow_arg_def)

interpretation u8a: arg_codec "narrow_arg :: u8 guest_arg"
  by unfold_locales (simp_all add: narrow_arg_def)

interpretation i16a: arg_codec "narrow_signed_arg :: u16 guest_arg"
  by unfold_locales (simp_all add: narrow_signed_arg_def)

interpretation i8a: arg_codec "narrow_signed_arg :: u8 guest_arg"
  by unfold_locales (simp_all add: narrow_signed_arg_def)

interpretation boola: arg_codec bool_arg
  by unfold_locales (simp_all add: bool_arg_def)

lemma le_enc_dec:
  assumes "length bs = n"
  shows "8 * n \<le> LENGTH('a) \<Longrightarrow> le_enc n (le_dec bs :: 'a::len word) = bs"
proof (rule nth_equalityI)
  assume le: "8 * n \<le> LENGTH('a)"
  fix i
  assume i: "i < length (le_enc n (le_dec bs :: 'a word))"
  then have i: "i < n" by (simp add: le_enc_def)
  have "bit (le_enc n (le_dec bs :: 'a word) ! i) k \<longleftrightarrow> bit (bs ! i) k" if "k < 8" for k
    using that i le assms by (simp add: le_enc_def bit_simps bit_le_dec)
  then show "le_enc n (le_dec bs :: 'a word) ! i = bs ! i"
    by (intro bit_word_eqI) simp
qed (use assms in \<open>simp add: le_enc_def\<close>)

lemma u64_words: "le_dec (le_enc 4 (le_dec (take 4 (le_enc 8 x)) :: u32) @ le_enc 4 (le_dec (drop 4 (le_enc 8 x)) :: u32)) = (x :: u64)"
  by (simp add: le_enc_dec le_dec_enc [where ?'a = 64 and n = 8])

interpretation u64a: arg_codec u64_arg
  by unfold_locales (simp_all add: u64_arg_def u64_words)

text \<open>Tuples.\<close>

interpretation no_args: args_codec args_nil
  by unfold_locales (simp_all add: args_nil_def)

lemma args_cons_codec:
  assumes T: "arg_codec T" and A: "args_codec A"
  shows "args_codec (args_cons T A)"
proof
  fix e off and xp :: "'a \<times> 'b"
  obtain x p where xp: "xp = (x, p)" by (cases xp)
  assume "arg_room e (off + gs_sum (args_cons T A))"
  then have room: "arg_room e ((off + ga_count T) + gs_sum A)" by (simp add: args_cons_def add.assoc)
  from arg_codec.write_next [OF T room_mono [OF room le_add1], where x = x] obtain e1 where
    e1: "write_next_arg T x off e = Some (off + ga_count T, e1)"
      "read_next_arg T off (ce_regs e1) (ce_regs e1 CPU_SP) (ce_mem e1) = Some (x, off + ga_count T)"
      "passed off (off + ga_count T) e e1" by auto
  have "arg_room e1 ((off + ga_count T) + gs_sum A)" using room passed_room [OF e1(3)] by simp
  from args_codec.write_args [OF A this, where p = p] obtain e2 where
    e2: "gs_write A p (off + ga_count T) e1 = Some (off + ga_count T + gs_sum A, e2)"
      "gs_read A (off + ga_count T) (ce_regs e2) (ce_regs e2 CPU_SP) (ce_mem e2) = Some (p, off + ga_count T + gs_sum A)"
      "passed (off + ga_count T) (off + ga_count T + gs_sum A) e1 e2" by blast
  have "read_next_arg T off (ce_regs e2) (ce_regs e2 CPU_SP) (ce_mem e2) = Some (x, off + ga_count T)"
    using e1(2) read_next_cong [of off T "ce_regs e2"] passedD(1) [OF e2(3)] by metis
  moreover have "passed off (off + ga_count T + gs_sum A) e e2"
    by (rule passed_trans [OF passed_mono [OF e1(3)] e2(3)]) simp_all
  ultimately show "\<exists>e'. gs_write (args_cons T A) xp off e = Some (off + gs_sum (args_cons T A), e')
      \<and> gs_read (args_cons T A) off (ce_regs e') (ce_regs e' CPU_SP) (ce_mem e') = Some (xp, off + gs_sum (args_cons T A))
      \<and> passed off (off + gs_sum (args_cons T A)) e e'"
    using e1(1) e2(1,2) by (simp add: args_cons_def xp add.assoc)
next
  fix off regs sp m regs' sp' m'
  assume same: "\<And>j. off \<le> j \<Longrightarrow> j < off + gs_sum (args_cons T A) \<Longrightarrow> arg_slot regs sp m j = arg_slot regs' sp' m' j"
  have "read_next_arg T off regs sp m = read_next_arg T off regs' sp' m'"
    by (rule read_next_cong) (simp add: same args_cons_def)
  moreover have "gs_read A (off + ga_count T) regs sp m = gs_read A (off + ga_count T) regs' sp' m'"
    by (rule args_codec.read_cong [OF A]) (simp add: same args_cons_def)
  ultimately show "gs_read (args_cons T A) off regs sp m = gs_read (args_cons T A) off regs' sp' m'"
    by (cases "read_next_arg T off regs' sp' m'") (auto simp: args_cons_def dest: read_next_off)
qed

text \<open>Return values.\<close>

interpretation u32r: ret_codec u32_ret
  by unfold_locales (simp_all add: u32_ret_def)

interpretation unitr: ret_codec unit_ret
  by unfold_locales (simp_all add: unit_ret_def)

interpretation u64r: ret_codec u64_ret
  by unfold_locales (simp_all add: u64_ret_def u64_words)

context guest_codec
begin

lemma write_read:
  assumes "mm_null m \<le> p" and "unat p + unat (gt_size T) \<le> 2 ^ 32"
  shows "\<exists>m'. mem_write T m p x = Some m' \<and> mem_read T m' p = Some x \<and> same_allocators m m'
    \<and> agree_on (- {unat p ..< unat p + unat (gt_size T)}) (mm_bytes m') (mm_bytes m)"
proof -
  have b: "unat p + length (gt_enc T x) \<le> 2 ^ 32" using assms(2) by (simp add: enc_length)
  let ?m = "m\<lparr>mm_bytes := put_range (mm_bytes m) p (gt_enc T x)\<rparr>"
  have "mem_write T m p x = Some ?m" using assms by (rule write_ok)
  moreover have "mem_read T ?m p = Some x"
    using read_ok [of ?m p] assms get_put_same [OF b enc_bound] by (simp add: enc_length dec_enc)
  moreover have "agree_on (- {unat p ..< unat p + unat (gt_size T)}) (mm_bytes ?m) (mm_bytes m)"
    using agree_on_put [OF b enc_bound] by (simp add: enc_length)
  ultimately show ?thesis by (auto simp: same_allocators_def)
qed

lemma read_agree:
  assumes "unat p + unat (gt_size T) \<le> 2 ^ 32" and "agree_on S (mm_bytes m') (mm_bytes m)"
    and "{unat p ..< unat p + unat (gt_size T)} \<subseteq> S" and "mm_null m' = mm_null m"
  shows "mem_read T m' p = mem_read T m p"
  using agree_on_range [OF agree_on_mono [OF assms(2,3)] assms(1)] assms(1,4)
  by (simp add: mem_read_def ptr_at_def mul_chk_one bytes_at_def unchecked_bytes_at_def)

end

lemma struct_ret_codec: "guest_codec T \<Longrightarrow> ret_codec (struct_ret T)"
  by unfold_locales (auto simp: struct_ret_def dest: guest_codec.write_read)

subsection \<open>Calls\<close>

text \<open>The caller makes room on the stack and writes the arguments; the callee finds them.\<close>

lemma pass_args:
  assumes A: "args_codec A" and sp: "unat (mm_null (ce_mem e)) + 4 * (gs_sum A - 4) \<le> unat (ce_regs e CPU_SP)"
    and top: "unat (ce_regs e CPU_SP) + 4 * (off + gs_sum A - 4) \<le> 2 ^ 32 + 4 * (gs_sum A - 4)"
  obtains e2 e3 where "extend_stack_for_args (gs_sum A) e = Some (ce_regs e CPU_SP, e2)"
    "gs_write A args off e2 = Some (off + gs_sum A, e3)"
    "gs_read A off (ce_regs e3) (ce_regs e3 CPU_SP) (ce_mem e3) = Some (args, off + gs_sum A)"
    "passed off (off + gs_sum A) e2 e3" "e2 = set_reg CPU_SP (ce_regs e3 CPU_SP) e"
    "unat (ce_regs e3 CPU_SP) + 4 * (gs_sum A - 4) = unat (ce_regs e CPU_SP)"
proof -
  let ?w = "gs_sum A - 4" and ?old = "ce_regs e CPU_SP"
  define sp' where "sp' = ?old - of_nat (4 * ?w)"
  let ?e = "set_reg CPU_SP sp' e"
  have w: "4 * ?w \<le> unat ?old" using sp by linarith
  have bw: "?w < 2 ^ 32" using w unat_bound32 [of ?old] by simp
  have u4: "unat (of_nat (4 * ?w) :: u32) = 4 * ?w" by (rule unat_ix [unfolded ix_def]) (use w unat_bound32 [of ?old] in simp)
  have u: "unat sp' + 4 * ?w = unat ?old" unfolding sp'_def using w u4 by (simp add: unat_sub word_le_nat_alt)
  have ext: "extend_stack_for_args (gs_sum A) e = Some (?old, ?e)"
  proof (cases "4 < gs_sum A")
    case True
    have "ptr_sub 4 ?old (ix ?w) = Some sp'" using u by (simp add: ptr_sub_add ptr_add_Some unat_ix [OF bw])
    then show ?thesis using True by (simp add: extend_stack_for_args_def to_u32_ix [OF bw])
  next
    case False
    then show ?thesis by (simp add: extend_stack_for_args_def sp'_def set_reg_def)
  qed
  have "arg_room ?e (off + gs_sum A)"
    using sp top u by (auto simp: arg_room_def set_reg_def array_ok_def u32_type_def word_le_nat_alt)
  from args_codec.write_args [OF A this, where p = args] obtain e3 where
    e3: "gs_write A args off ?e = Some (off + gs_sum A, e3)"
      "gs_read A off (ce_regs e3) (ce_regs e3 CPU_SP) (ce_mem e3) = Some (args, off + gs_sum A)"
      "passed off (off + gs_sum A) ?e e3" by blast
  have "ce_regs e3 CPU_SP = sp'" using passedD(2) [OF e3(3), of CPU_SP] by (simp add: set_reg_def)
  then show thesis using that [OF ext e3] u by simp
qed

text \<open>What the callee's environment is, seen from the caller's.\<close>

definition callee_env :: "nat \<Rightarrow> nat \<Rightarrow> cpu_env \<Rightarrow> cpu_env \<Rightarrow> bool" where
  "callee_env lo hi e e' \<longleftrightarrow> unat (ce_regs e' CPU_SP) = lo \<and> (\<forall>r \<ge> 4. r \<noteq> CPU_SP \<longrightarrow> ce_regs e' r = ce_regs e r)
     \<and> agree_on (- {lo ..< hi}) (mm_bytes (ce_mem e')) (mm_bytes (ce_mem e))
     \<and> same_allocators (ce_mem e) (ce_mem e') \<and> ce_cpsr e' = ce_cpsr e"

lemma callee_passed:
  assumes p: "passed off n (set_reg CPU_SP sp e) e3"
  shows "callee_env (unat sp) (unat sp + 4 * (n - 4)) e e3"
  using passedD(2-5) [OF p] by (simp add: callee_env_def set_reg_def array_bytes_def u32_type_def mult.commute)

lemma callee_env_mono:
  "callee_env lo hi e e' \<Longrightarrow> lo = lo' \<Longrightarrow> hi \<le> hi' \<Longrightarrow> callee_env lo' hi' e e'"
  unfolding callee_env_def by (auto intro: agree_on_mono)

lemma host_call:
  assumes A: "args_codec A" and R: "ret_codec R" and reg: "gr_size_in_mem R = None"
    and sp: "unat (mm_null (ce_mem e)) + 4 * (gs_sum A - 4) \<le> unat (ce_regs e CPU_SP)"
  obtains e3 where "callee_env (unat (ce_regs e CPU_SP) - 4 * (gs_sum A - 4)) (unat (ce_regs e CPU_SP)) e e3"
    "f args e3 = None \<Longrightarrow> call_from_host R A (call_from_guest R A f) args e = None"
    "\<And>r e4. f args e3 = Some (r, e4) \<Longrightarrow> \<exists>e5. call_from_host R A (call_from_guest R A f) args e = Some (r, e5)
       \<and> ce_mem e5 = ce_mem e4 \<and> ce_regs e5 CPU_SP = ce_regs e CPU_SP
       \<and> (\<forall>i \<ge> 4. i \<noteq> CPU_SP \<longrightarrow> ce_regs e5 i = ce_regs e4 i)"
proof -
  have top: "unat (ce_regs e CPU_SP) + 4 * (0 + gs_sum A - 4) \<le> 2 ^ 32 + 4 * (gs_sum A - 4)"
    using unat_bound32 [of "ce_regs e CPU_SP"] by simp
  from pass_args [OF A sp top] obtain e2 e3 where
    e: "extend_stack_for_args (gs_sum A) e = Some (ce_regs e CPU_SP, e2)" "gs_write A args 0 e2 = Some (gs_sum A, e3)"
      "gs_read A 0 (ce_regs e3) (ce_regs e3 CPU_SP) (ce_mem e3) = Some (args, gs_sum A)"
      "passed 0 (gs_sum A) e2 e3" "e2 = set_reg CPU_SP (ce_regs e3 CPU_SP) e"
      "unat (ce_regs e3 CPU_SP) + 4 * (gs_sum A - 4) = unat (ce_regs e CPU_SP)" by auto
  have call: "call_from_host R A (call_from_guest R A f) args e = do {
      (r, e4) \<leftarrow> f args e3;
      regs \<leftarrow> gr_to_regs R r (ce_regs e4);
      r' \<leftarrow> gr_from_regs R (regs(CPU_SP := ce_regs e CPU_SP));
      Some (r', e4\<lparr>ce_regs := regs(CPU_SP := ce_regs e CPU_SP)\<rparr>) }"
    using e(1-3) reg
    by (cases "f args e3") (auto simp: call_from_host_def call_from_guest_def set_reg_def Let_def split: prod.split)
  show thesis
  proof (rule that)
    show "callee_env (unat (ce_regs e CPU_SP) - 4 * (gs_sum A - 4)) (unat (ce_regs e CPU_SP)) e e3"
      using callee_passed [OF e(4) [unfolded e(5)]] unfolding e(6) [symmetric] by simp
  next
    assume "f args e3 = None"
    then show "call_from_host R A (call_from_guest R A f) args e = None" by (simp add: call)
  next
    fix r e4
    assume f: "f args e3 = Some (r, e4)"
    from ret_codec.in_regs [OF R reg, of r "ce_regs e4" "ce_regs e CPU_SP"] obtain regs where
      "gr_to_regs R r (ce_regs e4) = Some regs" "gr_from_regs R (regs(CPU_SP := ce_regs e CPU_SP)) = Some r"
      "\<forall>i \<ge> 4. regs i = ce_regs e4 i" by blast
    with f show "\<exists>e5. call_from_host R A (call_from_guest R A f) args e = Some (r, e5)
       \<and> ce_mem e5 = ce_mem e4 \<and> ce_regs e5 CPU_SP = ce_regs e CPU_SP
       \<and> (\<forall>i \<ge> 4. i \<noteq> CPU_SP \<longrightarrow> ce_regs e5 i = ce_regs e4 i)" by (simp add: call)
  qed
qed

lemma callee_env_reg: "r < 4 \<Longrightarrow> callee_env lo hi (set_reg r v e) e' = callee_env lo hi e e'"
  by (auto simp: callee_env_def set_reg_def)

text \<open>A structure is returned in memory, below the caller's stack pointer.\<close>

lemma struct_call:
  assumes A: "args_codec A" and T: "guest_codec T" and size: "4 \<le> unat (gt_size T)"
    and sp: "unat (mm_null (ce_mem e)) + unat (gt_size T) + 4 * (gs_sum A - 4) \<le> unat (ce_regs e CPU_SP)"
  obtains e3 where
    "callee_env (unat (ce_regs e CPU_SP) - unat (gt_size T) - 4 * (gs_sum A - 4)) (unat (ce_regs e CPU_SP)) e e3"
    "f args e3 = None \<Longrightarrow> call_from_host (struct_ret T) A (call_from_guest (struct_ret T) A f) args e = None"
    "\<And>r e4. f args e3 = Some (r, e4) \<Longrightarrow> mm_null (ce_mem e4) = mm_null (ce_mem e) \<Longrightarrow>
       \<exists>e5. call_from_host (struct_ret T) A (call_from_guest (struct_ret T) A f) args e = Some (r, e5)
       \<and> agree_on (- {unat (ce_regs e CPU_SP) - unat (gt_size T) ..< unat (ce_regs e CPU_SP)})
            (mm_bytes (ce_mem e5)) (mm_bytes (ce_mem e4))
       \<and> same_allocators (ce_mem e4) (ce_mem e5) \<and> ce_regs e5 = (ce_regs e4)(CPU_SP := ce_regs e CPU_SP)"
proof -
  let ?R = "struct_ret T" and ?z = "gt_size T" and ?sp = "ce_regs e CPU_SP"
  obtain p where p: "sub_chk ?sp ?z = Some p" using sub_chk_ex [of ?z ?sp] sp by auto
  then have up: "unat p + unat ?z = unat ?sp" by (simp add: sub_chk_Some)
  have again: "add_chk p ?z = Some ?sp" using up by (simp add: add_chk_Some)
  define e1 where "e1 = set_reg 0 p (set_reg CPU_SP p e)"
  have e1: "ce_regs e1 CPU_SP = p" "ce_regs e1 0 = p" "ce_mem e1 = ce_mem e" by (simp_all add: e1_def set_reg_def)
  have ptr: "write_next_arg u32_arg p 0 (set_reg CPU_SP p e) = Some (1, e1)"
    by (simp add: write_next_arg_def u32_arg_def put_slot_def e1_def rassert_def)
  have room: "unat (mm_null (ce_mem e1)) + 4 * (gs_sum A - 4) \<le> unat (ce_regs e1 CPU_SP)"
    using sp up unfolding e1 by linarith
  have top: "unat (ce_regs e1 CPU_SP) + 4 * (1 + gs_sum A - 4) \<le> 2 ^ 32 + 4 * (gs_sum A - 4)"
    using up size unat_bound32 [of ?sp] unfolding e1 by simp
  from pass_args [OF A room top] obtain e2 e3 where
    e: "extend_stack_for_args (gs_sum A) e1 = Some (p, e2)" "gs_write A args 1 e2 = Some (Suc (gs_sum A), e3)"
      "gs_read A 1 (ce_regs e3) (ce_regs e3 CPU_SP) (ce_mem e3) = Some (args, Suc (gs_sum A))"
      "passed 1 (Suc (gs_sum A)) e2 e3" "e2 = set_reg CPU_SP (ce_regs e3 CPU_SP) e1"
      "unat (ce_regs e3 CPU_SP) + 4 * (gs_sum A - 4) = unat p" by (auto simp: e1)
  have "slot e3 0 = slot e2 0" using passedD(1) [OF e(4), of 0] by simp
  then have r0: "ce_regs e3 0 = p" using e(5) e1(2) by (simp add: arg_slot_def set_reg_def)
  then have arg: "read_next_arg u32_arg 0 (ce_regs e3) (ce_regs e3 CPU_SP) (ce_mem e3) = Some (p, 1)"
    by (simp add: read_next_arg_def u32_arg_def arg_slot_def rassert_def)
  have call: "call_from_host ?R A (call_from_guest ?R A f) args e = do {
      (r, e4) \<leftarrow> f args e3;
      m \<leftarrow> mem_write T (ce_mem e4) p r;
      r' \<leftarrow> mem_read T m p;
      Some (r', e4\<lparr>ce_mem := m, ce_regs := (ce_regs e4)(CPU_SP := ?sp)\<rparr>) }"
    using e(1-3) p again ptr arg
    by (cases "f args e3") (auto simp: call_from_host_def call_from_guest_def set_reg_def Let_def struct_ret_def split: prod.split)
  show thesis
  proof (rule that)
    have "callee_env (unat (ce_regs e3 CPU_SP)) (unat (ce_regs e3 CPU_SP) + 4 * (Suc (gs_sum A) - 4)) e1 e3"
      by (rule callee_passed [OF e(4) [unfolded e(5)]])
    then have "callee_env (unat (ce_regs e3 CPU_SP)) (unat (ce_regs e3 CPU_SP) + 4 * (Suc (gs_sum A) - 4)) e e3"
      unfolding e1_def by (simp add: callee_env_reg callee_env_def set_reg_def)
    then show "callee_env (unat ?sp - unat ?z - 4 * (gs_sum A - 4)) (unat ?sp) e e3"
      by (rule callee_env_mono) (use e(6) up size in linarith)+
  next
    assume "f args e3 = None"
    then show "call_from_host ?R A (call_from_guest ?R A f) args e = None" by (simp add: call)
  next
    fix r e4
    assume f: "f args e3 = Some (r, e4)" and "mm_null (ce_mem e4) = mm_null (ce_mem e)"
    then have "mm_null (ce_mem e4) \<le> p" using sp up by (simp add: word_le_nat_alt)
    moreover have "unat p + unat ?z \<le> 2 ^ 32" using up unat_bound32 [of ?sp] by simp
    ultimately obtain m where
      "mem_write T (ce_mem e4) p r = Some m" "mem_read T m p = Some r" "same_allocators (ce_mem e4) m"
      "agree_on (- {unat p ..< unat p + unat ?z}) (mm_bytes m) (mm_bytes (ce_mem e4))"
      using guest_codec.write_read [OF T] by blast
    moreover have "{unat p ..< unat p + unat ?z} = {unat ?sp - unat ?z ..< unat ?sp}" using up by auto
    ultimately show "\<exists>e5. call_from_host ?R A (call_from_guest ?R A f) args e = Some (r, e5)
       \<and> agree_on (- {unat ?sp - unat ?z ..< unat ?sp}) (mm_bytes (ce_mem e5)) (mm_bytes (ce_mem e4))
       \<and> same_allocators (ce_mem e4) (ce_mem e5) \<and> ce_regs e5 = (ce_regs e4)(CPU_SP := ?sp)"
      using f by (simp add: call)
  qed
qed

lemma u32_size [simp]: "gt_size u32_type = 4"
  by (simp add: u32_type_def)

text \<open>A call of a guest function: what the callee finds, and what is restored after it.\<close>

lemma thumb_bit_restored:
  assumes "and (ce_regs e CPU_PC) 1 = 0"
  shows "addr_without_thumb_bit (pc_with_thumb_bit e) = ce_regs e CPU_PC"
    and "is_thumb (pc_with_thumb_bit e) \<longleftrightarrow> and (ce_cpsr e) CPSR_THUMB = CPSR_THUMB"
proof -
  have even: "\<not> bit (ce_regs e CPU_PC) 0" using assms by (simp add: and_one_eq odd_iff_mod_2_eq_one bit_0)
  show "addr_without_thumb_bit (pc_with_thumb_bit e) = ce_regs e CPU_PC"
    unfolding addr_without_thumb_bit_def pc_with_thumb_bit_def from_addr_and_thumb_flag_def
    by (rule bit_word_eqI) (use even in \<open>auto simp: bit_simps bit_1_iff intro: gr0I\<close>)
  show "is_thumb (pc_with_thumb_bit e) \<longleftrightarrow> and (ce_cpsr e) CPSR_THUMB = CPSR_THUMB"
    using even unfolding is_thumb_def pc_with_thumb_bit_def from_addr_and_thumb_flag_def
    by (simp add: and_one_eq bit_0 [symmetric] bit_simps flip: odd_iff_mod_2_eq_one)
qed

definition guest_callee_env ::
    "guest_function \<Rightarrow> guest_function \<Rightarrow> nat \<Rightarrow> cpu_env \<Rightarrow> cpu_env \<Rightarrow> bool" where
  "guest_callee_env f lr words e e' \<longleftrightarrow>
     ce_regs e' CPU_PC = addr_without_thumb_bit f \<and> (and (ce_cpsr e') CPSR_THUMB = CPSR_THUMB \<longleftrightarrow> is_thumb f)
     \<and> ce_regs e' CPU_LR = lr \<and> ce_regs e' FRAME_POINTER = ce_regs e CPU_SP - 8
     \<and> unat (ce_regs e' CPU_SP) + 8 + 4 * words = unat (ce_regs e CPU_SP)
     \<and> mem_read u32_type (ce_mem e') (ce_regs e CPU_SP - 8) = Some (ce_regs e FRAME_POINTER)
     \<and> mem_read u32_type (ce_mem e') (ce_regs e CPU_SP - 4) = Some (ce_regs e CPU_LR)
     \<and> agree_on (- {unat (ce_regs e CPU_SP) - 8 - 4 * words ..< unat (ce_regs e CPU_SP)})
         (mm_bytes (ce_mem e')) (mm_bytes (ce_mem e))
     \<and> (\<forall>r \<ge> 4. r \<notin> {FRAME_POINTER, CPU_SP, CPU_LR, CPU_PC} \<longrightarrow> ce_regs e' r = ce_regs e r)"

definition restored :: "cpu_env \<Rightarrow> cpu_env \<Rightarrow> cpu_env" where
  "restored e e' = e'\<lparr>
     ce_cpsr := or (and (ce_cpsr e') (not CPSR_THUMB)) (and (ce_cpsr e) CPSR_THUMB),
     ce_regs := (ce_regs e')(CPU_PC := ce_regs e CPU_PC, CPU_LR := ce_regs e CPU_LR,
       CPU_SP := ce_regs e CPU_SP, FRAME_POINTER := ce_regs e FRAME_POINTER)\<rparr>"

lemma branch_other [simp]:
  "r \<noteq> CPU_PC \<Longrightarrow> ce_regs (branch f e) r = ce_regs e r" "ce_mem (branch f e) = ce_mem e"
  by (simp_all add: branch_def set_reg_def)

lemma bit_thumb: "bit (0x20 :: int) n \<longleftrightarrow> n = 5"
proof -
  have eq: "(0x20 :: int) = push_bit 5 1" by (simp add: push_bit_eq_mult)
  show ?thesis unfolding eq bit_push_bit_iff bit_1_iff by auto
qed

lemma thumb_bit: "and x CPSR_THUMB = (if bit x 5 then CPSR_THUMB else 0)"
  by (rule bit_word_eqI) (auto simp: bit_simps bit_thumb)

lemma thumb_set: "and x CPSR_THUMB = CPSR_THUMB \<longleftrightarrow> bit x 5"
  by (simp add: thumb_bit)

lemma thumb_branch: "and (ce_cpsr (branch f e)) CPSR_THUMB = CPSR_THUMB \<longleftrightarrow> is_thumb f"
  unfolding thumb_set branch_def by (auto simp: bit_simps bit_thumb)

lemma branch_back:
  assumes "and (ce_regs e CPU_PC) 1 = 0"
  shows "branch (pc_with_thumb_bit e) e' = (set_reg CPU_PC (ce_regs e CPU_PC) e')
    \<lparr>ce_cpsr := or (and (ce_cpsr e') (not CPSR_THUMB)) (and (ce_cpsr e) CPSR_THUMB)\<rparr>"
  by (simp add: branch_def thumb_bit_restored [OF assms] thumb_bit [of "ce_cpsr e"])

lemma guest_call:
  assumes A: "args_codec A" and reg: "gr_size_in_mem R = None" and pc: "and (ce_regs e CPU_PC) 1 = 0"
    and sp: "unat (mm_null (ce_mem e)) + 8 + 4 * (gs_sum A - 4) \<le> unat (ce_regs e CPU_SP)"
  obtains e4 where "guest_callee_env f lr (gs_sum A - 4) e e4"
    "\<exists>off. gs_read A 0 (ce_regs e4) (ce_regs e4 CPU_SP) (ce_mem e4) = Some (args, off)"
    "call_guest_function run_call lr R A f args e = do {
       e5 \<leftarrow> run_call e4; r \<leftarrow> gr_from_regs R (ce_regs (restored e e5)); Some (r, restored e e5) }"
proof -
  let ?sp = "ce_regs e CPU_SP" and ?fp = "ce_regs e FRAME_POINTER"
  have b: "unat ?sp < 4294967296" using unat_bound32 [of ?sp] by simp
  have u8: "unat (?sp - 8) + 8 = unat ?sp" and u4: "unat (?sp - 4) + 4 = unat ?sp"
    using sp by (simp_all add: unat_sub word_le_nat_alt)
  have c8: "sub_chk ?sp 8 = Some (?sp - 8)" and c4: "add_chk (?sp - 8) 4 = Some (?sp - 4)"
    using u8 u4 by (simp_all add: sub_chk_Some add_chk_Some)
  obtain m1 where m1: "mem_write u32_type (ce_mem e) (?sp - 8) ?fp = Some m1"
    "mem_read u32_type m1 (?sp - 8) = Some ?fp" "same_allocators (ce_mem e) m1"
    "agree_on (- {unat (?sp - 8) ..< unat (?sp - 8) + 4}) (mm_bytes m1) (mm_bytes (ce_mem e))"
    using u32c.write_read [of "ce_mem e" "?sp - 8" ?fp] sp u8 b by (auto simp: word_le_nat_alt u32_type_def)
  obtain m2 where m2: "mem_write u32_type m1 (?sp - 4) (ce_regs e CPU_LR) = Some m2"
    "mem_read u32_type m2 (?sp - 4) = Some (ce_regs e CPU_LR)" "same_allocators m1 m2"
    "agree_on (- {unat (?sp - 4) ..< unat (?sp - 4) + 4}) (mm_bytes m2) (mm_bytes m1)"
    using u32c.write_read [of m1 "?sp - 4" "ce_regs e CPU_LR"] sp u4 b m1(3)
    by (auto simp: word_le_nat_alt u32_type_def same_allocators_def)
  have m2_fp: "mem_read u32_type m2 (?sp - 8) = Some ?fp"
    unfolding m1(2) [symmetric]
    by (rule u32c.read_agree [OF _ m2(4)]) (use u4 u8 b m2(3) in \<open>auto simp: same_allocators_def\<close>)
  have m2_e: "agree_on (- {unat ?sp - 8 ..< unat ?sp}) (mm_bytes m2) (mm_bytes (ce_mem e))"
    by (rule agree_on_trans [OF agree_on_mono [OF m2(4)] agree_on_mono [OF m1(4)]]) (use u4 u8 in auto)
  define e1 where "e1 = set_reg FRAME_POINTER (?sp - 8) (set_reg CPU_SP (?sp - 8)
    (set_reg CPU_LR lr (branch f e)))\<lparr>ce_mem := m2\<rparr>"
  have e1: "ce_regs e1 CPU_SP = ?sp - 8" "ce_mem e1 = m2" by (simp_all add: e1_def set_reg_def)
  have "unat (mm_null (ce_mem e1)) + 4 * (gs_sum A - 4) \<le> unat (ce_regs e1 CPU_SP)"
    using sp u8 m1(3) m2(3) by (simp add: e1 same_allocators_def)
  moreover have "unat (ce_regs e1 CPU_SP) + 4 * (0 + gs_sum A - 4) \<le> 2 ^ 32 + 4 * (gs_sum A - 4)"
    using unat_bound32 [of "ce_regs e1 CPU_SP"] by simp
  ultimately obtain e2 e3 where
    e: "extend_stack_for_args (gs_sum A) e1 = Some (?sp - 8, e2)" "gs_write A args 0 e2 = Some (gs_sum A, e3)"
      "gs_read A 0 (ce_regs e3) (ce_regs e3 CPU_SP) (ce_mem e3) = Some (args, gs_sum A)"
      "passed 0 (gs_sum A) e2 e3" "e2 = set_reg CPU_SP (ce_regs e3 CPU_SP) e1"
      "unat (ce_regs e3 CPU_SP) + 4 * (gs_sum A - 4) = unat (?sp - 8)"
    by (rule pass_args [OF A]) (auto simp: e1)
  note ce = callee_passed [OF e(4) [unfolded e(5)], unfolded callee_env_def e1(2)]
  have reads: "mem_read u32_type (ce_mem e3) q = mem_read u32_type m2 q" if "unat ?sp - 8 \<le> unat q" "unat q + 4 \<le> 2 ^ 32" for q
    by (rule u32c.read_agree) (use ce that e(6) u8 in \<open>auto simp: same_allocators_def\<close>)
  have regs: "ce_regs e3 r = ce_regs e1 r" if "4 \<le> r" "r \<noteq> CPU_SP" for r using ce that by blast
  show thesis
  proof (rule that [of e3])
    have "agree_on (- {unat ?sp - 8 - 4 * (gs_sum A - 4) ..< unat ?sp}) (mm_bytes (ce_mem e3)) (mm_bytes m2)"
      using ce e(6) u8 by (auto elim!: agree_on_mono)
    then have "agree_on (- {unat ?sp - 8 - 4 * (gs_sum A - 4) ..< unat ?sp}) (mm_bytes (ce_mem e3)) (mm_bytes (ce_mem e))"
      by (rule agree_on_trans [OF _ agree_on_mono [OF m2_e]]) auto
    then show "guest_callee_env f lr (gs_sum A - 4) e e3"
      using regs reads [of "?sp - 8"] reads [of "?sp - 4"] m2_fp m2(2) u4 u8 e(6) b ce
        thumb_branch [of f e]
      by (simp add: guest_callee_env_def) (simp add: e1_def set_reg_def branch_def)
    show "\<exists>off. gs_read A 0 (ce_regs e3) (ce_regs e3 CPU_SP) (ce_mem e3) = Some (args, off)" using e(3) by blast
    show "call_guest_function run_call lr R A f args e = do {
       e5 \<leftarrow> run_call e3; r \<leftarrow> gr_from_regs R (ce_regs (restored e e5)); Some (r, restored e e5) }"
      using c8 c4 m1(1) m2(1) reg e(1,2) branch_back [OF pc]
      by (cases "run_call e3") (simp_all add: call_guest_function_def branch_with_link_def Let_def rassert_def
        set_reg_def e1_def restored_def)
  qed
qed

subsection \<open>Properties\<close>

text \<open>C26: Calling a host function through the guest ABI from the host runs it on exactly the given
  arguments, whatever their types and however they are split between registers and stack, and
  gives back its result. Only the stack below the caller's stack pointer is written for that, the
  function's own effect on memory stays, and the stack pointer is restored. When the function
  panics, so does the call.\<close>

theorem host_call_is_call:
  assumes "args_codec A" and "ret_codec R" and "gr_size_in_mem R = None"
    and "unat (mm_null (ce_mem e)) + 4 * (gs_sum A - 4) \<le> unat (ce_regs e CPU_SP)"
  shows "\<exists>e3. callee_env (unat (ce_regs e CPU_SP) - 4 * (gs_sum A - 4)) (unat (ce_regs e CPU_SP)) e e3
    \<and> (case f args e3 of
         None \<Rightarrow> call_from_host R A (call_from_guest R A f) args e = None
       | Some (r, e4) \<Rightarrow> \<exists>e5. call_from_host R A (call_from_guest R A f) args e = Some (r, e5)
           \<and> ce_mem e5 = ce_mem e4 \<and> ce_regs e5 CPU_SP = ce_regs e CPU_SP
           \<and> (\<forall>i \<ge> 4. i \<noteq> CPU_SP \<longrightarrow> ce_regs e5 i = ce_regs e4 i))"
  by (rule host_call [OF assms, where f = f and args = args]) (auto split: option.split)

definition demo_cpu :: cpu_env where
  "demo_cpu = \<lparr>ce_regs = (\<lambda>r. if r = CPU_SP then 0x9000 else if r = CPU_PC then 0x4000 else of_nat r),
     ce_cpsr = 0x30, ce_mem = demo_mem\<rparr>"

definition demo_args :: "(u32 \<times> u64 \<times> u8 \<times> u32 \<times> unit) guest_args" where
  "demo_args = args_cons u32_arg (args_cons u64_arg (args_cons narrow_arg (args_cons u32_arg args_nil)))"

lemma demo_args_codec: "args_codec demo_args"
  unfolding demo_args_def
  by (intro args_cons_codec u32a.arg_codec_axioms u64a.arg_codec_axioms u8a.arg_codec_axioms no_args.args_codec_axioms)

lemma demo_room: "gs_sum demo_args = 5" "mm_null (ce_mem demo_cpu) = 0x1000" "ce_regs demo_cpu CPU_SP = 0x9000"
  "ce_regs demo_cpu CPU_PC = 0x4000"
  by (simp_all add: demo_args_def args_cons_def args_nil_def u32_arg_def u64_arg_def narrow_arg_def demo_cpu_def demo_mem_def)

theorem host_call_witness:
  "\<exists>e5. call_from_host u64_ret demo_args (call_from_guest u64_ret demo_args (\<lambda>(a, b, c, d, _) e. Some (b + ucast d, e)))
      (1, 2 ^ 40, 3, 4, ()) demo_cpu = Some (2 ^ 40 + 4, e5) \<and> ce_regs e5 CPU_SP = 0x9000"
  using host_call_is_call [OF demo_args_codec u64r.ret_codec_axioms, of demo_cpu
    "\<lambda>(a, b, c, d, _) e. Some (b + ucast d, e)" "(1, 2 ^ 40, 3, 4, ())"]
  by (auto simp: demo_room u64_ret_def)

text \<open>C28: A structure of four bytes or more comes back from such a call through the memory below
  the caller's stack pointer, where the caller reads it before it restores the stack pointer. The
  arguments reach the callee although the room made for them does not count the implicit
  pointer: the word too many lies where the structure is returned.\<close>

theorem struct_return_is_call:
  assumes "args_codec A" and "guest_codec T" and "4 \<le> unat (gt_size T)"
    and "unat (mm_null (ce_mem e)) + unat (gt_size T) + 4 * (gs_sum A - 4) \<le> unat (ce_regs e CPU_SP)"
  shows "\<exists>e3. callee_env (unat (ce_regs e CPU_SP) - unat (gt_size T) - 4 * (gs_sum A - 4)) (unat (ce_regs e CPU_SP)) e e3
    \<and> (case f args e3 of
         None \<Rightarrow> call_from_host (struct_ret T) A (call_from_guest (struct_ret T) A f) args e = None
       | Some (r, e4) \<Rightarrow> mm_null (ce_mem e4) = mm_null (ce_mem e) \<longrightarrow>
           (\<exists>e5. call_from_host (struct_ret T) A (call_from_guest (struct_ret T) A f) args e = Some (r, e5)
             \<and> agree_on (- {unat (ce_regs e CPU_SP) - unat (gt_size T) ..< unat (ce_regs e CPU_SP)})
                 (mm_bytes (ce_mem e5)) (mm_bytes (ce_mem e4))
             \<and> same_allocators (ce_mem e4) (ce_mem e5) \<and> ce_regs e5 = (ce_regs e4)(CPU_SP := ce_regs e CPU_SP)))"
  by (rule struct_call [OF assms, where f = f and args = args]) (auto split: option.split)

theorem struct_return_witness:
  "\<exists>e5. call_from_host (struct_ret u32_type) demo_args (call_from_guest (struct_ret u32_type) demo_args
      (\<lambda>(a, b, c, d, _) e. Some (a + d, e))) (1, 2, 3, 4, ()) demo_cpu = Some (5, e5) \<and> ce_regs e5 CPU_SP = 0x9000"
proof -
  obtain e3 where "callee_env (0x9000 - 4 - 4) 0x9000 demo_cpu e3"
    "mm_null (ce_mem e3) = mm_null (ce_mem demo_cpu) \<longrightarrow> (\<exists>e5. call_from_host (struct_ret u32_type) demo_args
      (call_from_guest (struct_ret u32_type) demo_args (\<lambda>(a, b, c, d, _) e. Some (a + d, e))) (1, 2, 3, 4, ()) demo_cpu
        = Some (5, e5) \<and> ce_regs e5 = (ce_regs e3)(CPU_SP := 0x9000))"
    using struct_return_is_call [OF demo_args_codec u32c.guest_codec_axioms, of demo_cpu
      "\<lambda>(a, b, c, d, _) e. Some (a + d, e)" "(1, 2, 3, 4, ())"] by (auto simp: demo_room)
  then show ?thesis by (auto simp: callee_env_def same_allocators_def)
qed

text \<open>C27: A call of a guest function from the host starts the CPU at the function in the mode its
  Thumb bit asks for, with the return routine as return address, a frame record of the old frame
  pointer and return address, and the arguments in place. Whatever the guest does, PC, the Thumb
  flag, LR, SP and the frame pointer are afterwards what they were. A Thumb call of an A32
  caller is undone as well.\<close>

theorem guest_call_restores_state:
  assumes "args_codec A" and "gr_size_in_mem R = None" and "and (ce_regs e CPU_PC) 1 = 0"
    and "unat (mm_null (ce_mem e)) + 8 + 4 * (gs_sum A - 4) \<le> unat (ce_regs e CPU_SP)"
  shows "\<exists>e4 off. guest_callee_env f lr (gs_sum A - 4) e e4
    \<and> gs_read A 0 (ce_regs e4) (ce_regs e4 CPU_SP) (ce_mem e4) = Some (args, off)
    \<and> call_guest_function run_call lr R A f args e = do {
       e5 \<leftarrow> run_call e4; r \<leftarrow> gr_from_regs R (ce_regs (restored e e5)); Some (r, restored e e5) }"
  by (rule guest_call [OF assms, where f = f and lr = lr and args = args and run_call = run_call]) blast

theorem guest_call_witness:
  "\<exists>e7. call_guest_function (\<lambda>e. Some (set_reg 0 7 (set_reg CPU_SP 0 e))) 0x5000 u32_ret demo_args 0x4101
      (1, 2, 3, 4, ()) demo_cpu = Some (7, e7) \<and> ce_regs e7 CPU_SP = 0x9000 \<and> ce_regs e7 CPU_PC = 0x4000"
  using guest_call_restores_state [OF demo_args_codec, where R = u32_ret and e = demo_cpu and f = "0x4101" and lr = "0x5000"
    and args = "(1, 2, 3, 4, ())" and run_call = "\<lambda>e. Some (set_reg 0 7 (set_reg CPU_SP 0 e))"]
  by (auto simp: demo_room u32_ret_def restored_def set_reg_def)

text \<open>A variadic host function called through the guest ABI finds its fixed argument and,
  through its \<open>VaList\<close>, the arguments after it; the call gives back its result.\<close>

theorem variadic_call_reads_rest:
  assumes T: "arg_codec T" and V: "args_codec V" and ret: "ret_codec R" and reg: "gr_size_in_mem R = None"
    and sp: "unat (mm_null (ce_mem e)) + 4 * (gs_sum (args_cons T V) - 4) \<le> unat (ce_regs e CPU_SP)"
    and f: "\<And>e3 va off. gs_read V (fst va) (ce_regs e3) (snd va) (ce_mem e3) = Some (v, off)
      \<Longrightarrow> \<exists>e4. f ((x, ()), va) e3 = Some (g x v, e4)"
  shows "\<exists>e5. call_from_host R (args_cons T V) (call_from_guest_variadic R (args_cons T args_nil) f) (x, v) e = Some (g x v, e5)
    \<and> ce_regs e5 CPU_SP = ce_regs e CPU_SP"
proof -
  let ?A = "args_cons T V"
  have top: "unat (ce_regs e CPU_SP) + 4 * (0 + gs_sum ?A - 4) \<le> 2 ^ 32 + 4 * (gs_sum ?A - 4)"
    using unat_bound32 [of "ce_regs e CPU_SP"] by simp
  obtain e2 e3 where
    e: "extend_stack_for_args (gs_sum ?A) e = Some (ce_regs e CPU_SP, e2)" "gs_write ?A (x, v) 0 e2 = Some (gs_sum ?A, e3)"
      "gs_read ?A 0 (ce_regs e3) (ce_regs e3 CPU_SP) (ce_mem e3) = Some ((x, v), gs_sum ?A)"
    by (rule pass_args [OF args_cons_codec [OF T V] sp top, where args = "(x, v)"]) simp_all
  from e(3) obtain b where b: "read_next_arg T 0 (ce_regs e3) (ce_regs e3 CPU_SP) (ce_mem e3) = Some (x, b)"
    "gs_read V b (ce_regs e3) (ce_regs e3 CPU_SP) (ce_mem e3) = Some (v, gs_sum ?A)"
    by (auto simp: args_cons_def run_simps)
  have "b = ga_count T" using read_next_off [OF b(1)] by simp
  note r = b [unfolded this]
  from f [of "(ga_count T, ce_regs e3 CPU_SP)" e3] r(2) obtain e4 where
    f: "f ((x, ()), ga_count T, ce_regs e3 CPU_SP) e3 = Some (g x v, e4)" by auto
  have "gs_read (args_cons T args_nil) 0 (ce_regs e3) (ce_regs e3 CPU_SP) (ce_mem e3) = Some ((x, ()), ga_count T)"
    using r(1) by (simp add: args_cons_def args_nil_def)
  moreover from ret_codec.in_regs [OF ret reg, of "g x v" "ce_regs e4" "ce_regs e CPU_SP"] obtain regs where
    "gr_to_regs R (g x v) (ce_regs e4) = Some regs" "gr_from_regs R (regs(CPU_SP := ce_regs e CPU_SP)) = Some (g x v)" by blast
  ultimately show ?thesis using e(1,2) f reg
    by (simp add: call_from_host_def call_from_guest_variadic_def set_reg_def Let_def)
qed

definition add_rest :: "((u32 \<times> unit) \<times> nat \<times> vaddr, u64) host_function" where
  "add_rest = (\<lambda>((x, _), va) e. do {
     (y, va1) \<leftarrow> va_list_next u64_arg va e;
     (z, _) \<leftarrow> va_list_next (narrow_arg :: u8 guest_arg) va1 e;
     Some (ucast x + y + ucast z, e) })"

theorem variadic_call_witness:
  "\<exists>e5. call_from_host u64_ret (args_cons u32_arg (args_cons u64_arg (args_cons (narrow_arg :: u8 guest_arg) args_nil)))
      (call_from_guest_variadic u64_ret (args_cons u32_arg args_nil) add_rest) (1, 2 ^ 40, 3, ()) demo_cpu
      = Some (ucast (1 :: u32) + 2 ^ 40 + ucast (3 :: u8), e5) \<and> ce_regs e5 CPU_SP = ce_regs demo_cpu CPU_SP"
proof (rule variadic_call_reads_rest [where v = "(2 ^ 40, 3, ())" and g = "\<lambda>x (y, z, _). ucast x + y + ucast z",
    simplified prod.case])
  show "args_codec (args_cons u64_arg (args_cons (narrow_arg :: u8 guest_arg) args_nil))"
    by (intro args_cons_codec u64a.arg_codec_axioms u8a.arg_codec_axioms no_args.args_codec_axioms)
qed (use u32a.arg_codec_axioms u64r.ret_codec_axioms in \<open>auto simp: u64_ret_def demo_room args_cons_def args_nil_def
    u32_arg_def u64_arg_def narrow_arg_def add_rest_def va_list_next_def run_simps\<close>)

end
