(* ===== verification/Stack.thy ===== *)
theory Stack
  imports Abi Guest_Time
begin

text \<open>
  The stack of the main thread as the entry point finds it: \<open>src/stack.rs\<close>. The vector is built from
  the top of memory downwards, so it holds the bytes in reverse.
\<close>

definition MAIN_THREAD_STACK_SIZE :: guest_usize where
  "MAIN_THREAD_STACK_SIZE = 1024 * 1024"

text \<open>\<open>(1 << 32) - len\<close> as a \<open>u32\<close>; \<open>usize\<close> has 64 bits.\<close>

definition below_top :: "nat \<Rightarrow> u32 run" where
  "below_top n = (if n \<le> 2 ^ 32 then to_u32 (2 ^ 32 - n) else None)"

definition push_string :: "u8 list \<Rightarrow> u8 list \<times> u32 list \<Rightarrow> (u8 list \<times> u32 list) run" where
  "push_string s d = (case d of (reversed_data, string_ptrs) \<Rightarrow> (let reversed_data = reversed_data @ 0 # rev s in
     do { ptr \<leftarrow> below_top (length reversed_data); Some (reversed_data, string_ptrs @ [ptr]) }))"

fun push_strings :: "u8 list list \<Rightarrow> u8 list \<times> u32 list \<Rightarrow> (u8 list \<times> u32 list) run" where
  "push_strings [] d = Some d"
| "push_strings (s # ss) d = do { d1 \<leftarrow> push_string s d; push_strings ss d1 }"

definition prep_stack_for_start :: "u8 list list \<Rightarrow> u8 list list \<Rightarrow> u8 list list \<Rightarrow> cpu_env \<Rightarrow> cpu_env run" where
  "prep_stack_for_start argv envp apple e = do {
     _ \<leftarrow> rassert (length argv < 2 ^ 31);
     d1 \<leftarrow> push_strings argv ([], [of_nat (length argv)]);
     (data2, ptrs2) \<leftarrow> push_strings envp d1;
     (data3, ptrs3) \<leftarrow> push_strings apple (data2, ptrs2 @ [0]);
     let string_ptrs = ptrs3 @ [0];
     let misaligned_by = length data3 mod 4;
     let pad_by = (if misaligned_by \<noteq> 0 then 4 - misaligned_by else 0);
     let reversed_data = data3 @ replicate pad_by 0 @ concat (map (\<lambda>p. rev (le_enc 4 p)) (rev string_ptrs));
     stack_ptr \<leftarrow> below_top (length reversed_data);
     stack_height \<leftarrow> to_u32 (length reversed_data);
     _ \<leftarrow> rassert (stack_height < MAIN_THREAD_STACK_SIZE);
     m \<leftarrow> bytes_at_mut_put (ce_mem e) stack_ptr stack_height (rev reversed_data);
     _ \<leftarrow> rassert (unat stack_height mod 4 = 0);
     Some (set_reg CPU_SP stack_ptr (e\<lparr>ce_mem := m\<rparr>)) }"

subsection \<open>Arrays and strings inside a range of bytes\<close>

lemma get_range_sub:
  assumes "i + k \<le> n"
  shows "get_range f (p + of_nat i) k = take k (drop i (get_range f p n))"
  by (rule nth_equalityI) (use assms in \<open>simp_all add: get_range_def add.assoc\<close>)

lemma concat_slice:
  "(\<And>x. length (e x) = s) \<Longrightarrow> i < length xs \<Longrightarrow> take s (drop (i * s) (concat (map e xs))) = e (xs ! i)"
proof (induction xs arbitrary: i)
  case (Cons x xs)
  then show ?case by (cases i) simp_all
qed simp

context guest_codec
begin

lemma cells_of_bytes:
  assumes ok: "array_ok T m p (length xs)"
    and bytes: "get_range (mm_bytes m) p (length xs * unat (gt_size T)) = concat (map (gt_enc T) xs)"
  shows "cells T m p xs"
proof -
  let ?s = "unat (gt_size T)"
  have "elem_at T m p (ix i) = Some (xs ! i)" if i: "i < length xs" for i
  proof -
    have "i * ?s + ?s \<le> length xs * ?s" using i mult_le_mono1 [of "Suc i" "length xs" ?s] by simp
    from get_range_sub [OF this] have "get_range (mm_bytes m) (elem_ptr T p i) ?s = gt_enc T (xs ! i)"
      using concat_slice [OF enc_length i] by (simp add: elem_ptr_def bytes)
    then show ?thesis using elem_at_ok [OF ok i] by (simp add: dec_enc)
  qed
  then show ?thesis using ok by (simp add: cells_def)
qed

end

subsection \<open>Where the strings lie\<close>

definition string_bytes :: "u8 list list \<Rightarrow> u8 list" where
  "string_bytes ss = concat (map (\<lambda>s. 0 # rev s) ss)"

fun string_addrs :: "nat \<Rightarrow> u8 list list \<Rightarrow> u32 list" where
  "string_addrs n [] = []"
| "string_addrs n (s # ss) = (let n = n + length s + 1 in of_nat (2 ^ 32 - n) # string_addrs n ss)"

lemma string_bytes_append [simp]: "string_bytes (xs @ ys) = string_bytes xs @ string_bytes ys"
  by (simp add: string_bytes_def)

lemma string_addrs_length [simp]: "length (string_addrs n ss) = length ss"
  by (induction ss arbitrary: n) (simp_all add: Let_def)

lemma string_addrs_append: "string_addrs n (xs @ ys) = string_addrs n xs @ string_addrs (n + length (string_bytes xs)) ys"
  by (induction xs arbitrary: n) (simp_all add: string_bytes_def Let_def add.assoc)

lemma below_top_law: "0 < n \<Longrightarrow> n \<le> 2 ^ 32 \<Longrightarrow> below_top n = Some (of_nat (2 ^ 32 - n))"
  by (simp add: below_top_def to_u32_def)

lemma push_strings_law:
  "length d + length (string_bytes ss) \<le> 2 ^ 32 \<Longrightarrow>
    push_strings ss (d, ptrs) = Some (d @ string_bytes ss, ptrs @ string_addrs (length d) ss)"
proof (induction ss arbitrary: d ptrs)
  case (Cons s ss)
  have "length (d @ 0 # rev s) + length (string_bytes ss) \<le> 2 ^ 32" using Cons.prems by (simp add: string_bytes_def)
  from Cons.IH [OF this] show ?case using Cons.prems below_top_law [of "Suc (length d + length s)"]
    by (simp add: push_string_def string_bytes_def Let_def)
qed (simp add: string_bytes_def)

lemma string_addrs_low:
  "k < length ss \<Longrightarrow> n + length (string_bytes ss) \<le> 2 ^ 32 \<Longrightarrow>
    2 ^ 32 - (n + length (string_bytes ss)) \<le> unat (string_addrs n ss ! k)"
proof (induction ss arbitrary: n k)
  case (Cons s ss)
  let ?n = "n + length s + 1"
  have le: "?n + length (string_bytes ss) \<le> 2 ^ 32" using Cons.prems by (simp add: string_bytes_def)
  show ?case
  proof (cases k)
    case 0
    have "unat (of_nat (2 ^ 32 - ?n) :: u32) = 2 ^ 32 - ?n" by (intro unat_ix [unfolded ix_def]) simp
    then show ?thesis using 0 by (simp add: string_bytes_def Let_def)
  next
    case (Suc j)
    then show ?thesis using Cons.IH [OF _ le, of j] Cons.prems by (simp add: string_bytes_def Let_def)
  qed
qed simp

lemma string_found:
  assumes "get_range f (of_nat (2 ^ 32 - length D)) (length D) = rev D" and "length D \<le> 2 ^ 32"
    and "D = pre @ string_bytes ss @ post" and "k < length ss"
  shows "get_range f (string_addrs (length pre) ss ! k) (length (ss ! k) + 1) = ss ! k @ [0]
    \<and> 2 ^ 32 - length D \<le> unat (string_addrs (length pre) ss ! k)
    \<and> unat (string_addrs (length pre) ss ! k) + length (ss ! k) + 1 \<le> 2 ^ 32"
  using assms
proof (induction ss arbitrary: pre k)
  case (Cons s ss)
  show ?case
  proof (cases k)
    case (Suc j)
    have "D = (pre @ 0 # rev s) @ string_bytes ss @ post" using Cons.prems(3) by (simp add: string_bytes_def)
    from Cons.IH [OF Cons.prems(1,2) this, of j] show ?thesis using Suc Cons.prems(4) by (simp add: Let_def)
  next
    case 0
    let ?n = "length pre + length s + 1" and ?rest = "string_bytes ss @ post"
    have D: "rev D = rev ?rest @ (s @ [0]) @ rev pre" using Cons.prems(3) by (simp add: string_bytes_def)
    have len: "length D = length ?rest + ?n" using arg_cong [OF D, of length] by simp
    have a: "(of_nat (2 ^ 32 - ?n) :: u32) = of_nat (2 ^ 32 - length D) + of_nat (length ?rest)"
    proof -
      have "2 ^ 32 - ?n = (2 ^ 32 - length D) + length ?rest" using len Cons.prems(2) by simp
      then show ?thesis by (simp only: of_nat_add)
    qed
    have "get_range f (of_nat (2 ^ 32 - ?n)) (length s + 1) = take (length s + 1) (drop (length ?rest) (rev D))"
      unfolding a Cons.prems(1) [symmetric] by (rule get_range_sub) (use len in simp)
    also have "\<dots> = s @ [0]" by (simp add: D)
    finally have "get_range f (of_nat (2 ^ 32 - ?n)) (length s + 1) = s @ [0]" .
    moreover have "unat (of_nat (2 ^ 32 - ?n) :: u32) = 2 ^ 32 - ?n"
      using len Cons.prems(2) by (intro unat_ix [unfolded ix_def]) simp
    ultimately show ?thesis using 0 len Cons.prems(2) by (simp add: Let_def)
  qed
qed simp

text \<open>The words at the stack pointer, and the height of the stack.\<close>

definition start_words :: "u8 list list \<Rightarrow> u8 list list \<Rightarrow> u8 list list \<Rightarrow> u32 list" where
  "start_words argv envp apple = of_nat (length argv) # string_addrs 0 (argv @ envp) @ 0
     # string_addrs (length (string_bytes (argv @ envp))) apple @ [0]"

definition start_data :: "u8 list list \<Rightarrow> u8 list list \<Rightarrow> u8 list list \<Rightarrow> u8 list" where
  "start_data argv envp apple = (let strings = string_bytes (argv @ envp @ apple) in
     strings @ replicate (if length strings mod 4 = 0 then 0 else 4 - length strings mod 4) 0
     @ concat (map (\<lambda>p. rev (le_enc 4 p)) (rev (start_words argv envp apple))))"

definition stack_height :: "u8 list list \<Rightarrow> u8 list list \<Rightarrow> u8 list list \<Rightarrow> nat" where
  "stack_height argv envp apple = (let n = length (string_bytes (argv @ envp @ apple)) in
     (n + 3) div 4 * 4 + 4 * (length argv + length envp + length apple + 3))"

lemma words_length: "length (start_words argv envp apple) = length argv + length envp + length apple + 3"
  by (simp add: start_words_def)

lemma word_bytes_length: "length (concat (map (\<lambda>p. rev (le_enc 4 p)) ps)) = 4 * length ps"
  by (induction ps) simp_all

lemma round_up: "n + (if n mod 4 = 0 then 0 else 4 - n mod 4) = (n + 3) div 4 * 4" for n :: nat
  by presburger

lemma below_mod_4: "h mod 4 = 0 \<Longrightarrow> h < 1048576 \<Longrightarrow> (4294967296 - h) mod 4 = 0" for h :: nat
  by presburger

lemma start_data_length: "length (start_data argv envp apple) = stack_height argv envp apple"
  using round_up [of "length (string_bytes (argv @ envp @ apple))"]
  by (simp add: start_data_def stack_height_def word_bytes_length words_length Let_def del: string_bytes_append)

lemma rev_start_data:
  "take (4 * length (start_words argv envp apple)) (rev (start_data argv envp apple))
    = concat (map (le_enc 4) (start_words argv envp apple))"
proof -
  have "rev (concat (map (\<lambda>p. rev (le_enc 4 p)) (rev ws))) = concat (map (le_enc 4) ws)" for ws :: "u32 list"
    by (induction ws) simp_all
  moreover have "length (concat (map (le_enc 4) ws)) = 4 * length ws" for ws :: "u32 list" by (induction ws) simp_all
  ultimately show ?thesis by (simp add: start_data_def Let_def)
qed

lemma prep_stack_run:
  assumes h: "stack_height argv envp apple < 2 ^ 20"
    and null: "unat (mm_null (ce_mem e)) + stack_height argv envp apple \<le> 2 ^ 32"
  shows "prep_stack_for_start argv envp apple e = Some (set_reg CPU_SP (of_nat (2 ^ 32 - stack_height argv envp apple))
    (e\<lparr>ce_mem := ce_mem e\<lparr>mm_bytes := put_range (mm_bytes (ce_mem e)) (of_nat (2 ^ 32 - stack_height argv envp apple))
       (rev (start_data argv envp apple))\<rparr>\<rparr>))"
proof -
  let ?h = "stack_height argv envp apple" and ?D = "start_data argv envp apple"
  let ?S = "string_bytes (argv @ envp @ apple)"
  have len: "length ?S \<le> ?h" and n: "length argv < 2 ^ 31" and pos: "0 < ?h"
    using round_up [of "length ?S"] h by (simp_all add: stack_height_def Let_def del: string_bytes_append)
  have lim: "length ?S \<le> 2 ^ 32" using len h by simp
  have 1: "push_strings argv ([], [w]) = Some (string_bytes argv, w # string_addrs 0 argv)" for w
    using push_strings_law [of "[]" argv] lim by simp
  have 2: "push_strings envp (string_bytes argv, w) = Some (string_bytes (argv @ envp), w @ string_addrs (length (string_bytes argv)) envp)" for w
    using push_strings_law [of "string_bytes argv" envp] lim by simp
  have 3: "push_strings apple (string_bytes (argv @ envp), w) = Some (?S, w @ string_addrs (length (string_bytes (argv @ envp))) apple)" for w
    using push_strings_law [of "string_bytes (argv @ envp)" apple] lim by simp
  have D: "?S @ replicate (if length ?S mod 4 \<noteq> 0 then 4 - length ?S mod 4 else 0) 0
      @ concat (map (\<lambda>p. rev (le_enc 4 p)) (rev (start_words argv envp apple))) = ?D"
    by (simp add: start_data_def Let_def del: string_bytes_append)
  have W: "(((of_nat (length argv) # string_addrs 0 argv) @ string_addrs (length (string_bytes argv)) envp) @ [0])
      @ string_addrs (length (string_bytes (argv @ envp))) apple @ [0] = start_words argv envp apple"
    by (simp add: start_words_def string_addrs_append)
  have sp: "unat (of_nat (2 ^ 32 - ?h) :: u32) = 2 ^ 32 - ?h"
    using pos by (intro unat_ix [unfolded ix_def]) simp
  have uh: "unat (of_nat ?h :: u32) = ?h" using h by (intro unat_ix [unfolded ix_def]) simp
  have "bytes_at_mut_put (ce_mem e) (of_nat (2 ^ 32 - ?h)) (of_nat ?h) (rev ?D)
      = Some ((ce_mem e)\<lparr>mm_bytes := put_range (mm_bytes (ce_mem e)) (of_nat (2 ^ 32 - ?h)) (rev ?D)\<rparr>)"
    using null h sp uh by (simp add: bytes_at_mut_put_def in_bounds_nat word_less_nat_alt)
  moreover have "of_nat ?h < MAIN_THREAD_STACK_SIZE" using h uh by (simp add: word_less_nat_alt MAIN_THREAD_STACK_SIZE_def)
  moreover have "?h mod 4 = 0" by (simp add: stack_height_def Let_def del: string_bytes_append)
  moreover have "below_top ?h = Some (of_nat (2 ^ 32 - ?h))" by (rule below_top_law) (use pos h in simp_all)
  moreover have "to_u32 ?h = Some (of_nat ?h)" using h by (simp add: to_u32_def)
  ultimately show ?thesis unfolding prep_stack_for_start_def using n uh
    by (simp only: 1 2 3 Option.bind.simps prod.case Let_def append_assoc W [unfolded append_assoc] D start_data_length
        rassert_def simp_thms if_True Option.bind_lunit)
qed

text \<open>The array and the strings that the entry point finds.\<close>

definition strings_at :: "guest_mem \<Rightarrow> nat \<Rightarrow> u32 list \<Rightarrow> u8 list list \<Rightarrow> bool" where
  "strings_at m lo ps ss \<longleftrightarrow> length ps = length ss
     \<and> (\<forall>i < length ss. lo \<le> unat (ps ! i) \<and> cells u8_type m (ps ! i) (ss ! i @ [0]))"

lemma strings_found:
  assumes D: "get_range (mm_bytes m) (of_nat (2 ^ 32 - length D)) (length D) = rev D" "length D \<le> 2 ^ 32"
    and split: "D = pre @ string_bytes ss @ post" and null: "unat (mm_null m) \<le> 2 ^ 32 - length D"
  shows "strings_at m (2 ^ 32 - length (pre @ string_bytes ss)) (string_addrs (length pre) ss) ss"
proof -
  have "2 ^ 32 - length (pre @ string_bytes ss) \<le> unat (string_addrs (length pre) ss ! i)
      \<and> cells u8_type m (string_addrs (length pre) ss ! i) (ss ! i @ [0])" if i: "i < length ss" for i
  proof -
    note found = string_found [OF D split i]
    have "array_ok u8_type m (string_addrs (length pre) ss ! i) (length (ss ! i @ [0]))"
      using found null by (auto simp: array_ok_def u8_type_def word_le_nat_alt)
    moreover have "concat (map (gt_enc u8_type) xs) = xs" for xs by (induction xs) (simp_all add: u8_type_def)
    then have "get_range (mm_bytes m) (string_addrs (length pre) ss ! i) (length (ss ! i @ [0]) * unat (gt_size u8_type))
        = concat (map (gt_enc u8_type) (ss ! i @ [0]))" using found by (simp add: u8_type_def del: map_append concat_append)
    ultimately have "cells u8_type m (string_addrs (length pre) ss ! i) (ss ! i @ [0])" by (rule u8c.cells_of_bytes)
    then show ?thesis using string_addrs_low [OF i, of "length pre"] D(2) split by simp
  qed
  then show ?thesis by (simp add: strings_at_def)
qed

text \<open>C29: The main thread starts with the count of arguments at its stack pointer, a multiple of
  four, followed by the pointers to the arguments, the pointers to the environment variables and a
  null pointer, and the pointers to the \<open>apple\<close> strings and a null pointer; each points to its
  string, terminated by a zero byte, above these words. Nothing below the stack pointer and no
  other register changes. There is no null pointer after the arguments.\<close>

theorem main_stack_layout:
  assumes "stack_height argv envp apple < 2 ^ 20"
    and "unat (mm_null (ce_mem e)) + stack_height argv envp apple \<le> 2 ^ 32"
  shows "\<exists>m sp av ev ap. prep_stack_for_start argv envp apple e = Some (set_reg CPU_SP sp (e\<lparr>ce_mem := m\<rparr>))
    \<and> unat sp = 2 ^ 32 - stack_height argv envp apple \<and> unat sp mod 4 = 0
    \<and> cells u32_type m sp (of_nat (length argv) # av @ ev @ 0 # ap @ [0])
    \<and> (let strings = unat sp + 4 * length (of_nat (length argv) # av @ ev @ 0 # ap @ [0 :: u32]) in
        strings_at m strings av argv \<and> strings_at m strings ev envp \<and> strings_at m strings ap apple)
    \<and> agree_on {..< unat sp} (mm_bytes m) (mm_bytes (ce_mem e)) \<and> same_allocators (ce_mem e) m"
proof -
  let ?h = "stack_height argv envp apple" and ?D = "start_data argv envp apple" and ?W = "start_words argv envp apple"
  define sp :: u32 where "sp = of_nat (2 ^ 32 - ?h)"
  let ?m = "(ce_mem e)\<lparr>mm_bytes := put_range (mm_bytes (ce_mem e)) sp (rev ?D)\<rparr>"
  define av where "av = string_addrs 0 argv"
  define ev where "ev = string_addrs (length (string_bytes argv)) envp"
  define ap where "ap = string_addrs (length (string_bytes (argv @ envp))) apple"
  have W: "?W = of_nat (length argv) # av @ ev @ 0 # ap @ [0]"
    by (simp add: start_words_def string_addrs_append av_def ev_def ap_def)
  have lenD: "length ?D = ?h" by (rule start_data_length)
  have wh: "4 * length ?W + length (string_bytes (argv @ envp @ apple)) \<le> ?h" and h4: "?h mod 4 = 0"
    using round_up [of "length (string_bytes (argv @ envp @ apple))"]
    by (simp_all add: stack_height_def words_length Let_def del: string_bytes_append)
  have pos: "0 < ?h" using wh W by simp
  have sp: "unat sp = 2 ^ 32 - ?h" unfolding sp_def using pos by (intro unat_ix [unfolded ix_def]) simp
  have fits: "unat sp + length (rev ?D) \<le> 2 ^ 32" "length (rev ?D) < 2 ^ 32" using sp assms(1) lenD by simp_all
  have bytes: "get_range (mm_bytes ?m) sp ?h = rev ?D" using get_put_same [OF fits] by (simp add: lenD)
  have null: "mm_null ?m \<le> sp" using assms(2) sp by (simp add: word_le_nat_alt)
  have "cells u32_type ?m sp ?W"
  proof (rule u32c.cells_of_bytes)
    show "array_ok u32_type ?m sp (length ?W)" using null sp wh assms(1) by (simp add: array_ok_def)
    have "get_range (mm_bytes ?m) (sp + of_nat 0) (4 * length ?W) = take (4 * length ?W) (drop 0 (get_range (mm_bytes ?m) sp ?h))"
      by (rule get_range_sub) (use wh in simp)
    then have "get_range (mm_bytes ?m) sp (4 * length ?W) = concat (map (le_enc 4) ?W)"
      unfolding bytes drop_0 rev_start_data by simp
    then show "get_range (mm_bytes ?m) sp (length ?W * unat (gt_size u32_type)) = concat (map (gt_enc u32_type) ?W)"
      by (simp only: mult.commute u32_size) (simp add: u32_type_def mult.commute)
  qed
  moreover have found: "strings_at ?m (unat sp + 4 * length ?W) (string_addrs (length pre) ss) ss"
    if "?D = pre @ string_bytes ss @ post" "length (pre @ string_bytes ss) \<le> length (string_bytes (argv @ envp @ apple))" for pre ss post
  proof -
    have "strings_at ?m (2 ^ 32 - length (pre @ string_bytes ss)) (string_addrs (length pre) ss) ss"
      by (rule strings_found [OF _ _ that(1)]) (use bytes assms lenD in \<open>simp_all add: sp_def\<close>)
    moreover have "unat sp + 4 * length ?W \<le> 2 ^ 32 - length (pre @ string_bytes ss)"
      using wh that(2) sp assms(1) by simp
    ultimately show ?thesis unfolding strings_at_def using le_trans by blast
  qed
  obtain post where D: "?D = string_bytes argv @ string_bytes envp @ string_bytes apple @ post"
    by (simp add: start_data_def Let_def)
  have "strings_at ?m (unat sp + 4 * length ?W) av argv" unfolding av_def using found [of "[]" argv] D by simp
  moreover have "strings_at ?m (unat sp + 4 * length ?W) ev envp" unfolding ev_def
    using found [of "string_bytes argv" envp] D by simp
  moreover have "strings_at ?m (unat sp + 4 * length ?W) ap apple" unfolding ap_def
    using found [of "string_bytes (argv @ envp)" apple] D by simp
  moreover have disjoint: "{..< unat sp} \<inter> {unat sp ..< unat sp + length (rev ?D)} = {}" by auto
  then have "agree_on {..< unat sp} (mm_bytes ?m) (mm_bytes (ce_mem e))"
    using agree_on_put [OF fits disjoint] by simp
  moreover have "unat sp mod 4 = 0" using sp h4 assms(1) below_mod_4 [of ?h] by simp
  ultimately show ?thesis using prep_stack_run [OF assms] sp unfolding W sp_def [symmetric] Let_def
    by (intro exI [of _ ?m] exI [of _ sp] exI [of _ av] exI [of _ ev] exI [of _ ap]) (simp add: same_allocators_def)
qed

theorem main_stack_witness:
  "\<exists>m sp a b. prep_stack_for_start [[97], [98, 99]] [[100]] [] demo_cpu = Some (set_reg CPU_SP sp (demo_cpu\<lparr>ce_mem := m\<rparr>))
    \<and> (\<exists>c. cells u32_type m sp [2, a, b, c, 0, 0] \<and> cells u8_type m b [98, 99, 0] \<and> cells u8_type m c [100, 0])"
proof -
  have h: "stack_height [[97], [98, 99]] [[100]] [] = 32" by (simp add: stack_height_def string_bytes_def Let_def)
  have "stack_height [[97], [98, 99]] [[100]] [] < 2 ^ 20"
    "unat (mm_null (ce_mem demo_cpu)) + stack_height [[97], [98, 99]] [[100]] [] \<le> 2 ^ 32" by (simp_all add: h demo_room)
  from main_stack_layout [OF this, unfolded Let_def] obtain m sp av ev ap where
    run: "prep_stack_for_start [[97], [98, 99]] [[100]] [] demo_cpu = Some (set_reg CPU_SP sp (demo_cpu\<lparr>ce_mem := m\<rparr>))" and
    w: "cells u32_type m sp (of_nat (length [[97 :: u8], [98, 99]]) # av @ ev @ 0 # ap @ [0])" and
    str: "\<exists>n. strings_at m n av [[97], [98, 99]]" "\<exists>n. strings_at m n ev [[100]]" "\<exists>n. strings_at m n ap []" by blast
  from str obtain a b c where l: "av = [a, b]" "ev = [c]" "ap = []"
    by (auto simp: strings_at_def length_Suc_conv)
  have "cells u8_type m b [98, 99, 0]" "cells u8_type m c [100, 0]"
    using str(1,2) unfolding l strings_at_def by (auto simp: All_less_Suc)
  then show ?thesis using run w unfolding l
    by (intro exI [of _ m] exI [of _ sp] exI [of _ a] exI [of _ b] conjI exI [of _ c]) simp_all
qed

end
