(* ===== verification/Guest_Path.thy ===== *)
theory Guest_Path
  imports Rust_Prelude
begin

text \<open>
  Paths of the guest filesystem: \<open>GuestPath\<close> and \<open>resolve_path\<close> of \<open>src/fs.rs\<close>. A Rust string is
  the list of its UTF-8 bytes; the characters the code looks for are ASCII.
\<close>

subsection \<open>Path strings\<close>

abbreviation SLASH :: char where "SLASH \<equiv> CHR ''/''"

definition starts_with_slash :: "string \<Rightarrow> bool" where
  "starts_with_slash s \<longleftrightarrow> (case s of [] \<Rightarrow> False | c # _ \<Rightarrow> c = SLASH)"

text \<open>\<open>str::split('/')\<close> and \<open>str::rsplit_once('/')\<close>.\<close>

fun split_slash :: "string \<Rightarrow> string list" where
  "split_slash [] = [[]]"
| "split_slash (c # cs) = (if c = SLASH then [] # split_slash cs
     else (case split_slash cs of [] \<Rightarrow> [[c]] | p # ps \<Rightarrow> (c # p) # ps))"

definition rsplit_once_slash :: "string \<Rightarrow> (string \<times> string) option" where
  "rsplit_once_slash s = (if SLASH \<in> set s
     then Some (rev (tl (dropWhile (\<lambda>c. c \<noteq> SLASH) (rev s))), rev (takeWhile (\<lambda>c. c \<noteq> SLASH) (rev s)))
     else None)"

text \<open>\<open>GuestPath::join\<close>, \<open>parent_and_file_name\<close>, \<open>file_name\<close> and \<open>parent\<close>.\<close>

definition path_join :: "string \<Rightarrow> string \<Rightarrow> string" where
  "path_join p q = p @ ''/'' @ q"

definition parent_and_file_name :: "string \<Rightarrow> (string \<times> string) option run" where
  "parent_and_file_name p = do {
     _ \<leftarrow> rassert (\<not> (p \<noteq> [] \<and> last p = SLASH));
     Some (rsplit_once_slash p) }"

definition path_file_name :: "string \<Rightarrow> string option run" where
  "path_file_name p = do { r \<leftarrow> parent_and_file_name p; Some (map_option snd r) }"

definition path_parent :: "string \<Rightarrow> string option run" where
  "path_parent p = do { r \<leftarrow> parent_and_file_name p; Some (map_option fst r) }"

definition apply_path_component :: "string list \<Rightarrow> string \<Rightarrow> string list" where
  "apply_path_component components component =
     (if component = '''' then components
      else if component = ''.'' then components
      else if component = ''..'' then butlast components
      else components @ [component])"

definition resolve_path :: "string \<Rightarrow> string option \<Rightarrow> string list run" where
  "resolve_path path relative_to = do {
     components \<leftarrow> (if starts_with_slash path then Some []
       else do {
         r \<leftarrow> relative_to;
         _ \<leftarrow> rassert (starts_with_slash r);
         Some (foldl apply_path_component [] (split_slash r)) });
     Some (foldl apply_path_component components (split_slash path)) }"

text \<open>The string that \<open>change_working_directory\<close> builds from components.\<close>

definition render_path :: "string list \<Rightarrow> string" where
  "render_path cs = (if cs = [] then ''/'' else concat (map (\<lambda>c. SLASH # c) cs))"

subsection \<open>Resolution\<close>

definition clean :: "string \<Rightarrow> bool" where
  "clean c \<longleftrightarrow> c \<noteq> '''' \<and> c \<noteq> ''.'' \<and> c \<noteq> ''..'' \<and> SLASH \<notin> set c"

lemma split_slash_not_Nil [simp]: "split_slash s \<noteq> []"
  by (cases s) (auto split: list.splits)

lemma split_slash_no_slash: "c \<in> set (split_slash s) \<Longrightarrow> SLASH \<notin> set c"
proof (induction s arbitrary: c)
  case (Cons x xs)
  then show ?case by (cases "split_slash xs") (auto split: if_splits)
qed simp

lemma split_slash_join: "split_slash (p @ SLASH # q) = split_slash p @ split_slash q"
proof (induction p)
  case (Cons c p)
  then show ?case by (cases "split_slash p") auto
qed simp

lemma split_slash_one: "SLASH \<notin> set c \<Longrightarrow> split_slash c = [c]"
  by (induction c) auto

lemma split_render: "\<forall>c \<in> set cs. SLASH \<notin> set c \<Longrightarrow> split_slash (concat (map (\<lambda>c. SLASH # c) cs)) = '''' # cs"
proof (induction cs rule: rev_induct)
  case (snoc c cs)
  then show ?case using split_slash_join [of "concat (map (\<lambda>c. SLASH # c) cs)" c] by (simp add: split_slash_one)
qed simp

lemma apply_clean:
  "\<forall>c \<in> set cs. clean c \<Longrightarrow> SLASH \<notin> set c \<Longrightarrow> \<forall>c \<in> set (apply_path_component cs c). clean c"
  by (auto simp: apply_path_component_def clean_def dest: in_set_butlastD)

lemma fold_clean:
  "\<forall>c \<in> set cs. clean c \<Longrightarrow> \<forall>c \<in> set ps. SLASH \<notin> set c \<Longrightarrow> \<forall>c \<in> set (foldl apply_path_component cs ps). clean c"
proof (induction ps arbitrary: cs)
  case (Cons p ps)
  then show ?case using apply_clean [OF Cons.prems(1), of p] by simp
qed simp

lemma fold_of_clean: "\<forall>c \<in> set ps. clean c \<Longrightarrow> foldl apply_path_component cs ps = cs @ ps"
  by (induction ps arbitrary: cs) (simp_all add: apply_path_component_def clean_def)

lemma resolve_path_clean: "resolve_path p r = Some cs \<Longrightarrow> c \<in> set cs \<Longrightarrow> clean c"
  using fold_clean [of _ "split_slash p"] fold_clean [of "[]" "split_slash _"] split_slash_no_slash
  by (auto simp: resolve_path_def run_simps split: if_splits)

lemma render_starts [simp]: "starts_with_slash (render_path cs)"
  by (cases cs) (simp_all add: render_path_def starts_with_slash_def)

lemma resolve_render: "\<forall>c \<in> set cs. clean c \<Longrightarrow> resolve_path (render_path cs) r = Some cs"
proof -
  assume c: "\<forall>c \<in> set cs. clean c"
  have "foldl apply_path_component [] (split_slash (render_path cs)) = cs"
  proof (cases "cs = []")
    case False
    then have "split_slash (render_path cs) = '''' # cs" using split_render [of cs] c by (simp add: render_path_def clean_def)
    then show ?thesis using fold_of_clean [OF c, of "[]"] by (simp add: apply_path_component_def)
  qed (simp add: render_path_def apply_path_component_def)
  then show ?thesis by (simp add: resolve_path_def)
qed

lemma resolve_relative:
  assumes "\<not> starts_with_slash p" and "starts_with_slash wd"
  shows "resolve_path p (Some wd) = resolve_path (path_join wd p) None"
proof -
  have "starts_with_slash (path_join wd p)" using assms(2) by (cases wd) (simp_all add: path_join_def starts_with_slash_def)
  then show ?thesis using assms split_slash_join [of wd p] by (simp add: resolve_path_def path_join_def)
qed

lemma resolve_total: "(\<exists>cs. resolve_path p r = Some cs) \<longleftrightarrow> starts_with_slash p \<or> (\<exists>wd. r = Some wd \<and> starts_with_slash wd)"
  by (auto simp: resolve_path_def run_simps)

lemma file_name_of_render:
  assumes "\<forall>c \<in> set (cs @ [c]). clean c"
  shows "parent_and_file_name (render_path (cs @ [c])) = Some (Some (concat (map (\<lambda>c. SLASH # c) cs), c))"
proof -
  let ?p = "concat (map (\<lambda>c. SLASH # c) cs)"
  have c: "SLASH \<notin> set c" "c \<noteq> []" using assms by (auto simp: clean_def)
  then have "last c \<noteq> SLASH" by (metis last_in_set)
  moreover have "rsplit_once_slash (?p @ SLASH # c) = Some (?p, c)" using c(1)
    by (simp add: rsplit_once_slash_def takeWhile_append dropWhile_append)
  ultimately show ?thesis using c(2) by (simp add: parent_and_file_name_def render_path_def)
qed

subsection \<open>Properties\<close>

text \<open>C34: Resolving a path panics only for a relative path without an absolute directory to
  start from. The result has no empty component, no \<open>.\<close> and no \<open>..\<close>, and no slash; written as a path
  and resolved again it is the same, from any directory. A relative path resolves as the path
  joined to the directory does.\<close>

theorem resolved_paths:
  "((\<exists>cs. resolve_path p r = Some cs) \<longleftrightarrow> starts_with_slash p \<or> (\<exists>wd. r = Some wd \<and> starts_with_slash wd))
    \<and> (\<forall>cs. resolve_path p r = Some cs \<longrightarrow> (\<forall>c \<in> set cs. clean c) \<and> resolve_path (render_path cs) r' = Some cs
         \<and> (cs \<noteq> [] \<longrightarrow> path_file_name (render_path cs) = Some (Some (last cs))))
    \<and> (\<not> starts_with_slash p \<longrightarrow> starts_with_slash wd \<longrightarrow> resolve_path p (Some wd) = resolve_path (path_join wd p) None)"
proof -
  have "path_file_name (render_path cs) = Some (Some (last cs))"
    if "resolve_path p r = Some cs" "cs \<noteq> []" for cs
    using file_name_of_render [of "butlast cs" "last cs"] resolve_path_clean [OF that(1)] that(2)
    by (simp add: path_file_name_def)
  moreover have "\<forall>c \<in> set cs. clean c" if "resolve_path p r = Some cs" for cs using resolve_path_clean [OF that] by blast
  ultimately show ?thesis
    by (intro conjI allI impI resolve_total resolve_relative) (simp_all add: resolve_render)
qed

theorem resolved_paths_witness:
  "resolve_path ''a/../b/./c'' (Some ''/x'') = Some [''x'', ''b'', ''c'']
    \<and> resolve_path (render_path [''x'', ''b'', ''c'']) None = Some [''x'', ''b'', ''c'']
    \<and> path_file_name (render_path [''x'', ''b'', ''c'']) = Some (Some ''c'')
    \<and> resolve_path ''a/../b/./c'' (Some ''/x'') = resolve_path ''/x/a/../b/./c'' None"
proof -
  have r: "resolve_path ''a/../b/./c'' (Some ''/x'') = Some [''x'', ''b'', ''c'']" by code_simp
  have "\<not> starts_with_slash ''a/../b/./c''" "starts_with_slash ''/x''" by code_simp+
  with r resolved_paths [of "''a/../b/./c''" "Some ''/x''" None "''/x''"] show ?thesis by (auto simp: path_join_def)
qed

end
