(* ===== verification/Guest_Fs.thy ===== *)
theory Guest_Fs
  imports Guest_Path "HOL-Library.AList"
begin

text \<open>
  The guest filesystem: \<open>FsNode\<close> and \<open>Fs\<close> of \<open>src/fs.rs\<close>. A \<open>HashMap\<close> of children is an association
  list, whose order stands for the unspecified order of iteration; a \<open>&mut\<close> into the tree is the
  path to the node, written back by \<open>put_node\<close>. A host path is the list of its components, with the
  separator of Unix. The operations of the host filesystem are a parameter, a record of functions on
  a host state; a file of an \<open>.ipa\<close> archive is a number.
\<close>

subsection \<open>Nodes\<close>

type_synonym host_path = "string list"

datatype file_location = Path_Location host_path | Ipa_File_Ref nat | Resource_File_Path string

datatype fs_error = Access_Denied | Already_Exist | Directory_Not_Empty | Does_Not_Exist | Io_Error
  | Invalid_Parent_Dir | Is_Directory | Nonexistent_Parent_Dir | Readonly_Parent_Dir

datatype fs_node = File_Node file_location bool | Dir_Node "(string \<times> fs_node) list" "host_path option"

datatype fs_node_type = File_Type | Directory_Type

text \<open>A host directory as \<open>read_dir\<close> reports it, symbolic links followed.\<close>

datatype host_entry = Host_File | Host_Dir "(string \<times> host_entry) list" | Host_Other

function (sequential) from_host_entries ::
    "host_path \<Rightarrow> bool \<Rightarrow> (string \<times> host_entry) list \<Rightarrow> (string \<times> fs_node) list \<Rightarrow> (string \<times> fs_node) list run" where
  "from_host_entries p w [] children = Some children"
| "from_host_entries p w ((name, kind) # entries) children = do {
     node \<leftarrow> (case kind of
         Host_File \<Rightarrow> Some (File_Node (Path_Location (p @ [name])) w)
       | Host_Dir es \<Rightarrow> do {
           sub \<leftarrow> from_host_entries (p @ [name]) w es [];
           Some (Dir_Node sub (if w then Some (p @ [name]) else None)) }
       | Host_Other \<Rightarrow> None);
     from_host_entries p w entries (AList.update name node children) }"
  by pat_completeness auto
termination
  by (relation "measure (\<lambda>(p, w, entries, children). size (Host_Dir entries))") auto

definition from_host_dir :: "host_path \<Rightarrow> bool \<Rightarrow> (string \<times> host_entry) list \<Rightarrow> fs_node run" where
  "from_host_dir host_path writeable entries = do {
     children \<leftarrow> from_host_entries host_path writeable entries [];
     Some (Dir_Node children (if writeable then Some host_path else None)) }"

definition dir_node :: fs_node where
  "dir_node = Dir_Node [] None"

definition with_child :: "string \<Rightarrow> fs_node \<Rightarrow> fs_node \<Rightarrow> fs_node run" where
  "with_child name child node = (case node of
     Dir_Node children w \<Rightarrow> do {
       _ \<leftarrow> rassert (map_of children name = None);
       Some (Dir_Node (AList.update name child children) w) }
   | File_Node _ _ \<Rightarrow> None)"

fun lookup_node_inner :: "string list \<Rightarrow> fs_node \<Rightarrow> fs_node option" where
  "lookup_node_inner [] node = Some node"
| "lookup_node_inner (c # cs) (File_Node _ _) = None"
| "lookup_node_inner (c # cs) (Dir_Node children w) =
     (case map_of children c of None \<Rightarrow> None | Some node \<Rightarrow> lookup_node_inner cs node)"

fun put_node :: "string list \<Rightarrow> fs_node \<Rightarrow> fs_node \<Rightarrow> fs_node" where
  "put_node [] new node = new"
| "put_node (c # cs) new (File_Node l w) = File_Node l w"
| "put_node (c # cs) new (Dir_Node children w) =
     (case map_of children c of None \<Rightarrow> Dir_Node children w
      | Some node \<Rightarrow> Dir_Node (AList.update c (put_node cs new node) children) w)"

subsection \<open>The filesystem and its queries\<close>

record fs =
  fs_root :: fs_node
  fs_working_directory :: string
  fs_home_directory :: string

definition lookup_node :: "fs \<Rightarrow> string \<Rightarrow> fs_node option run" where
  "lookup_node f path = do {
     cs \<leftarrow> resolve_path path (Some (fs_working_directory f));
     Some (lookup_node_inner cs (fs_root f)) }"

definition lookup_parent_node :: "fs \<Rightarrow> string \<Rightarrow> (string list \<times> fs_node \<times> string) option run" where
  "lookup_parent_node f path = do {
     cs \<leftarrow> resolve_path path (Some (fs_working_directory f));
     Some (if cs = [] then None else
       case lookup_node_inner (butlast cs) (fs_root f) of
         None \<Rightarrow> None
       | Some parent \<Rightarrow> Some (butlast cs, parent, last cs)) }"

definition change_working_directory :: "string \<Rightarrow> fs \<Rightarrow> ((unit + string) \<times> fs) run" where
  "change_working_directory path f = do {
     resolved \<leftarrow> resolve_path path (Some (fs_working_directory f));
     Some (case lookup_node_inner resolved (fs_root f) of
       Some (Dir_Node _ _) \<Rightarrow> (Inr (render_path resolved), f\<lparr>fs_working_directory := render_path resolved\<rparr>)
     | _ \<Rightarrow> (Inl (), f)) }"

definition fs_exists :: "fs \<Rightarrow> string \<Rightarrow> bool run" where
  "fs_exists f path = do { n \<leftarrow> lookup_node f path; Some (n \<noteq> None) }"

definition fs_access :: "fs \<Rightarrow> string \<Rightarrow> (bool \<times> bool \<times> bool \<times> bool) run" where
  "fs_access f path = do {
     n \<leftarrow> lookup_node f path;
     Some (case n of
       None \<Rightarrow> (False, False, False, False)
     | Some (File_Node _ writeable) \<Rightarrow> (True, True, writeable, False)
     | Some (Dir_Node _ writeable) \<Rightarrow> (True, True, writeable \<noteq> None, True)) }"

definition fs_is_file :: "fs \<Rightarrow> string \<Rightarrow> bool run" where
  "fs_is_file f path = do { n \<leftarrow> lookup_node f path; Some (case n of Some (File_Node _ _) \<Rightarrow> True | _ \<Rightarrow> False) }"

definition fs_is_dir :: "fs \<Rightarrow> string \<Rightarrow> bool run" where
  "fs_is_dir f path = do { n \<leftarrow> lookup_node f path; Some (case n of Some (Dir_Node _ _) \<Rightarrow> True | _ \<Rightarrow> False) }"

definition fs_enumerate :: "fs \<Rightarrow> string \<Rightarrow> (unit + string list) run" where
  "fs_enumerate f path = do {
     n \<leftarrow> lookup_node f path;
     Some (case n of Some (Dir_Node children _) \<Rightarrow> Inr (map fst children) | _ \<Rightarrow> Inl ()) }"

definition fs_enumerate_with_types :: "fs \<Rightarrow> string \<Rightarrow> (unit + (string \<times> fs_node_type) list) run" where
  "fs_enumerate_with_types f path = do {
     n \<leftarrow> lookup_node f path;
     Some (case n of
       Some (Dir_Node children _) \<Rightarrow>
         Inr (map (\<lambda>(name, node). (name, case node of File_Node _ _ \<Rightarrow> File_Type | Dir_Node _ _ \<Rightarrow> Directory_Type)) children)
     | _ \<Rightarrow> Inl ()) }"

text \<open>\<open>component_stack.join("/")\<close>. The innermost iterator is the first of the list.\<close>

fun join_components :: "string list \<Rightarrow> string" where
  "join_components [] = ''''"
| "join_components [c] = c"
| "join_components (c # cs) = c @ SLASH # join_components cs"

partial_function (option) enumerate_loop ::
    "string list \<Rightarrow> (string \<times> fs_node) list list \<Rightarrow> string list \<Rightarrow> string list run" where
  "enumerate_loop component_stack iterator_stack paths = (case iterator_stack of
     [] \<Rightarrow> None
   | it # rest \<Rightarrow> (case it of
       (component, node) # it' \<Rightarrow> (let stack = component_stack @ [component]; paths = paths @ [join_components stack] in
         (case node of
           Dir_Node children _ \<Rightarrow> enumerate_loop stack (children # it' # rest) paths
         | File_Node _ _ \<Rightarrow> enumerate_loop component_stack (it' # rest) paths))
     | [] \<Rightarrow> if component_stack = [] then do { _ \<leftarrow> rassert (rest = []); Some paths }
         else enumerate_loop (butlast component_stack) rest paths))"

definition fs_enumerate_recursive :: "fs \<Rightarrow> string \<Rightarrow> (unit + string list) run" where
  "fs_enumerate_recursive f path = do {
     n \<leftarrow> lookup_node f path;
     case n of
       Some (Dir_Node children _) \<Rightarrow> do { paths \<leftarrow> enumerate_loop [] [children] []; Some (Inr paths) }
     | _ \<Rightarrow> Some (Inl ()) }"

subsection \<open>Operations\<close>

record open_options =
  oo_read :: bool
  oo_write :: bool
  oo_append :: bool
  oo_create :: bool
  oo_truncate :: bool
  oo_exclusive :: bool

definition open_options_new :: open_options where
  "open_options_new = \<lparr>oo_read = False, oo_write = False, oo_append = False, oo_create = False,
     oo_truncate = False, oo_exclusive = False\<rparr>"

text \<open>
  What the host does, on a host state: opening a file with options or failing, creating and
  removing, renaming, writing a whole buffer; \<open>hf_resource\<close> says whether a resource file opens,
  \<open>hf_len\<close>, \<open>hf_modified\<close>, \<open>hf_ipa_len\<close> and \<open>hf_ipa_modified\<close> are file metadata.
\<close>

record ('h, 'f) host_fs =
  hf_open :: "open_options \<Rightarrow> host_path \<Rightarrow> 'h \<Rightarrow> 'f option \<times> 'h"
  hf_resource :: "string \<Rightarrow> bool"
  hf_create_dir :: "host_path \<Rightarrow> 'h \<Rightarrow> bool \<times> 'h"
  hf_remove_file :: "host_path \<Rightarrow> 'h \<Rightarrow> bool \<times> 'h"
  hf_remove_dir :: "host_path \<Rightarrow> 'h \<Rightarrow> bool \<times> 'h"
  hf_rename :: "host_path \<Rightarrow> host_path \<Rightarrow> 'h \<Rightarrow> bool \<times> 'h"
  hf_write_all :: "'f \<Rightarrow> u8 list \<Rightarrow> 'h \<Rightarrow> bool \<times> 'h"
  hf_len :: "host_path \<Rightarrow> 'h \<Rightarrow> u64 option"
  hf_modified :: "host_path \<Rightarrow> 'h \<Rightarrow> int option"
  hf_ipa_len :: "nat \<Rightarrow> u64"
  hf_ipa_modified :: "nat \<Rightarrow> int"

datatype 'f guest_file = GF_Directory | GF_File 'f | GF_Ipa nat | GF_Null_Device | GF_Random_Device u32
  | GF_Resource string | GF_Socket

text \<open>\<open>handle_open_err\<close>: a host error is a panic.\<close>

definition handle_open_err :: "bool \<times> 'h \<Rightarrow> 'h run" where
  "handle_open_err r = (if fst r then Some (snd r) else None)"

definition handle_open_file :: "'f option \<times> 'h \<Rightarrow> ('f \<times> 'h) run" where
  "handle_open_file r = (case r of (Some f, h) \<Rightarrow> Some (f, h) | (None, _) \<Rightarrow> None)"

definition set_children :: "string list \<Rightarrow> (string \<times> fs_node) list \<Rightarrow> host_path option \<Rightarrow> fs \<Rightarrow> fs" where
  "set_children ps children w f = f\<lparr>fs_root := put_node ps (Dir_Node children w) (fs_root f)\<rparr>"

definition fs_size :: "('h, 'f) host_fs \<Rightarrow> fs \<Rightarrow> 'h \<Rightarrow> string \<Rightarrow> (unit + u64) run" where
  "fs_size H f h path = do {
     n \<leftarrow> lookup_node f path;
     case n of
       None \<Rightarrow> Some (Inl ())
     | Some (File_Node (Ipa_File_Ref r) _) \<Rightarrow> Some (Inr (hf_ipa_len H r))
     | Some (File_Node (Path_Location p) _) \<Rightarrow> Some (case hf_len H p h of Some n \<Rightarrow> Inr n | None \<Rightarrow> Inl ())
     | _ \<Rightarrow> None }"

definition fs_modified :: "('h, 'f) host_fs \<Rightarrow> fs \<Rightarrow> 'h \<Rightarrow> string \<Rightarrow> (unit + int) run" where
  "fs_modified H f h path = do {
     n \<leftarrow> lookup_node f path;
     case n of
       None \<Rightarrow> Some (Inl ())
     | Some (File_Node (Ipa_File_Ref r) _) \<Rightarrow> Some (Inr (hf_ipa_modified H r))
     | Some (File_Node (Path_Location p) _) \<Rightarrow>
         (case hf_modified H p h of
           None \<Rightarrow> Some (Inl ())
         | Some t \<Rightarrow> do { _ \<leftarrow> rassert (0 \<le> t \<and> t < 2 ^ 63); Some (Inr t) })
     | _ \<Rightarrow> None }"

definition fs_open :: "('h, 'f) host_fs \<Rightarrow> string \<Rightarrow> fs \<times> 'h \<Rightarrow> ((unit + 'f guest_file) \<times> fs \<times> 'h) run" where
  "fs_open H path s = (case s of (f, h) \<Rightarrow> do {
     n \<leftarrow> lookup_node f path;
     case n of
       Some (File_Node (Path_Location p) _) \<Rightarrow> do {
         (file, h1) \<leftarrow> handle_open_file (hf_open H (open_options_new\<lparr>oo_read := True\<rparr>) p h);
         Some (Inr (GF_File file), f, h1) }
     | Some (File_Node (Ipa_File_Ref r) _) \<Rightarrow> Some (Inr (GF_Ipa r), f, h)
     | Some (File_Node (Resource_File_Path name) _) \<Rightarrow> do {
         _ \<leftarrow> rassert (hf_resource H name); Some (Inr (GF_Resource name), f, h) }
     | _ \<Rightarrow> Some (Inl (), f, h) })"

definition open_existing ::
    "('h, 'f) host_fs \<Rightarrow> open_options \<Rightarrow> fs_node \<Rightarrow> fs \<times> 'h \<Rightarrow> ((fs_error + 'f guest_file) \<times> fs \<times> 'h) run" where
  "open_existing H opts node s = (case s of (f, h) \<Rightarrow>
     if oo_create opts \<and> oo_exclusive opts then Some (Inl Already_Exist, f, h)
     else (case node of
       File_Node location writeable \<Rightarrow>
         if \<not> writeable \<and> (oo_append opts \<or> oo_write opts) then Some (Inl Access_Denied, f, h)
         else (case location of
           Path_Location p \<Rightarrow> do {
             (file, h1) \<leftarrow> handle_open_file (hf_open H (opts\<lparr>oo_create := False, oo_exclusive := False\<rparr>) p h);
             Some (Inr (GF_File file), f, h1) }
         | Ipa_File_Ref r \<Rightarrow> do {
             _ \<leftarrow> rassert (\<not> (writeable \<or> oo_append opts \<or> oo_write opts)); Some (Inr (GF_Ipa r), f, h) }
         | Resource_File_Path name \<Rightarrow> do {
             _ \<leftarrow> rassert (\<not> (writeable \<or> oo_append opts \<or> oo_write opts));
             _ \<leftarrow> rassert (hf_resource H name); Some (Inr (GF_Resource name), f, h) })
     | Dir_Node _ _ \<Rightarrow> Some (if oo_write opts then Inl Is_Directory else Inr GF_Directory, f, h)))"

definition open_with_options ::
    "('h, 'f) host_fs \<Rightarrow> string \<Rightarrow> open_options \<Rightarrow> fs \<times> 'h \<Rightarrow> ((fs_error + 'f guest_file) \<times> fs \<times> 'h) run" where
  "open_with_options H path opts s = (case s of (f, h) \<Rightarrow> do {
     _ \<leftarrow> rassert ((\<not> oo_truncate opts \<and> \<not> oo_create opts) \<or> oo_write opts \<or> oo_append opts);
     parent \<leftarrow> lookup_parent_node f path;
     case parent of
       None \<Rightarrow> Some (Inl Does_Not_Exist, f, h)
     | Some (ps, File_Node _ _, _) \<Rightarrow> Some (Inl Nonexistent_Parent_Dir, f, h)
     | Some (ps, Dir_Node children dir_host_path, new_filename) \<Rightarrow>
         (case map_of children new_filename of
           Some node \<Rightarrow> open_existing H opts node (f, h)
         | None \<Rightarrow>
             if \<not> oo_create opts then Some (Inl Does_Not_Exist, f, h)
             else (case dir_host_path of
               None \<Rightarrow> Some (Inl Access_Denied, f, h)
             | Some dir \<Rightarrow> do {
                 _ \<leftarrow> rassert (SLASH \<notin> set new_filename);
                 let host_path = dir @ [new_filename];
                 (file, h1) \<leftarrow> handle_open_file (hf_open H (opts\<lparr>oo_exclusive := False\<rparr>) host_path h);
                 Some (Inr (GF_File file),
                   set_children ps (AList.update new_filename (File_Node (Path_Location host_path) True) children)
                     dir_host_path f, h1) })) })"

definition fs_remove :: "('h, 'f) host_fs \<Rightarrow> string \<Rightarrow> fs \<times> 'h \<Rightarrow> ((fs_error + unit) \<times> fs \<times> 'h) run" where
  "fs_remove H path s = (case s of (f, h) \<Rightarrow> do {
     parent \<leftarrow> lookup_parent_node f path;
     case parent of
       None \<Rightarrow> Some (Inl Nonexistent_Parent_Dir, f, h)
     | Some (ps, File_Node _ _, _) \<Rightarrow> Some (Inl Invalid_Parent_Dir, f, h)
     | Some (ps, Dir_Node children dir_writeable, node_name) \<Rightarrow>
         if dir_writeable = None then Some (Inl Readonly_Parent_Dir, f, h)
         else (case map_of children node_name of
           None \<Rightarrow> Some (Inl Does_Not_Exist, f, h)
         | Some (File_Node location writeable) \<Rightarrow>
             if \<not> writeable then Some (Inl Access_Denied, f, h)
             else (case location of
               Path_Location p \<Rightarrow> do {
                 h1 \<leftarrow> handle_open_err (hf_remove_file H p h);
                 Some (Inr (), set_children ps (AList.delete node_name children) dir_writeable f, h1) }
             | _ \<Rightarrow> None)
         | Some (Dir_Node sub writeable) \<Rightarrow>
             if sub \<noteq> [] then Some (Inl Directory_Not_Empty, f, h)
             else (case writeable of
               None \<Rightarrow> Some (Inl Access_Denied, f, h)
             | Some p \<Rightarrow> do {
                 h1 \<leftarrow> handle_open_err (hf_remove_dir H p h);
                 Some (Inr (), set_children ps (AList.delete node_name children) dir_writeable f, h1) })) })"

definition fs_create_dir :: "('h, 'f) host_fs \<Rightarrow> string \<Rightarrow> fs \<times> 'h \<Rightarrow> ((fs_error + unit) \<times> fs \<times> 'h) run" where
  "fs_create_dir H path s = (case s of (f, h) \<Rightarrow> do {
     parent \<leftarrow> lookup_parent_node f path;
     case parent of
       None \<Rightarrow> Some (Inl Nonexistent_Parent_Dir, f, h)
     | Some (ps, File_Node _ _, _) \<Rightarrow> Some (Inl Invalid_Parent_Dir, f, h)
     | Some (ps, Dir_Node children dir_host_path, new_dir_name) \<Rightarrow>
         if map_of children new_dir_name \<noteq> None then Some (Inl Already_Exist, f, h)
         else (case dir_host_path of
           None \<Rightarrow> Some (Inl Readonly_Parent_Dir, f, h)
         | Some dir \<Rightarrow> do {
             _ \<leftarrow> rassert (SLASH \<notin> set new_dir_name);
             let host_path = dir @ [new_dir_name];
             h1 \<leftarrow> handle_open_err (hf_create_dir H host_path h);
             Some (Inr (), set_children ps (AList.update new_dir_name (Dir_Node [] (Some host_path)) children)
               dir_host_path f, h1) }) })"

fun create_dirs ::
    "('h, 'f) host_fs \<Rightarrow> string list \<Rightarrow> string list \<Rightarrow> fs \<times> 'h \<Rightarrow> ((fs_error + unit) \<times> fs \<times> 'h) run" where
  "create_dirs H tmp_vec [] s = Some (Inr (), s)"
| "create_dirs H tmp_vec (component # components) s = do {
     (r, s1) \<leftarrow> fs_create_dir H (join_components (tmp_vec @ [component])) s;
     if r = Inr () \<or> r = Inl Already_Exist then create_dirs H (tmp_vec @ [component]) components s1
     else Some (r, s1) }"

definition fs_create_dir_all :: "('h, 'f) host_fs \<Rightarrow> string \<Rightarrow> fs \<times> 'h \<Rightarrow> ((fs_error + unit) \<times> fs \<times> 'h) run" where
  "fs_create_dir_all H path s = do {
     _ \<leftarrow> rassert (starts_with_slash path);
     components \<leftarrow> resolve_path path None;
     create_dirs H [''''] components s }"

definition fs_write :: "('h, 'f) host_fs \<Rightarrow> string \<Rightarrow> u8 list \<Rightarrow> fs \<times> 'h \<Rightarrow> ((fs_error + unit) \<times> fs \<times> 'h) run" where
  "fs_write H path data s = do {
     (r, f1, h1) \<leftarrow> open_with_options H path
       (open_options_new\<lparr>oo_write := True, oo_create := True, oo_truncate := True\<rparr>) s;
     case r of
       Inl e \<Rightarrow> Some (Inl e, f1, h1)
     | Inr (GF_File file) \<Rightarrow> (let (ok, h2) = hf_write_all H file data h1 in Some (if ok then Inr () else Inl Io_Error, f1, h2))
     | Inr _ \<Rightarrow> None }"

text \<open>The second part of \<open>rename\<close>, when both nodes are there.\<close>

definition rename_nodes ::
    "('h, 'f) host_fs \<Rightarrow> host_path \<Rightarrow> string \<Rightarrow> string \<Rightarrow> fs \<times> 'h \<Rightarrow> ((fs_error + unit) \<times> fs \<times> 'h) run" where
  "rename_nodes H from_host_path from_path to_path s = (case s of (f, h) \<Rightarrow> do {
     to_node \<leftarrow> lookup_node f to_path;
     case to_node of
       None \<Rightarrow> None
     | Some (Dir_Node _ _) \<Rightarrow> Some (Inl Is_Directory, f, h)
     | Some (File_Node (Path_Location to_host_path) to_writeable) \<Rightarrow> do {
         _ \<leftarrow> rassert to_writeable;
         let (ok, h1) = hf_rename H from_host_path to_host_path h;
         if \<not> ok then Some (Inl Io_Error, f, h1)
         else do {
           parent \<leftarrow> lookup_parent_node f from_path;
           case parent of
             Some (ps, Dir_Node children w, component) \<Rightarrow> do {
               _ \<leftarrow> rassert (map_of children component \<noteq> None);
               Some (Inr (), set_children ps (AList.delete component children) w f, h1) }
           | _ \<Rightarrow> None } }
     | Some (File_Node _ _) \<Rightarrow> Some (Inl Access_Denied, f, h) })"

definition fs_rename :: "('h, 'f) host_fs \<Rightarrow> string \<Rightarrow> string \<Rightarrow> fs \<times> 'h \<Rightarrow> ((fs_error + unit) \<times> fs \<times> 'h) run" where
  "fs_rename H from_path to_path s = (case s of (f, h) \<Rightarrow> do {
     from_node \<leftarrow> lookup_node f from_path;
     case from_node of
       None \<Rightarrow> Some (Inl Does_Not_Exist, f, h)
     | Some (Dir_Node _ _) \<Rightarrow> None
     | Some (File_Node (Path_Location from_host_path) from_writeable) \<Rightarrow> do {
         _ \<leftarrow> rassert from_writeable;
         to_node \<leftarrow> lookup_node f to_path;
         (r, s1) \<leftarrow> (if to_node = None
           then open_with_options H to_path (open_options_new\<lparr>oo_write := True, oo_create := True, oo_truncate := True\<rparr>) (f, h)
           else Some (Inr GF_Directory, f, h));
         case r of
           Inl e \<Rightarrow> Some (Inl e, s1)
         | Inr _ \<Rightarrow> rename_nodes H from_host_path from_path to_path s1 }
     | Some (File_Node _ _) \<Rightarrow> Some (Inl Is_Directory, f, h) })"

subsection \<open>The initial filesystem\<close>

text \<open>
  \<open>FsNodeBuilder\<close> of \<open>src/fs/bundle.rs\<close>: \<open>in_directory\<close> makes the directory of the given components
  and goes on with it, as the reference that \<open>find_or_make_directory\<close> returns is used.
\<close>

fun in_directory :: "string list \<Rightarrow> (fs_node \<Rightarrow> fs_node run) \<Rightarrow> fs_node \<Rightarrow> fs_node run" where
  "in_directory [] g current = g current"
| "in_directory (part # parts) g current = (if part = '''' then in_directory parts g current
     else do {
       _ \<leftarrow> rassert (part \<noteq> ''..'');
       case current of
         File_Node _ _ \<Rightarrow> None
       | Dir_Node children w \<Rightarrow> do {
           let child = (case map_of children part of None \<Rightarrow> dir_node | Some node \<Rightarrow> node);
           child' \<leftarrow> in_directory parts g child;
           Some (Dir_Node (AList.update part child' children) w) } })"

definition builder_add_directory :: "string \<Rightarrow> fs_node \<Rightarrow> fs_node run" where
  "builder_add_directory path root = in_directory (split_slash path) Some root"

definition builder_add_file :: "string \<Rightarrow> fs_node \<Rightarrow> fs_node \<Rightarrow> fs_node run" where
  "builder_add_file path node root = do {
     r \<leftarrow> parent_and_file_name path;
     (parent_name, file_name) \<leftarrow> r;
     _ \<leftarrow> rassert (file_name \<noteq> ''..'');
     in_directory (split_slash parent_name) (\<lambda>dir. case dir of
         File_Node _ _ \<Rightarrow> None
       | Dir_Node children w \<Rightarrow> Some (Dir_Node (AList.update file_name node children) w)) root }"

text \<open>The entries of the archive, each a name and whether it is a directory; \<open>i\<close> is the index of the first.\<close>

fun zip_into_fs_node :: "string \<Rightarrow> nat \<Rightarrow> (string \<times> bool) list \<Rightarrow> fs_node \<Rightarrow> fs_node run" where
  "zip_into_fs_node bundle_path i [] root = Some root"
| "zip_into_fs_node bundle_path i ((name, is_dir) # entries) root = do {
     root1 \<leftarrow> (if take (length bundle_path) name = bundle_path then
         (let path = drop (length bundle_path) name in
           if is_dir then builder_add_directory path root
           else builder_add_file path (File_Node (Ipa_File_Ref i) False) root)
       else Some root);
     zip_into_fs_node bundle_path (Suc i) entries root1 }"

datatype bundle_data = Host_Directory host_path "(string \<times> host_entry) list" | Zip_Archive string "(string \<times> bool) list"

definition into_fs_node :: "bundle_data \<Rightarrow> fs_node run" where
  "into_fs_node bundle = (case bundle of
     Host_Directory path entries \<Rightarrow> from_host_dir path False entries
   | Zip_Archive bundle_path entries \<Rightarrow> zip_into_fs_node bundle_path 0 entries dir_node)"

definition APPLICATIONS :: string where
  "APPLICATIONS = ''/var/mobile/Applications''"

definition FAKE_UUID :: string where
  "FAKE_UUID = ''00000000-0000-0000-0000-000000000000''"

definition resource_file :: "string \<Rightarrow> fs_node" where
  "resource_file name = File_Node (Resource_File_Path (''ChronaHLE_dylibs/'' @ name)) False"

definition usr_lib_files :: "(string \<times> string) list" where
  "usr_lib_files = [(''libgcc_s.1.dylib'', ''libgcc_s.1.dylib''), (''libstdc++.6.dylib'', ''libstdc++.6.0.9.dylib''),
     (''libstdc++.6.0.9.dylib'', ''libstdc++.6.0.9.dylib''), (''libz.1.2.3.dylib'', ''libz.1.2.3.dylib''),
     (''libz.1.dylib'', ''libz.1.2.3.dylib''), (''libz.dylib'', ''libz.1.2.3.dylib''),
     (''libz.1.1.3.dylib'', ''libz.1.2.3.dylib''), (''libsqlite3.dylib'', ''libsqlite3.dylib''),
     (''libsqlite3.0.dylib'', ''libsqlite3.dylib''), (''libxml2.2.dylib'', ''libxml2.2.dylib''),
     (''libxml2.dylib'', ''libxml2.2.dylib''), (''libxml2.2.7.8.dylib'', ''libxml2.2.dylib'')]"

fun with_children :: "(string \<times> fs_node) list \<Rightarrow> fs_node \<Rightarrow> fs_node run" where
  "with_children [] node = Some node"
| "with_children ((name, child) # rest) node = do { node1 \<leftarrow> with_child name child node; with_children rest node1 }"

text \<open>\<open>sandbox\<close> gives the host directory of \<open>Documents\<close>, \<open>Library\<close> and \<open>tmp\<close>, \<open>None\<close> in read-only mode.\<close>

fun insert_sandbox ::
    "(string \<Rightarrow> (host_path \<times> (string \<times> host_entry) list) option) \<Rightarrow> string list \<Rightarrow> (string \<times> fs_node) list
      \<Rightarrow> (string \<times> fs_node) list run" where
  "insert_sandbox sandbox [] children = Some children"
| "insert_sandbox sandbox (dir # dirs) children = (case sandbox dir of
     None \<Rightarrow> insert_sandbox sandbox dirs children
   | Some (path, entries) \<Rightarrow> do {
       node \<leftarrow> from_host_dir path True entries;
       insert_sandbox sandbox dirs (AList.update dir node children) })"

definition fs_new ::
    "bundle_data \<Rightarrow> string \<Rightarrow> (string \<Rightarrow> (host_path \<times> (string \<times> host_entry) list) option) \<Rightarrow> (fs \<times> string) run" where
  "fs_new app_bundle bundle_dir_name sandbox = do {
     let home = path_join APPLICATIONS FAKE_UUID;
     let bundle_guest_path = path_join home bundle_dir_name;
     usr_lib \<leftarrow> with_children (map (\<lambda>(name, file). (name, resource_file file)) usr_lib_files) dir_node;
     bundle \<leftarrow> into_fs_node app_bundle;
     children \<leftarrow> insert_sandbox sandbox [''Documents'', ''Library'', ''tmp''] [(bundle_dir_name, bundle)];
     applications \<leftarrow> with_child FAKE_UUID (Dir_Node children None) dir_node;
     mobile \<leftarrow> with_child ''Applications'' applications dir_node;
     var \<leftarrow> with_child ''mobile'' mobile dir_node;
     usr \<leftarrow> with_child ''lib'' usr_lib dir_node;
     root \<leftarrow> with_children [(''var'', var), (''usr'', usr)] dir_node;
     let f = \<lparr>fs_root = root, fs_working_directory = ''/'', fs_home_directory = home\<rparr>;
     n \<leftarrow> lookup_node f bundle_guest_path;
     _ \<leftarrow> rassert (n \<noteq> None);
     Some (f, bundle_guest_path) }"

end
