(* ===== verification/Fs_Props.thy ===== *)
theory Fs_Props
  imports Guest_Fs
begin

text \<open>
  What the guest filesystem keeps: the writeable part mirrors the host, the rest is frozen. The
  operations are edits of the tree, an inductive relation; \<open>fs_view\<close> is the tree as a map from
  paths.
\<close>

subsection \<open>The invariant\<close>

definition name_ok :: "string \<Rightarrow> bool" where
  "name_ok c \<longleftrightarrow> c \<noteq> '''' \<and> SLASH \<notin> set c"

text \<open>
  Names in a directory differ. A node under a writeable directory with host path \<open>p\<close> is writeable
  and lies at \<open>p/name\<close> on the host; a file elsewhere is read-only.
\<close>

fun node_ok :: "host_path option \<Rightarrow> fs_node \<Rightarrow> bool" where
  "node_ok (Some p) (File_Node l w) \<longleftrightarrow> w \<and> l = Path_Location p"
| "node_ok None (File_Node l w) \<longleftrightarrow> \<not> w"
| "node_ok at (Dir_Node children w) \<longleftrightarrow> (at \<noteq> None \<longrightarrow> w = at) \<and> distinct (map fst children)
     \<and> (\<forall>x \<in> set children. name_ok (fst x) \<and> node_ok (map_option (\<lambda>p. p @ [fst x]) w) (snd x))"

fun frozen_node :: "fs_node \<Rightarrow> bool" where
  "frozen_node (File_Node l w) \<longleftrightarrow> \<not> w"
| "frozen_node (Dir_Node children w) \<longleftrightarrow> w = None \<and> distinct (map fst children)
     \<and> (\<forall>x \<in> set children. name_ok (fst x) \<and> frozen_node (snd x))"

fun host_entry_ok :: "host_entry \<Rightarrow> bool" where
  "host_entry_ok (Host_Dir es) \<longleftrightarrow> (\<forall>x \<in> set es. name_ok (fst x) \<and> host_entry_ok (snd x))"
| "host_entry_ok _ \<longleftrightarrow> True"

lemma children_update:
  "distinct (map fst ch) \<Longrightarrow> \<forall>x \<in> set ch. P (fst x) (snd x) \<Longrightarrow> P c n
    \<Longrightarrow> distinct (map fst (AList.update c n ch)) \<and> (\<forall>x \<in> set (AList.update c n ch). P (fst x) (snd x))"
  by (induction ch) (auto simp: dom_update, (metis fst_conv insertE dom_update image_iff)?)

lemma children_delete:
  "distinct (map fst ch) \<Longrightarrow> \<forall>x \<in> set ch. P (fst x) (snd x)
    \<Longrightarrow> distinct (map fst (AList.delete c ch)) \<and> (\<forall>x \<in> set (AList.delete c ch). P (fst x) (snd x))"
  using distinct_delete [of ch c] by (auto simp: AList.delete_eq)

definition children_ok :: "host_path option \<Rightarrow> (string \<times> fs_node) list \<Rightarrow> bool" where
  "children_ok w ch \<longleftrightarrow> distinct (map fst ch)
     \<and> (\<forall>x \<in> set ch. name_ok (fst x) \<and> node_ok (map_option (\<lambda>p. p @ [fst x]) w) (snd x))"

lemma node_ok_dir: "node_ok at (Dir_Node ch w) \<longleftrightarrow> (at \<noteq> None \<longrightarrow> w = at) \<and> children_ok w ch"
  by (cases at) (simp_all add: children_ok_def)

declare node_ok.simps(3) [simp del]

lemma children_ok_child:
  "children_ok w ch \<Longrightarrow> map_of ch c = Some n \<Longrightarrow> name_ok c \<and> node_ok (map_option (\<lambda>p. p @ [c]) w) n"
  by (auto simp: children_ok_def dest!: map_of_SomeD)

lemma children_ok_update:
  "children_ok w ch \<Longrightarrow> name_ok c \<Longrightarrow> node_ok (map_option (\<lambda>p. p @ [c]) w) n \<Longrightarrow> children_ok w (AList.update c n ch)"
  unfolding children_ok_def using children_update [of ch "\<lambda>c n. name_ok c \<and> node_ok (map_option (\<lambda>p. p @ [c]) w) n" c n] by simp

lemma children_ok_delete: "children_ok w ch \<Longrightarrow> children_ok w (AList.delete c ch)"
  unfolding children_ok_def using children_delete [of ch "\<lambda>c n. name_ok c \<and> node_ok (map_option (\<lambda>p. p @ [c]) w) n" c] by simp

lemma frozen_update:
  "frozen_node (Dir_Node ch w) \<Longrightarrow> name_ok c \<Longrightarrow> frozen_node n \<Longrightarrow> frozen_node (Dir_Node (AList.update c n ch) w)"
  using children_update [of ch "\<lambda>c n. name_ok c \<and> frozen_node n" c n] by auto

lemma frozen_ok: "frozen_node n \<Longrightarrow> node_ok None n"
  by (induction n rule: frozen_node.induct) (auto simp: node_ok_dir children_ok_def)

text \<open>A node found in a good tree may be replaced by one that is good in its place.\<close>

lemma node_ok_at:
  "node_ok at root \<Longrightarrow> lookup_node_inner cs root = Some n
    \<Longrightarrow> \<exists>at'. node_ok at' n \<and> (\<forall>n'. node_ok at' n' \<longrightarrow> node_ok at (put_node cs n' root))"
proof (induction cs arbitrary: at root)
  case (Cons c cs)
  then obtain ch w where root: "root = Dir_Node ch w" by (cases root) auto
  with Cons.prems obtain x where x: "map_of ch c = Some x" "lookup_node_inner cs x = Some n" by (auto split: option.splits)
  have ch: "at \<noteq> None \<longrightarrow> w = at" "children_ok w ch" using Cons.prems(1) by (simp_all add: root node_ok_dir)
  note child = children_ok_child [OF ch(2) x(1)]
  from Cons.IH [OF conjunct2 [OF child] x(2)] child ch(1)
  show ?case using children_ok_update [OF ch(2)] by (auto simp: root x(1) node_ok_dir)
qed auto

subsection \<open>Edits\<close>

definition leaf_node :: "fs_node \<Rightarrow> bool" where
  "leaf_node n \<longleftrightarrow> (case n of File_Node _ _ \<Rightarrow> True | Dir_Node ch _ \<Rightarrow> ch = [])"

lemma leaf_node_simps [simp]: "leaf_node (File_Node l b)" "leaf_node (Dir_Node ch w) \<longleftrightarrow> ch = []"
  by (simp_all add: leaf_node_def)

inductive node_edit :: "fs_node \<Rightarrow> fs_node \<Rightarrow> bool" where
  add_node: "lookup_node_inner ps root = Some (Dir_Node ch (Some dir)) \<Longrightarrow> map_of ch c = None \<Longrightarrow> name_ok c
    \<Longrightarrow> new = File_Node (Path_Location (dir @ [c])) True \<or> new = Dir_Node [] (Some (dir @ [c]))
    \<Longrightarrow> node_edit root (put_node ps (Dir_Node (AList.update c new ch) (Some dir)) root)"
| delete_node: "lookup_node_inner ps root = Some (Dir_Node ch (Some dir)) \<Longrightarrow> map_of ch c = Some old \<Longrightarrow> leaf_node old
    \<Longrightarrow> node_edit root (put_node ps (Dir_Node (AList.delete c ch) (Some dir)) root)"

inductive_cases node_editE: "node_edit root root'"

lemma node_edit_ok: "node_edit root root' \<Longrightarrow> node_ok at root \<Longrightarrow> node_ok at root'"
proof (induction rule: node_edit.induct)
  case (add_node ps root ch dir c new)
  from node_ok_at [OF add_node.prems add_node.hyps(1)] obtain at' where
    at': "node_ok at' (Dir_Node ch (Some dir))" "\<forall>n'. node_ok at' n' \<longrightarrow> node_ok at (put_node ps n' root)" by blast
  have "node_ok (map_option (\<lambda>p. p @ [c]) (Some dir)) new"
    using add_node.hyps(4) by (auto simp: node_ok_dir children_ok_def)
  then show ?case using at' children_ok_update [of "Some dir" ch c new] add_node.hyps(3) by (simp add: node_ok_dir)
next
  case (delete_node ps root ch dir c old)
  from node_ok_at [OF delete_node.prems delete_node.hyps(1)] obtain at' where
    "node_ok at' (Dir_Node ch (Some dir))" "\<forall>n'. node_ok at' n' \<longrightarrow> node_ok at (put_node ps n' root)" by blast
  then show ?case by (simp add: node_ok_dir children_ok_delete)
qed

lemma node_edits_ok: "node_edit\<^sup>*\<^sup>* root root' \<Longrightarrow> node_ok at root \<Longrightarrow> node_ok at root'"
  by (induction rule: rtranclp_induct) (blast intro: node_edit_ok)+

text \<open>The state of the filesystem, and the calls on it.\<close>

definition fs_ok :: "fs \<Rightarrow> bool" where
  "fs_ok f \<longleftrightarrow> node_ok None (fs_root f) \<and> starts_with_slash (fs_working_directory f)"

definition fs_edited :: "fs \<Rightarrow> fs \<Rightarrow> bool" where
  "fs_edited f f' \<longleftrightarrow> node_edit\<^sup>*\<^sup>* (fs_root f) (fs_root f') \<and> fs_working_directory f' = fs_working_directory f"

lemma fs_edited_refl [simp]: "fs_edited f f"
  by (simp add: fs_edited_def)

lemma fs_edited_trans: "fs_edited f g \<Longrightarrow> fs_edited g h \<Longrightarrow> fs_edited f h"
  by (auto simp: fs_edited_def)

lemma fs_edited_ok: "fs_edited f f' \<Longrightarrow> fs_ok f \<Longrightarrow> fs_ok f'"
  by (auto simp: fs_edited_def fs_ok_def intro: node_edits_ok)

lemma set_children_edit:
  "node_edit (fs_root f) (put_node ps (Dir_Node ch w) (fs_root f)) \<Longrightarrow> fs_edited f (set_children ps ch w f)"
  by (simp add: fs_edited_def set_children_def r_into_rtranclp)

lemma clean_name_ok: "clean c \<Longrightarrow> name_ok c"
  by (simp add: clean_def name_ok_def)

lemma lookup_parent:
  assumes "lookup_parent_node f path = Some (Some (ps, parent, c))"
  shows "resolve_path path (Some (fs_working_directory f)) = Some (ps @ [c])"
    and "lookup_node_inner ps (fs_root f) = Some parent" and "name_ok c"
proof -
  from assms obtain cs where cs: "resolve_path path (Some (fs_working_directory f)) = Some cs" "cs \<noteq> []"
    "ps = butlast cs" "c = last cs" "lookup_node_inner ps (fs_root f) = Some parent"
    by (auto simp: lookup_parent_node_def run_simps split: if_splits option.splits)
  then show "resolve_path path (Some (fs_working_directory f)) = Some (ps @ [c])"
    and "lookup_node_inner ps (fs_root f) = Some parent" by simp_all
  show "name_ok c" using resolve_path_clean [OF cs(1), of c] cs(2,4) by (simp add: clean_name_ok)
qed

lemma open_existing_same: "open_existing H opts node (f, h) = Some (r, f', h') \<Longrightarrow> f' = f"
  by (auto simp: open_existing_def run_simps split: if_splits fs_node.splits file_location.splits)

lemma open_edited:
  assumes "open_with_options H path opts (f, h) = Some (r, f', h')"
  shows "fs_edited f f'"
proof (cases "lookup_parent_node f path")
  case (Some parent)
  show ?thesis
  proof (cases "\<exists>ps ch dir c. parent = Some (ps, Dir_Node ch (Some dir), c) \<and> map_of ch c = None \<and> oo_create opts")
    case True
    then obtain ps ch dir c where p: "parent = Some (ps, Dir_Node ch (Some dir), c)" "map_of ch c = None" "oo_create opts" by blast
    note at = lookup_parent [OF Some [unfolded p(1)]]
    have "f' = set_children ps (AList.update c (File_Node (Path_Location (dir @ [c])) True) ch) (Some dir) f"
      using assms Some p by (auto simp: open_with_options_def run_simps Let_def)
    then show ?thesis using node_edit.add_node [OF at(2) p(2) at(3)] by (auto intro: set_children_edit)
  next
    case False
    then have "f' = f" using assms Some
      by (auto simp: open_with_options_def run_simps Let_def dest: open_existing_same split: option.splits fs_node.splits if_splits)
    then show ?thesis by simp
  qed
qed (use assms in \<open>simp add: open_with_options_def run_simps\<close>)

lemma create_dir_edited:
  assumes "fs_create_dir H path (f, h) = Some (r, f', h')"
  shows "fs_edited f f'"
proof (cases "lookup_parent_node f path")
  case (Some parent)
  show ?thesis
  proof (cases "\<exists>ps ch dir c. parent = Some (ps, Dir_Node ch (Some dir), c) \<and> map_of ch c = None")
    case True
    then obtain ps ch dir c where p: "parent = Some (ps, Dir_Node ch (Some dir), c)" "map_of ch c = None" by blast
    note at = lookup_parent [OF Some [unfolded p(1)]]
    have "f' = set_children ps (AList.update c (Dir_Node [] (Some (dir @ [c]))) ch) (Some dir) f"
      using assms Some p by (auto simp: fs_create_dir_def run_simps Let_def)
    then show ?thesis using node_edit.add_node [OF at(2) p(2) at(3)] by (auto intro: set_children_edit)
  next
    case False
    then have "f' = f" using assms Some
      by (auto simp: fs_create_dir_def run_simps Let_def split: option.splits fs_node.splits if_splits)
    then show ?thesis by simp
  qed
qed (use assms in \<open>simp add: fs_create_dir_def run_simps\<close>)

lemma remove_edited:
  assumes "fs_remove H path (f, h) = Some (r, f', h')"
  shows "fs_edited f f'"
proof (cases "lookup_parent_node f path")
  case (Some parent)
  show ?thesis
  proof (cases "\<exists>ps ch dir c old. parent = Some (ps, Dir_Node ch (Some dir), c) \<and> map_of ch c = Some old \<and> leaf_node old")
    case True
    then obtain ps ch dir c old where
      p: "parent = Some (ps, Dir_Node ch (Some dir), c)" "map_of ch c = Some old" "leaf_node old" by blast
    note at = lookup_parent [OF Some [unfolded p(1)]]
    have "f' = f \<or> f' = set_children ps (AList.delete c ch) (Some dir) f"
      using assms Some p by (auto simp: fs_remove_def run_simps split: fs_node.splits file_location.splits option.splits if_splits)
    then show ?thesis using node_edit.delete_node [OF at(2) p(2,3)] by (auto intro: set_children_edit)
  next
    case False
    then have "f' = f" using assms Some
      by (auto simp: fs_remove_def run_simps split: option.splits fs_node.splits if_splits file_location.splits)
    then show ?thesis by simp
  qed
qed (use assms in \<open>simp add: fs_remove_def run_simps\<close>)

lemma create_dirs_edited: "create_dirs H tmp cs (f, h) = Some (r, f', h') \<Longrightarrow> fs_edited f f'"
proof (induction cs arbitrary: tmp f h)
  case (Cons c cs)
  from Cons.prems obtain r1 f1 h1 where
    one: "fs_create_dir H (join_components (tmp @ [c])) (f, h) = Some (r1, f1, h1)" and
    rest: "f' = f1 \<or> create_dirs H (tmp @ [c]) cs (f1, h1) = Some (r, f', h')"
    by (auto simp: run_simps split: if_splits)
  show ?case using rest create_dir_edited [OF one] Cons.IH fs_edited_trans by blast
qed simp

text \<open>In a good tree a writeable file has a writeable parent.\<close>

lemma writeable_parent:
  assumes "node_ok at root" and "lookup_node_inner ps root = Some (Dir_Node ch w)" and "map_of ch c = Some (File_Node l True)"
  shows "w \<noteq> None"
proof -
  obtain at' where "node_ok at' (Dir_Node ch w)" using node_ok_at [OF assms(1,2)] by blast
  then have "node_ok (map_option (\<lambda>p. p @ [c]) w) (File_Node l True)"
    using children_ok_child [OF _ assms(3)] by (simp add: node_ok_dir)
  then show ?thesis by (cases w) simp_all
qed

lemma lookup_last:
  "lookup_node_inner (ps @ [c]) root = Some n \<longleftrightarrow>
    (\<exists>ch w. lookup_node_inner ps root = Some (Dir_Node ch w) \<and> map_of ch c = Some n)"
proof (induction ps arbitrary: root)
  case Nil
  then show ?case by (cases root) (auto split: option.splits)
next
  case (Cons p ps)
  then show ?case by (cases root) (auto split: option.splits)
qed

subsection \<open>The tree as a map from paths\<close>

datatype node_kind = File_Kind file_location bool | Dir_Kind "host_path option"

definition kind_of :: "fs_node \<Rightarrow> node_kind" where
  "kind_of n = (case n of File_Node l w \<Rightarrow> File_Kind l w | Dir_Node _ w \<Rightarrow> Dir_Kind w)"

definition fs_view :: "fs_node \<Rightarrow> string list \<Rightarrow> node_kind option" where
  "fs_view root cs = map_option kind_of (lookup_node_inner cs root)"

lemma kind_of_simps [simp]: "kind_of (File_Node l b) = File_Kind l b" "kind_of (Dir_Node ch w) = Dir_Kind w"
  by (simp_all add: kind_of_def)

lemma kind_of_file [simp]: "kind_of n = File_Kind l b \<longleftrightarrow> n = File_Node l b"
  by (cases n) simp_all

lemma fs_view_simps [simp]:
  "fs_view root [] = Some (kind_of root)"
  "fs_view (File_Node l b) (c # cs) = None"
  "fs_view (Dir_Node ch w) (c # cs) = (case map_of ch c of None \<Rightarrow> None | Some n \<Rightarrow> fs_view n cs)"
  by (simp_all add: fs_view_def split: option.split)

lemma leaf_view: "leaf_node n \<Longrightarrow> fs_view n (c # cs) = None"
  by (cases n) simp_all

text \<open>Replacing the children of a directory so that only the entry \<open>c\<close> changes, from one leaf or none to another.\<close>

lemma view_put:
  assumes "lookup_node_inner ps root = Some (Dir_Node ch w)"
    and "\<forall>d. d \<noteq> c \<longrightarrow> map_of ch' d = map_of ch d"
    and "case map_of ch c of None \<Rightarrow> True | Some n \<Rightarrow> leaf_node n"
    and "case map_of ch' c of None \<Rightarrow> True | Some n \<Rightarrow> leaf_node n"
  shows "fs_view (put_node ps (Dir_Node ch' w) root) = (fs_view root)(ps @ [c] := map_option kind_of (map_of ch' c))"
  using assms(1)
proof (induction ps arbitrary: root)
  case Nil
  show ?case
  proof (rule ext)
    fix cs
    show "fs_view (put_node [] (Dir_Node ch' w) root) cs = ((fs_view root)([] @ [c] := map_option kind_of (map_of ch' c))) cs"
    proof (cases cs)
      case (Cons d ds)
      then show ?thesis using Nil assms(2-4)
        by (cases "d = c"; cases ds) (auto simp: leaf_view split: option.splits)
    qed (use Nil in simp)
  qed
next
  case (Cons p ps)
  then obtain ch0 w0 where root: "root = Dir_Node ch0 w0" by (cases root) auto
  with Cons.prems obtain x where x: "map_of ch0 p = Some x" "lookup_node_inner ps x = Some (Dir_Node ch w)"
    by (auto split: option.splits)
  show ?case
  proof (rule ext)
    fix cs
    show "fs_view (put_node (p # ps) (Dir_Node ch' w) root) cs = ((fs_view root)((p # ps) @ [c] := map_option kind_of (map_of ch' c))) cs"
      using Cons.IH [OF x(2)] x(1) by (cases cs) (auto simp: root update_conv' split: option.splits)
  qed
qed

lemma view_update:
  assumes "lookup_node_inner ps root = Some (Dir_Node ch w)" and "map_of ch c = None" and "leaf_node n"
  shows "fs_view (put_node ps (Dir_Node (AList.update c n ch) w) root) = (fs_view root)(ps @ [c] \<mapsto> kind_of n)"
  using view_put [OF assms(1), of c "AList.update c n ch"] assms(2,3) by (simp add: update_conv')

lemma view_delete:
  assumes "lookup_node_inner ps root = Some (Dir_Node ch w)" and "map_of ch c = Some n" and "leaf_node n"
  shows "fs_view (put_node ps (Dir_Node (AList.delete c ch) w) root) = (fs_view root)(ps @ [c] := None)"
  using view_put [OF assms(1), of c "AList.delete c ch"] assms(2,3) by (simp add: delete_conv')

subsection \<open>Renaming\<close>

lemma view_of_lookup:
  "lookup_node f path = Some n \<Longrightarrow> \<exists>cs. resolve_path path (Some (fs_working_directory f)) = Some cs
     \<and> n = lookup_node_inner cs (fs_root f)"
  by (auto simp: lookup_node_def run_simps)

lemma open_new_view:
  assumes run: "open_with_options H path opts (f, h) = Some (Inr r, f', h')" and none: "lookup_node f path = Some None"
  obtains cs p where "resolve_path path (Some (fs_working_directory f)) = Some cs"
    "fs_view (fs_root f') = (fs_view (fs_root f))(cs \<mapsto> File_Kind (Path_Location p) True)" "fs_view (fs_root f) cs = None"
    "fs_working_directory f' = fs_working_directory f"
proof -
  obtain x where x: "lookup_parent_node f path = Some x" using run by (auto simp: open_with_options_def run_simps)
  obtain ps ch w c where p: "lookup_parent_node f path = Some (Some (ps, Dir_Node ch w, c))"
    using run x by (auto simp: open_with_options_def run_simps split: option.split_asm fs_node.split_asm)
  note at = lookup_parent [OF p]
  have l: "lookup_node_inner (ps @ [c]) (fs_root f) = None" using none at(1) by (simp add: lookup_node_def)
  then have new2: "fs_view (fs_root f) (ps @ [c]) = None" by (simp add: fs_view_def)
  have new: "map_of ch c = None"
  proof (cases "map_of ch c")
    case (Some n)
    with at(2) lookup_last [of ps c "fs_root f" n] l show ?thesis by auto
  qed
  obtain dir where "w = Some dir" and
    f': "f' = set_children ps (AList.update c (File_Node (Path_Location (dir @ [c])) True) ch) (Some dir) f"
    using run p new by (auto simp: open_with_options_def run_simps Let_def split: option.split_asm if_split_asm)
  then show thesis using that [OF at(1) _ new2, of "dir @ [c]"] view_update [OF at(2) new, of "File_Node (Path_Location (dir @ [c])) True"]
    by (simp add: set_children_def)
qed

lemma lookup_append: "lookup_node_inner cs root = Some n \<Longrightarrow> lookup_node_inner (cs @ q) root = lookup_node_inner q n"
proof (induction cs arbitrary: root)
  case (Cons c cs)
  then show ?case by (cases root) (auto split: option.splits)
qed simp

lemma lookup_put: "lookup_node_inner cs root = Some n \<Longrightarrow> lookup_node_inner cs (put_node cs new root) = Some new"
proof (induction cs arbitrary: root)
  case (Cons c cs)
  then show ?case by (cases root) (auto simp: update_conv' split: option.splits)
qed simp

lemma rename_nodes_edited:
  assumes "rename_nodes H p from_path to_path (f, h) = Some (r, f', h')" and ok: "fs_ok f"
    and "lookup_node f from_path = Some (Some (File_Node l True))"
  shows "fs_edited f f'"
proof (cases "f' = f")
  case True
  then show ?thesis by simp
next
  case False
  obtain n where n: "lookup_node f to_path = Some n" using assms(1) by (auto simp: rename_nodes_def run_simps)
  obtain q where q: "n = Some (File_Node (Path_Location q) True)" "fst (hf_rename H p q h)"
    using assms(1) n False by (auto simp: rename_nodes_def run_simps Let_def
      split: option.split_asm fs_node.split_asm file_location.split_asm if_split_asm prod.split_asm)
  obtain x where x: "lookup_parent_node f from_path = Some x"
    using assms(1) n q by (cases "hf_rename H p q h") (auto simp: rename_nodes_def run_simps Let_def)
  obtain ps ch w c where
    parent: "lookup_parent_node f from_path = Some (Some (ps, Dir_Node ch w, c))" and
    f': "f' = set_children ps (AList.delete c ch) w f"
    using assms(1) n q x by (cases "hf_rename H p q h") (auto simp: rename_nodes_def run_simps Let_def
      split: option.split_asm fs_node.split_asm)
  note at = lookup_parent [OF parent]
  have "lookup_node_inner (ps @ [c]) (fs_root f) = Some (File_Node l True)"
    using assms(3) at(1) by (simp add: lookup_node_def)
  then have c: "map_of ch c = Some (File_Node l True)" using at(2) by (auto simp: lookup_last)
  obtain dir where "w = Some dir" using writeable_parent [OF _ at(2) c] ok by (auto simp: fs_ok_def)
  then show ?thesis using node_edit.delete_node [of ps "fs_root f" ch dir c] at(2) c f' by (auto intro: set_children_edit)
qed

lemma rename_edited:
  assumes run: "fs_rename H from_path to_path (f, h) = Some (r, f', h')" and ok: "fs_ok f"
  shows "fs_edited f f'"
proof -
  obtain n where n: "lookup_node f from_path = Some n" using run by (auto simp: fs_rename_def run_simps)
  show ?thesis
  proof (cases "\<exists>l. n = Some (File_Node (Path_Location l) True)")
    case False
    then have "f' = f" using run n by (auto simp: fs_rename_def run_simps
        split: option.split_asm fs_node.split_asm file_location.split_asm)
    then show ?thesis by simp
  next
    case True
    then obtain l where l: "lookup_node f from_path = Some (Some (File_Node (Path_Location l) True))" using n by blast
    obtain to where to: "lookup_node f to_path = Some to" using run l by (auto simp: fs_rename_def run_simps)
    show ?thesis
    proof (cases "to = None")
      case False
      then have "rename_nodes H l from_path to_path (f, h) = Some (r, f', h')"
        using run l to by (auto simp: fs_rename_def run_simps)
      then show ?thesis using ok l by (rule rename_nodes_edited)
    next
      case True
      let ?opts = "open_options_new\<lparr>oo_write := True, oo_create := True, oo_truncate := True\<rparr>"
      obtain r1 f1 h1 where op: "open_with_options H to_path ?opts (f, h) = Some (r1, f1, h1)"
        using run l to True by (auto simp: fs_rename_def run_simps)
      note e1 = open_edited [OF op]
      show ?thesis
      proof (cases r1)
        case (Inl e)
        then show ?thesis using run l to True op e1 by (auto simp: fs_rename_def run_simps)
      next
        case (Inr g)
        from open_new_view [OF op [unfolded Inr] to [unfolded True]] obtain cs p where
          v: "fs_view (fs_root f1) = (fs_view (fs_root f))(cs \<mapsto> File_Kind (Path_Location p) True)" "fs_view (fs_root f) cs = None"
            "fs_working_directory f1 = fs_working_directory f" by metis
        from view_of_lookup [OF l] obtain ds where ds: "resolve_path from_path (Some (fs_working_directory f)) = Some ds"
          "lookup_node_inner ds (fs_root f) = Some (File_Node (Path_Location l) True)" by auto
        have "fs_view (fs_root f1) ds = Some (File_Kind (Path_Location l) True)"
          using v ds(2) by (auto simp: fs_view_def)
        then have "lookup_node f1 from_path = Some (Some (File_Node (Path_Location l) True))"
          using ds(1) v(3) by (auto simp: lookup_node_def fs_view_def)
        moreover have "rename_nodes H l from_path to_path (f1, h1) = Some (r, f', h')"
          using run l to True op Inr by (auto simp: fs_rename_def run_simps)
        ultimately have "fs_edited f1 f'" using fs_edited_ok [OF e1 ok] by (intro rename_nodes_edited)
        then show ?thesis by (rule fs_edited_trans [OF e1])
      qed
    qed
  qed
qed

subsection \<open>Sequences of calls\<close>

datatype fs_call = Call_Open string open_options | Call_Write string "u8 list" | Call_Remove string
  | Call_Create_Dir string | Call_Create_Dir_All string | Call_Rename string string | Call_Chdir string

definition fs_call :: "('h, 'f) host_fs \<Rightarrow> fs_call \<Rightarrow> fs \<times> 'h \<Rightarrow> (fs \<times> 'h) run" where
  "fs_call H c s = (case c of
     Call_Open path opts \<Rightarrow> map_option snd (open_with_options H path opts s)
   | Call_Write path data \<Rightarrow> map_option snd (fs_write H path data s)
   | Call_Remove path \<Rightarrow> map_option snd (fs_remove H path s)
   | Call_Create_Dir path \<Rightarrow> map_option snd (fs_create_dir H path s)
   | Call_Create_Dir_All path \<Rightarrow> map_option snd (fs_create_dir_all H path s)
   | Call_Rename a b \<Rightarrow> map_option snd (fs_rename H a b s)
   | Call_Chdir path \<Rightarrow> map_option (\<lambda>r. (snd r, snd s)) (change_working_directory path (fst s)))"

fun fs_calls :: "('h, 'f) host_fs \<Rightarrow> fs_call list \<Rightarrow> fs \<times> 'h \<Rightarrow> (fs \<times> 'h) run" where
  "fs_calls H [] s = Some s"
| "fs_calls H (c # cs) s = do { s1 \<leftarrow> fs_call H c s; fs_calls H cs s1 }"

lemma write_edited:
  assumes "fs_write H path data (f, h) = Some (r, f', h')"
  shows "fs_edited f f'"
proof -
  let ?opts = "open_options_new\<lparr>oo_write := True, oo_create := True, oo_truncate := True\<rparr>"
  obtain r1 f1 h1 where one: "open_with_options H path ?opts (f, h) = Some (r1, f1, h1)"
    using assms by (auto simp: fs_write_def run_simps)
  then have "f' = f1" using assms
    by (simp add: fs_write_def Let_def split: sum.split_asm guest_file.split_asm prod.split_asm)
  then show ?thesis using open_edited [OF one] by simp
qed

lemma chdir_law:
  assumes "change_working_directory path f = Some (r, f')"
  shows "fs_root f' = fs_root f \<and> (f' = f \<or> (\<exists>cs. fs_working_directory f' = render_path cs))"
proof -
  obtain cs where cs: "resolve_path path (Some (fs_working_directory f)) = Some cs"
    using assms by (auto simp: change_working_directory_def run_simps)
  show ?thesis
  proof (cases "\<exists>ch w. lookup_node_inner cs (fs_root f) = Some (Dir_Node ch w)")
    case True
    then have "fs_root f' = fs_root f \<and> fs_working_directory f' = render_path cs"
      using assms cs by (auto simp: change_working_directory_def)
    then show ?thesis by blast
  next
    case False
    then have "f' = f" using assms cs by (auto simp: change_working_directory_def split: option.split_asm fs_node.split_asm)
    then show ?thesis by simp
  qed
qed

lemma fs_call_edited:
  assumes run: "fs_call H c (f, h) = Some (f', h')" and ok: "fs_ok f" and c: "\<forall>path. c \<noteq> Call_Chdir path"
  shows "fs_edited f f'"
proof (cases c)
  case (Call_Open path opts)
  then show ?thesis using run by (auto simp: fs_call_def dest: open_edited)
next
  case (Call_Write path data)
  then show ?thesis using run by (auto simp: fs_call_def dest: write_edited)
next
  case (Call_Remove path)
  then show ?thesis using run by (auto simp: fs_call_def dest: remove_edited)
next
  case (Call_Create_Dir path)
  then show ?thesis using run by (auto simp: fs_call_def dest: create_dir_edited)
next
  case (Call_Create_Dir_All path)
  then show ?thesis using run by (auto simp: fs_call_def fs_create_dir_all_def run_simps dest: create_dirs_edited)
next
  case (Call_Rename a b)
  then show ?thesis using run by (auto simp: fs_call_def intro: rename_edited [OF _ ok])
qed (use c in blast)

lemma fs_call_law:
  assumes run: "fs_call H c (f, h) = Some (f', h')" and ok: "fs_ok f"
  shows "node_edit\<^sup>*\<^sup>* (fs_root f) (fs_root f') \<and> fs_ok f'"
proof (cases "\<exists>path. c = Call_Chdir path")
  case True
  then obtain path r where "change_working_directory path f = Some (r, f')" using run by (auto simp: fs_call_def)
  from chdir_law [OF this] show ?thesis using ok by (auto simp: fs_ok_def)
next
  case False
  then have "fs_edited f f'" using fs_call_edited [OF run ok] by blast
  then show ?thesis using fs_edited_ok [OF _ ok] by (simp add: fs_edited_def)
qed

lemma fs_calls_law:
  "fs_calls H cs (f, h) = Some (f', h') \<Longrightarrow> fs_ok f \<Longrightarrow> node_edit\<^sup>*\<^sup>* (fs_root f) (fs_root f') \<and> fs_ok f'"
proof (induction cs arbitrary: f h)
  case (Cons c cs)
  then obtain f1 h1 where one: "fs_call H c (f, h) = Some (f1, h1)" "fs_calls H cs (f1, h1) = Some (f', h')"
    by (auto simp: run_simps)
  from fs_call_law [OF one(1) Cons.prems(2)] Cons.IH [OF one(2)] show ?case by (meson rtranclp_trans)
qed simp

subsection \<open>The initial filesystem\<close>

lemma from_host_entries_law:
  "from_host_entries p w es ch = Some ch' \<Longrightarrow> host_entry_ok (Host_Dir es) \<Longrightarrow>
     (w \<longrightarrow> children_ok (Some p) ch \<longrightarrow> children_ok (Some p) ch')
     \<and> (\<not> w \<longrightarrow> frozen_node (Dir_Node ch None) \<longrightarrow> frozen_node (Dir_Node ch' None))"
proof (induction p w es ch arbitrary: ch' rule: from_host_entries.induct)
  case (2 p w name kind es ch)
  from "2.prems"(1) obtain node where
    node: "(case kind of
         Host_File \<Rightarrow> Some (File_Node (Path_Location (p @ [name])) w)
       | Host_Dir es \<Rightarrow> do {
           sub \<leftarrow> from_host_entries (p @ [name]) w es [];
           Some (Dir_Node sub (if w then Some (p @ [name]) else None)) }
       | Host_Other \<Rightarrow> None) = Some node" and
    rest: "from_host_entries p w es (AList.update name node ch) = Some ch'" by (auto simp: run_simps)
  have name: "name_ok name" and kind: "host_entry_ok kind" and es: "host_entry_ok (Host_Dir es)" using "2.prems"(2) by auto
  have "(w \<longrightarrow> node_ok (Some (p @ [name])) node) \<and> (\<not> w \<longrightarrow> frozen_node node)"
  proof (cases kind)
    case (Host_Dir es')
    then show ?thesis using node "2.IH"(1) [OF Host_Dir] kind
      by (auto simp: run_simps node_ok_dir children_ok_def)
  qed (use node in auto)
  then have "w \<longrightarrow> children_ok (Some p) ch \<longrightarrow> children_ok (Some p) (AList.update name node ch)"
    and "\<not> w \<longrightarrow> frozen_node (Dir_Node ch None) \<longrightarrow> frozen_node (Dir_Node (AList.update name node ch) None)"
    using children_ok_update [of "Some p" ch name node] frozen_update [of ch None name node] name by simp_all
  then show ?case using "2.IH"(2) [OF node rest es] by blast
qed simp

lemma frozen_dir_node: "frozen_node dir_node"
  by (simp add: dir_node_def)

lemma in_directory_frozen:
  "in_directory parts g node = Some r \<Longrightarrow> frozen_node node \<Longrightarrow> \<forall>c \<in> set parts. SLASH \<notin> set c
    \<Longrightarrow> (\<And>d d'. frozen_node d \<Longrightarrow> g d = Some d' \<Longrightarrow> frozen_node d') \<Longrightarrow> frozen_node r"
proof (induction parts arbitrary: node r)
  case (Cons part parts)
  show ?case
  proof (cases "part = ''''")
    case True
    then show ?thesis using Cons.IH [of node r] Cons.prems by simp
  next
    case False
    with Cons.prems(1) obtain ch w where node: "node = Dir_Node ch w" by (cases node) (auto simp: run_simps)
    let ?child = "case map_of ch part of None \<Rightarrow> dir_node | Some n \<Rightarrow> n"
    from False Cons.prems(1) obtain child' where child': "in_directory parts g ?child = Some child'"
      "r = Dir_Node (AList.update part child' ch) w" by (auto simp: run_simps node Let_def)
    have "frozen_node ?child" using Cons.prems(2) frozen_dir_node
      by (auto simp: node split: option.split dest!: map_of_SomeD)
    then have "frozen_node child'" using Cons.IH [OF child'(1)] Cons.prems(3,4) by simp
    moreover have "name_ok part" using False Cons.prems(3) by (simp add: name_ok_def)
    ultimately show ?thesis unfolding child'(2) by (intro frozen_update [OF Cons.prems(2) [unfolded node]])
  qed
qed simp

lemma rsplit_once_name:
  assumes "rsplit_once_slash p = Some (a, c)" and "last p \<noteq> SLASH"
  shows "name_ok c"
proof -
  have c: "c = rev (takeWhile (\<lambda>c. c \<noteq> SLASH) (rev p))" and p: "p \<noteq> []"
    using assms(1) by (auto simp: rsplit_once_slash_def split: if_splits)
  have "SLASH \<notin> set c" unfolding c by (auto dest: set_takeWhileD)
  moreover have "c \<noteq> []"
  proof (cases p rule: rev_cases)
    case (snoc q x)
    then show ?thesis using assms(2) by (simp add: c)
  qed (use p in simp)
  ultimately show ?thesis by (simp add: name_ok_def)
qed

lemma builder_add_file_frozen:
  assumes "builder_add_file path node root = Some r" and "frozen_node node" and "frozen_node root"
  shows "frozen_node r"
proof -
  obtain a c where ac: "rsplit_once_slash path = Some (a, c)" "path \<noteq> [] \<Longrightarrow> last path \<noteq> SLASH"
    and run: "in_directory (split_slash a) (\<lambda>dir. case dir of
         File_Node _ _ \<Rightarrow> None
       | Dir_Node children w \<Rightarrow> Some (Dir_Node (AList.update c node children) w)) root = Some r"
    using assms(1) by (auto simp: builder_add_file_def parent_and_file_name_def run_simps)
  have "path \<noteq> []" using ac(1) by (auto simp: rsplit_once_slash_def)
  then have "name_ok c" using rsplit_once_name [OF ac(1)] ac(2) by blast
  then have "frozen_node d'" if "frozen_node d"
    "(case d of File_Node _ _ \<Rightarrow> None | Dir_Node children w \<Rightarrow> Some (Dir_Node (AList.update c node children) w)) = Some d'" for d d'
  proof (cases d)
    case (Dir_Node ch w)
    with that(2) have "d' = Dir_Node (AList.update c node ch) w" by simp
    then show ?thesis using frozen_update [OF that(1) [unfolded Dir_Node] \<open>name_ok c\<close> assms(2)] by metis
  qed (use that(2) in simp)
  then show ?thesis using in_directory_frozen [OF run assms(3)] split_slash_no_slash by blast
qed

lemma zip_frozen: "zip_into_fs_node bp i es root = Some r \<Longrightarrow> frozen_node root \<Longrightarrow> frozen_node r"
proof (induction bp i es root rule: zip_into_fs_node.induct)
  case (2 bp i name is_dir es root)
  from "2.prems"(1) obtain root1 where
    one: "(if take (length bp) name = bp then
         (let path = drop (length bp) name in
           if is_dir then builder_add_directory path root
           else builder_add_file path (File_Node (Ipa_File_Ref i) False) root)
       else Some root) = Some root1" and rest: "zip_into_fs_node bp (Suc i) es root1 = Some r" by (auto simp: run_simps)
  have "frozen_node root1"
  proof (cases "take (length bp) name = bp")
    case bp: True
    show ?thesis
    proof (cases is_dir)
      case True
      then have "in_directory (split_slash (drop (length bp) name)) Some root = Some root1"
        using one bp by (simp add: builder_add_directory_def)
      then show ?thesis by (rule in_directory_frozen [OF _ "2.prems"(2)]) (auto dest: split_slash_no_slash)
    next
      case False
      then have "builder_add_file (drop (length bp) name) (File_Node (Ipa_File_Ref i) False) root = Some root1"
        using one bp by simp
      then show ?thesis by (rule builder_add_file_frozen) (use "2.prems"(2) in simp_all)
    qed
  qed (use one "2.prems"(2) in simp)
  then show ?case by (rule "2.IH" [OF one rest])
qed simp

definition bundle_ok :: "bundle_data \<Rightarrow> bool" where
  "bundle_ok b \<longleftrightarrow> (case b of Host_Directory _ es \<Rightarrow> host_entry_ok (Host_Dir es) | Zip_Archive _ _ \<Rightarrow> True)"

lemma into_fs_node_frozen:
  assumes "into_fs_node b = Some r" and "bundle_ok b"
  shows "frozen_node r"
proof (cases b)
  case (Host_Directory p es)
  then obtain ch where "from_host_entries p False es [] = Some ch" "r = Dir_Node ch None"
    using assms(1) by (auto simp: into_fs_node_def from_host_dir_def run_simps)
  then show ?thesis using from_host_entries_law [of p False es "[]" ch] assms(2) Host_Directory by (simp add: bundle_ok_def)
next
  case (Zip_Archive bp es)
  then show ?thesis using assms(1) zip_frozen [OF _ frozen_dir_node] by (simp add: into_fs_node_def)
qed

lemma from_host_dir_ok:
  assumes "from_host_dir p True es = Some r" and "host_entry_ok (Host_Dir es)"
  shows "node_ok None r"
proof -
  obtain ch where "from_host_entries p True es [] = Some ch" "r = Dir_Node ch (Some p)"
    using assms(1) by (auto simp: from_host_dir_def run_simps)
  then show ?thesis using from_host_entries_law [of p True es "[]" ch] assms(2) by (simp add: node_ok_dir children_ok_def)
qed

lemma insert_sandbox_ok:
  "insert_sandbox sandbox dirs ch = Some ch' \<Longrightarrow> children_ok None ch \<Longrightarrow> \<forall>d \<in> set dirs. name_ok d
    \<Longrightarrow> \<forall>d p es. sandbox d = Some (p, es) \<longrightarrow> host_entry_ok (Host_Dir es) \<Longrightarrow> children_ok None ch'"
proof (induction dirs arbitrary: ch)
  case (Cons d dirs)
  show ?case
  proof (cases "sandbox d")
    case None
    then show ?thesis using Cons by simp
  next
    case (Some pe)
    then obtain p es node where pe: "sandbox d = Some (p, es)" "from_host_dir p True es = Some node"
      "insert_sandbox sandbox dirs (AList.update d node ch) = Some ch'"
      using Cons.prems(1) by (cases pe) (auto simp: run_simps)
    have "node_ok None node" using from_host_dir_ok [OF pe(2)] Cons.prems(4) pe(1) by blast
    then have "children_ok None (AList.update d node ch)" using children_ok_update [OF Cons.prems(2)] Cons.prems(3) by simp
    then show ?thesis using Cons.IH [OF pe(3)] Cons.prems(3,4) by simp
  qed
qed simp

definition dir_ok :: "fs_node \<Rightarrow> bool" where
  "dir_ok n \<longleftrightarrow> (\<exists>ch. n = Dir_Node ch None \<and> children_ok None ch)"

lemma with_child_ok: "with_child c child node = Some r \<Longrightarrow> name_ok c \<Longrightarrow> node_ok None child \<Longrightarrow> dir_ok node \<Longrightarrow> dir_ok r"
  by (auto simp: with_child_def dir_ok_def run_simps intro: children_ok_update [of None, simplified])

lemma with_children_ok:
  "with_children cs node = Some r \<Longrightarrow> \<forall>x \<in> set cs. name_ok (fst x) \<and> node_ok None (snd x) \<Longrightarrow> dir_ok node \<Longrightarrow> dir_ok r"
proof (induction cs node arbitrary: r rule: with_children.induct)
  case (2 c child cs node)
  then show ?case by (auto simp: run_simps dest: with_child_ok)
qed simp

lemma dir_ok_node: "dir_ok n \<Longrightarrow> node_ok None n"
  by (auto simp: dir_ok_def node_ok_dir)

lemma dir_ok_empty: "dir_ok dir_node"
  by (simp add: dir_ok_def dir_node_def children_ok_def)

lemma names_ok [simp]: "name_ok FAKE_UUID" "name_ok ''Applications''" "name_ok ''mobile''" "name_ok ''lib''" "name_ok ''var''"
  "name_ok ''usr''" "name_ok ''Documents''" "name_ok ''Library''" "name_ok ''tmp''"
  by (simp_all add: name_ok_def FAKE_UUID_def)

lemma usr_lib_ok: "x \<in> set (map (\<lambda>(name, file). (name, resource_file file)) usr_lib_files) \<Longrightarrow> name_ok (fst x) \<and> node_ok None (snd x)"
  by (auto simp: usr_lib_files_def name_ok_def resource_file_def)

lemma fs_new_ok:
  assumes run: "fs_new app_bundle name sandbox = Some (f, p)" and b: "bundle_ok app_bundle" and n: "name_ok name"
    and sandbox: "\<forall>d p es. sandbox d = Some (p, es) \<longrightarrow> host_entry_ok (Host_Dir es)"
  shows "fs_ok f \<and> (\<exists>ch. fs_root f = Dir_Node ch None)"
proof -
  from run obtain usr_lib bnode children applications mobile var usr root where
    1: "with_children (map (\<lambda>(name, file). (name, resource_file file)) usr_lib_files) dir_node = Some usr_lib" and
    2: "into_fs_node app_bundle = Some bnode" and
    3: "insert_sandbox sandbox [''Documents'', ''Library'', ''tmp''] [(name, bnode)] = Some children" and
    4: "with_child FAKE_UUID (Dir_Node children None) dir_node = Some applications" and
    5: "with_child ''Applications'' applications dir_node = Some mobile" and
    6: "with_child ''mobile'' mobile dir_node = Some var" and
    7: "with_child ''lib'' usr_lib dir_node = Some usr" and
    8: "with_children [(''var'', var), (''usr'', usr)] dir_node = Some root" and
    f: "fs_root f = root" "fs_working_directory f = ''/''"
    by (simp only: fs_new_def Let_def bind_Some_iff) auto
  have lib: "dir_ok usr_lib" by (rule with_children_ok [OF 1]) (use usr_lib_ok dir_ok_empty in blast)+
  have "children_ok None [(name, bnode)]"
    using n frozen_ok [OF into_fs_node_frozen [OF 2 b]] by (simp add: children_ok_def)
  then have ch: "children_ok None children" by (rule insert_sandbox_ok [OF 3]) (use sandbox in auto)
  then have "dir_ok applications" by (intro with_child_ok [OF 4]) (simp_all add: node_ok_dir dir_ok_empty)
  then have "dir_ok mobile" by (intro with_child_ok [OF 5]) (simp_all add: dir_ok_node dir_ok_empty)
  then have "dir_ok var" by (intro with_child_ok [OF 6]) (simp_all add: dir_ok_node dir_ok_empty)
  moreover have "dir_ok usr" using lib by (intro with_child_ok [OF 7]) (simp_all add: dir_ok_node dir_ok_empty)
  ultimately have "dir_ok root" by (intro with_children_ok [OF 8]) (simp_all add: dir_ok_node dir_ok_empty)
  then show ?thesis using f by (auto simp: fs_ok_def dir_ok_node dir_ok_def starts_with_slash_def node_ok_dir)
qed

subsection \<open>Read-only directories\<close>

lemma node_edit_frozen:
  assumes edit: "node_edit root root'" and ok: "node_ok None root" and ro: "fs_view root ds = Some (Dir_Kind None)"
  shows "fs_view root' ds = Some (Dir_Kind None) \<and> (\<forall>d. fs_view root' (ds @ [d]) = fs_view root (ds @ [d]))"
  using edit
proof (cases rule: node_edit.cases)
  case (add_node ps ch dir c new)
  have view: "fs_view root' = (fs_view root)(ps @ [c] \<mapsto> kind_of new)"
    unfolding add_node(1) using add_node(5) by (intro view_update add_node) auto
  have "fs_view root ps = Some (Dir_Kind (Some dir))" using add_node(2) by (simp add: fs_view_def)
  moreover have "fs_view root (ps @ [c]) = None"
    using add_node(2,3) lookup_last [of ps c root] by (cases "lookup_node_inner (ps @ [c]) root") (auto simp: fs_view_def)
  ultimately show ?thesis using ro view by auto
next
  case (delete_node ps ch dir c old)
  have view: "fs_view root' = (fs_view root)(ps @ [c] := None)"
    unfolding delete_node(1) by (rule view_delete [OF delete_node(2,3,4)])
  have parent: "fs_view root ps = Some (Dir_Kind (Some dir))" using delete_node(2) by (simp add: fs_view_def)
  obtain at where "node_ok at (Dir_Node ch (Some dir))" using node_ok_at [OF ok delete_node(2)] by blast
  then have "node_ok (Some (dir @ [c])) old" using children_ok_child [of "Some dir" ch c old] delete_node(3) by (simp add: node_ok_dir)
  then have "kind_of old \<noteq> Dir_Kind None" by (cases old) (auto simp: node_ok_dir)
  moreover have "fs_view root (ps @ [c]) = Some (kind_of old)" using delete_node(2,3) lookup_last [of ps c root old] by (simp add: fs_view_def)
  ultimately show ?thesis using ro view parent by auto
qed

lemma node_edits_frozen:
  "node_edit\<^sup>*\<^sup>* root root' \<Longrightarrow> node_ok None root \<Longrightarrow> fs_view root ds = Some (Dir_Kind None)
    \<Longrightarrow> fs_view root' ds = Some (Dir_Kind None) \<and> (\<forall>d. fs_view root' (ds @ [d]) = fs_view root (ds @ [d]))"
proof (induction rule: rtranclp_induct)
  case (step y z)
  then have "node_ok None y" by (blast intro: node_edits_ok)
  with step node_edit_frozen [OF step.hyps(2), of ds] show ?case by simp
qed simp

subsection \<open>Recursive enumeration\<close>

fun paths_below :: "(string \<times> fs_node) list \<Rightarrow> string list list" where
  "paths_below [] = []"
| "paths_below ((c, n) # es) = [c] # map ((#) c) (case n of Dir_Node ch _ \<Rightarrow> paths_below ch | File_Node _ _ \<Rightarrow> [])
     @ paths_below es"

lemma enumerate_loop_law:
  "enumerate_loop cs (es # rest) paths = enumerate_loop cs ([] # rest) (paths @ map (\<lambda>q. join_components (cs @ q)) (paths_below es))"
proof (induction es arbitrary: cs rest paths rule: paths_below.induct)
  case (2 c n es)
  show ?case
  proof (cases n)
    case (File_Node l w)
    then show ?thesis using "2.IH"(2) [of cs rest] by (subst enumerate_loop.simps) (simp add: Let_def)
  next
    case (Dir_Node ch w)
    have "enumerate_loop cs (((c, n) # es) # rest) paths
        = enumerate_loop (cs @ [c]) (ch # es # rest) (paths @ [join_components (cs @ [c])])"
      by (subst enumerate_loop.simps) (simp add: Dir_Node Let_def)
    also have "\<dots> = enumerate_loop (cs @ [c]) ([] # es # rest)
        ((paths @ [join_components (cs @ [c])]) @ map (\<lambda>q. join_components ((cs @ [c]) @ q)) (paths_below ch))"
      by (rule "2.IH"(1) [OF Dir_Node])
    also have "\<dots> = enumerate_loop cs (es # rest)
        ((paths @ [join_components (cs @ [c])]) @ map (\<lambda>q. join_components ((cs @ [c]) @ q)) (paths_below ch))"
      by (subst enumerate_loop.simps) simp
    also have "\<dots> = enumerate_loop cs ([] # rest)
        (paths @ map (\<lambda>q. join_components (cs @ q)) (paths_below ((c, n) # es)))"
      using "2.IH"(2) by (simp add: Dir_Node comp_def)
    finally show ?thesis .
  qed
qed simp

lemma children_ok_Cons:
  "children_ok w ((c, n) # es) \<longleftrightarrow> children_ok w es \<and> map_of es c = None \<and> name_ok c \<and> node_ok (map_option (\<lambda>p. p @ [c]) w) n"
  by (auto simp: children_ok_def map_of_eq_None_iff)

lemma paths_below_view:
  "children_ok w es \<Longrightarrow> q \<in> set (paths_below es) \<longleftrightarrow> q \<noteq> [] \<and> lookup_node_inner q (Dir_Node es w) \<noteq> None"
proof (induction es arbitrary: q w rule: paths_below.induct)
  case (1 q w)
  then show ?case by (cases q) simp_all
next
  case (2 c n es q w)
  have ok: "children_ok w es" "map_of es c = None" "node_ok (map_option (\<lambda>p. p @ [c]) w) n"
    using "2.prems" by (simp_all add: children_ok_Cons)
  note rest = "2.IH"(2) [OF ok(1)]
  show ?case
  proof (cases q)
    case (Cons d ds)
    have none: "c # ds \<notin> set (paths_below es)" using rest [of "c # ds"] ok(2) by simp
    have sub: "ds \<in> set (case n of Dir_Node ch _ \<Rightarrow> paths_below ch | File_Node _ _ \<Rightarrow> []) \<longleftrightarrow> ds \<noteq> [] \<and> lookup_node_inner ds n \<noteq> None"
    proof (cases n)
      case (File_Node l b)
      then show ?thesis by (cases ds) simp_all
    next
      case (Dir_Node ch w')
      then show ?thesis using "2.IH"(1) [OF Dir_Node, of w' ds] ok(3) by (simp add: node_ok_dir)
    qed
    show ?thesis using none sub rest [of "d # ds"] by (cases "d = c") (auto simp: Cons)
  qed (use rest in auto)
qed

lemma paths_below_distinct: "children_ok w es \<Longrightarrow> distinct (paths_below es)"
proof (induction es arbitrary: w rule: paths_below.induct)
  case (2 c n es w)
  have ok: "children_ok w es" "map_of es c = None" "node_ok (map_option (\<lambda>p. p @ [c]) w) n"
    using "2.prems" by (simp_all add: children_ok_Cons)
  have none: "c # ds \<notin> set (paths_below es)" for ds using paths_below_view [OF ok(1), of "c # ds"] ok(2) by simp
  have sub: "distinct (case n of Dir_Node ch _ \<Rightarrow> paths_below ch | File_Node _ _ \<Rightarrow> [])
      \<and> [] \<notin> set (case n of Dir_Node ch _ \<Rightarrow> paths_below ch | File_Node _ _ \<Rightarrow> [])"
  proof (cases n)
    case (Dir_Node ch w')
    then have "children_ok w' ch" using ok(3) by (simp add: node_ok_dir)
    then show ?thesis using "2.IH"(1) [OF Dir_Node] paths_below_view [of w' ch "[]"] Dir_Node by simp
  qed simp
  show ?case using sub none "2.IH"(2) [OF ok(1)] by (auto simp: distinct_map)
qed simp

subsection \<open>A small filesystem\<close>

definition demo_host :: "(nat, nat) host_fs" where
  "demo_host = \<lparr>hf_open = (\<lambda>_ _ h. (Some h, Suc h)), hf_resource = (\<lambda>_. True), hf_create_dir = (\<lambda>_ h. (True, Suc h)),
     hf_remove_file = (\<lambda>_ h. (True, Suc h)), hf_remove_dir = (\<lambda>_ h. (True, Suc h)), hf_rename = (\<lambda>_ _ h. (True, Suc h)),
     hf_write_all = (\<lambda>_ _ h. (True, Suc h)), hf_len = (\<lambda>_ _. None), hf_modified = (\<lambda>_ _. None),
     hf_ipa_len = (\<lambda>_. 0), hf_ipa_modified = (\<lambda>_. 0)\<rparr>"

definition demo_sandbox :: "string \<Rightarrow> (host_path \<times> (string \<times> host_entry) list) option" where
  "demo_sandbox d = (if d = ''Documents'' then Some ([''host'', ''Documents''], [(''a'', Host_File)])
     else Some ([''host'', d], []))"

definition demo_bundle :: bundle_data where
  "demo_bundle = Zip_Archive ''Payload/X.app'' [(''Payload/X.app/Info.plist'', False), (''Payload/X.app/res/'', True)]"

definition demo_home :: string where
  "demo_home = ''/var/mobile/Applications/00000000-0000-0000-0000-000000000000''"

definition demo_calls :: "fs_call list" where
  "demo_calls = [Call_Chdir (demo_home @ ''/Documents''), Call_Create_Dir ''new'', Call_Rename ''a'' ''new/b'',
     Call_Remove ''../X.app/Info.plist'']"

subsection \<open>Properties\<close>


lemma demo_ok: "bundle_ok demo_bundle" "name_ok ''X.app''"
  "\<forall>d p es. demo_sandbox d = Some (p, es) \<longrightarrow> host_entry_ok (Host_Dir es)"
  by (auto simp: bundle_ok_def demo_bundle_def name_ok_def demo_sandbox_def split: if_splits)

lemma demo_run: "\<exists>f p f' h'. fs_new demo_bundle ''X.app'' demo_sandbox = Some (f, p) \<and> fs_calls demo_host demo_calls (f, 0) = Some (f', h')"
proof -
  have "(case fs_new demo_bundle ''X.app'' demo_sandbox of None \<Rightarrow> False
      | Some (f, p) \<Rightarrow> fs_calls demo_host demo_calls (f, 0) \<noteq> None)" by code_simp
  then show ?thesis by (auto split: option.splits)
qed


text \<open>C31: A directory that is not writeable never changes: whatever calls are made, it stays and the
  entries in it stay, with their kinds, host locations and permissions, and none is added.\<close>

theorem read_only_directories_are_frozen:
  assumes "fs_ok f" and "fs_calls H calls (f, h) = Some (f', h')" and "fs_view (fs_root f) ds = Some (Dir_Kind None)"
  shows "fs_view (fs_root f') ds = Some (Dir_Kind None) \<and> (\<forall>d. fs_view (fs_root f') (ds @ [d]) = fs_view (fs_root f) (ds @ [d]))"
  by (rule node_edits_frozen [OF conjunct1 [OF fs_calls_law [OF assms(2,1)]] _ assms(3)])
    (use assms(1) in \<open>simp add: fs_ok_def\<close>)

theorem read_only_witness:
  "\<exists>f p f' h'. fs_new demo_bundle ''X.app'' demo_sandbox = Some (f, p) \<and> fs_calls demo_host demo_calls (f, 0) = Some (f', h')
    \<and> fs_view (fs_root f') [''usr'', ''lib'', ''none''] = None \<and> fs_view (fs_root f') [''usr'', ''lib'', ''libz.dylib'']
      = Some (File_Kind (Resource_File_Path ''ChronaHLE_dylibs/libz.1.2.3.dylib'') False)"
proof -
  have "(case fs_new demo_bundle ''X.app'' demo_sandbox of None \<Rightarrow> False
      | Some (f, p) \<Rightarrow> fs_view (fs_root f) [''usr'', ''lib''] = Some (Dir_Kind None)
        \<and> fs_view (fs_root f) [''usr'', ''lib'', ''none''] = None \<and> fs_view (fs_root f) [''usr'', ''lib'', ''libz.dylib'']
          = Some (File_Kind (Resource_File_Path ''ChronaHLE_dylibs/libz.1.2.3.dylib'') False))" by code_simp
  then obtain f p where f: "fs_new demo_bundle ''X.app'' demo_sandbox = Some (f, p)"
    "fs_view (fs_root f) [''usr'', ''lib''] = Some (Dir_Kind None)"
    "fs_view (fs_root f) [''usr'', ''lib'', ''none''] = None" "fs_view (fs_root f) [''usr'', ''lib'', ''libz.dylib'']
          = Some (File_Kind (Resource_File_Path ''ChronaHLE_dylibs/libz.1.2.3.dylib'') False)" by (auto split: option.splits)
  moreover obtain f' h' where calls: "fs_calls demo_host demo_calls (f, 0) = Some (f', h')" using demo_run f(1) by auto
  moreover have "fs_ok f" using fs_new_ok [OF f(1) demo_ok] by blast
  ultimately show ?thesis using read_only_directories_are_frozen [of f demo_host demo_calls 0 f' h' "[''usr'', ''lib'']"] by fastforce
qed

text \<open>C32: A directory is created where nothing was, in a writeable directory, at the host path of
  that directory joined with the name, and the tree has it and is the same elsewhere. Creating it
  again reports that it exists. Removing it again gives back the tree as it was, unless the host
  fails to remove it, which is a panic.\<close>

theorem create_and_remove_directory:
  assumes "fs_create_dir H path (f, h) = Some (Inr (), f1, h1)"
  shows "\<exists>ds d dir. resolve_path path (Some (fs_working_directory f)) = Some (ds @ [d])
    \<and> fs_view (fs_root f) ds = Some (Dir_Kind (Some dir)) \<and> fs_view (fs_root f) (ds @ [d]) = None
    \<and> hf_create_dir H (dir @ [d]) h = (True, h1)
    \<and> fs_view (fs_root f1) = (fs_view (fs_root f))(ds @ [d] \<mapsto> Dir_Kind (Some (dir @ [d])))
    \<and> fs_create_dir H path (f1, h1) = Some (Inl Already_Exist, f1, h1)
    \<and> (case hf_remove_dir H (dir @ [d]) h1 of
         (True, h2) \<Rightarrow> \<exists>f2. fs_remove H path (f1, h1) = Some (Inr (), f2, h2) \<and> fs_view (fs_root f2) = fs_view (fs_root f)
       | (False, _) \<Rightarrow> fs_remove H path (f1, h1) = None)"
proof -
  obtain x where x: "lookup_parent_node f path = Some x" using assms by (auto simp: fs_create_dir_def run_simps)
  obtain ps ch w c where p: "lookup_parent_node f path = Some (Some (ps, Dir_Node ch w, c))"
    using assms x by (auto simp: fs_create_dir_def run_simps split: option.split_asm fs_node.split_asm)
  note at = lookup_parent [OF p]
  have new: "map_of ch c = None" using assms p by (auto simp: fs_create_dir_def split: if_split_asm)
  obtain dir where w: "w = Some dir" using assms p new by (auto simp: fs_create_dir_def split: option.split_asm)
  let ?n = "Dir_Node [] (Some (dir @ [c]))"
  let ?ch = "AList.update c ?n ch"
  have f1: "f1 = set_children ps ?ch (Some dir) f" and host: "hf_create_dir H (dir @ [c]) h = (True, h1)"
    using assms p new w by (auto simp: fs_create_dir_def run_simps Let_def handle_open_err_def prod_eq_iff split: if_split_asm)
  have lookup: "lookup_node_inner ps (fs_root f1) = Some (Dir_Node ?ch (Some dir))"
    using lookup_put [OF at(2)] by (simp add: f1 set_children_def)
  have p1: "lookup_parent_node f1 path = Some (Some (ps, Dir_Node ?ch (Some dir), c))"
    using at(1) lookup by (simp add: lookup_parent_node_def f1 set_children_def)
  have none: "fs_view (fs_root f) (ps @ [c]) = None"
    using at(2) new lookup_last [of ps c "fs_root f"] by (cases "lookup_node_inner (ps @ [c]) (fs_root f)") (auto simp: fs_view_def)
  have view: "fs_view (fs_root f1) = (fs_view (fs_root f))(ps @ [c] \<mapsto> Dir_Kind (Some (dir @ [c])))"
    using view_update [OF at(2) new, of ?n] by (simp add: f1 set_children_def w)
  have c1: "map_of ?ch c = Some ?n" by (simp add: update_conv')
  have back_view: "fs_view (fs_root (set_children ps (AList.delete c ?ch) (Some dir) f1)) = fs_view (fs_root f)"
    using view_delete [OF lookup c1] none by (simp add: set_children_def view fun_upd_idem)
  have "fs_create_dir H path (f1, h1) = Some (Inl Already_Exist, f1, h1)"
    using p1 c1 by (simp add: fs_create_dir_def)
  moreover have "fs_remove H path (f1, h1) = do {
      h2 \<leftarrow> handle_open_err (hf_remove_dir H (dir @ [c]) h1);
      Some (Inr (), set_children ps (AList.delete c ?ch) (Some dir) f1, h2) }"
    using p1 c1 by (simp add: fs_remove_def)
  then have "case hf_remove_dir H (dir @ [c]) h1 of
      (True, h2) \<Rightarrow> \<exists>f2. fs_remove H path (f1, h1) = Some (Inr (), f2, h2) \<and> fs_view (fs_root f2) = fs_view (fs_root f)
    | (False, _) \<Rightarrow> fs_remove H path (f1, h1) = None"
    using back_view by (auto simp: handle_open_err_def split: prod.split bool.split)
  moreover have "fs_view (fs_root f) ps = Some (Dir_Kind (Some dir))" using at(2) w by (simp add: fs_view_def)
  ultimately show ?thesis using at(1) none host view
    by (intro exI [of _ ps] exI [of _ c] exI [of _ dir] conjI) assumption+
qed

theorem create_and_remove_witness:
  "\<exists>f p f1 h1 f2 h2. fs_new demo_bundle ''X.app'' demo_sandbox = Some (f, p)
    \<and> fs_create_dir demo_host (demo_home @ ''/tmp/d'') (f, 0) = Some (Inr (), f1, h1)
    \<and> fs_remove demo_host (demo_home @ ''/tmp/d'') (f1, h1) = Some (Inr (), f2, h2)
    \<and> fs_view (fs_root f2) = fs_view (fs_root f)"
proof -
  have "(case fs_new demo_bundle ''X.app'' demo_sandbox of None \<Rightarrow> False
      | Some (f, p) \<Rightarrow> (case fs_create_dir demo_host (demo_home @ ''/tmp/d'') (f, 0) of
          Some (r, _) \<Rightarrow> r = Inr () | None \<Rightarrow> False))" by code_simp
  then obtain f p f1 h1 where f: "fs_new demo_bundle ''X.app'' demo_sandbox = Some (f, p)"
    "fs_create_dir demo_host (demo_home @ ''/tmp/d'') (f, 0) = Some (Inr (), f1, h1)"
    by (auto split: option.split_asm)
  have "hf_remove_dir demo_host p h = (True, Suc h)" for p h by (simp add: demo_host_def)
  with create_and_remove_directory [OF f(2)] obtain f2 h2 where
    "fs_remove demo_host (demo_home @ ''/tmp/d'') (f1, h1) = Some (Inr (), f2, h2)" "fs_view (fs_root f2) = fs_view (fs_root f)"
    by auto
  with f show ?thesis by blast
qed

text \<open>C33: Enumerating a directory recursively ends and lists the paths of all nodes below it, each
  once, and nothing else.\<close>

theorem recursive_enumeration:
  assumes "fs_ok f" and "resolve_path path (Some (fs_working_directory f)) = Some cs"
    and "fs_view (fs_root f) cs = Some (Dir_Kind w)"
  shows "\<exists>qs. fs_enumerate_recursive f path = Some (Inr (map join_components qs)) \<and> distinct qs
    \<and> set qs = {q. q \<noteq> [] \<and> fs_view (fs_root f) (cs @ q) \<noteq> None}"
proof -
  from assms(3) obtain n where n: "lookup_node_inner cs (fs_root f) = Some n" "kind_of n = Dir_Kind w"
    by (auto simp: fs_view_def)
  then obtain ch where ch: "lookup_node_inner cs (fs_root f) = Some (Dir_Node ch w)" by (cases n) auto
  obtain at where "node_ok at (Dir_Node ch w)" using node_ok_at [OF _ ch] assms(1) by (auto simp: fs_ok_def)
  then have ok: "children_ok w ch" by (simp add: node_ok_dir)
  have "fs_enumerate_recursive f path = Some (Inr (map join_components (paths_below ch)))"
    using assms(2) ch enumerate_loop_law [of "[]" ch "[]" "[]"]
    by (simp add: fs_enumerate_recursive_def lookup_node_def enumerate_loop.simps [of "[]" "[[]]"])
  moreover have "fs_view (fs_root f) (cs @ q) \<noteq> None \<longleftrightarrow> lookup_node_inner q (Dir_Node ch w) \<noteq> None" for q
    using lookup_append [OF ch, of q] by (simp add: fs_view_def)
  ultimately show ?thesis using paths_below_view [OF ok] paths_below_distinct [OF ok] by (intro exI [of _ "paths_below ch"]) auto
qed

theorem recursive_enumeration_witness:
  "\<exists>f p qs. fs_new demo_bundle ''X.app'' demo_sandbox = Some (f, p)
    \<and> fs_enumerate_recursive f demo_home = Some (Inr (map join_components qs)) \<and> distinct qs \<and> [''X.app'', ''res''] \<in> set qs"
proof -
  have "(case fs_new demo_bundle ''X.app'' demo_sandbox of None \<Rightarrow> False
      | Some (f, p) \<Rightarrow> resolve_path demo_home (Some (fs_working_directory f)) = Some [''var'', ''mobile'', ''Applications'', FAKE_UUID]
        \<and> fs_view (fs_root f) [''var'', ''mobile'', ''Applications'', FAKE_UUID] = Some (Dir_Kind None)
        \<and> fs_view (fs_root f) ([''var'', ''mobile'', ''Applications'', FAKE_UUID] @ [''X.app'', ''res'']) = Some (Dir_Kind None))" by code_simp
  then obtain f p where f: "fs_new demo_bundle ''X.app'' demo_sandbox = Some (f, p)"
    "resolve_path demo_home (Some (fs_working_directory f)) = Some [''var'', ''mobile'', ''Applications'', FAKE_UUID]"
    "fs_view (fs_root f) [''var'', ''mobile'', ''Applications'', FAKE_UUID] = Some (Dir_Kind None)"
    "fs_view (fs_root f) ([''var'', ''mobile'', ''Applications'', FAKE_UUID] @ [''X.app'', ''res'']) = Some (Dir_Kind None)"
    by (auto split: option.splits)
  moreover have "fs_ok f" using fs_new_ok [OF f(1) demo_ok] by blast
  ultimately obtain qs where "fs_enumerate_recursive f demo_home = Some (Inr (map join_components qs))" "distinct qs"
    "set qs = {q. q \<noteq> [] \<and> fs_view (fs_root f) ([''var'', ''mobile'', ''Applications'', FAKE_UUID] @ q) \<noteq> None}"
    using recursive_enumeration by blast
  moreover from this(3) f(4) have "[''X.app'', ''res''] \<in> set qs" by (simp del: append.simps)
  ultimately show ?thesis using f(1) by blast
qed

end
