(* ===== verification/Str_To_Int.thy ===== *)
theory Str_To_Int
  imports Guest_Time
begin

text \<open>
  Reading integers from text: \<open>str_to_int_inner_generic\<close> of \<open>src/libc/stdlib.rs\<close> and the \<open>strtol\<close>
  family. A reader is the pair of callbacks, on a state; the text of a C string is read with the
  environment as state and cannot end. The helper closure that returns early with the captured
  variables is a chain of steps: \<open>Inl\<close> of the variables is the early return.
\<close>

subsection \<open>The generic conversion\<close>

record 's reader =
  rd_get :: "guest_usize \<Rightarrow> 's \<Rightarrow> (u8 option \<times> 's) run"
  rd_unget :: "u8 \<Rightarrow> 's \<Rightarrow> 's run"

record num_vars =
  nv_whitespace_len :: u32
  nv_len :: u32
  nv_sign :: "u8 option"
  nv_prefix_length :: u32
  nv_chars :: "u8 list"
  nv_base :: u32

definition is_ascii_whitespace :: "u8 \<Rightarrow> bool" where
  "is_ascii_whitespace c \<longleftrightarrow> c \<in> {0x20, 0x09, 0x0A, 0x0C, 0x0D}"

partial_function (option) count_loop :: "'s reader \<Rightarrow> u32 \<Rightarrow> 's \<Rightarrow> ((u32 + u32) \<times> 's) run" where
  "count_loop R n s = do {
     (c, s1) \<leftarrow> rd_get R n s;
     (case c of
       None \<Rightarrow> Some (Inl n, s1)
     | Some c \<Rightarrow>
         if is_ascii_whitespace c \<or> c = 0x0B then do { n' \<leftarrow> add_chk n 1; count_loop R n' s1 }
         else do { s2 \<leftarrow> rd_unget R c s1; Some (Inr n, s2) }) }"

text \<open>\<open>Inl\<close> and \<open>Inr\<close> are \<open>Err\<close> and \<open>Ok\<close> with the count.\<close>

definition count_whitespace_generic :: "'s reader \<Rightarrow> u32 \<Rightarrow> 's \<Rightarrow> ((u32 + u32) \<times> 's) run" where
  "count_whitespace_generic R offset s = do {
     (r, s1) \<leftarrow> count_loop R offset s;
     case r of
       Inl n \<Rightarrow> do { k \<leftarrow> sub_chk n offset; Some (Inl k, s1) }
     | Inr n \<Rightarrow> do { k \<leftarrow> sub_chk n offset; Some (Inr k, s1) } }"

definition read_char :: "'s reader \<Rightarrow> u32 \<Rightarrow> u32 \<Rightarrow> num_vars \<Rightarrow> 's \<Rightarrow> (u8 option \<times> 's) run" where
  "read_char R offset extra v s = do {
     i \<leftarrow> add_chk offset (nv_whitespace_len v);
     j \<leftarrow> add_chk i (nv_len v);
     k \<leftarrow> add_chk j extra;
     rd_get R k s }"

type_synonym 's num_step = "num_vars \<Rightarrow> 's \<Rightarrow> ((num_vars + num_vars) \<times> 's) run"

definition then_step :: "'s num_step \<Rightarrow> 's num_step \<Rightarrow> 's num_step" where
  "then_step f g v s = do { (r, s1) \<leftarrow> f v s; case r of Inl v1 \<Rightarrow> Some (Inl v1, s1) | Inr v1 \<Rightarrow> g v1 s1 }"

definition whitespace_step :: "'s reader \<Rightarrow> u32 \<Rightarrow> 's num_step" where
  "whitespace_step R offset v s = do {
     (r, s1) \<leftarrow> count_whitespace_generic R offset s;
     Some (case r of Inl n \<Rightarrow> Inl (v\<lparr>nv_whitespace_len := n\<rparr>) | Inr n \<Rightarrow> Inr (v\<lparr>nv_whitespace_len := n\<rparr>), s1) }"

text \<open>\<open>len += 1\<close>, and the return at \<open>max_length\<close>.\<close>

definition advance :: "u32 \<Rightarrow> num_vars \<Rightarrow> (num_vars + num_vars) run" where
  "advance max_length v = do {
     n \<leftarrow> add_chk (nv_len v) 1;
     let v1 = v\<lparr>nv_len := n\<rparr>;
     Some (if n = max_length then Inl v1 else Inr v1) }"

definition longer_prefix :: "num_vars \<Rightarrow> num_vars run" where
  "longer_prefix v = do { n \<leftarrow> add_chk (nv_prefix_length v) 1; Some (v\<lparr>nv_prefix_length := n\<rparr>) }"

definition sign_step :: "'s reader \<Rightarrow> u32 \<Rightarrow> u32 \<Rightarrow> 's num_step" where
  "sign_step R offset max_length v s = do {
     (c, s1) \<leftarrow> read_char R offset 0 v s;
     case c of
       None \<Rightarrow> Some (Inl v, s1)
     | Some maybe_sign \<Rightarrow>
         if maybe_sign = 0x2B \<or> maybe_sign = 0x2D then do {
           v1 \<leftarrow> longer_prefix (v\<lparr>nv_sign := Some maybe_sign\<rparr>);
           r \<leftarrow> advance max_length v1;
           Some (r, s1) }
         else do { s2 \<leftarrow> rd_unget R maybe_sign s1; Some (Inr v, s2) } }"

definition base_step :: "'s reader \<Rightarrow> u32 \<Rightarrow> 's num_step" where
  "base_step R offset v s = (if nv_base v \<noteq> 0 then Some (Inr v, s) else do {
     (c, s1) \<leftarrow> read_char R offset 0 v s;
     case c of
       None \<Rightarrow> Some (Inl v, s1)
     | Some cur \<Rightarrow>
         if cur = 0x30 then do {
           (d, s2) \<leftarrow> read_char R offset 1 v s1;
           case d of
             None \<Rightarrow> Some (Inl v, s2)
           | Some nxt \<Rightarrow> do {
               s3 \<leftarrow> rd_unget R nxt s2;
               s4 \<leftarrow> rd_unget R cur s3;
               Some (Inr (v\<lparr>nv_base := if nxt = 0x78 \<or> nxt = 0x58 then 16 else 8\<rparr>), s4) } }
         else do { s2 \<leftarrow> rd_unget R cur s1; Some (Inr (v\<lparr>nv_base := 10\<rparr>), s2) } })"

definition prefix_step :: "'s reader \<Rightarrow> u32 \<Rightarrow> u32 \<Rightarrow> 's num_step" where
  "prefix_step R offset max_length v s = (if \<not> (nv_base v = 8 \<or> nv_base v = 16) then Some (Inr v, s) else do {
     (c, s1) \<leftarrow> read_char R offset 0 v s;
     case c of
       None \<Rightarrow> Some (Inl v, s1)
     | Some cur \<Rightarrow>
         if cur = 0x30 then do {
           r \<leftarrow> advance max_length v;
           case r of
             Inl v1 \<Rightarrow> Some (Inl v1, s1)
           | Inr v1 \<Rightarrow> do {
               v2 \<leftarrow> longer_prefix v1;
               if nv_base v = 16 then do {
                 (d, s2) \<leftarrow> read_char R offset 0 v2 s1;
                 case d of
                   None \<Rightarrow> Some (Inl v2, s2)
                 | Some nxt \<Rightarrow>
                     if nxt = 0x78 \<or> nxt = 0x58 then do {
                       r2 \<leftarrow> advance max_length v2;
                       case r2 of
                         Inl v3 \<Rightarrow> Some (Inl v3, s2)
                       | Inr v3 \<Rightarrow> do { v4 \<leftarrow> longer_prefix v3; Some (Inr v4, s2) } }
                     else do { s3 \<leftarrow> rd_unget R nxt s2; Some (Inr v2, s3) } }
               else do { s2 \<leftarrow> rd_unget R cur s1; Some (Inr v2, s2) } } }
         else do { s2 \<leftarrow> rd_unget R cur s1; Some (Inr v, s2) } })"

text \<open>\<open>char::is_digit\<close>, which panics for a radix above 36, and the value of a digit.\<close>

definition digit_value :: "u8 \<Rightarrow> nat" where
  "digit_value c = (if 0x30 \<le> c \<and> c \<le> 0x39 then unat (c - 0x30)
     else if 0x61 \<le> c \<and> c \<le> 0x7A then unat (c - 0x61) + 10
     else if 0x41 \<le> c \<and> c \<le> 0x5A then unat (c - 0x41) + 10
     else 36)"

definition is_digit :: "u32 \<Rightarrow> u8 \<Rightarrow> bool run" where
  "is_digit base c = do { _ \<leftarrow> rassert (2 \<le> base \<and> base \<le> 36); Some (digit_value c < unat base) }"

partial_function (option) number_loop ::
    "'s reader \<Rightarrow> u32 \<Rightarrow> u32 \<Rightarrow> num_vars \<Rightarrow> u8 \<Rightarrow> 's \<Rightarrow> ((num_vars + num_vars) \<times> 's) run" where
  "number_loop R offset max_length v cur s = do {
     d \<leftarrow> is_digit (nv_base v) cur;
     if d then do {
       r \<leftarrow> advance max_length (v\<lparr>nv_chars := nv_chars v @ [cur]\<rparr>);
       case r of
         Inl v1 \<Rightarrow> Some (Inl v1, s)
       | Inr v1 \<Rightarrow> do {
           (c, s1) \<leftarrow> read_char R offset 0 v1 s;
           (case c of None \<Rightarrow> Some (Inl v1, s1) | Some c \<Rightarrow> number_loop R offset max_length v1 c s1) } }
     else do {
       s1 \<leftarrow> rd_unget R cur s;
       n \<leftarrow> sub_chk (nv_len v) (nv_prefix_length v);
       _ \<leftarrow> rassert (ix (length (nv_chars v)) = n);
       Some (Inr v, s1) } }"

definition digits_step :: "'s reader \<Rightarrow> u32 \<Rightarrow> u32 \<Rightarrow> 's num_step" where
  "digits_step R offset max_length v s = do {
     (c, s1) \<leftarrow> read_char R offset 0 v s;
     case c of None \<Rightarrow> Some (Inl v, s1) | Some cur \<Rightarrow> number_loop R offset max_length v cur s1 }"

definition str_to_int_inner_generic ::
    "'s reader \<Rightarrow> u32 \<Rightarrow> u32 \<Rightarrow> u32 \<Rightarrow> (u8 list \<Rightarrow> u32 \<Rightarrow> 'q) \<Rightarrow> ('q \<Rightarrow> 'q) \<Rightarrow> 'q \<Rightarrow> 's \<Rightarrow> ((unit + 'q \<times> u32) \<times> 's) run" where
  "str_to_int_inner_generic R offset base max_length from_str_radix_fn negation_fn zero s = do {
     let v0 = \<lparr>nv_whitespace_len = 0, nv_len = 0, nv_sign = None, nv_prefix_length = 0, nv_chars = [], nv_base = base\<rparr>;
     (r, s1) \<leftarrow> then_step (whitespace_step R offset)
       (then_step (sign_step R offset max_length)
       (then_step (base_step R offset)
       (then_step (prefix_step R offset max_length) (digits_step R offset max_length)))) v0 s;
     let v = (case r of Inl v \<Rightarrow> v | Inr v \<Rightarrow> v);
     _ \<leftarrow> rassert (2 \<le> nv_base v \<and> nv_base v \<le> 36);
     magnitude_len \<leftarrow> sub_chk (nv_len v) (nv_prefix_length v);
     if 0 < magnitude_len then do {
       let n = from_str_radix_fn (nv_chars v) (nv_base v);
       total \<leftarrow> add_chk (nv_whitespace_len v) (nv_len v);
       Some (Inr (if nv_sign v = Some 0x2D then negation_fn n else n, total), s1) }
     else if nv_base v = 8 \<and> 0 < nv_prefix_length v then do {
       total \<leftarrow> add_chk (nv_whitespace_len v) (nv_prefix_length v);
       Some (Inr (zero, total), s1) }
     else Some (Inl (), s1) }"

subsection \<open>The functions of the C library\<close>

definition string_reader :: "vaddr \<Rightarrow> env reader" where
  "string_reader p = \<lparr>rd_get = (\<lambda>i e. do { c \<leftarrow> elem_at u8_type (e_mem e) p i; Some (Some c, e) }),
     rd_unget = (\<lambda>_ e. Some e)\<rparr>"

text \<open>
  \<open>from_str_radix\<close> on digits: the value, or an error when there are none or it does not fit.
\<close>

definition digits_value :: "nat \<Rightarrow> u8 list \<Rightarrow> nat" where
  "digits_value base cs = foldl (\<lambda>n c. n * base + digit_value c) 0 cs"

definition from_str_radix :: "nat \<Rightarrow> u8 list \<Rightarrow> u32 \<Rightarrow> nat option" where
  "from_str_radix bound cs base = (let n = digits_value (unat base) cs in
     if cs = [] \<or> bound \<le> n then None else Some n)"

definition i32_from_str :: "u8 list \<Rightarrow> u32 \<Rightarrow> i32" where
  "i32_from_str cs base = (case from_str_radix (2 ^ 31) cs base of None \<Rightarrow> 0x7FFFFFFF | Some n \<Rightarrow> of_nat n)"

definition i32_negate :: "i32 \<Rightarrow> i32" where
  "i32_negate x = (if - (2 ^ 31) < sint x then - x else 0x80000000)"

definition unsigned_from_str :: "u8 list \<Rightarrow> u32 \<Rightarrow> 'a::len word" where
  "unsigned_from_str cs base = (case from_str_radix (2 ^ LENGTH('a)) cs base of None \<Rightarrow> - 1 | Some n \<Rightarrow> of_nat n)"

definition strtol_inner :: "vaddr \<Rightarrow> u32 \<Rightarrow> env \<Rightarrow> ((unit + i32 \<times> u32) \<times> env) run" where
  "strtol_inner str base e = str_to_int_inner_generic (string_reader str) 0 base (- 1) i32_from_str i32_negate 0 e"

text \<open>What follows the parse in \<open>strtol\<close>, \<open>strtoul\<close> and \<open>strtoull\<close>.\<close>

definition finish_strto :: "vaddr \<Rightarrow> vaddr \<Rightarrow> (unit + 'a::len word \<times> u32) \<times> env \<Rightarrow> ('a word \<times> env) run" where
  "finish_strto str endptr r = (case r of
     (Inr (res, len), e) \<Rightarrow>
       if endptr \<noteq> 0 then do { q \<leftarrow> ptr_add 1 str len; e1 \<leftarrow> write_env u32_type endptr q e; Some (res, e1) }
       else Some (res, e)
   | (Inl _, e) \<Rightarrow>
       if endptr \<noteq> 0 then do { e1 \<leftarrow> write_env u32_type endptr str e; Some (0, e1) } else Some (0, e))"

definition strtol :: "vaddr \<Rightarrow> vaddr \<Rightarrow> i32 \<Rightarrow> env \<Rightarrow> (i32 \<times> env) run" where
  "strtol str endptr base e = do {
     e1 \<leftarrow> set_errno 0 e;
     r \<leftarrow> strtol_inner str base e1;
     finish_strto str endptr r }"

definition strtou :: "vaddr \<Rightarrow> vaddr \<Rightarrow> i32 \<Rightarrow> env \<Rightarrow> ('a::len word \<times> env) run" where
  "strtou str endptr base e = do {
     e1 \<leftarrow> set_errno 0 e;
     _ \<leftarrow> rassert (0 \<le> sint base);
     r \<leftarrow> str_to_int_inner_generic (string_reader str) 0 base (- 1) unsigned_from_str uminus 0 e1;
     finish_strto str endptr r }"

definition strtoul :: "vaddr \<Rightarrow> vaddr \<Rightarrow> i32 \<Rightarrow> env \<Rightarrow> (u32 \<times> env) run" where
  "strtoul = strtou"

definition strtoull :: "vaddr \<Rightarrow> vaddr \<Rightarrow> i32 \<Rightarrow> env \<Rightarrow> (u64 \<times> env) run" where
  "strtoull = strtou"

definition atoi :: "vaddr \<Rightarrow> env \<Rightarrow> (i32 \<times> env) run" where
  "atoi s e = do {
     e1 \<leftarrow> set_errno 0 e;
     (r, e2) \<leftarrow> strtol_inner s 10 e1;
     Some (case r of Inl _ \<Rightarrow> 0 | Inr (res, _) \<Rightarrow> res, e2) }"

definition atol :: "vaddr \<Rightarrow> env \<Rightarrow> (i32 \<times> env) run" where
  "atol = atoi"

subsection \<open>Numerals in a C string\<close>

text \<open>
  \<open>text_at e p cs\<close>: the bytes \<open>cs\<close> are at \<open>p\<close>. The zero byte that ends a C string is one of them:
  the conversion reads it and stops at it.
\<close>

definition text_at :: "env \<Rightarrow> vaddr \<Rightarrow> u8 list \<Rightarrow> bool" where
  "text_at e p cs \<longleftrightarrow> length cs < 2 ^ 32 \<and> (\<forall>i < length cs. elem_at u8_type (e_mem e) p (ix i) = Some (cs ! i))"

definition white :: "u8 \<Rightarrow> bool" where
  "white c \<longleftrightarrow> is_ascii_whitespace c \<or> c = 0x0B"

text \<open>
  \<open>numeral_prefix base px d b\<close>: before a first digit \<open>d\<close>, the prefix \<open>px\<close> in base \<open>base\<close> selects
  the base \<open>b\<close>.
\<close>

definition numeral_prefix :: "u32 \<Rightarrow> u8 list \<Rightarrow> u8 \<Rightarrow> u32 \<Rightarrow> bool" where
  "numeral_prefix base px d b \<longleftrightarrow>
     (px = [] \<and> 2 \<le> base \<and> base \<le> 36 \<and> b = base \<and> (base \<in> {8, 16} \<longrightarrow> d \<noteq> 0x30))
   \<or> (px = [] \<and> base = 0 \<and> b = 10 \<and> d \<noteq> 0x30)
   \<or> (px = [0x30] \<and> base \<in> {8, 16} \<and> b = base)
   \<or> (px = [0x30] \<and> base = 0 \<and> b = 8)
   \<or> (px \<in> {[0x30, 0x78], [0x30, 0x58]} \<and> base \<in> {0, 16} \<and> b = 16)"

lemma text_at_zstring: "zstring u8_type 0 (e_mem e) p xs \<Longrightarrow> text_at e p (xs @ [0])"
  using cells_u8(1,2) [of "e_mem e" p xs] by (auto simp: text_at_def nth_append less_Suc_eq zstring_def)

lemma string_reader_get:
  "text_at e p cs \<Longrightarrow> i < length cs \<Longrightarrow> rd_get (string_reader p) (ix i) e = Some (Some (cs ! i), e)"
  by (simp add: text_at_def string_reader_def)

lemma string_reader_unget [simp]: "rd_unget (string_reader p) c e = Some e"
  by (simp add: string_reader_def)

lemma drop_Cons_nth: "drop i cs = c # r \<Longrightarrow> i < length cs \<and> cs ! i = c \<and> drop (Suc i) cs = r"
  by (metis Cons_nth_drop_Suc drop_eq_Nil list.distinct(1) list.inject not_le)

lemma string_reader_drop:
  "text_at e p cs \<Longrightarrow> drop i cs = c # r \<Longrightarrow> rd_get (string_reader p) (ix i) e = Some (Some c, e)"
  using string_reader_get drop_Cons_nth by metis

lemma read_char_at:
  assumes "text_at e p cs" and "drop (w + l + x) cs = c # r" and "nv_whitespace_len v = ix w" and "nv_len v = ix l"
  shows "read_char (string_reader p) 0 (ix x) v e = Some (Some c, e)"
proof -
  have "w + l + x < 2 ^ 32" using assms(1) drop_Cons_nth [OF assms(2)] by (simp add: text_at_def)
  then have "add_chk (ix w) (ix l) = Some (ix (w + l))" "add_chk (ix (w + l)) (ix x) = Some (ix (w + l + x))"
    "add_chk 0 (ix w) = Some (ix w)"
    by (simp_all add: add_chk_Some unat_ix)
  then show ?thesis using assms(3,4) string_reader_drop [OF assms(1,2)] by (simp add: read_char_def)
qed

lemmas read_char_0 = read_char_at [where x = 0, simplified]

lemma count_whitespace:
  assumes "text_at e p cs" and "\<forall>w \<in> set ws. white w" and "\<not> white c"
  shows "drop i cs = ws @ c # r \<Longrightarrow> count_loop (string_reader p) (ix i) e = Some (Inr (ix (i + length ws)), e)"
  using assms(2)
proof (induction ws arbitrary: i)
  case Nil
  then show ?case using string_reader_drop [OF assms(1), of i c r] assms(3)
    by (subst count_loop.simps) (simp add: white_def)
next
  case (Cons w ws)
  have "Suc i < 2 ^ 32" using drop_Cons_nth [of i cs w "ws @ c # r"] Cons.prems(1) assms(1) by (simp add: text_at_def)
  then have "add_chk (ix i) 1 = Some (ix (Suc i))" by (rule add_chk_ix)
  then show ?case
    using string_reader_drop [OF assms(1), of i w "ws @ c # r"] Cons drop_Cons_nth [of i cs w "ws @ c # r"]
    by (subst count_loop.simps) (simp add: white_def)
qed

lemma advance_at:
  assumes "nv_len v = ix l" and "Suc l < 2 ^ 32 - 1"
  shows "advance (- 1) v = Some (Inr (v\<lparr>nv_len := ix (Suc l)\<rparr>))"
proof -
  have a: "add_chk (ix l) 1 = Some (ix (Suc l))" using assms(2) by (intro add_chk_ix) simp
  have "ix (Suc l) \<noteq> (- 1 :: u32)"
  proof
    assume "ix (Suc l) = (- 1 :: u32)"
    then have "unat (ix (Suc l) :: u32) = unat (- 1 :: u32)" by simp
    with assms(2) show False by (simp add: unat_ix unsigned_minus_1_eq_mask mask_eq_exp_minus_1)
  qed
  with a assms(1) show ?thesis by (simp add: advance_def)
qed

lemma longer_prefix_at:
  "nv_prefix_length v = ix k \<Longrightarrow> Suc k < 2 ^ 32 \<Longrightarrow> longer_prefix v = Some (v\<lparr>nv_prefix_length := ix (Suc k)\<rparr>)"
  using add_chk_ix [of k] by (simp add: longer_prefix_def)

lemma sub_chk_ix_ix: "j \<le> i \<Longrightarrow> i < 2 ^ 32 \<Longrightarrow> sub_chk (ix i) (ix j) = Some (ix (i - j))"
  by (simp add: sub_chk_Some unat_ix)

lemma number_loop_at:
  assumes t: "text_at e p cs" and c: "unat b \<le> digit_value c" and b: "2 \<le> b" "b \<le> 36"
  shows "drop (w + l) cs = ds @ c # r \<Longrightarrow> \<forall>d \<in> set ds. digit_value d < unat b
    \<Longrightarrow> nv_whitespace_len v = ix w \<Longrightarrow> nv_len v = ix l \<Longrightarrow> nv_prefix_length v = ix k \<Longrightarrow> nv_base v = b
    \<Longrightarrow> k \<le> l \<Longrightarrow> length (nv_chars v) = l - k
    \<Longrightarrow> number_loop (string_reader p) 0 (- 1) v (hd (ds @ [c])) e
      = Some (Inr (v\<lparr>nv_len := ix (l + length ds), nv_chars := nv_chars v @ ds\<rparr>), e)"
proof (induction ds arbitrary: l v)
  case Nil
  have "l < 2 ^ 32" using drop_Cons_nth [of "w + l" cs c r] Nil(1) t by (simp add: text_at_def)
  then have "sub_chk (ix l) (ix k) = Some (ix (l - k))" using Nil(7) by (intro sub_chk_ix_ix) simp_all
  moreover have "v\<lparr>nv_len := ix l\<rparr> = v" using Nil(4) by (cases v) simp
  ultimately show ?case using Nil(3-) c b by (subst number_loop.simps) (simp add: is_digit_def)
next
  case (Cons d ds)
  have dr: "drop (w + Suc l) cs = ds @ c # r" using drop_Cons_nth [of "w + l" cs d] Cons.prems(1) by simp
  then obtain c1 r1 where n: "ds @ c # r = c1 # r1" "hd (ds @ [c]) = c1" by (cases ds) simp_all
  have "w + Suc l < length cs" using drop_Cons_nth [of "w + Suc l" cs c1 r1] dr n by simp
  then have "Suc l < 2 ^ 32 - 1" using t by (simp add: text_at_def)
  then have adv: "advance (- 1) (v\<lparr>nv_chars := nv_chars v @ [d]\<rparr>)
      = Some (Inr (v\<lparr>nv_len := ix (Suc l), nv_chars := nv_chars v @ [d]\<rparr>))"
    using Cons.prems(4) by (subst advance_at [of _ l]) simp_all
  let ?v = "v\<lparr>nv_len := ix (Suc l), nv_chars := nv_chars v @ [d]\<rparr>"
  have rd: "read_char (string_reader p) 0 0 ?v e = Some (Some c1, e)"
    using dr n Cons.prems(3) by (intro read_char_0 [OF t, of w "Suc l" _ r1]) simp_all
  have "number_loop (string_reader p) 0 (- 1) ?v c1 e
      = Some (Inr (?v\<lparr>nv_len := ix (Suc l + length ds), nv_chars := nv_chars ?v @ ds\<rparr>), e)"
    unfolding n(2) [symmetric] using Cons.prems dr by (intro Cons.IH) simp_all
  then show ?case using Cons.prems(2,6) adv rd b
    by (subst number_loop.simps) (simp add: is_digit_def)
qed

lemma sign_step_at:
  assumes t: "text_at e p cs" and d: "drop w cs = sg @ c # r" and sg: "sg \<in> {[], [0x2B], [0x2D]}" and c: "c \<notin> {0x2B, 0x2D}"
    and v: "nv_whitespace_len v = ix w" "nv_len v = 0" "nv_prefix_length v = 0"
  shows "sign_step (string_reader p) 0 (- 1) v e = Some (Inr (v\<lparr>nv_len := ix (length sg),
    nv_sign := (if sg = [] then nv_sign v else Some (hd sg)), nv_prefix_length := ix (length sg)\<rparr>), e)"
proof (cases sg)
  case Nil
  have "v = v\<lparr>nv_len := 0, nv_sign := nv_sign v, nv_prefix_length := 0\<rparr>" using v by (cases v) simp
  then show ?thesis using Nil d c v read_char_0 [OF t, of w 0 c r v] by (simp add: sign_step_def)
next
  case (Cons x xs)
  then have x: "sg = [x]" "x = 0x2B \<or> x = 0x2D" using sg by auto
  have "read_char (string_reader p) 0 0 v e = Some (Some x, e)"
    using d x v by (intro read_char_0 [OF t, of w 0 _ "c # r"]) simp_all
  moreover have "longer_prefix (v\<lparr>nv_sign := Some x\<rparr>) = Some (v\<lparr>nv_sign := Some x, nv_prefix_length := ix 1\<rparr>)"
    using v by (subst longer_prefix_at [of _ 0]) simp_all
  moreover have "advance (- 1) (v\<lparr>nv_sign := Some x, nv_prefix_length := ix 1\<rparr>)
      = Some (Inr (v\<lparr>nv_len := ix 1, nv_sign := Some x, nv_prefix_length := ix 1\<rparr>))"
    using v by (subst advance_at [of _ 0]) simp_all
  ultimately show ?thesis using x by (simp add: sign_step_def)
qed

lemma base_step_at:
  assumes t: "text_at e p cs" and d: "drop (w + l) cs = px @ c # r"
    and px: "numeral_prefix (nv_base v) px c b" and c: "digit_value c < unat b"
    and v: "nv_whitespace_len v = ix w" "nv_len v = ix l"
  shows "base_step (string_reader p) 0 v e = Some (Inr (v\<lparr>nv_base := b\<rparr>), e)"
proof (cases "nv_base v = 0")
  case False
  then have "b = nv_base v" using px by (auto simp: numeral_prefix_def)
  with False show ?thesis by (simp add: base_step_def)
next
  case base: True
  show ?thesis
  proof (cases px)
    case Nil
    then show ?thesis using base px d read_char_0 [OF t, of w l c r v] v by (auto simp: numeral_prefix_def base_step_def)
  next
    case (Cons x ys)
    then have x: "x = 0x30" using px by (auto simp: numeral_prefix_def)
    obtain y zs where y: "ys @ c # r = y # zs" by (cases ys) simp_all
    have "drop (w + l + 1) cs = y # zs" using drop_Cons_nth [of "w + l" cs x "ys @ c # r"] d Cons y by simp
    then have "read_char (string_reader p) 0 1 v e = Some (Some y, e)"
      using read_char_at [OF t, of w l 1 y zs v] v by (simp add: ix_def)
    moreover have "read_char (string_reader p) 0 0 v e = Some (Some x, e)"
      using read_char_0 [OF t, of w l x "ys @ c # r" v] d Cons v by simp
    moreover have "(if y = 0x78 \<or> y = 0x58 then 16 else 8) = b"
      using px Cons y base c by (auto simp: numeral_prefix_def digit_value_def)
    ultimately show ?thesis using base x by (simp add: base_step_def)
  qed
qed

lemma prefix_step_at:
  assumes t: "text_at e p cs" and d: "drop (w + l) cs = px @ c # r"
    and px: "numeral_prefix base px c (nv_base v)" and c: "digit_value c < unat (nv_base v)"
    and v: "nv_whitespace_len v = ix w" "nv_len v = ix l" "nv_prefix_length v = ix k" and k: "k \<le> l"
  shows "prefix_step (string_reader p) 0 (- 1) v e
    = Some (Inr (v\<lparr>nv_len := ix (l + length px), nv_prefix_length := ix (k + length px)\<rparr>), e)"
proof (cases px)
  case Nil
  have "v = v\<lparr>nv_len := ix l, nv_prefix_length := ix k\<rparr>" using v by (cases v) simp
  moreover have "c \<noteq> 0x30" if "nv_base v = 8 \<or> nv_base v = 16" using px Nil that by (auto simp: numeral_prefix_def)
  moreover have "read_char (string_reader p) 0 0 v e = Some (Some c, e)" using Nil d v by (intro read_char_0 [OF t]) simp_all
  ultimately show ?thesis using Nil by (simp add: prefix_step_def)
next
  case (Cons x ys)
  then have x: "x = 0x30" and b: "nv_base v = 8 \<or> nv_base v = 16" using px by (auto simp: numeral_prefix_def)
  obtain y zs where y: "ys @ c # r = y # zs" by (cases ys) simp_all
  let ?v1 = "v\<lparr>nv_len := ix (Suc l), nv_prefix_length := ix (Suc k)\<rparr>"
  have d1: "drop (w + Suc l) cs = y # zs" using drop_Cons_nth [of "w + l" cs x "ys @ c # r"] d Cons y by simp
  then have l: "Suc l < 2 ^ 32 - 1" using drop_Cons_nth [OF d1] t by (simp add: text_at_def)
  have rd: "read_char (string_reader p) 0 0 v e = Some (Some x, e)"
    using read_char_0 [OF t, of w l x "ys @ c # r" v] d Cons v by simp
  have rd1: "read_char (string_reader p) 0 0 ?v1 e = Some (Some y, e)"
    using read_char_0 [OF t d1, of ?v1] v by simp
  have adv: "advance (- 1) v = Some (Inr (v\<lparr>nv_len := ix (Suc l)\<rparr>))" using v l by (intro advance_at)
  have lp: "longer_prefix (v\<lparr>nv_len := ix (Suc l)\<rparr>) = Some ?v1" using v l k by (subst longer_prefix_at [of _ k]) simp_all
  show ?thesis
  proof (cases ys)
    case Nil
    then have "nv_base v = 16 \<Longrightarrow> y \<noteq> 0x78 \<and> y \<noteq> 0x58" using y c by (auto simp: digit_value_def)
    then show ?thesis using Nil Cons x b rd rd1 adv lp by (auto simp: prefix_step_def)
  next
    case (Cons y' ys')
    then have y2: "y = 0x78 \<or> y = 0x58" "nv_base v = 16" "px = [0x30, y]" "zs = c # r"
      using px \<open>px = x # ys\<close> y by (auto simp: numeral_prefix_def)
    have "w + Suc (Suc l) < length cs" using drop_Cons_nth [OF d1] y2(4) drop_Cons_nth [of "Suc (w + Suc l)" cs c r] by simp
    then have l2: "Suc (Suc l) < 2 ^ 32 - 1" using t by (simp add: text_at_def)
    have "advance (- 1) ?v1 = Some (Inr (v\<lparr>nv_len := ix (Suc (Suc l)), nv_prefix_length := ix (Suc k)\<rparr>))"
      using l2 by (subst advance_at [of _ "Suc l"]) simp_all
    moreover have "longer_prefix (v\<lparr>nv_len := ix (Suc (Suc l)), nv_prefix_length := ix (Suc k)\<rparr>)
        = Some (v\<lparr>nv_len := ix (Suc (Suc l)), nv_prefix_length := ix (Suc (Suc k))\<rparr>)"
      using l2 k by (subst longer_prefix_at [of _ "Suc k"]) simp_all
    ultimately show ?thesis using y2 x b rd rd1 adv lp by (auto simp: prefix_step_def)
  qed
qed

text \<open>
  \<open>numeral_text\<close>: white space, a sign, the prefix of base \<open>b\<close>, digits of base \<open>b\<close>, and nothing or
  a character that is not a digit of it.
\<close>

definition numeral_text ::
    "u32 \<Rightarrow> u8 list \<Rightarrow> u8 list \<Rightarrow> u8 list \<Rightarrow> u8 list \<Rightarrow> u8 list \<Rightarrow> u32 \<Rightarrow> bool" where
  "numeral_text base ws sg px ds rest b \<longleftrightarrow> (\<forall>w \<in> set ws. white w) \<and> sg \<in> {[], [0x2B], [0x2D]}
     \<and> ds \<noteq> [] \<and> (\<forall>d \<in> set ds. digit_value d < unat b) \<and> numeral_prefix base px (hd ds) b
     \<and> (rest = [] \<or> unat b \<le> digit_value (hd rest))"

lemma numeral_prefix_base:
  "numeral_prefix base px d b \<Longrightarrow> 2 \<le> b \<and> b \<le> 36"
  "numeral_prefix base px d b \<Longrightarrow> base \<le> 36"
  by (auto simp: numeral_prefix_def word_le_nat_alt)

lemma digit_not_white:
  assumes "digit_value c < 36"
  shows "\<not> white c" and "c \<notin> {0x2B, 0x2D}"
  using assms by (auto simp: digit_value_def white_def is_ascii_whitespace_def)

lemma str_to_int_numeral:
  assumes z: "zstring u8_type 0 (e_mem e) p (ws @ sg @ px @ ds @ rest)" and n: "numeral_text base ws sg px ds rest b"
  shows "str_to_int_inner_generic (string_reader p) 0 base (- 1) f g zero e
    = Some (Inr (if sg = [0x2D] then g (f ds b) else f ds b, ix (length (ws @ sg @ px @ ds))), e)"
proof -
  let ?R = "string_reader p" and ?cs = "(ws @ sg @ px @ ds @ rest) @ [0]" and ?w = "length ws" and ?s = "length sg" and ?x = "length px"
  let ?v0 = "\<lparr>nv_whitespace_len = 0, nv_len = 0, nv_sign = None, nv_prefix_length = 0, nv_chars = [], nv_base = base\<rparr>"
  let ?v1 = "?v0\<lparr>nv_whitespace_len := ix ?w\<rparr>"
  let ?v2 = "?v1\<lparr>nv_len := ix ?s, nv_sign := (if sg = [] then None else Some (hd sg)), nv_prefix_length := ix ?s\<rparr>"
  let ?v3 = "?v2\<lparr>nv_base := b\<rparr>"
  let ?v4 = "?v3\<lparr>nv_len := ix (?s + ?x), nv_prefix_length := ix (?s + ?x)\<rparr>"
  have t: "text_at e p ?cs" using z by (rule text_at_zstring)
  have white: "\<forall>w \<in> set ws. white w" and sg: "sg \<in> {[], [0x2B], [0x2D]}" and ds: "\<forall>d \<in> set ds. digit_value d < unat b"
    and px: "numeral_prefix base px (hd ds) b" and rest: "rest = [] \<or> unat b \<le> digit_value (hd rest)"
    using n by (simp_all add: numeral_text_def)
  obtain d dt where d: "ds = d # dt" "digit_value d < unat b" using n by (cases ds) (auto simp: numeral_text_def)
  have b: "2 \<le> b" "b \<le> 36" "unat b \<le> 36" using numeral_prefix_base(1) [OF px] by (simp_all add: word_le_nat_alt)
  obtain y yt where y: "rest @ [0] = y # yt" "unat b \<le> digit_value y"
    using rest b(3) by (cases rest) (auto simp: digit_value_def)
  have end_: "\<not> white c \<and> c \<notin> {0x2B, 0x2D}" if "c = d \<or> c = 0x30" for c
    using that digit_not_white [of c] d(2) b(3) by (auto simp: digit_value_def)
  obtain q qt where q: "px @ ds @ rest @ [0] = q # qt" "q = d \<or> q = 0x30"
    using px d(1) by (cases px) (auto simp: numeral_prefix_def)
  obtain a at where a: "sg @ px @ ds @ rest @ [0] = a # at" "\<not> white a"
    using sg q end_ [of q] by (auto simp: white_def is_ascii_whitespace_def)
  have ws: "whitespace_step ?R 0 ?v0 e = Some (Inr ?v1, e)"
  proof -
    have "count_loop ?R (ix 0) e = Some (Inr (ix (0 + ?w)), e)"
      using a(1) by (intro count_whitespace [OF t white a(2)]) simp
    moreover have "sub_chk (ix ?w) 0 = Some (ix ?w)" using sub_chk_ix_ix [of 0 ?w] t by (simp add: text_at_def)
    ultimately show ?thesis by (simp add: whitespace_step_def count_whitespace_generic_def)
  qed
  have ss: "sign_step ?R 0 (- 1) ?v1 e = Some (Inr ?v2, e)"
    using q sg end_ [of q] by (subst sign_step_at [OF t, of ?w sg q qt]) simp_all
  have bs: "base_step ?R 0 ?v2 e = Some (Inr ?v3, e)"
    using d px by (subst base_step_at [OF t, of ?w ?s px d "dt @ rest @ [0]" _ b]) simp_all
  have ps: "prefix_step ?R 0 (- 1) ?v3 e = Some (Inr ?v4, e)"
    using d px by (subst prefix_step_at [OF t, of ?w ?s px d "dt @ rest @ [0]" base _ ?s]) simp_all
  let ?v5 = "?v4\<lparr>nv_len := ix (?s + ?x + length ds), nv_chars := ds\<rparr>"
  have dr: "drop (?w + (?s + ?x)) ?cs = ds @ y # yt" using y(1) by simp
  have rd: "read_char ?R 0 0 ?v4 e = Some (Some d, e)"
    using dr d(1) by (intro read_char_0 [OF t, of ?w "?s + ?x" d "dt @ y # yt"]) simp_all
  have "number_loop ?R 0 (- 1) ?v4 (hd (ds @ [y])) e
      = Some (Inr (?v4\<lparr>nv_len := ix (?s + ?x + length ds), nv_chars := nv_chars ?v4 @ ds\<rparr>), e)"
    by (rule number_loop_at [OF t y(2) b(1,2) dr ds, where k = "?s + ?x"]) simp_all
  then have dd: "digits_step ?R 0 (- 1) ?v4 e = Some (Inr ?v5, e)"
    using rd d(1) by (simp add: digits_step_def)
  have len: "?w + (?s + ?x + length ds) < 2 ^ 32" using z by (simp add: zstring_def)
  then have "sub_chk (ix (?s + ?x + length ds)) (ix (?s + ?x)) = Some (ix (length ds))"
    by (subst sub_chk_ix_ix) simp_all
  moreover have "add_chk (ix ?w) (ix (?s + ?x + length ds)) = Some (ix (?w + (?s + ?x + length ds)))"
    using len by (simp add: add_chk_Some unat_ix)
  moreover have "0 < ix (length ds)" using len d(1) ix_less [of 0 "length ds"] by simp
  ultimately show ?thesis using ws ss bs ps dd b sg
    unfolding str_to_int_inner_generic_def by (auto simp: then_step_def Let_def add.assoc)
qed

text \<open>
  With \<open>max_length\<close> 1 in base 16 the digit \<open>0\<close> counts towards the length but is neither a digit nor
  part of the prefix, so the conversion is handed no digits at all. The callbacks of \<open>scanf\<close>
  unwrap the error of \<open>from_str_radix\<close>, so \<open>%1x\<close> panics on \<open>0\<close>.
\<close>

lemma one_character_zero:
  assumes t: "text_at e p (0x30 # cs)"
  shows "str_to_int_inner_generic (string_reader p) 0 16 1 f g zero e = Some (Inr (f [] 16, 1), e)"
proof -
  have rd: "read_char (string_reader p) 0 0 v e = Some (Some 0x30, e)" if "nv_whitespace_len v = 0" "nv_len v = 0" for v
    using that read_char_0 [OF t, of 0 0 "0x30" cs v] by simp
  have "count_loop (string_reader p) 0 e = Some (Inr 0, e)"
    using count_whitespace [OF t, of "[]" "0x30" 0 cs] by (simp add: white_def is_ascii_whitespace_def)
  then have "whitespace_step (string_reader p) 0 v e = Some (Inr (v\<lparr>nv_whitespace_len := 0\<rparr>), e)" for v
    by (simp add: whitespace_step_def count_whitespace_generic_def sub_chk_def)
  then show ?thesis
    by (simp add: str_to_int_inner_generic_def then_step_def sign_step_def base_step_def prefix_step_def rd
      advance_def longer_prefix_def add_chk_def sub_chk_def Let_def)
qed

lemma one_character_zero_value: "text_at e p (0x30 # cs)
  \<Longrightarrow> str_to_int_inner_generic (string_reader p) 0 16 1 i32_from_str i32_negate 0 e = Some (Inr (0x7FFFFFFF, 1), e)"
  using one_character_zero [of e p cs i32_from_str i32_negate 0] by (simp add: i32_from_str_def from_str_radix_def)

lemma sint_of_nat_small: "k < 2 ^ 31 \<Longrightarrow> sint (of_nat k :: i32) = int k"
  by (simp add: signed_of_nat signed_take_bit_int_eq_self)

lemma i32_from_str_sint:
  "ds \<noteq> [] \<Longrightarrow> sint (i32_from_str ds b) = min (int (digits_value (unat b) ds)) (2 ^ 31 - 1)"
  using sint_of_nat_small [of "digits_value (unat b) ds"]
  by (auto simp: i32_from_str_def from_str_radix_def Let_def)

lemma i32_negate_sint:
  assumes "0 \<le> sint x"
  shows "sint (i32_negate x) = - sint x"
proof -
  have b: "sint x < 2 ^ 31" using sint_lt [of x] by simp
  have "sint (- x) = sint (of_int (- sint x) :: i32)" by simp
  also have "\<dots> = - sint x" using assms b by (subst signed_of_int) (simp add: signed_take_bit_int_eq_self)
  finally show ?thesis using assms by (simp add: i32_negate_def)
qed

lemma unsigned_from_str_min:
  "ds \<noteq> [] \<Longrightarrow> unsigned_from_str ds b = (of_nat (min (digits_value (unat b) ds) (2 ^ LENGTH('a) - 1)) :: 'a::len word)"
proof -
  assume "ds \<noteq> []"
  moreover have "(of_nat (2 ^ LENGTH('a) - 1) :: 'a word) = - 1" by (simp add: of_nat_diff)
  moreover have "n \<le> 2 ^ LENGTH('a) - 1 \<longleftrightarrow> n < 2 ^ LENGTH('a)" for n :: nat
    using zero_less_power [of "2 :: nat" "LENGTH('a)"] by linarith
  ultimately show ?thesis by (auto simp: unsigned_from_str_def from_str_radix_def Let_def min_def)
qed

text \<open>C35: of a string of white space, a sign, a prefix, digits and a character that is no digit,
  \<open>strtol\<close> and \<open>strtoul\<close> return the number, replaced by the largest value where it is too large
  and then negated, and store the address behind the digits; \<open>strtol\<close> so never returns the
  smallest \<open>i32\<close>.\<close>

theorem strtol_reads_numerals:
  assumes "set_errno 0 e = Some e1" and "numeral_text base ws sg px ds rest b"
    and "zstring u8_type 0 (e_mem e1) p (ws @ sg @ px @ ds @ rest)"
    and "(if endptr = 0 then Some e1 else write_env u32_type endptr (p + of_nat (length (ws @ sg @ px @ ds))) e1) = Some e2"
  shows "(let n = digits_value (unat b) ds in
    (\<exists>r. strtol p endptr base e = Some (r, e2)
      \<and> sint r = (if sg = [0x2D] then - min (int n) (2 ^ 31 - 1) else min (int n) (2 ^ 31 - 1)))
    \<and> strtoul p endptr base e
      = Some (if sg = [0x2D] then - of_nat (min n (2 ^ 32 - 1)) else of_nat (min n (2 ^ 32 - 1)), e2))"
proof -
  let ?len = "length (ws @ sg @ px @ ds)"
  have ds: "ds \<noteq> []" and base: "base \<le> 36" using assms(2) numeral_prefix_base(2) by (auto simp: numeral_text_def)
  have "sint base = int (unat base)" using sint_of_nat_small [of "unat base"] base by (simp add: word_le_nat_alt)
  then have nn: "0 \<le> sint base" by simp
  have "ptr_add 1 p (ix ?len) = Some (p + of_nat ?len)"
    using cells_u8(4) [OF assms(3), of ?len] by (simp add: elem_ptr_def u8_type_def)
  then have fin: "finish_strto p endptr (Inr (x, ix ?len), e1) = Some (x, e2)" for x :: "32 word"
    using assms(4) by (auto simp: finish_strto_def split: if_splits)
  note run = str_to_int_numeral [OF assms(3,2)]
  have "strtol p endptr base e = Some (if sg = [0x2D] then i32_negate (i32_from_str ds b) else i32_from_str ds b, e2)"
    using assms(1) fin by (simp add: strtol_def strtol_inner_def run)
  moreover have "strtoul p endptr base e
      = Some (if sg = [0x2D] then - unsigned_from_str ds b else unsigned_from_str ds b, e2)"
    using assms(1) fin nn by (simp add: strtoul_def strtou_def run)
  moreover have "sint (i32_negate (i32_from_str ds b)) = - sint (i32_from_str ds b)"
    using i32_from_str_sint [OF ds, of b] by (intro i32_negate_sint) simp
  ultimately show ?thesis using i32_from_str_sint [OF ds, of b] unsigned_from_str_min [OF ds, of b, where ?'a = 32]
    by (auto simp: Let_def)
qed

text \<open>The example: \<open>-0x2A;\<close> after a space, at \<open>0x1700\<close>, with \<open>errno\<close> at \<open>0x1800\<close>.\<close>

definition strto_text :: "u8 list" where
  "strto_text = [0x20, 0x2D, 0x30, 0x78, 0x32, 0x41, 0x3B]"

definition strto_env :: env where
  "strto_env = (demo_env [demo_thread NotBlocked])\<lparr>e_mem := demo_mem\<lparr>mm_bytes := put_range (\<lambda>_. 0) 0x1700 strto_text\<rparr>,
     e_errnos := [0 \<mapsto> 0x1800]\<rparr>"

definition strto_env1 :: env where
  "strto_env1 = strto_env\<lparr>e_mem := demo_mem\<lparr>mm_bytes := put_range (put_range (\<lambda>_. 0) 0x1700 strto_text) 0x1800 [0, 0, 0, 0]\<rparr>\<rparr>"

lemma strto_env_ok: "set_errno 0 strto_env = Some strto_env1"
proof -
  have sz: "gt_size u32_type = 4" "gt_enc u32_type 0 = [0, 0, 0, 0]" by code_simp+
  have "mem_write u32_type (e_mem strto_env) 0x1800 0 = Some (e_mem strto_env1)"
    using u32c.write_ok [of "e_mem strto_env" "0x1800" 0] sz
    by (simp add: strto_env_def strto_env1_def demo_mem_def)
  moreover have "e_errnos strto_env (e_current strto_env) = Some 0x1800" by (simp add: strto_env_def demo_env_def)
  ultimately show ?thesis
    by (simp add: set_errno_def set_errno_for_thread_def errno_ptr_for_thread_def write_env_def strto_env1_def)
qed

lemma strto_env1_text: "zstring u8_type 0 (e_mem strto_env1) 0x1700 strto_text"
proof -
  have l: "length strto_text + 1 = 8" by (simp add: strto_text_def)
  have "get_range (mm_bytes (e_mem strto_env1)) 0x1700 8 = strto_text @ [0]" by code_simp
  moreover have "mm_null (e_mem strto_env1) = 0x1000" "0 \<notin> set strto_text"
    by (simp_all add: strto_env1_def demo_mem_def strto_text_def)
  ultimately have "zstring u8_char 0 (e_mem strto_env1) 0x1700 strto_text"
    by (intro u8_zstring) (unfold l, simp_all)
  then show ?thesis by (simp add: zstring_u8_type)
qed

theorem strtol_reads_numerals_witness:
  "\<exists>r. strtol 0x1700 0 0 strto_env = Some (r, strto_env1) \<and> sint r = - 42"
proof -
  have "numeral_text 0 [0x20] [0x2D] [0x30, 0x78] [0x32, 0x41] [0x3B] 16"
    by (simp add: numeral_text_def numeral_prefix_def white_def is_ascii_whitespace_def digit_value_def)
  from strtol_reads_numerals [OF strto_env_ok this, of "0x1700" 0 strto_env1] strto_env1_text
  show ?thesis by (auto simp: strto_text_def Let_def digits_value_def digit_value_def)
qed

end
