(* ===== verification/Objc_Objects.thy ===== *)
theory Objc_Objects
  imports Guest_Sync Scheduler
begin

text \<open>
  Objects of the Objective-C runtime: reference counts and host objects (\<open>src/objc/objects.rs\<close>), blocks
  (\<open>src/objc/blocks.rs\<close>), and what ARC calls, with its zeroing weak references (\<open>src/objc.rs\<close>). A
  \<open>HashMap\<close> is a partial function. The set of locations that refer weakly to an object is a list
  without duplicates; its order is not used. Sending a message and calling a guest function are
  parameters (\<open>calls\<close>), since both run code of the application.
\<close>

subsection \<open>Data\<close>

type_synonym guest_imp = u32

datatype init_status = Not_Initialized | Initializing | Initialized

datatype 'm imp = Host_IMP 'm | Guest_IMP guest_imp

record 'm class_object =
  cl_name :: "u8 list"
  cl_is_metaclass :: bool
  cl_superclass :: vaddr
  cl_methods :: "vaddr \<Rightarrow> 'm imp option"
  cl_signatures :: "vaddr \<Rightarrow> vaddr option"
  cl_ivars :: "(u8 list \<times> (vaddr \<times> u32)) list"
  cl_instance_start :: u32
  cl_instance_size :: u32
  cl_is_initialized :: init_status

text \<open>A protocol (\<open>src/objc/protocols.rs\<close>): its name, what it adopts, its lists of methods.\<close>

record protocol_object =
  po_name :: "u8 list"
  po_name_ptr :: vaddr
  po_adopted :: "vaddr list"
  po_required_instance :: vaddr
  po_required_class :: vaddr
  po_optional_instance :: vaddr
  po_optional_class :: vaddr

text \<open>The host objects of the runtime, and any other that a framework defines.\<close>

datatype ('h, 'm) host_object =
    Class_Object "'m class_object"
  | Unimplemented_Class "u8 list" bool
  | Fake_Class "u8 list" bool
  | Protocol_Object protocol_object
  | Host_Object 'h

record ('h, 'm) host_entry =
  he_object :: "('h, 'm) host_object"
  he_refcount :: "u32 option"

record block_state =
  bs_stack :: "vaddr option"
  bs_global :: "vaddr option"
  bs_malloc :: "vaddr option"
  bs_blocks :: "vaddr \<Rightarrow> u32 option"
  bs_byrefs :: "vaddr \<Rightarrow> u32 option"

record ('h, 'm) objc =
  ob_selectors :: "u8 list \<Rightarrow> vaddr option"
  ob_objects :: "vaddr \<Rightarrow> ('h, 'm) host_entry option"
  ob_weak :: "vaddr \<Rightarrow> vaddr list option"
  ob_block :: block_state
  ob_classes :: "(u8 list \<times> vaddr) list"
  ob_class_names :: "vaddr \<Rightarrow> vaddr option"
  ob_class_superclasses :: "vaddr \<Rightarrow> vaddr option"
  ob_protocols :: "(u8 list \<times> vaddr) list"
  ob_class_protocols :: "vaddr \<Rightarrow> vaddr list option"
  ob_message_type :: "nat option"

record ('h, 'm) renv =
  re_mem :: guest_mem
  re_regs :: "nat \<Rightarrow> u32"
  re_objc :: "('h, 'm) objc"

abbreviation nil :: vaddr where "nil \<equiv> 0"

subsection \<open>Objects\<close>

definition read_isa :: "vaddr \<Rightarrow> guest_mem \<Rightarrow> vaddr run" where
  "read_isa object m = mem_read u32_type m object"

definition get_host_object :: "('h, 'm) objc \<Rightarrow> vaddr \<Rightarrow> ('h, 'm) host_object option" where
  "get_host_object ob object = map_option he_object (ob_objects ob object)"

text \<open>\<open>borrow::<ClassHostObject>\<close>: no host object of a framework extends that of a class.\<close>

definition borrow_class :: "('h, 'm) objc \<Rightarrow> vaddr \<Rightarrow> 'm class_object run" where
  "borrow_class ob object = (case get_host_object ob object of Some (Class_Object c) \<Rightarrow> Some c | _ \<Rightarrow> None)"

definition set_class :: "vaddr \<Rightarrow> 'm class_object \<Rightarrow> ('h, 'm) objc \<Rightarrow> ('h, 'm) objc" where
  "set_class object c ob = ob\<lparr>ob_objects :=
     (ob_objects ob)(object := map_option (\<lambda>x. x\<lparr>he_object := Class_Object c\<rparr>) (ob_objects ob object))\<rparr>"

definition alloc_object_inner ::
    "vaddr \<Rightarrow> guest_usize \<Rightarrow> ('h, 'm) host_object \<Rightarrow> u32 option \<Rightarrow> ('h, 'm) objc \<Rightarrow> guest_mem
      \<Rightarrow> (vaddr \<times> ('h, 'm) objc \<times> guest_mem) run" where
  "alloc_object_inner isa instance_size host_object refcount ob m = do {
     _ \<leftarrow> rassert (4 \<le> instance_size);
     (m1, p) \<leftarrow> mem_alloc m instance_size;
     m2 \<leftarrow> mem_write u32_type m1 p isa;
     _ \<leftarrow> rassert (ob_objects ob p = None);
     Some (p, ob\<lparr>ob_objects := (ob_objects ob)(p \<mapsto> \<lparr>he_object = host_object, he_refcount = refcount\<rparr>)\<rparr>, m2) }"

definition alloc_object ::
    "vaddr \<Rightarrow> ('h, 'm) host_object \<Rightarrow> ('h, 'm) objc \<Rightarrow> guest_mem \<Rightarrow> (vaddr \<times> ('h, 'm) objc \<times> guest_mem) run" where
  "alloc_object isa host_object ob m = do {
     c \<leftarrow> borrow_class ob isa;
     alloc_object_inner isa (cl_instance_size c) host_object (Some 1) ob m }"

definition alloc_static_object ::
    "vaddr \<Rightarrow> ('h, 'm) host_object \<Rightarrow> ('h, 'm) objc \<Rightarrow> guest_mem \<Rightarrow> (vaddr \<times> ('h, 'm) objc \<times> guest_mem) run" where
  "alloc_static_object isa host_object ob m = alloc_object_inner isa 4 host_object None ob m"

definition register_static_object :: "vaddr \<Rightarrow> ('h, 'm) host_object \<Rightarrow> ('h, 'm) objc \<Rightarrow> ('h, 'm) objc run" where
  "register_static_object guest_object host_object ob = do {
     _ \<leftarrow> rassert (ob_objects ob guest_object = None);
     Some (ob\<lparr>ob_objects := (ob_objects ob)(guest_object \<mapsto> \<lparr>he_object = host_object, he_refcount = None\<rparr>)\<rparr>) }"

definition get_refcount :: "('h, 'm) objc \<Rightarrow> vaddr \<Rightarrow> u32 run" where
  "get_refcount ob object = do { x \<leftarrow> ob_objects ob object; he_refcount x }"

definition has_static_lifetime :: "('h, 'm) objc \<Rightarrow> vaddr \<Rightarrow> bool run" where
  "has_static_lifetime ob object = do { x \<leftarrow> ob_objects ob object; Some (he_refcount x = None) }"

definition set_refcount :: "vaddr \<Rightarrow> u32 option \<Rightarrow> ('h, 'm) objc \<Rightarrow> ('h, 'm) objc" where
  "set_refcount object n ob = ob\<lparr>ob_objects :=
     (ob_objects ob)(object := map_option (\<lambda>x. x\<lparr>he_refcount := n\<rparr>) (ob_objects ob object))\<rparr>"

definition increment_refcount :: "vaddr \<Rightarrow> ('h, 'm) objc \<Rightarrow> ('h, 'm) objc run" where
  "increment_refcount object ob = do {
     n \<leftarrow> get_refcount ob object;
     n' \<leftarrow> add_chk n 1;
     Some (set_refcount object (Some n') ob) }"

definition decrement_refcount :: "vaddr \<Rightarrow> ('h, 'm) objc \<Rightarrow> (bool \<times> ('h, 'm) objc) run" where
  "decrement_refcount object ob = do {
     n \<leftarrow> get_refcount ob object;
     if n = 1 then Some (True, set_refcount object None ob)
     else do {
       _ \<leftarrow> rassert (n - 1 \<noteq> 0);
       Some (False, set_refcount object (Some (n - 1)) ob) } }"

fun write_nils :: "vaddr list \<Rightarrow> guest_mem \<Rightarrow> guest_mem run" where
  "write_nils [] m = Some m"
| "write_nils (l # ls) m = do { m1 \<leftarrow> mem_write u32_type m l nil; write_nils ls m1 }"

definition clear_weak_references :: "vaddr \<Rightarrow> ('h, 'm) objc \<Rightarrow> guest_mem \<Rightarrow> (('h, 'm) objc \<times> guest_mem) run" where
  "clear_weak_references object ob m = (case ob_weak ob object of
     None \<Rightarrow> Some (ob, m)
   | Some locations \<Rightarrow> do {
       m1 \<leftarrow> write_nils locations m;
       Some (ob\<lparr>ob_weak := (ob_weak ob)(object := None)\<rparr>, m1) })"

definition mem_free :: "host_discard \<Rightarrow> guest_mem \<Rightarrow> vaddr \<Rightarrow> guest_mem run" where
  "mem_free discard m p = map_option fst (free_in_heap discard m None p)"

definition dealloc_object :: "host_discard \<Rightarrow> vaddr \<Rightarrow> ('h, 'm) objc \<Rightarrow> guest_mem \<Rightarrow> (('h, 'm) objc \<times> guest_mem) run" where
  "dealloc_object discard object ob m = do {
     (ob1, m1) \<leftarrow> clear_weak_references object ob m;
     _ \<leftarrow> ob_objects ob1 object;
     m2 \<leftarrow> mem_free discard m1 object;
     Some (ob1\<lparr>ob_objects := (ob_objects ob1)(object := None)\<rparr>, m2) }"

definition object_getClass :: "('h, 'm) renv \<Rightarrow> vaddr \<Rightarrow> vaddr run" where
  "object_getClass e object = (if object = nil then Some nil else read_isa object (re_mem e))"

text \<open>What the functions below send and call: code of the application.\<close>

record ('h, 'm) calls =
  sd_retain :: "vaddr \<Rightarrow> ('h, 'm) renv \<Rightarrow> (vaddr \<times> ('h, 'm) renv) run"
  sd_release :: "vaddr \<Rightarrow> ('h, 'm) renv \<Rightarrow> ('h, 'm) renv run"
  sd_autorelease :: "vaddr \<Rightarrow> ('h, 'm) renv \<Rightarrow> (vaddr \<times> ('h, 'm) renv) run"
  sd_add_to_pool :: "vaddr \<Rightarrow> ('h, 'm) renv \<Rightarrow> ('h, 'm) renv run"
  sd_guest :: "guest_imp \<Rightarrow> u32 list \<Rightarrow> ('h, 'm) renv \<Rightarrow> ('h, 'm) renv run"
  sd_discard :: host_discard

definition rmem_write :: "'a guest_type \<Rightarrow> vaddr \<Rightarrow> 'a \<Rightarrow> ('h, 'm) renv \<Rightarrow> ('h, 'm) renv run" where
  "rmem_write T p x e = do { m \<leftarrow> mem_write T (re_mem e) p x; Some (e\<lparr>re_mem := m\<rparr>) }"

subsection \<open>Blocks\<close>

record block_literal =
  bl_isa :: vaddr
  bl_flags :: i32
  bl_reserved :: i32
  bl_invoke :: guest_imp
  bl_descriptor :: vaddr

definition block_literal_type :: "block_literal guest_type" where
  "block_literal_type = \<lparr>gt_size = 20,
     gt_enc = (\<lambda>b. le_enc 4 (bl_isa b) @ le_enc 4 (bl_flags b) @ le_enc 4 (bl_reserved b) @ le_enc 4 (bl_invoke b)
       @ le_enc 4 (bl_descriptor b)),
     gt_dec = (\<lambda>bs. \<lparr>bl_isa = field32 0 bs, bl_flags = field32 4 bs, bl_reserved = field32 8 bs, bl_invoke = field32 12 bs,
       bl_descriptor = field32 16 bs\<rparr>)\<rparr>"

text \<open>\<open>BlockDescriptor\<close> is the first two words of a descriptor, and \<open>BlockDescriptorCopyDispose\<close> four.\<close>

record block_descriptor =
  bd_reserved :: u32
  bd_size :: u32

definition block_descriptor_type :: "block_descriptor guest_type" where
  "block_descriptor_type = \<lparr>gt_size = 8, gt_enc = (\<lambda>d. le_enc 4 (bd_reserved d) @ le_enc 4 (bd_size d)),
     gt_dec = (\<lambda>bs. \<lparr>bd_reserved = field32 0 bs, bd_size = field32 4 bs\<rparr>)\<rparr>"

record block_helpers =
  bh_reserved :: u32
  bh_size :: u32
  bh_copy :: guest_imp
  bh_dispose :: guest_imp

definition block_helpers_type :: "block_helpers guest_type" where
  "block_helpers_type = \<lparr>gt_size = 16,
     gt_enc = (\<lambda>d. le_enc 4 (bh_reserved d) @ le_enc 4 (bh_size d) @ le_enc 4 (bh_copy d) @ le_enc 4 (bh_dispose d)),
     gt_dec = (\<lambda>bs. \<lparr>bh_reserved = field32 0 bs, bh_size = field32 4 bs, bh_copy = field32 8 bs, bh_dispose = field32 12 bs\<rparr>)\<rparr>"

record byref_header =
  by_isa :: vaddr
  by_forwarding :: vaddr
  by_flags :: i32
  by_size :: i32

definition byref_header_type :: "byref_header guest_type" where
  "byref_header_type = \<lparr>gt_size = 16,
     gt_enc = (\<lambda>d. le_enc 4 (by_isa d) @ le_enc 4 (by_forwarding d) @ le_enc 4 (by_flags d) @ le_enc 4 (by_size d)),
     gt_dec = (\<lambda>bs. \<lparr>by_isa = field32 0 bs, by_forwarding = field32 4 bs, by_flags = field32 8 bs, by_size = field32 12 bs\<rparr>)\<rparr>"

record byref_helpers =
  bk_header :: byref_header
  bk_keep :: guest_imp
  bk_dispose :: guest_imp

definition byref_helpers_type :: "byref_helpers guest_type" where
  "byref_helpers_type = \<lparr>gt_size = 24,
     gt_enc = (\<lambda>d. gt_enc byref_header_type (bk_header d) @ le_enc 4 (bk_keep d) @ le_enc 4 (bk_dispose d)),
     gt_dec = (\<lambda>bs. \<lparr>bk_header = gt_dec byref_header_type bs, bk_keep = field32 16 bs, bk_dispose = field32 20 bs\<rparr>)\<rparr>"

abbreviation BLOCK_REFCOUNT_MASK :: i32 where "BLOCK_REFCOUNT_MASK \<equiv> 0xFFFE"
abbreviation BLOCK_NEEDS_FREE :: i32 where "BLOCK_NEEDS_FREE \<equiv> 0x1000000"
abbreviation BLOCK_HAS_COPY_DISPOSE :: i32 where "BLOCK_HAS_COPY_DISPOSE \<equiv> 0x2000000"

datatype block_kind = Stack_Block | Global_Block | Malloc_Block

definition concrete_block_class :: "block_kind \<Rightarrow> ('h, 'm) renv \<Rightarrow> (vaddr \<times> ('h, 'm) renv) run" where
  "concrete_block_class kind e = (let b = ob_block (re_objc e) in
     case (case kind of Stack_Block \<Rightarrow> bs_stack b | Global_Block \<Rightarrow> bs_global b | Malloc_Block \<Rightarrow> bs_malloc b) of
       Some existing \<Rightarrow> Some (existing, e)
     | None \<Rightarrow> do {
         (m, token) \<leftarrow> mem_calloc (re_mem e) (32 * 4);
         let b' = (case kind of Stack_Block \<Rightarrow> b\<lparr>bs_stack := Some token\<rparr> | Global_Block \<Rightarrow> b\<lparr>bs_global := Some token\<rparr>
           | Malloc_Block \<Rightarrow> b\<lparr>bs_malloc := Some token\<rparr>);
         Some (token, e\<lparr>re_mem := m, re_objc := (re_objc e)\<lparr>ob_block := b'\<rparr>\<rparr>) })"

definition classify :: "('h, 'm) renv \<Rightarrow> vaddr \<Rightarrow> block_kind option run" where
  "classify e block = (let b = ob_block (re_objc e) in
     if block = 0 then Some None
     else if bs_blocks b block \<noteq> None then Some (Some Malloc_Block)
     else if get_bytes_fallible (re_mem e) block 20 = None then Some None
     else do {
       literal \<leftarrow> mem_read block_literal_type (re_mem e) block;
       Some (if Some (bl_isa literal) = bs_global b then Some Global_Block
         else if Some (bl_isa literal) = bs_stack b then Some Stack_Block
         else if Some (bl_isa literal) = bs_malloc b \<and> and (bl_flags literal) BLOCK_NEEDS_FREE \<noteq> 0 then Some Malloc_Block
         else None) })"

definition is_block :: "('h, 'm) renv \<Rightarrow> vaddr \<Rightarrow> bool run" where
  "is_block e block = map_option (\<lambda>k. k \<noteq> None) (classify e block)"

definition saturating_double :: "u32 \<Rightarrow> u32" where
  "saturating_double n = (case mul_chk n 2 of None \<Rightarrow> - 1 | Some k \<Rightarrow> k)"

definition set_block_refcount :: "vaddr \<Rightarrow> u32 \<Rightarrow> ('h, 'm) renv \<Rightarrow> ('h, 'm) renv run" where
  "set_block_refcount block refcount e = do {
     literal \<leftarrow> mem_read block_literal_type (re_mem e) block;
     let encoded = min (saturating_double refcount) BLOCK_REFCOUNT_MASK;
     rmem_write block_literal_type block
       (literal\<lparr>bl_flags := or (or (and (bl_flags literal) (not BLOCK_REFCOUNT_MASK)) encoded) BLOCK_NEEDS_FREE\<rparr>) e }"

definition set_block_count :: "vaddr \<Rightarrow> u32 option \<Rightarrow> ('h, 'm) renv \<Rightarrow> ('h, 'm) renv" where
  "set_block_count block n e = (let ob = re_objc e; b = ob_block ob in
     e\<lparr>re_objc := ob\<lparr>ob_block := b\<lparr>bs_blocks := (bs_blocks b)(block := n)\<rparr>\<rparr>\<rparr>)"

definition copy_helper :: "block_literal \<Rightarrow> ('h, 'm) renv \<Rightarrow> guest_imp option run" where
  "copy_helper literal e = (if and (bl_flags literal) BLOCK_HAS_COPY_DISPOSE = 0 then Some None
     else do { d \<leftarrow> mem_read block_helpers_type (re_mem e) (bl_descriptor literal); Some (Some (bh_copy d)) })"

definition dispose_helper :: "block_literal \<Rightarrow> ('h, 'm) renv \<Rightarrow> guest_imp option run" where
  "dispose_helper literal e = (if and (bl_flags literal) BLOCK_HAS_COPY_DISPOSE = 0 then Some None
     else do { d \<leftarrow> mem_read block_helpers_type (re_mem e) (bl_descriptor literal); Some (Some (bh_dispose d)) })"

definition call_helper :: "('h, 'm) calls \<Rightarrow> guest_imp option \<Rightarrow> u32 list \<Rightarrow> ('h, 'm) renv \<Rightarrow> ('h, 'm) renv run" where
  "call_helper C helper args e = (case helper of None \<Rightarrow> Some e | Some f \<Rightarrow> sd_guest C f args e)"

definition copy_known_block ::
    "('h, 'm) calls \<Rightarrow> vaddr \<Rightarrow> block_kind \<Rightarrow> ('h, 'm) renv \<Rightarrow> (vaddr \<times> ('h, 'm) renv) run" where
  "copy_known_block C block kind e = (case kind of
     Global_Block \<Rightarrow> Some (block, e)
   | Malloc_Block \<Rightarrow> do {
       n \<leftarrow> add_chk (case bs_blocks (ob_block (re_objc e)) block of None \<Rightarrow> 1 | Some n \<Rightarrow> n) 1;
       e1 \<leftarrow> set_block_refcount block n (set_block_count block (Some n) e);
       Some (block, e1) }
   | Stack_Block \<Rightarrow> do {
       literal \<leftarrow> mem_read block_literal_type (re_mem e) block;
       _ \<leftarrow> rassert (bl_descriptor literal \<noteq> 0);
       d \<leftarrow> mem_read block_descriptor_type (re_mem e) (bl_descriptor literal);
       _ \<leftarrow> rassert (20 \<le> bd_size d);
       (m, copy) \<leftarrow> mem_alloc (re_mem e) (bd_size d);
       m1 \<leftarrow> mem_memmove m copy block (bd_size d);
       copied \<leftarrow> mem_read block_literal_type m1 copy;
       (isa, e1) \<leftarrow> concrete_block_class Malloc_Block (e\<lparr>re_mem := m1\<rparr>);
       e2 \<leftarrow> rmem_write block_literal_type copy (copied\<lparr>bl_isa := isa\<rparr>) e1;
       e3 \<leftarrow> set_block_refcount copy 1 (set_block_count copy (Some 1) e2);
       helper \<leftarrow> copy_helper literal e3;
       e4 \<leftarrow> call_helper C helper [copy, block] e3;
       Some (copy, e4) })"

definition retain_if_block ::
    "('h, 'm) calls \<Rightarrow> vaddr \<Rightarrow> ('h, 'm) renv \<Rightarrow> (vaddr option \<times> ('h, 'm) renv) run" where
  "retain_if_block C block e = do {
     k \<leftarrow> classify e block;
     case k of
       None \<Rightarrow> Some (None, e)
     | Some kind \<Rightarrow> do { (b, e1) \<leftarrow> copy_known_block C block kind e; Some (Some b, e1) } }"

definition copy_block :: "('h, 'm) calls \<Rightarrow> vaddr \<Rightarrow> ('h, 'm) renv \<Rightarrow> (vaddr \<times> ('h, 'm) renv) run" where
  "copy_block C block e = (if block = 0 then Some (block, e)
     else do { k \<leftarrow> classify e block; kind \<leftarrow> k; copy_known_block C block kind e })"

definition release_malloc_block :: "('h, 'm) calls \<Rightarrow> vaddr \<Rightarrow> ('h, 'm) renv \<Rightarrow> ('h, 'm) renv run" where
  "release_malloc_block C block e = do {
     n \<leftarrow> bs_blocks (ob_block (re_objc e)) block;
     if 1 < n then set_block_refcount block (n - 1) (set_block_count block (Some (n - 1)) e)
     else do {
       let e1 = set_block_count block None e;
       literal \<leftarrow> mem_read block_literal_type (re_mem e1) block;
       helper \<leftarrow> dispose_helper literal e1;
       e2 \<leftarrow> call_helper C helper [block] e1;
       (ob, m) \<leftarrow> clear_weak_references block (re_objc e2) (re_mem e2);
       m1 \<leftarrow> mem_free (sd_discard C) m block;
       Some (e2\<lparr>re_mem := m1, re_objc := ob\<rparr>) } }"

definition release_if_block :: "('h, 'm) calls \<Rightarrow> vaddr \<Rightarrow> ('h, 'm) renv \<Rightarrow> (bool \<times> ('h, 'm) renv) run" where
  "release_if_block C block e = do {
     k \<leftarrow> classify e block;
     case k of
       None \<Rightarrow> Some (False, e)
     | Some Malloc_Block \<Rightarrow> do { e1 \<leftarrow> release_malloc_block C block e; Some (True, e1) }
     | Some _ \<Rightarrow> Some (True, e) }"

definition release_block :: "('h, 'm) calls \<Rightarrow> vaddr \<Rightarrow> ('h, 'm) renv \<Rightarrow> ('h, 'm) renv run" where
  "release_block C block e = (if block = 0 then Some e
     else do { (b, e1) \<leftarrow> release_if_block C block e; _ \<leftarrow> rassert b; Some e1 })"

subsection \<open>Reference counts, and weak references\<close>

definition retain :: "('h, 'm) calls \<Rightarrow> vaddr \<Rightarrow> ('h, 'm) renv \<Rightarrow> (vaddr \<times> ('h, 'm) renv) run" where
  "retain C object e = (if object = nil then Some (nil, e) else sd_retain C object e)"

definition release :: "('h, 'm) calls \<Rightarrow> vaddr \<Rightarrow> ('h, 'm) renv \<Rightarrow> ('h, 'm) renv run" where
  "release C object e = (if object = nil then Some e else sd_release C object e)"

definition autorelease :: "('h, 'm) calls \<Rightarrow> vaddr \<Rightarrow> ('h, 'm) renv \<Rightarrow> (vaddr \<times> ('h, 'm) renv) run" where
  "autorelease C object e = (if object = nil then Some (nil, e) else sd_autorelease C object e)"

text \<open>What \<open>NSObject\<close> does on these messages (\<open>src/frameworks/foundation/ns_object.rs\<close>).\<close>

definition ns_object_retain :: "vaddr \<Rightarrow> ('h, 'm) renv \<Rightarrow> (vaddr \<times> ('h, 'm) renv) run" where
  "ns_object_retain this e = do { ob \<leftarrow> increment_refcount this (re_objc e); Some (this, e\<lparr>re_objc := ob\<rparr>) }"

definition ns_object_dealloc :: "host_discard \<Rightarrow> vaddr \<Rightarrow> ('h, 'm) renv \<Rightarrow> ('h, 'm) renv run" where
  "ns_object_dealloc discard this e = do {
     (ob, m) \<leftarrow> dealloc_object discard this (re_objc e) (re_mem e);
     Some (e\<lparr>re_mem := m, re_objc := ob\<rparr>) }"

definition ns_object_release ::
    "(vaddr \<Rightarrow> ('h, 'm) renv \<Rightarrow> ('h, 'm) renv run) \<Rightarrow> vaddr \<Rightarrow> ('h, 'm) renv \<Rightarrow> ('h, 'm) renv run" where
  "ns_object_release send_dealloc this e = do {
     (dead, ob) \<leftarrow> decrement_refcount this (re_objc e);
     if dead then send_dealloc this (e\<lparr>re_objc := ob\<rparr>) else Some (e\<lparr>re_objc := ob\<rparr>) }"

definition objc_retain :: "('h, 'm) calls \<Rightarrow> vaddr \<Rightarrow> ('h, 'm) renv \<Rightarrow> (vaddr \<times> ('h, 'm) renv) run" where
  "objc_retain C object e = (if object = nil then Some (object, e) else do {
     (b, e1) \<leftarrow> retain_if_block C object e;
     case b of
       Some block \<Rightarrow> Some (block, e1)
     | None \<Rightarrow> do {
         static \<leftarrow> has_static_lifetime (re_objc e1) object;
         if static then Some (object, e1) else retain C object e1 } })"

definition objc_release :: "('h, 'm) calls \<Rightarrow> vaddr \<Rightarrow> ('h, 'm) renv \<Rightarrow> ('h, 'm) renv run" where
  "objc_release C object e = (if object = nil then Some e else do {
     (b, e1) \<leftarrow> release_if_block C object e;
     if b then Some e1
     else do {
       static \<leftarrow> has_static_lifetime (re_objc e1) object;
       if static then Some e1 else release C object e1 } })"

definition objc_autorelease :: "('h, 'm) calls \<Rightarrow> vaddr \<Rightarrow> ('h, 'm) renv \<Rightarrow> (vaddr \<times> ('h, 'm) renv) run" where
  "objc_autorelease C object e = (if object = nil then Some (object, e) else do {
     b \<leftarrow> is_block e object;
     if b then do { e1 \<leftarrow> sd_add_to_pool C object e; Some (object, e1) }
     else do {
       static \<leftarrow> has_static_lifetime (re_objc e) object;
       if static then Some (object, e) else autorelease C object e } })"

definition objc_retainAutorelease :: "('h, 'm) calls \<Rightarrow> vaddr \<Rightarrow> ('h, 'm) renv \<Rightarrow> (vaddr \<times> ('h, 'm) renv) run" where
  "objc_retainAutorelease C object e = do { (o1, e1) \<leftarrow> objc_retain C object e; objc_autorelease C o1 e1 }"

definition unregister_weak_reference :: "vaddr \<Rightarrow> vaddr \<Rightarrow> ('h, 'm) renv \<Rightarrow> ('h, 'm) renv" where
  "unregister_weak_reference location object e = (if object = nil then e
     else case ob_weak (re_objc e) object of
       None \<Rightarrow> e
     | Some locations \<Rightarrow> let rest = removeAll location locations in
         e\<lparr>re_objc := (re_objc e)\<lparr>ob_weak := (ob_weak (re_objc e))(object := if rest = [] then None else Some rest)\<rparr>\<rparr>)"

definition initialize_weak_reference :: "vaddr \<Rightarrow> vaddr \<Rightarrow> ('h, 'm) renv \<Rightarrow> (vaddr \<times> ('h, 'm) renv) run" where
  "initialize_weak_reference location object e = do {
     is_live_object \<leftarrow> (if object = nil \<or> ob_objects (re_objc e) object \<noteq> None then Some True else is_block e object);
     let target = (if is_live_object then object else nil);
     e1 \<leftarrow> rmem_write u32_type location target e;
     if target \<noteq> nil then do {
       let w = ob_weak (re_objc e1);
       let locations = (case w target of None \<Rightarrow> [] | Some ls \<Rightarrow> ls);
       Some (target, e1\<lparr>re_objc := (re_objc e1)\<lparr>ob_weak := w(target \<mapsto> List.insert location locations)\<rparr>\<rparr>) }
     else Some (target, e1) }"

definition objc_initWeak :: "vaddr \<Rightarrow> vaddr \<Rightarrow> ('h, 'm) renv \<Rightarrow> (vaddr \<times> ('h, 'm) renv) run" where
  "objc_initWeak location object e = initialize_weak_reference location object e"

definition objc_storeWeak :: "vaddr \<Rightarrow> vaddr \<Rightarrow> ('h, 'm) renv \<Rightarrow> (vaddr \<times> ('h, 'm) renv) run" where
  "objc_storeWeak location object e = do {
     old \<leftarrow> mem_read u32_type (re_mem e) location;
     initialize_weak_reference location object (unregister_weak_reference location old e) }"

definition objc_loadWeakRetained :: "('h, 'm) calls \<Rightarrow> vaddr \<Rightarrow> ('h, 'm) renv \<Rightarrow> (vaddr \<times> ('h, 'm) renv) run" where
  "objc_loadWeakRetained C location e = do {
     object \<leftarrow> mem_read u32_type (re_mem e) location;
     if object = nil then Some (nil, e)
     else do {
       dead \<leftarrow> (if ob_objects (re_objc e) object = None then map_option Not (is_block e object) else Some False);
       if dead then do {
         e1 \<leftarrow> rmem_write u32_type location nil (unregister_weak_reference location object e);
         Some (nil, e1) }
       else objc_retain C object e } }"

definition objc_loadWeak :: "('h, 'm) calls \<Rightarrow> vaddr \<Rightarrow> ('h, 'm) renv \<Rightarrow> (vaddr \<times> ('h, 'm) renv) run" where
  "objc_loadWeak C location e = do { (object, e1) \<leftarrow> objc_loadWeakRetained C location e; objc_autorelease C object e1 }"

definition objc_destroyWeak :: "vaddr \<Rightarrow> ('h, 'm) renv \<Rightarrow> ('h, 'm) renv run" where
  "objc_destroyWeak location e = do {
     object \<leftarrow> mem_read u32_type (re_mem e) location;
     rmem_write u32_type location nil (unregister_weak_reference location object e) }"

definition objc_copyWeak :: "vaddr \<Rightarrow> vaddr \<Rightarrow> ('h, 'm) renv \<Rightarrow> ('h, 'm) renv run" where
  "objc_copyWeak destination source e = do {
     object \<leftarrow> mem_read u32_type (re_mem e) source;
     (_, e1) \<leftarrow> initialize_weak_reference destination object e;
     Some e1 }"

definition objc_moveWeak :: "vaddr \<Rightarrow> vaddr \<Rightarrow> ('h, 'm) renv \<Rightarrow> ('h, 'm) renv run" where
  "objc_moveWeak destination source e = do {
     object \<leftarrow> mem_read u32_type (re_mem e) source;
     e1 \<leftarrow> rmem_write u32_type source nil (unregister_weak_reference source object e);
     (_, e2) \<leftarrow> initialize_weak_reference destination object e1;
     Some e2 }"

definition objc_storeStrong :: "('h, 'm) calls \<Rightarrow> vaddr \<Rightarrow> vaddr \<Rightarrow> ('h, 'm) renv \<Rightarrow> ('h, 'm) renv run" where
  "objc_storeStrong C location object e = do {
     (o1, e1) \<leftarrow> objc_retain C object e;
     old \<leftarrow> mem_read u32_type (re_mem e1) location;
     e2 \<leftarrow> rmem_write u32_type location o1 e1;
     objc_release C old e2 }"

subsection \<open>Variables shared by blocks\<close>

definition set_byref_refcount :: "vaddr \<Rightarrow> u32 \<Rightarrow> ('h, 'm) renv \<Rightarrow> ('h, 'm) renv run" where
  "set_byref_refcount byref refcount e = do {
     header \<leftarrow> mem_read byref_header_type (re_mem e) byref;
     let encoded = min refcount 0xFFFF;
     rmem_write byref_header_type byref
       (header\<lparr>by_flags := or (or (and (by_flags header) (not 0xFFFF)) encoded) BLOCK_NEEDS_FREE\<rparr>) e }"

definition set_byref_count :: "vaddr \<Rightarrow> u32 option \<Rightarrow> ('h, 'm) renv \<Rightarrow> ('h, 'm) renv" where
  "set_byref_count byref n e = (let ob = re_objc e; b = ob_block ob in
     e\<lparr>re_objc := ob\<lparr>ob_block := b\<lparr>bs_byrefs := (bs_byrefs b)(byref := n)\<rparr>\<rparr>\<rparr>)"

definition byref_forwarded :: "vaddr \<Rightarrow> ('h, 'm) renv \<Rightarrow> vaddr run" where
  "byref_forwarded source e = do {
     header \<leftarrow> mem_read byref_header_type (re_mem e) source;
     Some (if by_forwarding header = 0 then source else by_forwarding header) }"

definition copy_byref :: "('h, 'm) calls \<Rightarrow> vaddr \<Rightarrow> ('h, 'm) renv \<Rightarrow> (vaddr \<times> ('h, 'm) renv) run" where
  "copy_byref C source e = do {
     forwarded \<leftarrow> byref_forwarded source e;
     case bs_byrefs (ob_block (re_objc e)) forwarded of
       Some n \<Rightarrow> do {
         n' \<leftarrow> add_chk n 1;
         e1 \<leftarrow> set_byref_refcount forwarded n' (set_byref_count forwarded (Some n') e);
         Some (forwarded, e1) }
     | None \<Rightarrow> do {
         header \<leftarrow> mem_read byref_header_type (re_mem e) forwarded;
         _ \<leftarrow> rassert (16 \<le> sint (by_size header));
         (m, copy) \<leftarrow> mem_alloc (re_mem e) (by_size header);
         m1 \<leftarrow> mem_memmove m copy forwarded (by_size header);
         copied \<leftarrow> mem_read byref_header_type m1 copy;
         e1 \<leftarrow> rmem_write byref_header_type copy (copied\<lparr>by_forwarding := copy\<rparr>) (e\<lparr>re_mem := m1\<rparr>);
         e2 \<leftarrow> set_byref_refcount copy 1 e1;
         original \<leftarrow> mem_read byref_header_type (re_mem e2) forwarded;
         e3 \<leftarrow> rmem_write byref_header_type forwarded (original\<lparr>by_forwarding := copy\<rparr>) e2;
         let e4 = set_byref_count copy (Some 1) e3;
         e5 \<leftarrow> (if and (by_flags header) BLOCK_HAS_COPY_DISPOSE \<noteq> 0 then do {
             helpers \<leftarrow> mem_read byref_helpers_type (re_mem e4) copy;
             sd_guest C (bk_keep helpers) [copy, forwarded] e4 }
           else Some e4);
         Some (copy, e5) } }"

definition release_byref :: "('h, 'm) calls \<Rightarrow> vaddr \<Rightarrow> ('h, 'm) renv \<Rightarrow> ('h, 'm) renv run" where
  "release_byref C source e = do {
     forwarded \<leftarrow> byref_forwarded source e;
     case bs_byrefs (ob_block (re_objc e)) forwarded of
       None \<Rightarrow> Some e
     | Some n \<Rightarrow>
         if 1 < n then set_byref_refcount forwarded (n - 1) (set_byref_count forwarded (Some (n - 1)) e)
         else do {
           let e1 = set_byref_count forwarded None e;
           header \<leftarrow> mem_read byref_header_type (re_mem e1) forwarded;
           e2 \<leftarrow> (if and (by_flags header) BLOCK_HAS_COPY_DISPOSE \<noteq> 0 then do {
               helpers \<leftarrow> mem_read byref_helpers_type (re_mem e1) forwarded;
               sd_guest C (bk_dispose helpers) [forwarded] e1 }
             else Some e1);
           m \<leftarrow> mem_free (sd_discard C) (re_mem e2) forwarded;
           Some (e2\<lparr>re_mem := m\<rparr>) } }"

definition Block_object_assign :: "('h, 'm) calls \<Rightarrow> vaddr \<Rightarrow> vaddr \<Rightarrow> i32 \<Rightarrow> ('h, 'm) renv \<Rightarrow> ('h, 'm) renv run" where
  "Block_object_assign C destination object flags e = (let f = and flags 0xFF in
     if f = 3 then do { (r, e1) \<leftarrow> objc_retain C object e; rmem_write u32_type destination r e1 }
     else if f = 19 then do { (_, e1) \<leftarrow> initialize_weak_reference destination object e; Some e1 }
     else if f = 7 then do { (c, e1) \<leftarrow> copy_block C object e; rmem_write u32_type destination c e1 }
     else if f = 8 \<or> f = 24 then do { (c, e1) \<leftarrow> copy_byref C object e; rmem_write u32_type destination c e1 }
     else if f = 131 \<or> f = 135 \<or> f = 147 then rmem_write u32_type destination object e
     else None)"

definition Block_object_dispose :: "('h, 'm) calls \<Rightarrow> vaddr \<Rightarrow> i32 \<Rightarrow> ('h, 'm) renv \<Rightarrow> ('h, 'm) renv run" where
  "Block_object_dispose C object flags e = (let f = and flags 0xFF in
     if f = 3 then objc_release C object e
     else if f = 7 then do { (b, e1) \<leftarrow> release_if_block C object e; _ \<leftarrow> rassert b; Some e1 }
     else if f = 8 \<or> f = 24 then release_byref C object e
     else if f = 131 \<or> f = 135 \<or> f = 147 then Some e
     else None)"

subsection \<open>Locations in memory\<close>

text \<open>\<open>place m l\<close>: the word at \<open>l\<close> can be read and written; \<open>word_bytes l\<close>: its bytes.\<close>

definition place :: "guest_mem \<Rightarrow> vaddr \<Rightarrow> bool" where
  "place m l \<longleftrightarrow> mm_null m \<le> l \<and> unat l + 4 \<le> 2 ^ 32"

definition word_bytes :: "vaddr \<Rightarrow> nat set" where
  "word_bytes l = {unat l ..< unat l + 4}"

lemma u32_word_size [simp]: "gt_size u32_type = 4" "unat (gt_size u32_type) = 4"
  by (simp_all add: u32_type_def)

lemma u32_write_place: "mem_write u32_type m l x = Some m' \<Longrightarrow> place m l"
  by (simp add: mem_write_def bytes_at_mut_put_def place_def in_bounds_nat rassert_def not_less split: if_splits)

lemma u32_write:
  assumes "mem_write u32_type m l x = Some m'"
  shows "m' = m\<lparr>mm_bytes := put_range (mm_bytes m) l (gt_enc u32_type x)\<rparr>"
    and "mem_read u32_type m' l = Some x"
    and "agree_on (- word_bytes l) (mm_bytes m') (mm_bytes m)"
    and "mm_null m' = mm_null m" and "mm_heap m' = mm_heap m" and "mm_vm m' = mm_vm m"
proof -
  have pl: "mm_null m \<le> l" "unat l + 4 \<le> 2 ^ 32" using u32_write_place [OF assms] by (simp_all add: place_def)
  show m': "m' = m\<lparr>mm_bytes := put_range (mm_bytes m) l (gt_enc u32_type x)\<rparr>"
    using u32c.write_ok [of m l x] assms pl by simp
  then show "mm_null m' = mm_null m" "mm_heap m' = mm_heap m" "mm_vm m' = mm_vm m" by simp_all
  have len: "length (gt_enc u32_type x) = 4" by (simp add: u32c.enc_length)
  have b: "unat l + length (gt_enc u32_type x) \<le> 2 ^ 32" "length (gt_enc u32_type x) < 2 ^ 32" using pl len by simp_all
  show "agree_on (- word_bytes l) (mm_bytes m') (mm_bytes m)"
    unfolding m' using b len by (simp add: agree_on_put word_bytes_def)
  show "mem_read u32_type m' l = Some x"
    using u32c.read_ok [of m' l] pl get_put_same [OF b, of "mm_bytes m"] by (simp add: m' len u32c.dec_enc)
qed

lemma u32_read_agree:
  assumes "agree_on (word_bytes l) (mm_bytes m') (mm_bytes m)" and "mm_null m' = mm_null m" and "place m l"
  shows "mem_read u32_type m' l = mem_read u32_type m l"
  using assms u32c.read_ok [of m l] u32c.read_ok [of m' l] agree_on_range [of l 4 "mm_bytes m'" "mm_bytes m"]
  by (simp add: place_def word_bytes_def)

lemma rmem_write_u32:
  assumes "rmem_write u32_type l x e = Some e'"
  shows "re_objc e' = re_objc e" "re_regs e' = re_regs e" "place (re_mem e) l" "mem_write u32_type (re_mem e) l x = Some (re_mem e')"
  using assms u32_write_place by (auto simp: rmem_write_def run_simps)

lemma write_nils_frame:
  "write_nils ls m = Some m' \<Longrightarrow> agree_on (- \<Union> (word_bytes ` set ls)) (mm_bytes m') (mm_bytes m)
    \<and> mm_null m' = mm_null m \<and> mm_heap m' = mm_heap m \<and> mm_vm m' = mm_vm m"
proof (induction ls arbitrary: m)
  case Nil
  then show ?case by (simp add: agree_on_def)
next
  case (Cons l ls)
  then obtain m1 where m1: "mem_write u32_type m l nil = Some m1" "write_nils ls m1 = Some m'" by (auto simp: run_simps)
  note w = u32_write [OF m1(1)] and IH = Cons.IH [OF m1(2)]
  have "agree_on (- \<Union> (word_bytes ` set (l # ls))) (mm_bytes m1) (mm_bytes m)" using w(3) by (rule agree_on_mono) auto
  moreover have "agree_on (- \<Union> (word_bytes ` set (l # ls))) (mm_bytes m') (mm_bytes m1)"
    using conjunct1 [OF IH] by (rule agree_on_mono) auto
  ultimately have "agree_on (- \<Union> (word_bytes ` set (l # ls))) (mm_bytes m') (mm_bytes m)" by (rule agree_on_trans [rotated])
  then show ?case using w(4-6) IH by simp
qed

definition apart :: "vaddr set \<Rightarrow> bool" where
  "apart L \<longleftrightarrow> (\<forall>l \<in> L. \<forall>l' \<in> L. l \<noteq> l' \<longrightarrow> word_bytes l \<inter> word_bytes l' = {})"

lemma apartD: "apart L \<Longrightarrow> l \<in> L \<Longrightarrow> l' \<in> L \<Longrightarrow> l \<noteq> l' \<Longrightarrow> word_bytes l \<inter> word_bytes l' = {}"
  by (simp add: apart_def)

lemma apart_subset: "apart L \<Longrightarrow> M \<subseteq> L \<Longrightarrow> apart M"
  unfolding apart_def by blast

lemma write_nils_read:
  "write_nils ls m = Some m' \<Longrightarrow> apart (set ls) \<Longrightarrow> distinct ls \<Longrightarrow> l \<in> set ls \<Longrightarrow> mem_read u32_type m' l = Some nil"
proof (induction ls arbitrary: m)
  case Nil
  then show ?case by simp
next
  case (Cons k ls)
  then obtain m1 where m1: "mem_write u32_type m k nil = Some m1" "write_nils ls m1 = Some m'" by (auto simp: run_simps)
  have ap: "apart (set ls)" using Cons.prems(2) by (rule apart_subset) auto
  show ?case
  proof (cases "l \<in> set ls")
    case True
    then show ?thesis using Cons.IH [OF m1(2) ap] Cons.prems(3) by simp
  next
    case False
    then have l: "l = k" using Cons.prems(4) by simp
    note w = u32_write [OF m1(1)] and fr = write_nils_frame [OF m1(2)]
    have "word_bytes l \<inter> word_bytes x = {}" if "x \<in> set ls" for x
      using apartD [OF Cons.prems(2), of l x] that False l by auto
    then have "word_bytes l \<subseteq> - \<Union> (word_bytes ` set ls)" by auto
    then have "agree_on (word_bytes l) (mm_bytes m') (mm_bytes m1)" using agree_on_mono fr by blast
    moreover have "place m1 l" using u32_write_place [OF m1(1)] w(4) l by (simp add: place_def)
    ultimately show ?thesis using u32_read_agree [of l m' m1] fr w(2) l by simp
  qed
qed

subsection \<open>Weak references, abstractly\<close>

text \<open>
  \<open>weak_rel B G e\<close>: \<open>G\<close> maps each location of a weak reference to what it must refer to: a live object,
  a block of \<open>B\<close>, or \<open>nil\<close>. The runtime's table is its inverse, and memory holds its values.
\<close>

type_synonym weak_map = "vaddr \<Rightarrow> vaddr option"

definition weak_locations :: "('h, 'm) objc \<Rightarrow> vaddr \<Rightarrow> vaddr list" where
  "weak_locations ob object = (case ob_weak ob object of None \<Rightarrow> [] | Some ls \<Rightarrow> ls)"

definition weak_rel :: "vaddr set \<Rightarrow> weak_map \<Rightarrow> ('h, 'm) renv \<Rightarrow> bool" where
  "weak_rel B G e \<longleftrightarrow> mem_inv (re_mem e) \<and> apart (dom G)
     \<and> (\<forall>l v. G l = Some v \<longrightarrow> place (re_mem e) l \<and> mem_read u32_type (re_mem e) l = Some v
         \<and> (v = nil \<or> v \<in> B \<or> ob_objects (re_objc e) v \<noteq> None))
     \<and> (\<forall>v. distinct (weak_locations (re_objc e) v) \<and> (v \<noteq> nil \<longrightarrow> set (weak_locations (re_objc e) v) = {l. G l = Some v}))"

lemma weak_relD:
  assumes "weak_rel B G e"
  shows "mem_inv (re_mem e)" "apart (dom G)"
    "G l = Some v \<Longrightarrow> place (re_mem e) l" "G l = Some v \<Longrightarrow> mem_read u32_type (re_mem e) l = Some v"
    "G l = Some v \<Longrightarrow> v = nil \<or> v \<in> B \<or> ob_objects (re_objc e) v \<noteq> None"
    "distinct (weak_locations (re_objc e) v)" "v \<noteq> nil \<Longrightarrow> set (weak_locations (re_objc e) v) = {l. G l = Some v}"
  using assms unfolding weak_rel_def by blast+

lemma weak_relI:
  assumes "mem_inv (re_mem e)" and "apart (dom G)"
    and "\<And>l v. G l = Some v \<Longrightarrow> place (re_mem e) l \<and> mem_read u32_type (re_mem e) l = Some v"
    and "\<And>l v. G l = Some v \<Longrightarrow> v = nil \<or> v \<in> B \<or> ob_objects (re_objc e) v \<noteq> None"
    and "\<And>v. distinct (weak_locations (re_objc e) v)"
    and "\<And>v. v \<noteq> nil \<Longrightarrow> set (weak_locations (re_objc e) v) = {l. G l = Some v}"
  shows "weak_rel B G e"
  using assms unfolding weak_rel_def by blast

lemma weak_locations_unregister:
  "weak_locations (re_objc (unregister_weak_reference l v e)) x
    = (if x = v \<and> v \<noteq> nil then removeAll l (weak_locations (re_objc e) v) else weak_locations (re_objc e) x)"
  by (auto simp: unregister_weak_reference_def weak_locations_def Let_def split: option.splits)

lemma unregister_frame [simp]:
  "re_mem (unregister_weak_reference l v e) = re_mem e" "re_regs (unregister_weak_reference l v e) = re_regs e"
  "ob_objects (re_objc (unregister_weak_reference l v e)) = ob_objects (re_objc e)"
  "ob_block (re_objc (unregister_weak_reference l v e)) = ob_block (re_objc e)"
  by (simp_all add: unregister_weak_reference_def Let_def split: option.splits)

lemma weak_unregister:
  assumes "weak_rel B G e" and "G l = Some v"
  shows "weak_rel B (G(l := None)) (unregister_weak_reference l v e)"
proof -
  note r = weak_relD [OF assms(1)]
  have "apart (dom (G(l := None)))" using r(2) by (rule apart_subset) auto
  moreover have "set (weak_locations (re_objc (unregister_weak_reference l v e)) x) = {k. (G(l := None)) k = Some x}"
    if "x \<noteq> nil" for x
    using r(7) [OF that] assms(2) that by (auto simp: weak_locations_unregister)
  moreover have "distinct (weak_locations (re_objc (unregister_weak_reference l v e)) x)" for x
    using r(6) by (auto simp: weak_locations_unregister distinct_removeAll)
  ultimately show ?thesis using r(1,3-5) unfolding weak_rel_def by (auto split: if_splits)
qed

text \<open>Writing a word elsewhere.\<close>

definition away :: "weak_map \<Rightarrow> vaddr \<Rightarrow> bool" where
  "away G l \<longleftrightarrow> (\<forall>k \<in> dom G. word_bytes l \<inter> word_bytes k = {})"

lemma weak_frame:
  assumes "weak_rel B G e" and "mem_inv (re_mem e')" and "mm_null (re_mem e') = mm_null (re_mem e)"
    and "\<And>l. l \<in> dom G \<Longrightarrow> agree_on (word_bytes l) (mm_bytes (re_mem e')) (mm_bytes (re_mem e))"
    and "ob_weak (re_objc e') = ob_weak (re_objc e)" and "dom (ob_objects (re_objc e)) \<subseteq> dom (ob_objects (re_objc e'))"
  shows "weak_rel B G e'"
proof -
  note r = weak_relD [OF assms(1)]
  have pl: "place (re_mem e') l = place (re_mem e) l" for l using assms(3) by (simp add: place_def)
  have rd: "mem_read u32_type (re_mem e') l = Some v" if "G l = Some v" for l v
    using u32_read_agree [OF assms(4) [OF domI [where m = G, OF that]] assms(3) r(3) [OF that]] r(4) [OF that] by simp
  have obj: "ob_objects (re_objc e) v \<noteq> None \<Longrightarrow> ob_objects (re_objc e') v \<noteq> None" for v using assms(6) by blast
  have ls: "weak_locations (re_objc e') = weak_locations (re_objc e)"
    using assms(5) by (intro ext) (simp add: weak_locations_def)
  show ?thesis
  proof (rule weak_relI [OF assms(2) r(2)])
    fix l v
    show "place (re_mem e') l \<and> mem_read u32_type (re_mem e') l = Some v" if "G l = Some v" using rd r(3) pl that by simp
    show "v = nil \<or> v \<in> B \<or> ob_objects (re_objc e') v \<noteq> None" if "G l = Some v" using r(5) [OF that] obj by blast
  qed (simp_all add: ls r(6,7))
qed

lemma mem_inv_write: "mem_write u32_type m l x = Some m' \<Longrightarrow> mem_inv m' = mem_inv m \<and> mem_live m' = mem_live m"
  using u32_write(4-6) by (intro mem_inv_cong)

lemma weak_write_away:
  assumes "weak_rel B G e" and "rmem_write u32_type l x e = Some e'" and "away G l"
  shows "weak_rel B G e'"
proof -
  note w = rmem_write_u32 [OF assms(2)]
  have "agree_on (word_bytes k) (mm_bytes (re_mem e')) (mm_bytes (re_mem e))" if "k \<in> dom G" for k
    using u32_write(3) [OF w(4)] by (rule agree_on_mono) (use assms(3) that in \<open>auto simp: away_def\<close>)
  then show ?thesis using assms(1) w(1) u32_write(4) [OF w(4)] mem_inv_write [OF w(4)] weak_relD(1) [OF assms(1)]
    by (intro weak_frame [OF assms(1)]) simp_all
qed

text \<open>What a reference to \<open>v\<close> refers to once it is made.\<close>

definition weak_target :: "('h, 'm) renv \<Rightarrow> vaddr \<Rightarrow> vaddr" where
  "weak_target e v = (if v = nil \<or> ob_objects (re_objc e) v \<noteq> None \<or> is_block e v = Some True then v else nil)"

lemma weak_initialize:
  assumes R: "weak_rel B G e" and l: "G l = None" "away G l" and i: "initialize_weak_reference l v e = Some (t, e')"
    and B: "ob_objects (re_objc e) v = None \<longrightarrow> is_block e v = Some True \<longrightarrow> v \<in> B"
  shows "t = weak_target e v" and "weak_rel B (G(l \<mapsto> t)) e'" and "ob_objects (re_objc e') = ob_objects (re_objc e)"
proof -
  obtain b e1 where b: "(if v = nil \<or> ob_objects (re_objc e) v \<noteq> None then Some True else is_block e v) = Some b"
      "rmem_write u32_type l (if b then v else nil) e = Some e1"
    using i unfolding initialize_weak_reference_def bind_Some_iff Let_def by blast
  then have t0: "t = (if b then v else nil)"
    and e': "e' = (if t \<noteq> nil then e1\<lparr>re_objc := (re_objc e1)\<lparr>ob_weak := (ob_weak (re_objc e1))
        (t \<mapsto> List.insert l (weak_locations (re_objc e1) t))\<rparr>\<rparr> else e1)"
    using i by (auto simp: initialize_weak_reference_def weak_locations_def Let_def split: if_split_asm)
  note b = b t0
  show t: "t = weak_target e v" using b(1,3) by (auto simp: weak_target_def split: if_splits)
  note w = rmem_write_u32 [OF b(2)]
  show ob: "ob_objects (re_objc e') = ob_objects (re_objc e)" using e' w(1) by simp
  have R1: "weak_rel B G e1" by (rule weak_write_away [OF R b(2) l(2)])
  note r = weak_relD [OF R1]
  have mem: "re_mem e' = re_mem e1" using e' by simp
  have at: "place (re_mem e1) l" "mem_read u32_type (re_mem e1) l = Some t"
    using u32_write(2,4) [OF w(4)] w(3) b(3) by (simp_all add: place_def)
  have tl: "t = nil \<or> t \<in> B \<or> ob_objects (re_objc e1) t \<noteq> None"
    using t B w(1) by (auto simp: weak_target_def split: if_splits)
  have ls: "weak_locations (re_objc e') x = (if x = t \<and> t \<noteq> nil then List.insert l (weak_locations (re_objc e1) t)
      else weak_locations (re_objc e1) x)" for x
    using e' by (simp add: weak_locations_def)
  show "weak_rel B (G(l \<mapsto> t)) e'"
  proof (rule weak_relI)
    show "mem_inv (re_mem e')" using r(1) mem by simp
    show "apart (dom (G(l \<mapsto> t)))" using r(2) l by (auto simp: apart_def away_def domI Int_commute)
    fix k x
    show "place (re_mem e') k \<and> mem_read u32_type (re_mem e') k = Some x" if "(G(l \<mapsto> t)) k = Some x"
      using that at r(3,4) [of k x] mem by (cases "k = l") simp_all
    show "x = nil \<or> x \<in> B \<or> ob_objects (re_objc e') x \<noteq> None" if "(G(l \<mapsto> t)) k = Some x"
      using that tl r(5) [of k x] ob w(1) by (cases "k = l") simp_all
    show "distinct (weak_locations (re_objc e') x)" using r(6) ls by simp
    show "set (weak_locations (re_objc e') x) = {k. (G(l \<mapsto> t)) k = Some x}" if "x \<noteq> nil"
      using r(7) [OF that] ls [of x] l(1) that by auto
  qed
qed

text \<open>Deallocation clears the references to the object.\<close>

definition zero_references :: "vaddr \<Rightarrow> weak_map \<Rightarrow> weak_map" where
  "zero_references object G = (\<lambda>l. if G l = Some object then Some nil else G l)"

lemma clear_weak_law:
  assumes R: "weak_rel B G e" and v: "v \<noteq> nil" and c: "clear_weak_references v (re_objc e) (re_mem e) = Some (ob, m)"
  shows "weak_rel B (zero_references v G) (e\<lparr>re_mem := m, re_objc := ob\<rparr>)" "mem_live m = mem_live (re_mem e)"
    "ob_objects ob = ob_objects (re_objc e)"
proof -
  note r = weak_relD [OF R]
  let ?ls = "weak_locations (re_objc e) v"
  have m: "write_nils ?ls (re_mem e) = Some m"
    using c by (auto simp: clear_weak_references_def weak_locations_def run_simps split: option.splits)
  have ob: "weak_locations ob x = (if x = v then [] else weak_locations (re_objc e) x)"
    and objs: "ob_objects ob = ob_objects (re_objc e)" for x
    using c by (auto simp: clear_weak_references_def weak_locations_def run_simps split: option.splits)
  show "ob_objects ob = ob_objects (re_objc e)" by (rule objs)
  note fr = write_nils_frame [OF m]
  have inv: "mem_inv m = mem_inv (re_mem e) \<and> mem_live m = mem_live (re_mem e)" using fr by (intro mem_inv_cong) simp_all
  then show "mem_live m = mem_live (re_mem e)" by simp
  have ls: "set ?ls = {l. G l = Some v}" by (rule r(7) [OF v])
  have "set ?ls \<subseteq> dom G" using ls by auto
  with r(2) have ap: "apart (set ?ls)" by (rule apart_subset)
  have rd: "mem_read u32_type m l = Some (if x = v then nil else x)" if "G l = Some x" for l x
  proof (cases "x = v")
    case True
    then show ?thesis using write_nils_read [OF m ap r(6), of l] that ls by simp
  next
    case False
    have "word_bytes l \<inter> word_bytes k = {}" if "k \<in> set ?ls" for k
    proof -
      have k: "G k = Some v" using that ls by simp
      then have "l \<noteq> k" using False \<open>G l = Some x\<close> by auto
      moreover have "l \<in> dom G" "k \<in> dom G" using \<open>G l = Some x\<close> k by blast+
      ultimately show ?thesis using apartD [OF r(2)] by blast
    qed
    then have "agree_on (word_bytes l) (mm_bytes m) (mm_bytes (re_mem e))" using fr by (auto intro: agree_on_mono)
    then show ?thesis using u32_read_agree [of l m "re_mem e"] fr r(3,4) [OF that] False by simp
  qed
  have "dom (zero_references v G) = dom G" by (rule set_eqI) (simp add: zero_references_def domIff)
  moreover have "place m l = place (re_mem e) l" for l using fr by (simp add: place_def)
  moreover have "distinct (weak_locations ob x)" for x using r(6) ob by simp
  moreover have "set (weak_locations ob x) = {l. zero_references v G l = Some x}" if "x \<noteq> nil" for x
    using r(7) [OF that] ob that by (auto simp: zero_references_def)
  ultimately show "weak_rel B (zero_references v G) (e\<lparr>re_mem := m, re_objc := ob\<rparr>)"
    using r(1-3,5) rd inv objs unfolding weak_rel_def by (auto simp: zero_references_def split: if_splits)
qed

lemma dealloc_law:
  assumes R: "weak_rel B G e" and d: "discard_ok discard" and v: "v \<noteq> nil"
    and c: "c \<in> mem_live (re_mem e)" "ch_base c = v" "\<forall>l \<in> dom G. word_bytes l \<inter> chunk_bytes c = {}"
    and run: "dealloc_object discard v (re_objc e) (re_mem e) = Some (ob, m)"
  shows "weak_rel B (zero_references v G) (e\<lparr>re_mem := m, re_objc := ob\<rparr>)"
    and "ob_objects ob = (ob_objects (re_objc e))(v := None)" and "mem_live m = mem_live (re_mem e) - {c}"
proof -
  obtain ob1 m1 h where o: "clear_weak_references v (re_objc e) (re_mem e) = Some (ob1, m1)"
      "free_in_heap discard m1 None v = Some (m, h)" "ob = ob1\<lparr>ob_objects := (ob_objects ob1)(v := None)\<rparr>"
    using run by (auto simp: dealloc_object_def mem_free_def run_simps)
  note cl = clear_weak_law [OF R v o(1)]
  let ?G = "zero_references v G" and ?e1 = "e\<lparr>re_mem := m1, re_objc := ob1\<rparr>"
  note r = weak_relD [OF cl(1)]
  have fr: "mem_inv m" "mem_live m = mem_live m1 - {c}" "mm_null m = mm_null m1"
      "agree_on (- chunk_bytes c) (mm_bytes m) (mm_bytes m1)"
    using free_in_heap_law [of m1 c discard m h] r(1) c(1,2) cl(2) d o(2) by simp_all
  show "mem_live m = mem_live (re_mem e) - {c}" using fr(2) cl(2) by simp
  show obj: "ob_objects ob = (ob_objects (re_objc e))(v := None)" using o(3) cl(3) by simp
  have "l \<in> dom ?G \<Longrightarrow> l \<in> dom G" for l by (auto simp: zero_references_def split: if_splits)
  then have "agree_on (word_bytes l) (mm_bytes m) (mm_bytes m1)" if "l \<in> dom ?G" for l
    using c(3) that by (intro agree_on_mono [OF fr(4)]) auto
  then have R2: "weak_rel B ?G (?e1\<lparr>re_mem := m\<rparr>)" using fr(1,3) by (intro weak_frame [OF cl(1)]) simp_all
  have "?G l \<noteq> Some v" for l using v by (simp add: zero_references_def)
  moreover have "weak_locations ob x = weak_locations ob1 x" for x using o(3) by (simp add: weak_locations_def)
  ultimately show "weak_rel B ?G (e\<lparr>re_mem := m, re_objc := ob\<rparr>)"
    using R2 o(3) unfolding weak_rel_def by auto
qed

text \<open>
  A step of a program that uses the functions on weak references as the compiler does: a location is
  initialised, copied or moved to when it holds no reference yet, and an object goes away only
  when no such location lies in it. A reference that is moved is to an object (the write of \<open>nil\<close>
  could hit a block). \<open>other\<close> is any other code.
\<close>

inductive weak_step ::
    "host_discard \<Rightarrow> vaddr set \<Rightarrow> ('h, 'm) renv \<Rightarrow> weak_map \<Rightarrow> ('h, 'm) renv \<Rightarrow> weak_map \<Rightarrow> bool" for discard B where
  init: "G l = None \<Longrightarrow> away G l \<Longrightarrow> is_block e v \<noteq> Some True \<or> v \<in> B \<Longrightarrow> objc_initWeak l v e = Some (t, e')
    \<Longrightarrow> weak_step discard B e G e' (G(l \<mapsto> weak_target e v))"
| store: "G l = Some old \<Longrightarrow> is_block e v \<noteq> Some True \<or> v \<in> B \<Longrightarrow> objc_storeWeak l v e = Some (t, e')
    \<Longrightarrow> weak_step discard B e G e' (G(l \<mapsto> weak_target e v))"
| copy: "G k = Some v \<Longrightarrow> G l = None \<Longrightarrow> away G l \<Longrightarrow> objc_copyWeak l k e = Some e'
    \<Longrightarrow> weak_step discard B e G e' (G(l \<mapsto> weak_target e v))"
| move: "G k = Some v \<Longrightarrow> G l = None \<Longrightarrow> away G l \<Longrightarrow> v = nil \<or> ob_objects (re_objc e) v \<noteq> None
    \<Longrightarrow> objc_moveWeak l k e = Some e' \<Longrightarrow> weak_step discard B e G e' (G(k \<mapsto> nil, l \<mapsto> v))"
| destroy: "G l = Some v \<Longrightarrow> objc_destroyWeak l e = Some e' \<Longrightarrow> weak_step discard B e G e' (G(l := None))"
| dealloc: "v \<noteq> nil \<Longrightarrow> c \<in> mem_live (re_mem e) \<Longrightarrow> ch_base c = v \<Longrightarrow> \<forall>l \<in> dom G. word_bytes l \<inter> chunk_bytes c = {}
    \<Longrightarrow> ns_object_dealloc discard v e = Some e' \<Longrightarrow> weak_step discard B e G e' (zero_references v G)"
| other: "mem_inv (re_mem e') \<Longrightarrow> mm_null (re_mem e') = mm_null (re_mem e)
    \<Longrightarrow> \<forall>l \<in> dom G. agree_on (word_bytes l) (mm_bytes (re_mem e')) (mm_bytes (re_mem e))
    \<Longrightarrow> ob_weak (re_objc e') = ob_weak (re_objc e) \<Longrightarrow> dom (ob_objects (re_objc e)) \<subseteq> dom (ob_objects (re_objc e'))
    \<Longrightarrow> weak_step discard B e G e' G"

inductive weak_run ::
    "host_discard \<Rightarrow> vaddr set \<Rightarrow> ('h, 'm) renv \<Rightarrow> weak_map \<Rightarrow> ('h, 'm) renv \<Rightarrow> weak_map \<Rightarrow> bool" for discard B where
  start: "weak_run discard B e G e G"
| step: "weak_run discard B e G e1 G1 \<Longrightarrow> weak_step discard B e1 G1 e2 G2 \<Longrightarrow> weak_run discard B e G e2 G2"

lemma weak_target_unregister [simp]: "weak_target (unregister_weak_reference l u e) v = weak_target e v"
  by (simp add: weak_target_def is_block_def classify_def Let_def)

lemma is_block_unregister [simp]: "is_block (unregister_weak_reference l u e) v = is_block e v"
  by (simp add: is_block_def classify_def Let_def)

lemma is_block_nil [simp]: "is_block e nil = Some False"
  by (simp add: is_block_def classify_def)

lemma away_others: "apart (dom G) \<Longrightarrow> l \<in> dom G \<Longrightarrow> away (G(l := None)) l"
  by (auto simp: away_def apart_def)

lemma weak_write_nil:
  assumes R: "weak_rel B G e" and l: "G l = None" "away G l" and w: "rmem_write u32_type l nil e = Some e'"
  shows "weak_rel B (G(l \<mapsto> nil)) e'"
proof -
  note r = weak_relD [OF weak_write_away [OF R w l(2)]] and f = rmem_write_u32 [OF w]
  show ?thesis
  proof (rule weak_relI [OF r(1)])
    show "apart (dom (G(l \<mapsto> nil)))" using r(2) l by (auto simp: apart_def away_def domI Int_commute)
    fix k x
    show "place (re_mem e') k \<and> mem_read u32_type (re_mem e') k = Some x" if "(G(l \<mapsto> nil)) k = Some x"
      using that r(3,4) [of k x] u32_write(2,4) [OF f(4)] f(3) by (cases "k = l") (simp_all add: place_def)
    show "x = nil \<or> x \<in> B \<or> ob_objects (re_objc e') x \<noteq> None" if "(G(l \<mapsto> nil)) k = Some x"
      using that r(5) [of k x] by (cases "k = l") simp_all
    show "distinct (weak_locations (re_objc e') x)" by (rule r(6))
    show "set (weak_locations (re_objc e') x) = {k. (G(l \<mapsto> nil)) k = Some x}" if "x \<noteq> nil"
      using r(7) [OF that] l(1) that by auto
  qed
qed

lemma weak_step_rel:
  assumes "weak_step discard B e G e' G'" and R: "weak_rel B G e" and d: "discard_ok discard"
  shows "weak_rel B G' e'"
  using assms(1)
proof cases
  case (init l v t)
  note w = weak_initialize [OF R init(2,3) init(5) [unfolded objc_initWeak_def]]
  show ?thesis using w(1,2) init(1,4) by auto
next
  case (store l old v t)
  let ?e = "unregister_weak_reference l old e"
  have i: "initialize_weak_reference l v ?e = Some (t, e')"
    using store(4) weak_relD(4) [OF R store(2)] by (simp add: objc_storeWeak_def)
  have "away (G(l := None)) l" using weak_relD(2) [OF R] store(2) by (intro away_others) auto
  note w = weak_initialize [OF weak_unregister [OF R store(2)] _ this i]
  show ?thesis using w(1,2) store(1,3) by auto
next
  case (copy k v l)
  obtain t where i: "initialize_weak_reference l v e = Some (t, e')"
    using copy(5) weak_relD(4) [OF R copy(2)] by (auto simp: objc_copyWeak_def run_simps)
  note w = weak_initialize [OF R copy(3,4) i]
  show ?thesis using w(1,2) copy(1) weak_relD(5) [OF R copy(2)] by (cases "v = nil") auto
next
  case (move k v l)
  let ?e = "unregister_weak_reference k v e"
  obtain e1 t where w: "rmem_write u32_type k nil ?e = Some e1" and i: "initialize_weak_reference l v e1 = Some (t, e')"
    using move(6) weak_relD(4) [OF R move(2)] by (auto simp: objc_moveWeak_def run_simps)
  have "away (G(k := None)) k" using weak_relD(2) [OF R] move(2) by (intro away_others) auto
  then have R1: "weak_rel B (G(k \<mapsto> nil)) e1"
    using weak_write_nil [OF weak_unregister [OF R move(2)] _ _ w] by simp
  have "l \<noteq> k" using move(2,3) by auto
  then have "(G(k \<mapsto> nil)) l = None" "away (G(k \<mapsto> nil)) l" using move(2-4) by (auto simp: away_def)
  note z = weak_initialize [OF R1 this i]
  have "ob_objects (re_objc e1) = ob_objects (re_objc e)" using rmem_write_u32(1) [OF w] by simp
  then show ?thesis using z(1,2) move(1,5) by (cases "v = nil") (auto simp: weak_target_def)
next
  case (destroy l v)
  have "rmem_write u32_type l nil (unregister_weak_reference l v e) = Some e'"
    using destroy(3) weak_relD(4) [OF R destroy(2)] by (simp add: objc_destroyWeak_def)
  moreover have "away (G(l := None)) l" using weak_relD(2) [OF R] destroy(2) by (intro away_others) auto
  ultimately show ?thesis using weak_write_away [OF weak_unregister [OF R destroy(2)]] destroy(1) by simp
next
  case (dealloc v c)
  then obtain ob m where o: "dealloc_object discard v (re_objc e) (re_mem e) = Some (ob, m)" "e' = e\<lparr>re_mem := m, re_objc := ob\<rparr>"
    by (auto simp: ns_object_dealloc_def run_simps)
  show ?thesis using dealloc_law(1) [OF R d dealloc(2-5) o(1)] o(2) dealloc(1) by simp
next
  case other
  then show ?thesis using weak_frame [OF R other(2,3)] by simp
qed

lemma weak_run_rel: "weak_run discard B e G e' G' \<Longrightarrow> weak_rel B G e \<Longrightarrow> discard_ok discard \<Longrightarrow> weak_rel B G' e'"
  by (induction rule: weak_run.induct) (blast intro: weak_step_rel)+

subsection \<open>Balanced reference counts\<close>

text \<open>A sequence of messages \<open>retain\<close> (\<open>True\<close>) and \<open>release\<close> to an object.\<close>

fun run_refs :: "host_discard \<Rightarrow> vaddr \<Rightarrow> bool list \<Rightarrow> ('h, 'm) renv \<Rightarrow> ('h, 'm) renv run" where
  "run_refs discard v [] e = Some e"
| "run_refs discard v (b # bs) e = do {
     e1 \<leftarrow> (if b then map_option snd (ns_object_retain v e) else ns_object_release (ns_object_dealloc discard) v e);
     run_refs discard v bs e1 }"

text \<open>The reference count after them, from \<open>n\<close> on.\<close>

definition balance :: "nat \<Rightarrow> bool list \<Rightarrow> int" where
  "balance n bs = int n + int (length (filter id bs)) - int (length (filter Not bs))"

lemma balance_simps [simp]:
  "balance n [] = int n" "balance n (bs @ [b]) = balance n bs + (if b then 1 else - 1)"
  by (simp_all add: balance_def)

definition set_count :: "vaddr \<Rightarrow> u32 option \<Rightarrow> ('h, 'm) renv \<Rightarrow> ('h, 'm) renv" where
  "set_count v n e = e\<lparr>re_objc := set_refcount v n (re_objc e)\<rparr>"

lemma get_refcount_set [simp]:
  "get_refcount (set_refcount v n ob) v = (if ob_objects ob v = None then None else n)"
  by (cases "ob_objects ob v") (simp_all add: get_refcount_def set_refcount_def)

lemma set_refcount_twice [simp]: "set_refcount v n (set_refcount v k ob) = set_refcount v n ob"
  by (cases "ob_objects ob v") (simp_all add: set_refcount_def)

lemma set_refcount_same: "get_refcount ob v = Some n \<Longrightarrow> set_refcount v (Some n) ob = ob"
  by (auto simp: get_refcount_def set_refcount_def run_simps fun_upd_idem)

lemma run_refs_append:
  fixes e :: "('h, 'm) renv"
  shows "run_refs discard v (bs @ cs) e = do { e1 \<leftarrow> run_refs discard v bs e; run_refs discard v cs e1 }"
proof (induction bs arbitrary: e)
  case (Cons b bs)
  have "run_refs discard v (bs @ cs) = (\<lambda>y :: ('h, 'm) renv. run_refs discard v bs y \<bind> run_refs discard v cs)"
    by (intro ext) (rule Cons.IH)
  then show ?case by (simp add: Option.bind_assoc)
qed simp

lemma u32_of_int_eq: "0 \<le> i \<Longrightarrow> i < 2 ^ 32 \<Longrightarrow> unat (of_int i :: u32) = nat i"
  by (simp add: unat_eq_nat_uint uint_word_of_int)

lemma run_refs_count:
  "get_refcount (re_objc e) v = Some (of_nat n) \<Longrightarrow> n < 2 ^ 32
    \<Longrightarrow> \<forall>k \<le> length bs. 0 < balance n (take k bs) \<and> balance n (take k bs) < 2 ^ 32
    \<Longrightarrow> run_refs discard v bs e = Some (set_count v (Some (of_int (balance n bs))) e)"
proof (induction bs rule: rev_induct)
  case Nil
  then show ?case by (simp add: set_count_def set_refcount_same)
next
  case (snoc b bs)
  have "\<forall>k \<le> length bs. 0 < balance n (take k bs) \<and> balance n (take k bs) < 2 ^ 32"
  proof (intro allI impI)
    fix k assume k: "k \<le> length bs"
    then have "take k (bs @ [b]) = take k bs" by simp
    moreover have "k \<le> length (bs @ [b])" using k by simp
    ultimately show "0 < balance n (take k bs) \<and> balance n (take k bs) < 2 ^ 32" using snoc.prems(3) by metis
  qed
  then have IH: "run_refs discard v bs e = Some (set_count v (Some (of_int (balance n bs))) e)" and now: "0 < balance n bs" "balance n bs < 2 ^ 32"
    using snoc.IH snoc.prems(1,2) by auto
  have nxt: "0 < balance n (bs @ [b])" "balance n (bs @ [b]) < 2 ^ 32" using snoc.prems(3) by (auto dest: spec [of _ "length (bs @ [b])"])
  have live: "ob_objects (re_objc e) v \<noteq> None" using snoc.prems(1) by (auto simp: get_refcount_def run_simps)
  note u = u32_of_int_eq [of "balance n bs"]
  show ?case
  proof (cases b)
    case True
    have "add_chk (of_int (balance n bs)) 1 = Some (of_int (balance n bs) + 1 :: u32)"
      using u now nxt True by (simp add: add_chk_def)
    then show ?thesis using True IH live
      by (simp add: run_refs_append ns_object_retain_def increment_refcount_def set_count_def)
  next
    case False
    have "(of_int (balance n bs) :: u32) \<noteq> 1" 
    proof
      assume "(of_int (balance n bs) :: u32) = 1"
      then have "nat (balance n bs) = 1" using u now by simp
      with nxt False show False by simp
    qed
    moreover from this have "(of_int (balance n bs) :: u32) - 1 \<noteq> 0" by simp
    ultimately show ?thesis using False IH live
      by (simp add: run_refs_append ns_object_release_def decrement_refcount_def set_count_def)
  qed
qed

lemma mem_free_ok:
  assumes inv: "mem_inv m" and c: "c \<in> mem_live m" and total: "\<And>p n f. discard p n f \<noteq> None"
  shows "\<exists>m'. mem_free discard m (ch_base c) = Some m'"
proof -
  obtain h where h: "mm_heap m = Some h" "c \<in> hp_live h" using c by (auto simp: mem_live_def split: option.splits)
  then have "hp_inv (mm_vm m) h" using inv by (simp add: mem_inv_def)
  from hp_free_live [OF this h(2)] obtain vm' h' where "hp_free (mm_vm m) h (ch_base c) = Some (vm', h', ch_size c)" by blast
  then have "allocators_mut m None (\<lambda>vm h. hp_free vm h (ch_base c)) = Some (m\<lparr>mm_vm := vm', mm_heap := Some h'\<rparr>, None, ch_size c)"
    using h(1) by (simp add: allocators_mut_def)
  moreover obtain f where "discard (ch_base c) (ch_size c) (mm_bytes m) = Some f" using total by fastforce
  ultimately show ?thesis by (auto simp: mem_free_def free_in_heap_def)
qed

lemma write_nils_ok: "\<forall>l \<in> set ls. place m l \<Longrightarrow> \<exists>m'. write_nils ls m = Some m'"
proof (induction ls arbitrary: m)
  case (Cons l ls)
  have "mem_write u32_type m l nil = Some (m\<lparr>mm_bytes := put_range (mm_bytes m) l (gt_enc u32_type nil)\<rparr>)" (is "_ = Some ?m1")
    using Cons.prems by (intro u32c.write_ok) (simp_all add: place_def)
  moreover have "\<exists>m'. write_nils ls ?m1 = Some m'" using Cons.prems by (intro Cons.IH) (simp add: place_def)
  ultimately show ?case by auto
qed simp

lemma dealloc_ok:
  assumes R: "weak_rel B G e" and v: "v \<noteq> nil" "ob_objects (re_objc e) v \<noteq> None"
    and c: "c \<in> mem_live (re_mem e)" "ch_base c = v" and total: "\<And>p n f. discard p n f \<noteq> None"
  shows "\<exists>ob m. dealloc_object discard v (re_objc e) (re_mem e) = Some (ob, m)"
proof -
  have "\<forall>l \<in> set (weak_locations (re_objc e) v). place (re_mem e) l"
    using weak_relD(3,7) [OF R] v(1) by auto
  from write_nils_ok [OF this] obtain ob1 m1 where cl: "clear_weak_references v (re_objc e) (re_mem e) = Some (ob1, m1)"
    by (auto simp: clear_weak_references_def weak_locations_def split: option.splits)
  note w = clear_weak_law [OF R v(1) cl]
  have "mem_inv m1" using weak_relD(1) [OF w(1)] by simp
  then obtain m2 where "mem_free discard m1 v = Some m2" using mem_free_ok [of m1 c discard] c total w(2) by auto
  with cl w(3) v(2) show ?thesis by (auto simp: dealloc_object_def)
qed

subsection \<open>Properties\<close>


text \<open>C37: An object lives as long as its references: after any balanced sequence of messages \<open>retain\<close>
  and \<open>release\<close> its count is the number it started with, plus the retains, minus the releases, and
  the release of the last reference deallocates it: it is gone from the runtime and from the
  heap, and every weak reference to it is \<open>nil\<close>.\<close>

theorem last_release_deallocates:
  assumes "get_refcount (re_objc e) v = Some (of_nat n)" and "n < 2 ^ 32"
    and "\<forall>k \<le> length bs. 0 < balance n (take k bs) \<and> balance n (take k bs) < 2 ^ 32"
    and "weak_rel B G e" and "discard_ok discard" and "\<forall>p n f. discard p n f \<noteq> None" and "v \<noteq> nil"
    and "c \<in> mem_live (re_mem e)" and "ch_base c = v" and "\<forall>l \<in> dom G. word_bytes l \<inter> chunk_bytes c = {}"
  shows "run_refs discard v bs e = Some (set_count v (Some (of_int (balance n bs))) e)
    \<and> (balance n bs = 1 \<longrightarrow> (\<exists>e'. run_refs discard v (bs @ [False]) e = Some e'
        \<and> ob_objects (re_objc e') v = None \<and> mem_live (re_mem e') = mem_live (re_mem e) - {c}
        \<and> weak_rel B (zero_references v G) e'))"
proof (intro conjI impI)
  show run: "run_refs discard v bs e = Some (set_count v (Some (of_int (balance n bs))) e)"
    by (rule run_refs_count [OF assms(1-3)])
  assume one: "balance n bs = 1"
  have live: "ob_objects (re_objc e) v \<noteq> None" using assms(1) by (auto simp: get_refcount_def run_simps)
  let ?e = "set_count v None e"
  have "dom (ob_objects (re_objc e)) \<subseteq> dom (ob_objects (re_objc ?e))"
    using live by (auto simp: set_count_def set_refcount_def)
  then have R: "weak_rel B G ?e" using weak_relD(1) [OF assms(4)]
    by (intro weak_frame [OF assms(4)]) (simp_all add: set_count_def set_refcount_def agree_on_def)
  have v: "ob_objects (re_objc ?e) v \<noteq> None" using live by (auto simp: set_count_def set_refcount_def)
  have c: "c \<in> mem_live (re_mem ?e)" using assms(8) by (simp add: set_count_def)
  obtain ob m where d: "dealloc_object discard v (re_objc ?e) (re_mem ?e) = Some (ob, m)"
    using dealloc_ok [OF R assms(7) v c assms(9)] assms(6) by blast
  note law = dealloc_law [OF R assms(5,7) c assms(9,10) d]
  have "run_refs discard v (bs @ [False]) e = Some (?e\<lparr>re_mem := m, re_objc := ob\<rparr>)"
    using run one live d
    by (simp add: run_refs_append ns_object_release_def decrement_refcount_def ns_object_dealloc_def set_count_def)
  then show "\<exists>e'. run_refs discard v (bs @ [False]) e = Some e' \<and> ob_objects (re_objc e') v = None
      \<and> mem_live (re_mem e') = mem_live (re_mem e) - {c} \<and> weak_rel B (zero_references v G) e'"
    using law by (auto simp: set_count_def)
qed

text \<open>
  The example: an object at \<open>0x1000\<close>, on the heap and with one reference, to which the word at
  \<open>0x2000\<close> comes to refer weakly.
\<close>

definition weak_demo :: "(unit, unit) renv" where
  "weak_demo = \<lparr>re_mem = fst (the (alloc_in_heap booted None 16)), re_regs = (\<lambda>_. 0),
     re_objc = \<lparr>ob_selectors = (\<lambda>_. None),
       ob_objects = [0x1000 \<mapsto> \<lparr>he_object = Host_Object (), he_refcount = Some 1\<rparr>], ob_weak = (\<lambda>_. None),
       ob_block = \<lparr>bs_stack = None, bs_global = None, bs_malloc = None, bs_blocks = (\<lambda>_. None), bs_byrefs = (\<lambda>_. None)\<rparr>,
       ob_classes = [], ob_class_names = (\<lambda>_. None), ob_class_superclasses = (\<lambda>_. None),
       ob_protocols = [], ob_class_protocols = (\<lambda>_. None), ob_message_type = None\<rparr>\<rparr>"

abbreviation zero_discard :: host_discard where
  "zero_discard \<equiv> \<lambda>p n f. Some (zero_range f p n)"

lemma zero_discard_ok: "discard_ok zero_discard"
  by (simp add: discard_ok_def zero_range_apply)

lemma weak_demo_rel: "weak_rel {} (\<lambda>_. None) weak_demo"
  and weak_demo_chunk: "\<exists>c \<in> mem_live (re_mem weak_demo). ch_base c = 0x1000 \<and> ch_size c = 16"
proof -
  have "map_option (\<lambda>(m, _, p). p) (alloc_in_heap booted None 16) = Some 0x1000" unfolding booted_def by code_simp
  then obtain m h where a: "alloc_in_heap booted None 16 = Some (m, h, 0x1000)" by auto
  then have m: "re_mem weak_demo = m" by (simp add: weak_demo_def)
  obtain c where c: "0x1000 = ch_base c" "h = None" "mem_inv m" "c \<in> mem_live m"
    using alloc_in_heap_law [OF booted_inv a] by blast
  show "weak_rel {} (\<lambda>_. None) weak_demo"
    using c(3) m by (intro weak_relI) (simp_all add: weak_demo_def weak_locations_def apart_def)
  have "map_option (\<lambda>(_, _, n). n) (do { (m, _, p) \<leftarrow> alloc_in_heap booted None 16; malloc_size_in_heap_or_panic m None p })
      = Some 16" unfolding booted_def by code_simp
  with a obtain x y where "malloc_size_in_heap_or_panic m None 0x1000 = Some (x, y, 16)" by (auto simp: run_simps)
  from malloc_size_law [OF c(3) this] have "mk_chunk (0x1000, 16) \<in> mem_live m" by blast
  then have "mk_chunk (0x1000, 16) = c" using chunks_ok_base [OF mem_live_ok [OF c(3)] _ c(4)] c(1) by simp
  then show "\<exists>c \<in> mem_live (re_mem weak_demo). ch_base c = 0x1000 \<and> ch_size c = 16"
    using c(4) m by (metis fst_conv mk_chunk_simps snd_conv)
qed

lemma weak_demo_init: "\<exists>e1. objc_initWeak 0x2000 0x1000 weak_demo = Some (0x1000, e1)
    \<and> weak_step zero_discard {} weak_demo (\<lambda>_. None) e1 [0x2000 \<mapsto> 0x1000]"
proof -
  have "map_option fst (objc_initWeak 0x2000 0x1000 weak_demo) = Some 0x1000" unfolding weak_demo_def booted_def by code_simp
  then obtain e1 where e1: "objc_initWeak 0x2000 0x1000 weak_demo = Some (0x1000, e1)" by auto
  have "is_block weak_demo 0x1000 = Some False" unfolding weak_demo_def booted_def by code_simp
  moreover have "weak_target weak_demo 0x1000 = 0x1000" by (simp add: weak_target_def weak_demo_def)
  ultimately have "weak_step zero_discard {} weak_demo (\<lambda>_. None) e1 ((\<lambda>_. None)(0x2000 \<mapsto> 0x1000))"
    using weak_step.init [of "\<lambda>_. None" "0x2000" weak_demo "0x1000" "{}" "0x1000" e1] e1 by (simp add: away_def)
  with e1 show ?thesis by blast
qed


theorem last_release_deallocates_witness:
  "\<exists>e'. run_refs zero_discard 0x1000 [True, False, False] weak_demo = Some e' \<and> ob_objects (re_objc e') 0x1000 = None"
proof -
  obtain c where c: "c \<in> mem_live (re_mem weak_demo)" "ch_base c = 0x1000" using weak_demo_chunk by blast
  have "get_refcount (re_objc weak_demo) 0x1000 = Some (of_nat 1)" by (simp add: get_refcount_def weak_demo_def)
  moreover have "\<forall>k \<le> length [True, False]. 0 < balance 1 (take k [True, False]) \<and> balance 1 (take k [True, False]) < 2 ^ 32"
    by (auto simp: balance_def take_Cons' le_Suc_eq numeral_2_eq_2)
  ultimately show ?thesis
    using last_release_deallocates [of weak_demo "0x1000" 1 "[True, False]" "{}" "\<lambda>_. None" zero_discard c]
      weak_demo_rel zero_discard_ok c by (auto simp: balance_def)
qed

end
