(* ===== verification/Objc_Classes.thy ===== *)
theory Objc_Classes
  imports Objc_Objects "HOL-Library.AList" "HOL-Library.List_Lexorder"
begin

text \<open>
  Selectors, methods, classes, protocols and messages of the Objective-C runtime:
  \<open>src/objc/selectors.rs\<close>, \<open>src/objc/methods.rs\<close>, \<open>src/objc/classes.rs\<close>, \<open>src/objc/properties.rs\<close>,
  \<open>src/objc/protocols.rs\<close> and \<open>src/objc/messages.rs\<close>. The classes that the frameworks define are a
  parameter, the function \<open>find_template\<close>; so are the sections of a binary (address and size),
  running a method, and \<open>+initialize\<close>. A table that the code enumerates is an association list,
  enumerated in the order of the list.
\<close>

subsection \<open>Selectors\<close>

definition cstr_unwrap :: "guest_mem \<Rightarrow> vaddr \<Rightarrow> u8 list run" where
  "cstr_unwrap m p = do { r \<leftarrow> cstr_at_utf8 m p; result_run r }"

definition lookup_selector :: "('h, 'm) objc \<Rightarrow> u8 list \<Rightarrow> vaddr option" where
  "lookup_selector ob name = ob_selectors ob name"

definition add_selector :: "u8 list \<Rightarrow> vaddr \<Rightarrow> ('h, 'm) objc \<Rightarrow> ('h, 'm) objc" where
  "add_selector name sel ob = ob\<lparr>ob_selectors := (ob_selectors ob)(name \<mapsto> sel)\<rparr>"

definition register_host_selector ::
    "u8 list \<Rightarrow> ('h, 'm) objc \<Rightarrow> guest_mem \<Rightarrow> (vaddr \<times> ('h, 'm) objc \<times> guest_mem) run" where
  "register_host_selector name ob m = (case lookup_selector ob name of
     Some existing \<Rightarrow> Some (existing, ob, m)
   | None \<Rightarrow> do { (m1, sel) \<leftarrow> alloc_and_write_cstr m name; Some (sel, add_selector name sel ob, m1) })"

text \<open>\<open>names\<close>: the selectors of all host classes, class methods before instance methods.\<close>

fun register_host_selectors ::
    "u8 list list \<Rightarrow> ('h, 'm) objc \<Rightarrow> guest_mem \<Rightarrow> (('h, 'm) objc \<times> guest_mem) run" where
  "register_host_selectors [] ob m = Some (ob, m)"
| "register_host_selectors (name # names) ob m = (if ob_selectors ob name \<noteq> None
     then register_host_selectors names ob m
     else do {
       (m1, sel) \<leftarrow> alloc_and_write_cstr m name;
       register_host_selectors names (add_selector name sel ob) m1 })"

definition register_bin_selector :: "vaddr \<Rightarrow> guest_mem \<Rightarrow> ('h, 'm) objc \<Rightarrow> (vaddr \<times> ('h, 'm) objc) run" where
  "register_bin_selector sel_cstr m ob = do {
     sel_str \<leftarrow> cstr_unwrap m sel_cstr;
     Some (case lookup_selector ob sel_str of
       Some existing \<Rightarrow> (existing, ob)
     | None \<Rightarrow> (sel_cstr, add_selector sel_str sel_cstr ob)) }"

text \<open>A packed structure of \<open>n\<close> words is read as a list.\<close>

definition words_type :: "nat \<Rightarrow> u32 list guest_type" where
  "words_type n = \<lparr>gt_size = of_nat (4 * n), gt_enc = (\<lambda>ws. concat (map (le_enc 4) ws)),
     gt_dec = (\<lambda>bs. map (\<lambda>i. field32 (4 * i) bs) [0..<n])\<rparr>"

fun selref_loop :: "vaddr \<Rightarrow> nat list \<Rightarrow> ('h, 'm) objc \<Rightarrow> guest_mem \<Rightarrow> (('h, 'm) objc \<times> guest_mem) run" where
  "selref_loop base [] ob m = Some (ob, m)"
| "selref_loop base (i # is) ob m = do {
     sel_cstr \<leftarrow> elem_at u32_type m base (ix i);
     (sel, ob1) \<leftarrow> register_bin_selector sel_cstr m ob;
     m1 \<leftarrow> set_elem u32_type m base (ix i) sel;
     selref_loop base is ob1 m1 }"

definition register_bin_selectors ::
    "(vaddr \<times> u32) option \<Rightarrow> ('h, 'm) objc \<Rightarrow> guest_mem \<Rightarrow> (('h, 'm) objc \<times> guest_mem) run" where
  "register_bin_selectors selrefs ob m = (case selrefs of
     None \<Rightarrow> Some (ob, m)
   | Some (addr, sz) \<Rightarrow> do {
       _ \<leftarrow> rassert (sz mod 4 = 0);
       selref_loop addr [0..<unat sz div 4] ob m })"

definition sel_registerName :: "vaddr \<Rightarrow> ('h, 'm) renv \<Rightarrow> (vaddr \<times> ('h, 'm) renv) run" where
  "sel_registerName name e = do {
     s \<leftarrow> cstr_unwrap (re_mem e) name;
     case lookup_selector (re_objc e) s of
       Some existing \<Rightarrow> Some (existing, e)
     | None \<Rightarrow> do {
         (sel, ob, m) \<leftarrow> register_host_selector s (re_objc e) (re_mem e);
         Some (sel, e\<lparr>re_mem := m, re_objc := ob\<rparr>) } }"

subsection \<open>Methods\<close>

definition add_method :: "vaddr \<Rightarrow> guest_imp \<Rightarrow> vaddr \<Rightarrow> 'm class_object \<Rightarrow> 'm class_object" where
  "add_method sel f types c = c\<lparr>cl_methods := (cl_methods c)(sel \<mapsto> Guest_IMP f),
     cl_signatures := (cl_signatures c)(sel \<mapsto> types)\<rparr>"

fun add_methods_loop ::
    "vaddr \<Rightarrow> u32 \<Rightarrow> guest_mem \<Rightarrow> nat list \<Rightarrow> 'm class_object \<Rightarrow> ('h, 'm) objc \<Rightarrow> ('m class_object \<times> ('h, 'm) objc) run" where
  "add_methods_loop base entsize m [] c ob = Some (c, ob)"
| "add_methods_loop base entsize m (i # is) c ob = do {
     off \<leftarrow> mul_chk (ix i) entsize;
     p \<leftarrow> add_chk base off;
     ws \<leftarrow> mem_read (words_type 3) m p;
     (sel, ob1) \<leftarrow> register_bin_selector (ws ! 0) m ob;
     add_methods_loop base entsize m is (add_method sel (ws ! 2) (ws ! 1) c) ob1 }"

definition add_methods_from_bin ::
    "vaddr \<Rightarrow> guest_mem \<Rightarrow> 'm class_object \<Rightarrow> ('h, 'm) objc \<Rightarrow> ('m class_object \<times> ('h, 'm) objc) run" where
  "add_methods_from_bin list_ptr m c ob = do {
     ws \<leftarrow> mem_read (words_type 2) m list_ptr;
     _ \<leftarrow> rassert (12 \<le> ws ! 0);
     base \<leftarrow> ptr_add 8 list_ptr 1;
     add_methods_loop base (ws ! 0) m [0..<unat (ws ! 1)] c ob }"

partial_function (option) class_has_method :: "('h, 'm) objc \<Rightarrow> vaddr \<Rightarrow> vaddr \<Rightarrow> bool run" where
  "class_has_method ob class sel = do {
     c \<leftarrow> borrow_class ob class;
     if cl_methods c sel \<noteq> None then Some True
     else if cl_superclass c = nil then Some False
     else class_has_method ob (cl_superclass c) sel }"

definition class_has_uninherited_method :: "('h, 'm) objc \<Rightarrow> vaddr \<Rightarrow> vaddr \<Rightarrow> bool run" where
  "class_has_uninherited_method ob class sel = do { c \<leftarrow> borrow_class ob class; Some (cl_methods c sel \<noteq> None) }"

partial_function (option) class_get_method_signature :: "('h, 'm) objc \<Rightarrow> vaddr \<Rightarrow> vaddr \<Rightarrow> vaddr option run" where
  "class_get_method_signature ob class sel = do {
     c \<leftarrow> borrow_class ob class;
     if cl_methods c sel \<noteq> None then Some (cl_signatures c sel)
     else if cl_superclass c = nil then Some None
     else class_get_method_signature ob (cl_superclass c) sel }"

partial_function (option) class_overrides_method_of_superclass ::
    "('h, 'm) objc \<Rightarrow> vaddr \<Rightarrow> vaddr \<Rightarrow> vaddr \<Rightarrow> bool run" where
  "class_overrides_method_of_superclass ob class sel superclass = (if class = superclass then Some False else do {
     c \<leftarrow> borrow_class ob class;
     if cl_methods c sel \<noteq> None then Some True
     else if cl_superclass c = nil then None
     else class_overrides_method_of_superclass ob (cl_superclass c) sel superclass })"

definition object_get_method_signature :: "('h, 'm) objc \<Rightarrow> guest_mem \<Rightarrow> vaddr \<Rightarrow> vaddr \<Rightarrow> vaddr option run" where
  "object_get_method_signature ob m object sel = do { class \<leftarrow> read_isa object m; class_get_method_signature ob class sel }"

definition class_has_method_named :: "('h, 'm) objc \<Rightarrow> vaddr \<Rightarrow> u8 list \<Rightarrow> bool run" where
  "class_has_method_named ob class sel_name = (case lookup_selector ob sel_name of
     Some sel \<Rightarrow> class_has_method ob class sel | None \<Rightarrow> Some False)"

definition object_has_method :: "('h, 'm) objc \<Rightarrow> guest_mem \<Rightarrow> vaddr \<Rightarrow> vaddr \<Rightarrow> bool run" where
  "object_has_method ob m object sel = do { class \<leftarrow> read_isa object m; class_has_method ob class sel }"

definition object_has_uninherited_method :: "('h, 'm) objc \<Rightarrow> guest_mem \<Rightarrow> vaddr \<Rightarrow> vaddr \<Rightarrow> bool run" where
  "object_has_uninherited_method ob m object sel = do { class \<leftarrow> read_isa object m; class_has_uninherited_method ob class sel }"

definition object_has_method_named :: "('h, 'm) objc \<Rightarrow> guest_mem \<Rightarrow> vaddr \<Rightarrow> u8 list \<Rightarrow> bool run" where
  "object_has_method_named ob m object sel_name = (case lookup_selector ob sel_name of
     Some sel \<Rightarrow> object_has_method ob m object sel | None \<Rightarrow> Some False)"

definition class_addMethod :: "vaddr \<Rightarrow> vaddr \<Rightarrow> guest_imp \<Rightarrow> vaddr \<Rightarrow> ('h, 'm) objc \<Rightarrow> (bool \<times> ('h, 'm) objc) run" where
  "class_addMethod cls name f types ob = (if cls = nil \<or> name = 0 then Some (False, ob) else do {
     own \<leftarrow> class_has_uninherited_method ob cls name;
     if own then Some (False, ob)
     else do { c \<leftarrow> borrow_class ob cls; Some (True, set_class cls (add_method name f types c) ob) } })"

subsection \<open>Instance variables and properties\<close>

fun add_ivars_loop :: "vaddr \<Rightarrow> u32 \<Rightarrow> guest_mem \<Rightarrow> nat list \<Rightarrow> 'm class_object \<Rightarrow> 'm class_object run" where
  "add_ivars_loop base entsize m [] c = Some c"
| "add_ivars_loop base entsize m (i # is) c = do {
     off \<leftarrow> mul_chk (ix i) entsize;
     p \<leftarrow> add_chk base off;
     ws \<leftarrow> mem_read (words_type 5) m p;
     name \<leftarrow> cstr_unwrap m (ws ! 1);
     add_ivars_loop base entsize m is (c\<lparr>cl_ivars := AList.update name (ws ! 0, ws ! 3) (cl_ivars c)\<rparr>) }"

definition add_ivars_from_bin :: "vaddr \<Rightarrow> guest_mem \<Rightarrow> 'm class_object \<Rightarrow> 'm class_object run" where
  "add_ivars_from_bin list_ptr m c = do {
     ws \<leftarrow> mem_read (words_type 2) m list_ptr;
     _ \<leftarrow> rassert (20 \<le> ws ! 0);
     base \<leftarrow> ptr_add 8 list_ptr 1;
     add_ivars_loop base (ws ! 0) m [0..<unat (ws ! 1)] c }"

partial_function (option) lookup_ivar :: "('h, 'm) objc \<Rightarrow> guest_mem \<Rightarrow> vaddr \<Rightarrow> u8 list \<Rightarrow> vaddr \<Rightarrow> vaddr option run" where
  "lookup_ivar ob m object name class = do {
     c \<leftarrow> borrow_class ob class;
     case map_of (cl_ivars c) name of
       Some (offset_ptr, _) \<Rightarrow> do {
         offset \<leftarrow> mem_read u32_type m offset_ptr;
         p \<leftarrow> add_chk object offset;
         Some (Some p) }
     | None \<Rightarrow> if cl_superclass c = nil then Some None else lookup_ivar ob m object name (cl_superclass c) }"

definition object_lookup_ivar :: "('h, 'm) objc \<Rightarrow> guest_mem \<Rightarrow> vaddr \<Rightarrow> u8 list \<Rightarrow> vaddr option run" where
  "object_lookup_ivar ob m object name = do { class \<leftarrow> read_isa object m; lookup_ivar ob m object name class }"

text \<open>\<open>checked_add_signed\<close>.\<close>

definition ivar_ptr :: "vaddr \<Rightarrow> i32 \<Rightarrow> vaddr run" where
  "ivar_ptr this offset = (let a = uint this + sint offset in
     if 0 \<le> a \<and> a < 2 ^ 32 then Some (of_int a) else None)"

definition objc_getProperty :: "vaddr \<Rightarrow> i32 \<Rightarrow> ('h, 'm) renv \<Rightarrow> vaddr run" where
  "objc_getProperty this offset e = do {
     _ \<leftarrow> rassert (4 \<le> sint offset);
     p \<leftarrow> ivar_ptr this offset;
     mem_read u32_type (re_mem e) p }"

text \<open>\<open>copy\<close> sends \<open>copyWithZone:\<close> (1) or \<open>mutableCopyWithZone:\<close> (2).\<close>

definition objc_setProperty ::
    "('h, 'm) calls \<Rightarrow> (u8 \<Rightarrow> vaddr \<Rightarrow> ('h, 'm) renv \<Rightarrow> (vaddr \<times> ('h, 'm) renv) run) \<Rightarrow> vaddr \<Rightarrow> i32 \<Rightarrow> vaddr \<Rightarrow> u8
      \<Rightarrow> ('h, 'm) renv \<Rightarrow> ('h, 'm) renv run" where
  "objc_setProperty C copy this offset val should_copy e = do {
     _ \<leftarrow> rassert (4 \<le> sint offset);
     p \<leftarrow> ivar_ptr this offset;
     old \<leftarrow> mem_read u32_type (re_mem e) p;
     (new, e1) \<leftarrow> (if val \<noteq> nil then
         if should_copy = 0 then retain C val e
         else if should_copy = 1 \<or> should_copy = 2 then copy should_copy val e
         else None
       else Some (nil, e));
     e2 \<leftarrow> rmem_write u32_type p new e1;
     if old \<noteq> nil then release C old e2 else Some e2 }"

definition objc_setProperty_plain ::
    "('h, 'm) calls \<Rightarrow> (u8 \<Rightarrow> vaddr \<Rightarrow> ('h, 'm) renv \<Rightarrow> (vaddr \<times> ('h, 'm) renv) run) \<Rightarrow> vaddr \<Rightarrow> vaddr \<Rightarrow> i32
      \<Rightarrow> ('h, 'm) renv \<Rightarrow> ('h, 'm) renv run" where
  "objc_setProperty_plain C copy this val offset e = objc_setProperty C copy this offset val 0 e"

definition objc_setProperty_copy ::
    "('h, 'm) calls \<Rightarrow> (u8 \<Rightarrow> vaddr \<Rightarrow> ('h, 'm) renv \<Rightarrow> (vaddr \<times> ('h, 'm) renv) run) \<Rightarrow> vaddr \<Rightarrow> vaddr \<Rightarrow> i32
      \<Rightarrow> ('h, 'm) renv \<Rightarrow> ('h, 'm) renv run" where
  "objc_setProperty_copy C copy this val offset e = objc_setProperty C copy this offset val 1 e"

definition objc_copyStruct :: "vaddr \<Rightarrow> vaddr \<Rightarrow> u32 \<Rightarrow> ('h, 'm) renv \<Rightarrow> ('h, 'm) renv run" where
  "objc_copyStruct dest src n e = do { m \<leftarrow> mem_memmove (re_mem e) dest src n; Some (e\<lparr>re_mem := m\<rparr>) }"

subsection \<open>Protocols of a binary\<close>

fun read_ids :: "vaddr \<Rightarrow> guest_mem \<Rightarrow> nat list \<Rightarrow> vaddr list run" where
  "read_ids base m [] = Some []"
| "read_ids base m (i # is) = do { p \<leftarrow> elem_at u32_type m base (ix i); ps \<leftarrow> read_ids base m is; Some (p # ps) }"

definition read_protocol_list :: "guest_mem \<Rightarrow> vaddr \<Rightarrow> vaddr list run" where
  "read_protocol_list m list_ptr = (if list_ptr = 0 then Some [] else do {
     count \<leftarrow> mem_read u32_type m list_ptr;
     base \<leftarrow> ptr_add 4 list_ptr 1;
     read_ids base m [0..<unat count] })"

text \<open>\<open>protocol_t\<close> has 8 words: name 1, adopted protocols 2, then the four lists of methods.\<close>

fun protocol_objects_loop :: "vaddr \<Rightarrow> guest_mem \<Rightarrow> nat list \<Rightarrow> ('h, 'm) objc \<Rightarrow> ('h, 'm) objc run" where
  "protocol_objects_loop base m [] ob = Some ob"
| "protocol_objects_loop base m (i # is) ob = do {
     protocol \<leftarrow> elem_at u32_type m base (ix i);
     raw \<leftarrow> mem_read (words_type 8) m protocol;
     name \<leftarrow> cstr_unwrap m (raw ! 1);
     _ \<leftarrow> rassert (get_host_object ob protocol = None);
     ob1 \<leftarrow> register_static_object protocol (Protocol_Object
       \<lparr>po_name = name, po_name_ptr = raw ! 1, po_adopted = [], po_required_instance = raw ! 3,
        po_required_class = raw ! 4, po_optional_instance = raw ! 5, po_optional_class = raw ! 6\<rparr>) ob;
     protocol_objects_loop base m is (if map_of (ob_protocols ob1) name = None
       then ob1\<lparr>ob_protocols := AList.update name protocol (ob_protocols ob1)\<rparr> else ob1) }"

definition protocol_host_object :: "('h, 'm) objc \<Rightarrow> vaddr \<Rightarrow> protocol_object option" where
  "protocol_host_object ob protocol = (case get_host_object ob protocol of Some (Protocol_Object p) \<Rightarrow> Some p | _ \<Rightarrow> None)"

definition set_protocol :: "vaddr \<Rightarrow> protocol_object \<Rightarrow> ('h, 'm) objc \<Rightarrow> ('h, 'm) objc" where
  "set_protocol object p ob = ob\<lparr>ob_objects :=
     (ob_objects ob)(object := map_option (\<lambda>x. x\<lparr>he_object := Protocol_Object p\<rparr>) (ob_objects ob object))\<rparr>"

fun protocol_adoption_loop :: "vaddr \<Rightarrow> guest_mem \<Rightarrow> nat list \<Rightarrow> ('h, 'm) objc \<Rightarrow> ('h, 'm) objc run" where
  "protocol_adoption_loop base m [] ob = Some ob"
| "protocol_adoption_loop base m (i # is) ob = do {
     protocol \<leftarrow> elem_at u32_type m base (ix i);
     raw \<leftarrow> mem_read (words_type 8) m protocol;
     p \<leftarrow> protocol_host_object ob protocol;
     adopted \<leftarrow> read_protocol_list m (raw ! 2);
     protocol_adoption_loop base m is (set_protocol protocol (p\<lparr>po_adopted := adopted\<rparr>) ob) }"

definition register_bin_protocols :: "(vaddr \<times> u32) option \<Rightarrow> guest_mem \<Rightarrow> ('h, 'm) objc \<Rightarrow> ('h, 'm) objc run" where
  "register_bin_protocols sect m ob = (case sect of
     None \<Rightarrow> Some ob
   | Some (addr, sz) \<Rightarrow> do {
       _ \<leftarrow> rassert (sz mod 4 = 0);
       ob1 \<leftarrow> protocol_objects_loop addr m [0..<unat sz div 4] ob;
       protocol_adoption_loop addr m [0..<unat sz div 4] ob1 })"

subsection \<open>Classes\<close>

record 'm class_template =
  tp_name :: "u8 list"
  tp_superclass :: "u8 list option"
  tp_class_methods :: "(u8 list \<times> 'm) list"
  tp_instance_methods :: "(u8 list \<times> 'm) list"

fun template_methods :: "('h, 'm) objc \<Rightarrow> (u8 list \<times> 'm) list \<Rightarrow> (vaddr \<Rightarrow> 'm imp option) \<Rightarrow> (vaddr \<Rightarrow> 'm imp option) run" where
  "template_methods ob [] acc = Some acc"
| "template_methods ob ((name, f) # ms) acc = do {
     sel \<leftarrow> ob_selectors ob name;
     template_methods ob ms (acc(sel \<mapsto> Host_IMP f)) }"

definition from_template :: "'m class_template \<Rightarrow> bool \<Rightarrow> vaddr \<Rightarrow> ('h, 'm) objc \<Rightarrow> 'm class_object run" where
  "from_template t is_metaclass superclass ob = do {
     ms \<leftarrow> template_methods ob (if is_metaclass then tp_class_methods t else tp_instance_methods t) (\<lambda>_. None);
     Some \<lparr>cl_name = tp_name t, cl_is_metaclass = is_metaclass, cl_superclass = superclass, cl_methods = ms,
       cl_signatures = (\<lambda>_. None), cl_ivars = [], cl_instance_start = 4, cl_instance_size = 4,
       cl_is_initialized = Not_Initialized\<rparr> }"

text \<open>\<open>class_t\<close> has 5 words (superclass 1, data 4) and \<open>class_rw_t\<close> 10 (start 1, size 2, name 4, methods 5, protocols 6, ivars 7).\<close>

definition from_bin :: "vaddr \<Rightarrow> bool \<Rightarrow> guest_mem \<Rightarrow> ('h, 'm) objc \<Rightarrow> ('m class_object \<times> ('h, 'm) objc) run" where
  "from_bin class is_metaclass m ob = do {
     ct \<leftarrow> mem_read (words_type 5) m class;
     rw \<leftarrow> mem_read (words_type 10) m (ct ! 4);
     name \<leftarrow> cstr_unwrap m (rw ! 4);
     let c = \<lparr>cl_name = name, cl_is_metaclass = is_metaclass, cl_superclass = ct ! 1, cl_methods = (\<lambda>_. None),
       cl_signatures = (\<lambda>_. None), cl_ivars = [], cl_instance_start = rw ! 1, cl_instance_size = rw ! 2,
       cl_is_initialized = Not_Initialized\<rparr>;
     (c1, ob1) \<leftarrow> (if rw ! 5 \<noteq> 0 then add_methods_from_bin (rw ! 5) m c ob else Some (c, ob));
     c2 \<leftarrow> (if rw ! 7 \<noteq> 0 then add_ivars_from_bin (rw ! 7) m c1 else Some c1);
     Some (c2, ob1) }"

definition fake_prefixes :: "string list" where
  "fake_prefixes = [''AdMob'', ''AltAds'', ''Mobclix'', ''FB'', ''Flurry'', ''OpenFeint'', ''Tapjoy'']"

definition starts_with :: "u8 list \<Rightarrow> string \<Rightarrow> bool" where
  "starts_with name p \<longleftrightarrow> take (length p) name = map of_char p"

definition substitute_classes ::
    "guest_mem \<Rightarrow> vaddr \<Rightarrow> vaddr \<Rightarrow> (('h, 'm) host_object \<times> ('h, 'm) host_object \<times> u8 list) option run" where
  "substitute_classes m class metaclass = do {
     ct \<leftarrow> mem_read (words_type 5) m class;
     rw \<leftarrow> mem_read (words_type 10) m (ct ! 4);
     name \<leftarrow> cstr_unwrap m (rw ! 4);
     if \<not> list_ex (starts_with name) fake_prefixes then Some None
     else do {
       mt \<leftarrow> mem_read (words_type 5) m metaclass;
       mrw \<leftarrow> mem_read (words_type 10) m (mt ! 4);
       metaclass_name \<leftarrow> cstr_unwrap m (mrw ! 4);
       _ \<leftarrow> rassert (name = metaclass_name);
       Some (Some (Fake_Class name False, Fake_Class name True, name)) } }"

definition get_class :: "('h, 'm) objc \<Rightarrow> u8 list \<Rightarrow> bool \<Rightarrow> guest_mem \<Rightarrow> vaddr option run" where
  "get_class ob name is_metaclass m = (case map_of (ob_classes ob) name of
     None \<Rightarrow> Some None
   | Some class \<Rightarrow> if is_metaclass then map_option Some (read_isa class m) else Some (Some class))"

definition host_superclass :: "('h, 'm) objc \<Rightarrow> vaddr \<Rightarrow> vaddr \<Rightarrow> vaddr" where
  "host_superclass ob class otherwise = (case borrow_class ob class of Some c \<Rightarrow> cl_superclass c | None \<Rightarrow> otherwise)"

definition NSObject :: "u8 list" where
  "NSObject = map of_char ''NSObject''"

text \<open>The end of \<open>link_class_inner\<close>, from the superclass of the metaclass of \<open>NSObject\<close> on.\<close>

definition link_register ::
    "u8 list \<Rightarrow> vaddr \<Rightarrow> vaddr \<Rightarrow> ('h, 'm) objc \<Rightarrow> guest_mem \<Rightarrow> (('h, 'm) objc \<times> guest_mem) run" where
  "link_register name class metaclass ob m = do {
     ob1 \<leftarrow> (if name = NSObject
       then do { mc \<leftarrow> borrow_class ob metaclass; Some (set_class metaclass (mc\<lparr>cl_superclass := class\<rparr>) ob) }
       else Some ob);
     (dc, dm) \<leftarrow> (if name = NSObject then Some (nil, class) else do {
         a \<leftarrow> get_class ob1 NSObject False m;
         b \<leftarrow> get_class ob1 NSObject True m;
         a \<leftarrow> a;
         b \<leftarrow> b;
         Some (a, b) });
     let supers = (ob_class_superclasses ob1)(class \<mapsto> host_superclass ob1 class dc, metaclass \<mapsto> host_superclass ob1 metaclass dm);
     (m1, name_ptr) \<leftarrow> alloc_and_write_cstr m name;
     Some (ob1\<lparr>ob_class_superclasses := supers,
       ob_class_names := (ob_class_names ob1)(class \<mapsto> name_ptr, metaclass \<mapsto> name_ptr),
       ob_classes := AList.update name class (ob_classes ob1)\<rparr>, m1) }"

partial_function (option) link_class_inner ::
    "(u8 list \<Rightarrow> 'm class_template option) \<Rightarrow> u8 list \<Rightarrow> bool \<Rightarrow> bool \<Rightarrow> ('h, 'm) objc \<Rightarrow> guest_mem
      \<Rightarrow> (vaddr \<times> ('h, 'm) objc \<times> guest_mem) run" where
  "link_class_inner find_template name is_metaclass use_placeholder ob m = do {
     known \<leftarrow> get_class ob name is_metaclass m;
     (case known of
       Some class \<Rightarrow> Some (class, ob, m)
     | None \<Rightarrow> do {
         (class_host_object, metaclass_host_object, ob1, m1) \<leftarrow> (case find_template name of
             Some t \<Rightarrow> (case tp_superclass t of
                 Some superclass_name \<Rightarrow> do {
                   _ \<leftarrow> rassert (find_template superclass_name \<noteq> None);
                   (s, obs, ms) \<leftarrow> link_class_inner find_template superclass_name False True ob m;
                   c \<leftarrow> from_template t False s obs;
                   (s', obs', ms') \<leftarrow> link_class_inner find_template superclass_name True True obs ms;
                   mc \<leftarrow> from_template t True s' obs';
                   Some (Class_Object c, Class_Object mc, obs', ms') }
               | None \<Rightarrow> do {
                   c \<leftarrow> from_template t False nil ob;
                   mc \<leftarrow> from_template t True nil ob;
                   Some (Class_Object c, Class_Object mc, ob, m) })
           | None \<Rightarrow> do {
               _ \<leftarrow> rassert use_placeholder;
               Some (Unimplemented_Class name False, Unimplemented_Class name True, ob, m) });
         (metaclass, ob2, m2) \<leftarrow> (if name = NSObject then do {
             (m', mc) \<leftarrow> alloc_and_write u32_type m1 nil;
             m'' \<leftarrow> mem_write u32_type m' mc mc;
             ob' \<leftarrow> register_static_object mc metaclass_host_object ob1;
             Some (mc, ob', m'') }
           else do {
             (isa, ob', m') \<leftarrow> link_class_inner find_template NSObject True True ob1 m1;
             alloc_static_object isa metaclass_host_object ob' m' });
         (class, ob3, m3) \<leftarrow> alloc_static_object metaclass class_host_object ob2 m2;
         (ob4, m4) \<leftarrow> link_register name class metaclass ob3 m3;
         Some (if is_metaclass then metaclass else class, ob4, m4) }) }"

definition link_class ::
    "(u8 list \<Rightarrow> 'm class_template option) \<Rightarrow> u8 list \<Rightarrow> bool \<Rightarrow> ('h, 'm) objc \<Rightarrow> guest_mem
      \<Rightarrow> (vaddr \<times> ('h, 'm) objc \<times> guest_mem) run" where
  "link_class find_template name is_metaclass ob m = link_class_inner find_template name is_metaclass True ob m"

definition get_known_class ::
    "(u8 list \<Rightarrow> 'm class_template option) \<Rightarrow> u8 list \<Rightarrow> ('h, 'm) objc \<Rightarrow> guest_mem
      \<Rightarrow> (vaddr \<times> ('h, 'm) objc \<times> guest_mem) run" where
  "get_known_class find_template name ob m = link_class_inner find_template name False False ob m"

definition register_bin_class :: "vaddr \<Rightarrow> guest_mem \<Rightarrow> ('h, 'm) objc \<Rightarrow> ('h, 'm) objc run" where
  "register_bin_class class m ob = do {
     metaclass \<leftarrow> read_isa class m;
     ct \<leftarrow> mem_read (words_type 5) m class;
     rw \<leftarrow> mem_read (words_type 10) m (ct ! 4);
     mt \<leftarrow> mem_read (words_type 5) m metaclass;
     mrw \<leftarrow> mem_read (words_type 10) m (mt ! 4);
     let ob1 = ob\<lparr>ob_class_names := (ob_class_names ob)(class \<mapsto> rw ! 4, metaclass \<mapsto> mrw ! 4),
       ob_class_superclasses := (ob_class_superclasses ob)(class \<mapsto> ct ! 1, metaclass \<mapsto> mt ! 1)\<rparr>;
     protocols \<leftarrow> read_protocol_list m (rw ! 6);
     let ob1 = (if protocols \<noteq> [] then ob1\<lparr>ob_class_protocols := (ob_class_protocols ob1)(class \<mapsto> protocols)\<rparr> else ob1);
     fakes \<leftarrow> substitute_classes m class metaclass;
     (c, mc, name, ob2) \<leftarrow> (case fakes of
         Some (f, mf, name) \<Rightarrow> Some (f, mf, name, ob1)
       | None \<Rightarrow> do {
           (c, ob') \<leftarrow> from_bin class False m ob1;
           (mc, ob'') \<leftarrow> from_bin metaclass True m ob';
           _ \<leftarrow> rassert (cl_name c = cl_name mc);
           Some (Class_Object c, Class_Object mc, cl_name c, ob'') });
     ob3 \<leftarrow> register_static_object class c ob2;
     ob4 \<leftarrow> register_static_object metaclass mc ob3;
     Some (ob4\<lparr>ob_classes := AList.update name class (ob_classes ob4)\<rparr>) }"

fun register_loop :: "vaddr \<Rightarrow> guest_mem \<Rightarrow> nat list \<Rightarrow> ('h, 'm) objc \<Rightarrow> ('h, 'm) objc run" where
  "register_loop base m [] ob = Some ob"
| "register_loop base m (i # is) ob = do {
     class \<leftarrow> elem_at u32_type m base (ix i);
     ob1 \<leftarrow> register_bin_class class m ob;
     register_loop base m is ob1 }"

text \<open>
  The second pass: the roots in order and the direct subclasses of every class, over the classes
  that have a host object of their own.
\<close>

type_synonym inheritance = "vaddr list \<times> (vaddr \<Rightarrow> vaddr list) \<times> bool"

fun inherit_loop :: "('h, 'm) objc \<Rightarrow> (u8 list \<times> vaddr) list \<Rightarrow> inheritance \<Rightarrow> inheritance run" where
  "inherit_loop ob [] acc = Some acc"
| "inherit_loop ob ((name, class) # cs) (queue, subclasses, found) = do {
     _ \<leftarrow> rassert (\<not> (name = NSObject \<and> found));
     let found' = (found \<or> name = NSObject);
     h \<leftarrow> get_host_object ob class;
     case h of
       Class_Object c \<Rightarrow>
         if cl_superclass c \<noteq> nil
         then inherit_loop ob cs (queue, subclasses(cl_superclass c := subclasses (cl_superclass c) @ [class]), found')
         else do {
           _ \<leftarrow> rassert (class \<notin> set queue);
           inherit_loop ob cs (queue @ [class], subclasses, found') }
     | _ \<Rightarrow> inherit_loop ob cs (queue, subclasses, found') }"

text \<open>The third pass: how far a class has to move, and moving it.\<close>

definition need_ivar_reconciliation :: "('h, 'm) objc \<Rightarrow> vaddr \<Rightarrow> (bool \<times> u32) run" where
  "need_ivar_reconciliation ob class = do {
     h \<leftarrow> get_host_object ob class;
     case h of
       Class_Object c \<Rightarrow>
         if cl_superclass c = nil then Some (False, 0)
         else do {
           s \<leftarrow> get_host_object ob (cl_superclass c);
           Some (case s of
             Class_Object sc \<Rightarrow>
               if cl_instance_start c < cl_instance_size sc then (True, cl_instance_size sc - cl_instance_start c) else (False, 0)
           | _ \<Rightarrow> (False, 0)) }
     | _ \<Rightarrow> Some (False, 0) }"

definition max_alignment :: "(u8 list \<times> (vaddr \<times> u32)) list \<Rightarrow> u32" where
  "max_alignment ivars = foldl (\<lambda>a (_, offset, align). if offset = 0 then a else max a align) 1 ivars"

fun shift_ivars :: "u32 \<Rightarrow> (u8 list \<times> (vaddr \<times> u32)) list \<Rightarrow> (u8 list \<times> (vaddr \<times> u32)) list run" where
  "shift_ivars diff [] = Some []"
| "shift_ivars diff ((name, offset, align) # vs) = do {
     offset' \<leftarrow> (if offset = 0 then Some 0 else add_chk offset diff);
     vs' \<leftarrow> shift_ivars diff vs;
     Some ((name, offset', align) # vs') }"

definition move_class :: "u32 \<Rightarrow> 'm class_object \<Rightarrow> 'm class_object run" where
  "move_class diff c = do {
     (diff', vs) \<leftarrow> (if cl_ivars c = [] then Some (diff, [])
       else do {
         mask \<leftarrow> sub_chk (max_alignment (cl_ivars c)) 1;
         d \<leftarrow> add_chk diff mask;
         let d' = and d (not mask);
         vs \<leftarrow> shift_ivars d' (cl_ivars c);
         Some (d', vs) });
     start \<leftarrow> add_chk (cl_instance_start c) diff';
     size \<leftarrow> add_chk (cl_instance_size c) diff';
     Some (c\<lparr>cl_ivars := vs, cl_instance_start := start, cl_instance_size := size\<rparr>) }"

definition reconcile_class :: "vaddr \<Rightarrow> ('h, 'm) objc \<Rightarrow> ('h, 'm) objc run" where
  "reconcile_class class ob = do {
     (need, diff) \<leftarrow> need_ivar_reconciliation ob class;
     if need then do {
       c \<leftarrow> borrow_class ob class;
       c' \<leftarrow> move_class diff c;
       Some (set_class class c' ob) }
     else Some ob }"

partial_function (option) reconcile_loop :: "(vaddr \<Rightarrow> vaddr list) \<Rightarrow> vaddr list \<Rightarrow> ('h, 'm) objc \<Rightarrow> ('h, 'm) objc run" where
  "reconcile_loop subclasses queue ob = (case queue of
     [] \<Rightarrow> Some ob
   | class # rest \<Rightarrow> do {
       ob1 \<leftarrow> reconcile_class class ob;
       reconcile_loop subclasses (rest @ subclasses class) ob1 })"

definition reconcile_ivars :: "('h, 'm) objc \<Rightarrow> ('h, 'm) objc run" where
  "reconcile_ivars ob = do {
     (queue, subclasses, found) \<leftarrow> inherit_loop ob (ob_classes ob) ([], (\<lambda>_. []), False);
     _ \<leftarrow> rassert found;
     reconcile_loop subclasses queue ob }"

definition register_bin_classes :: "(vaddr \<times> u32) option \<Rightarrow> guest_mem \<Rightarrow> ('h, 'm) objc \<Rightarrow> ('h, 'm) objc run" where
  "register_bin_classes sect m ob = (case sect of
     None \<Rightarrow> Some ob
   | Some (addr, sz) \<Rightarrow> do {
       _ \<leftarrow> rassert (sz mod 4 = 0);
       ob1 \<leftarrow> register_loop addr m [0..<unat sz div 4] ob;
       reconcile_ivars ob1 })"

text \<open>\<open>category_t\<close> has 6 words: name, class, instance methods, class methods, protocols.\<close>

definition add_category_methods :: "guest_mem \<Rightarrow> vaddr \<Rightarrow> vaddr \<Rightarrow> ('h, 'm) objc \<Rightarrow> ('h, 'm) objc run" where
  "add_category_methods m class methods ob = (if methods = 0 then Some ob else do {
     h \<leftarrow> get_host_object ob class;
     case h of
       Fake_Class _ _ \<Rightarrow> Some ob
     | Unimplemented_Class _ _ \<Rightarrow> Some ob
     | Host_Object _ \<Rightarrow> None
     | Class_Object c \<Rightarrow> do { (c', ob1) \<leftarrow> add_methods_from_bin methods m c ob; Some (set_class class c' ob1) } })"

definition add_class_protocols :: "vaddr \<Rightarrow> vaddr list \<Rightarrow> ('h, 'm) objc \<Rightarrow> ('h, 'm) objc" where
  "add_class_protocols class protocols ob = ob\<lparr>ob_class_protocols := (ob_class_protocols ob)(class \<mapsto>
     foldl (\<lambda>ps p. if p \<in> set ps then ps else ps @ [p]) (case ob_class_protocols ob class of None \<Rightarrow> [] | Some ps \<Rightarrow> ps) protocols)\<rparr>"

fun category_loop :: "vaddr \<Rightarrow> guest_mem \<Rightarrow> nat list \<Rightarrow> ('h, 'm) objc \<Rightarrow> ('h, 'm) objc run" where
  "category_loop base m [] ob = Some ob"
| "category_loop base m (i # is) ob = do {
     cat_ptr \<leftarrow> elem_at u32_type m base (ix i);
     ws \<leftarrow> mem_read (words_type 6) m cat_ptr;
     _ \<leftarrow> cstr_unwrap m (ws ! 0);
     metaclass \<leftarrow> read_isa (ws ! 1) m;
     protocols \<leftarrow> read_protocol_list m (ws ! 4);
     ob1 \<leftarrow> add_category_methods m (ws ! 1) (ws ! 2) (add_class_protocols (ws ! 1) protocols ob);
     ob2 \<leftarrow> add_category_methods m metaclass (ws ! 3) ob1;
     category_loop base m is ob2 }"

definition register_bin_categories :: "(vaddr \<times> u32) option \<Rightarrow> guest_mem \<Rightarrow> ('h, 'm) objc \<Rightarrow> ('h, 'm) objc run" where
  "register_bin_categories sect m ob = (case sect of
     None \<Rightarrow> Some ob
   | Some (addr, sz) \<Rightarrow> do { _ \<leftarrow> rassert (sz mod 4 = 0); category_loop addr m [0..<unat sz div 4] ob })"

definition get_superclass :: "('h, 'm) objc \<Rightarrow> vaddr \<Rightarrow> vaddr run" where
  "get_superclass ob class = ob_class_superclasses ob class"

partial_function (option) is_subclass_loop :: "('h, 'm) objc \<Rightarrow> vaddr \<Rightarrow> vaddr \<Rightarrow> bool run" where
  "is_subclass_loop ob superclass class = do {
     s \<leftarrow> get_superclass ob class;
     if s = nil then Some False
     else if s = superclass then Some True
     else is_subclass_loop ob superclass s }"

definition class_is_subclass_of :: "('h, 'm) objc \<Rightarrow> vaddr \<Rightarrow> vaddr \<Rightarrow> bool run" where
  "class_is_subclass_of ob class superclass = (if class = superclass then Some True else is_subclass_loop ob superclass class)"

definition try_get_class_name :: "('h, 'm) objc \<Rightarrow> vaddr \<Rightarrow> u8 list option" where
  "try_get_class_name ob class = (case get_host_object ob class of
     Some (Class_Object c) \<Rightarrow> Some (cl_name c)
   | Some (Unimplemented_Class name _) \<Rightarrow> Some name
   | Some (Fake_Class name _) \<Rightarrow> Some name
   | _ \<Rightarrow> None)"

definition get_class_name_ptr :: "('h, 'm) objc \<Rightarrow> vaddr \<Rightarrow> vaddr run" where
  "get_class_name_ptr ob class = ob_class_names ob class"

definition is_unimplemented_class :: "('h, 'm) objc \<Rightarrow> vaddr \<Rightarrow> bool run" where
  "is_unimplemented_class ob class = (if class = nil then Some False else do {
     h \<leftarrow> get_host_object ob class;
     Some (case h of Unimplemented_Class _ _ \<Rightarrow> True | _ \<Rightarrow> False) })"

definition is_fake_class :: "('h, 'm) objc \<Rightarrow> vaddr \<Rightarrow> bool run" where
  "is_fake_class ob class = (if class = nil then Some False else do {
     h \<leftarrow> get_host_object ob class;
     Some (case h of Fake_Class _ _ \<Rightarrow> True | _ \<Rightarrow> False) })"

definition objc_getClass :: "vaddr \<Rightarrow> ('h, 'm) renv \<Rightarrow> vaddr run" where
  "objc_getClass name e = do {
     s \<leftarrow> cstr_unwrap (re_mem e) name;
     c \<leftarrow> get_class (re_objc e) s False (re_mem e);
     c }"

definition class_getSuperclass :: "vaddr \<Rightarrow> ('h, 'm) renv \<Rightarrow> vaddr run" where
  "class_getSuperclass cls e = (if cls = nil then Some nil else get_superclass (re_objc e) cls)"

definition class_getName :: "vaddr \<Rightarrow> ('h, 'm) renv \<Rightarrow> vaddr run" where
  "class_getName cls e = (if cls = nil then Some 0 else get_class_name_ptr (re_objc e) cls)"

definition class_getInstanceSize :: "vaddr \<Rightarrow> ('h, 'm) renv \<Rightarrow> u32 run" where
  "class_getInstanceSize cls e = (if cls = nil then Some 0 else map_option cl_instance_size (borrow_class (re_objc e) cls))"

definition class_getProperty :: "vaddr \<Rightarrow> vaddr \<Rightarrow> ('h, 'm) renv \<Rightarrow> vaddr run" where
  "class_getProperty cls name e = (if cls = nil then Some 0 else do {
     c_name \<leftarrow> cstr_unwrap (re_mem e) name;
     class_name \<leftarrow> try_get_class_name (re_objc e) cls;
     if class_name = map of_char ''UIScreen'' \<and> c_name = map of_char ''scale'' then Some 0 else None })"

definition registered_classes :: "('h, 'm) objc \<Rightarrow> vaddr list" where
  "registered_classes ob = map snd (sort_key fst (ob_classes ob))"

fun write_ids :: "vaddr \<Rightarrow> nat \<Rightarrow> vaddr list \<Rightarrow> guest_mem \<Rightarrow> guest_mem run" where
  "write_ids base i [] m = Some m"
| "write_ids base i (x # xs) m = do { m1 \<leftarrow> set_elem u32_type m base (ix i) x; write_ids base (Suc i) xs m1 }"

definition objc_getClassList :: "vaddr \<Rightarrow> i32 \<Rightarrow> ('h, 'm) renv \<Rightarrow> (i32 \<times> ('h, 'm) renv) run" where
  "objc_getClassList buffer buffer_count e = do {
     _ \<leftarrow> rassert (0 \<le> sint buffer_count);
     let classes = registered_classes (re_objc e);
     m1 \<leftarrow> (if buffer \<noteq> 0 then write_ids buffer 0 (take (nat (sint buffer_count)) classes) (re_mem e) else Some (re_mem e));
     _ \<leftarrow> rassert (length classes < 2 ^ 31);
     Some (of_nat (length classes), e\<lparr>re_mem := m1\<rparr>) }"

text \<open>An array of ids with a nil after it: the end of \<open>objc_copyClassList\<close>, and \<open>copy_protocol_array\<close>.\<close>

definition alloc_ids :: "vaddr list \<Rightarrow> guest_mem \<Rightarrow> (vaddr \<times> guest_mem) run" where
  "alloc_ids xs m = do {
     count \<leftarrow> (if length xs < 2 ^ 32 then Some (of_nat (length xs)) else None);
     allocation_count \<leftarrow> add_chk count 1;
     byte_count \<leftarrow> mul_chk allocation_count 4;
     (m1, p) \<leftarrow> mem_alloc m byte_count;
     m2 \<leftarrow> write_ids p 0 xs m1;
     m3 \<leftarrow> set_elem u32_type m2 p count nil;
     Some (p, m3) }"

definition store_count :: "vaddr \<Rightarrow> vaddr list \<Rightarrow> guest_mem \<Rightarrow> guest_mem run" where
  "store_count out_count xs m = (if out_count \<noteq> 0 then do {
     count \<leftarrow> (if length xs < 2 ^ 32 then Some (of_nat (length xs)) else None);
     mem_write u32_type m out_count count }
   else Some m)"

definition objc_copyClassList :: "vaddr \<Rightarrow> ('h, 'm) renv \<Rightarrow> (vaddr \<times> ('h, 'm) renv) run" where
  "objc_copyClassList out_count e = do {
     let classes = registered_classes (re_objc e);
     m1 \<leftarrow> store_count out_count classes (re_mem e);
     (p, m2) \<leftarrow> alloc_ids classes m1;
     Some (p, e\<lparr>re_mem := m2\<rparr>) }"

subsection \<open>Protocols\<close>

text \<open>\<open>pending\<close> is a stack whose top is its last element.\<close>

partial_function (option) conforms_loop :: "('h, 'm) objc \<Rightarrow> u8 list \<Rightarrow> vaddr list \<Rightarrow> vaddr list \<Rightarrow> bool option" where
  "conforms_loop ob other_name pending visited = (if pending = [] then Some False else
     let candidate = last pending; rest = butlast pending in
     if candidate \<in> set visited then conforms_loop ob other_name rest visited
     else case protocol_host_object ob candidate of
       None \<Rightarrow> conforms_loop ob other_name rest (candidate # visited)
     | Some p \<Rightarrow> if po_name p = other_name then Some True
         else conforms_loop ob other_name (rest @ po_adopted p) (candidate # visited))"

definition protocol_conforms_to_protocol :: "('h, 'm) objc \<Rightarrow> vaddr \<Rightarrow> vaddr \<Rightarrow> bool option" where
  "protocol_conforms_to_protocol ob protocol other = (case protocol_host_object ob other of
     None \<Rightarrow> Some False
   | Some p \<Rightarrow> conforms_loop ob (po_name p) [protocol] [])"

fun any_conforms :: "('h, 'm) objc \<Rightarrow> vaddr \<Rightarrow> vaddr list \<Rightarrow> bool option" where
  "any_conforms ob protocol [] = Some False"
| "any_conforms ob protocol (p # ps) = do {
     yes \<leftarrow> protocol_conforms_to_protocol ob p protocol;
     if yes then Some True else any_conforms ob protocol ps }"

partial_function (option) class_conforms_loop :: "('h, 'm) objc \<Rightarrow> vaddr \<Rightarrow> vaddr \<Rightarrow> bool run" where
  "class_conforms_loop ob protocol class = (if class = nil then Some False else do {
     yes \<leftarrow> (case ob_class_protocols ob class of Some ps \<Rightarrow> any_conforms ob protocol ps | None \<Rightarrow> Some False);
     if yes then Some True else do {
       s \<leftarrow> get_superclass ob class;
       class_conforms_loop ob protocol s } })"

definition class_conforms_to_protocol :: "('h, 'm) objc \<Rightarrow> vaddr \<Rightarrow> vaddr \<Rightarrow> bool run" where
  "class_conforms_to_protocol ob class protocol =
     (if protocol_host_object ob protocol = None then Some False else class_conforms_loop ob protocol class)"

definition copy_protocol_array :: "vaddr list \<Rightarrow> guest_mem \<Rightarrow> (vaddr \<times> guest_mem) run" where
  "copy_protocol_array protocols m = (if protocols = [] then Some (0, m) else alloc_ids protocols m)"

definition objc_getProtocol :: "vaddr \<Rightarrow> ('h, 'm) renv \<Rightarrow> vaddr run" where
  "objc_getProtocol name e = (if name = 0 then Some nil else do {
     s \<leftarrow> cstr_unwrap (re_mem e) name;
     Some (case map_of (ob_protocols (re_objc e)) s of None \<Rightarrow> nil | Some p \<Rightarrow> p) })"

definition objc_copyProtocolList :: "vaddr \<Rightarrow> ('h, 'm) renv \<Rightarrow> (vaddr \<times> ('h, 'm) renv) run" where
  "objc_copyProtocolList out_count e = do {
     let protocols = map snd (sort_key fst (ob_protocols (re_objc e)));
     m1 \<leftarrow> store_count out_count protocols (re_mem e);
     (p, m2) \<leftarrow> copy_protocol_array protocols m1;
     Some (p, e\<lparr>re_mem := m2\<rparr>) }"

definition protocol_getName :: "vaddr \<Rightarrow> ('h, 'm) renv \<Rightarrow> vaddr" where
  "protocol_getName protocol e = (case protocol_host_object (re_objc e) protocol of None \<Rightarrow> 0 | Some p \<Rightarrow> po_name_ptr p)"

definition protocol_isEqual :: "vaddr \<Rightarrow> vaddr \<Rightarrow> ('h, 'm) renv \<Rightarrow> bool" where
  "protocol_isEqual protocol other e = (case protocol_host_object (re_objc e) protocol of
     None \<Rightarrow> False
   | Some p \<Rightarrow> (case protocol_host_object (re_objc e) other of None \<Rightarrow> False | Some q \<Rightarrow> po_name p = po_name q))"

definition class_conformsToProtocol :: "vaddr \<Rightarrow> vaddr \<Rightarrow> ('h, 'm) renv \<Rightarrow> bool run" where
  "class_conformsToProtocol class protocol e =
     (if class = nil then Some False else class_conforms_to_protocol (re_objc e) class protocol)"

definition protocol_copyProtocolList :: "vaddr \<Rightarrow> vaddr \<Rightarrow> ('h, 'm) renv \<Rightarrow> (vaddr \<times> ('h, 'm) renv) run" where
  "protocol_copyProtocolList protocol out_count e = do {
     let adopted = (case protocol_host_object (re_objc e) protocol of None \<Rightarrow> [] | Some p \<Rightarrow> po_adopted p);
     m1 \<leftarrow> store_count out_count adopted (re_mem e);
     (p, m2) \<leftarrow> copy_protocol_array adopted m1;
     Some (p, e\<lparr>re_mem := m2\<rparr>) }"

fun descriptions_loop :: "vaddr \<Rightarrow> u32 \<Rightarrow> vaddr \<Rightarrow> nat list \<Rightarrow> ('h, 'm) renv \<Rightarrow> ('h, 'm) renv run" where
  "descriptions_loop methods entsize result [] e = Some e"
| "descriptions_loop methods entsize result (i # is) e = do {
     off \<leftarrow> mul_chk (ix i) entsize;
     p \<leftarrow> add_chk methods off;
     ws \<leftarrow> mem_read (words_type 3) (re_mem e) p;
     (name, ob) \<leftarrow> register_bin_selector (ws ! 0) (re_mem e) (re_objc e);
     m \<leftarrow> set_elem (words_type 2) (re_mem e) result (ix i) [name, ws ! 1];
     descriptions_loop methods entsize result is (e\<lparr>re_mem := m, re_objc := ob\<rparr>) }"

definition protocol_copyMethodDescriptionList ::
    "vaddr \<Rightarrow> bool \<Rightarrow> bool \<Rightarrow> vaddr \<Rightarrow> ('h, 'm) renv \<Rightarrow> (vaddr \<times> ('h, 'm) renv) run" where
  "protocol_copyMethodDescriptionList protocol is_required is_instance out_count e = do {
     m1 \<leftarrow> (if out_count \<noteq> 0 then mem_write u32_type (re_mem e) out_count 0 else Some (re_mem e));
     let e1 = e\<lparr>re_mem := m1\<rparr>;
     case protocol_host_object (re_objc e) protocol of
       None \<Rightarrow> Some (0, e1)
     | Some p \<Rightarrow> let list_ptr = (if is_required
           then (if is_instance then po_required_instance p else po_required_class p)
           else (if is_instance then po_optional_instance p else po_optional_class p)) in
         if list_ptr = 0 then Some (0, e1)
         else do {
           ws \<leftarrow> mem_read (words_type 2) m1 list_ptr;
           _ \<leftarrow> rassert (12 \<le> ws ! 0);
           if ws ! 1 = 0 then Some (0, e1)
           else do {
             byte_count \<leftarrow> mul_chk (ws ! 1) 8;
             (m2, result) \<leftarrow> mem_alloc m1 byte_count;
             methods \<leftarrow> ptr_add 8 list_ptr 1;
             e2 \<leftarrow> descriptions_loop methods (ws ! 0) result [0..<unat (ws ! 1)] (e1\<lparr>re_mem := m2\<rparr>);
             m3 \<leftarrow> (if out_count \<noteq> 0 then mem_write u32_type (re_mem e2) out_count (ws ! 1) else Some (re_mem e2));
             Some (result, e2\<lparr>re_mem := m3\<rparr>) } } }"

subsection \<open>Messages\<close>

datatype 'm lookup = Found "'m imp" | Faked "u8 list" bool

text \<open>The loop over the superclasses; a call to \<open>super\<close> skips the methods of \<open>orig_class\<close>.\<close>

partial_function (option) find_imp ::
    "('h, 'm) objc \<Rightarrow> vaddr \<Rightarrow> bool \<Rightarrow> vaddr \<Rightarrow> vaddr \<Rightarrow> 'm lookup run" where
  "find_imp ob selector super2 orig_class class = (if class = nil then None else do {
     h \<leftarrow> get_host_object ob class;
     (case h of
       Class_Object c \<Rightarrow>
         if super2 \<and> class = orig_class then find_imp ob selector super2 orig_class (cl_superclass c)
         else (case cl_methods c selector of
             Some f \<Rightarrow> Some (Found f)
           | None \<Rightarrow> find_imp ob selector super2 orig_class (cl_superclass c))
     | Unimplemented_Class _ _ \<Rightarrow> None
     | Fake_Class name is_metaclass \<Rightarrow> Some (Faked name is_metaclass)
     | Host_Object _ \<Rightarrow> None) })"

text \<open>
  What a message needs of the rest of the program: \<open>+initialize\<close>, running a method, the type of a
  host method (a variadic one panics when asked for it), and the string that stands for a version.
\<close>

record ('h, 'm) dispatch =
  ds_initialize :: "vaddr \<Rightarrow> ('h, 'm) renv \<Rightarrow> ('h, 'm) renv run"
  ds_call :: "'m imp \<Rightarrow> ('h, 'm) renv \<Rightarrow> ('h, 'm) renv run"
  ds_type :: "'m \<Rightarrow> nat run"
  ds_version :: "('h, 'm) renv \<Rightarrow> (u32 \<times> ('h, 'm) renv) run"

definition zero_result :: "('h, 'm) renv \<Rightarrow> ('h, 'm) renv" where
  "zero_result e = e\<lparr>re_regs := (re_regs e)(0 := 0, 1 := 0)\<rparr>"

definition objc_msgSend_inner ::
    "('h, 'm) dispatch \<Rightarrow> vaddr \<Rightarrow> vaddr \<Rightarrow> vaddr option \<Rightarrow> bool \<Rightarrow> bool \<Rightarrow> ('h, 'm) renv \<Rightarrow> ('h, 'm) renv run" where
  "objc_msgSend_inner D receiver selector super2 tolerate_type_mismatch skip_initialize e = (
     let sent = ob_message_type (re_objc e);
         e1 = e\<lparr>re_objc := (re_objc e)\<lparr>ob_message_type := None\<rparr>\<rparr> in
     if receiver = nil then Some (zero_result e1)
     else do {
       orig_class \<leftarrow> (case super2 of Some c \<Rightarrow> Some c | None \<Rightarrow> read_isa receiver (re_mem e1));
       _ \<leftarrow> rassert (orig_class \<noteq> nil);
       e2 \<leftarrow> (if skip_initialize then Some e1 else ds_initialize D receiver e1);
       r \<leftarrow> find_imp (re_objc e2) selector (super2 \<noteq> None) orig_class orig_class;
       case r of
         Found (Host_IMP f) \<Rightarrow> do {
           _ \<leftarrow> (case sent of None \<Rightarrow> Some () | Some sent_type \<Rightarrow> do {
               expected_type \<leftarrow> ds_type D f;
               rassert (sent_type = expected_type \<or> tolerate_type_mismatch) });
           ds_call D (Host_IMP f) e2 }
       | Found (Guest_IMP f) \<Rightarrow> ds_call D (Guest_IMP f) e2
       | Faked name is_metaclass \<Rightarrow> do {
           s \<leftarrow> cstr_unwrap (re_mem e2) selector;
           if is_metaclass \<and> name = map of_char ''Flurry'' \<and> s = map of_char ''getFlurryAgentVersion'' then do {
             (version, e3) \<leftarrow> ds_version D e2;
             Some (e3\<lparr>re_regs := (re_regs e3)(0 := version)\<rparr>) }
           else Some (zero_result e2) } })"

definition objc_msgSend :: "('h, 'm) dispatch \<Rightarrow> vaddr \<Rightarrow> vaddr \<Rightarrow> ('h, 'm) renv \<Rightarrow> ('h, 'm) renv run" where
  "objc_msgSend D receiver selector e = objc_msgSend_inner D receiver selector None False False e"

definition objc_msgSend_tolerant :: "('h, 'm) dispatch \<Rightarrow> vaddr \<Rightarrow> vaddr \<Rightarrow> ('h, 'm) renv \<Rightarrow> ('h, 'm) renv run" where
  "objc_msgSend_tolerant D receiver selector e = objc_msgSend_inner D receiver selector None True False e"

definition objc_msgSend_no_initialize :: "('h, 'm) dispatch \<Rightarrow> vaddr \<Rightarrow> vaddr \<Rightarrow> ('h, 'm) renv \<Rightarrow> ('h, 'm) renv run" where
  "objc_msgSend_no_initialize D receiver selector e = objc_msgSend_inner D receiver selector None False True e"

definition objc_msgSend_stret :: "('h, 'm) dispatch \<Rightarrow> vaddr \<Rightarrow> vaddr \<Rightarrow> vaddr \<Rightarrow> ('h, 'm) renv \<Rightarrow> ('h, 'm) renv run" where
  "objc_msgSend_stret D stret receiver selector e = objc_msgSend_inner D receiver selector None False False e"

definition objc_msgSend_stret_tolerant :: "('h, 'm) dispatch \<Rightarrow> vaddr \<Rightarrow> vaddr \<Rightarrow> vaddr \<Rightarrow> ('h, 'm) renv \<Rightarrow> ('h, 'm) renv run" where
  "objc_msgSend_stret_tolerant D stret receiver selector e = objc_msgSend_inner D receiver selector None True False e"

definition objc_msgSendSuper2 :: "('h, 'm) dispatch \<Rightarrow> vaddr \<Rightarrow> vaddr \<Rightarrow> ('h, 'm) renv \<Rightarrow> ('h, 'm) renv run" where
  "objc_msgSendSuper2 D super_ptr selector e = do {
     ws \<leftarrow> mem_read (words_type 2) (re_mem e) super_ptr;
     objc_msgSend_inner D (ws ! 0) selector (Some (ws ! 1)) False False (e\<lparr>re_regs := (re_regs e)(0 := ws ! 0)\<rparr>) }"

subsection \<open>Chains of superclasses\<close>

text \<open>\<open>class_chain ob k cs\<close>: from \<open>k\<close> on, the superclasses are \<open>cs\<close>, classes with their host objects.\<close>

fun class_chain :: "('h, 'm) objc \<Rightarrow> vaddr \<Rightarrow> (vaddr \<times> 'm class_object) list \<Rightarrow> bool" where
  "class_chain ob k [] \<longleftrightarrow> k = nil"
| "class_chain ob k ((j, c) # cs) \<longleftrightarrow> j = k \<and> k \<noteq> nil \<and> borrow_class ob k = Some c \<and> class_chain ob (cl_superclass c) cs"

text \<open>The method that the first class of a chain with one has for a selector.\<close>

definition nearest_method :: "vaddr \<Rightarrow> (vaddr \<times> 'm class_object) list \<Rightarrow> 'm imp option" where
  "nearest_method sel cs = (case find (\<lambda>(_, c). cl_methods c sel \<noteq> None) cs of
     None \<Rightarrow> None | Some (_, c) \<Rightarrow> cl_methods c sel)"

lemma nearest_method_simps [simp]:
  "nearest_method sel [] = None"
  "nearest_method sel ((j, c) # cs) = (case cl_methods c sel of None \<Rightarrow> nearest_method sel cs | Some f \<Rightarrow> Some f)"
  by (simp_all add: nearest_method_def split: option.splits)

lemma borrow_class_Some: "borrow_class ob k = Some c \<longleftrightarrow> get_host_object ob k = Some (Class_Object c)"
  by (auto simp: borrow_class_def split: option.splits host_object.splits)

lemma class_chain_unique: "class_chain ob k cs \<Longrightarrow> class_chain ob k ds \<Longrightarrow> cs = ds"
proof (induction cs arbitrary: k ds)
  case Nil
  then show ?case by (cases ds) auto
next
  case (Cons x cs)
  then show ?case by (cases x; cases ds) auto
qed

lemma class_chain_suffix: "class_chain ob k (as @ (j, c) # bs) \<Longrightarrow> class_chain ob j ((j, c) # bs)"
  by (induction as arbitrary: k) auto

lemma class_chain_distinct: "class_chain ob k cs \<Longrightarrow> distinct (map fst cs)"
proof (induction cs arbitrary: k)
  case (Cons x cs)
  obtain j c where x: "x = (j, c)" by fastforce
  have "j \<notin> fst ` set cs"
  proof
    assume "j \<in> fst ` set cs"
    then obtain d as bs where "cs = as @ (j, d) # bs" by (metis imageE in_set_conv_decomp prod.collapse)
    then have "class_chain ob j ((j, d) # bs)" "class_chain ob j ((j, c) # as @ (j, d) # bs)"
      using Cons.prems class_chain_suffix [of ob k "x # as" j d bs] x by auto
    from class_chain_unique [OF this] show False by (auto dest: arg_cong [of _ _ length])
  qed
  then show ?case using Cons x by auto
qed simp

lemma find_imp_chain:
  "class_chain ob k cs \<Longrightarrow> \<not> super2 \<or> orig \<notin> fst ` set cs
    \<Longrightarrow> find_imp ob sel super2 orig k = map_option Found (nearest_method sel cs)"
proof (induction cs arbitrary: k)
  case Nil
  then show ?case by (simp add: find_imp.simps)
next
  case (Cons x cs)
  then show ?case
    by (cases x) (auto simp: find_imp.simps [of ob sel super2 orig k] borrow_class_Some split: option.splits)
qed

lemma find_imp_super:
  "class_chain ob k ((k, c) # cs) \<Longrightarrow> find_imp ob sel True k k = map_option Found (nearest_method sel cs)"
  using class_chain_distinct [of ob k "(k, c) # cs"] find_imp_chain [of ob "cl_superclass c" cs True k sel]
  by (simp add: find_imp.simps [of ob sel True k k] borrow_class_Some)

lemma class_has_method_chain:
  "class_chain ob k cs \<Longrightarrow> k \<noteq> nil \<Longrightarrow> class_has_method ob k sel = Some (nearest_method sel cs \<noteq> None)"
proof (induction cs arbitrary: k)
  case Nil
  then show ?case by simp
next
  case (Cons x cs)
  then show ?case
    by (cases x; cases "cl_superclass (snd x) = nil"; cases cs)
      (auto simp: class_has_method.simps [of ob k sel] split: option.splits)
qed

lemma borrow_set_class: "borrow_class (set_class k c ob) j
    = (if j = k then (if ob_objects ob k = None then None else Some c) else borrow_class ob j)"
  by (auto simp: borrow_class_def set_class_def get_host_object_def split: option.splits host_object.splits)

text \<open>Adding a method to a class changes no other class of a chain.\<close>

lemma class_chain_set:
  "class_chain ob k cs \<Longrightarrow> borrow_class ob j \<noteq> None \<Longrightarrow> (\<forall>c. borrow_class ob j = Some c \<longrightarrow> cl_superclass c' = cl_superclass c)
    \<Longrightarrow> class_chain (set_class j c' ob) k (map (\<lambda>(i, c). (i, if i = j then c' else c)) cs)"
proof (induction cs arbitrary: k)
  case (Cons x cs)
  have "ob_objects ob j \<noteq> None" using Cons.prems(2) by (auto simp: borrow_class_def get_host_object_def split: option.splits)
  with Cons show ?case by (cases x) (auto simp: borrow_set_class)
qed simp

end
