(* ===== verification/Objc_Props.thy ===== *)
theory Objc_Props
  imports Objc_Classes
begin

text \<open>
  Properties of the classes of the Objective-C runtime: what the reconciliation of instance
  variables establishes (\<open>register_bin_classes\<close> of \<open>src/objc/classes.rs\<close>), which protocols a
  protocol or a class conforms to (\<open>src/objc/protocols.rs\<close>), and which method a message runs
  (\<open>src/objc/messages.rs\<close>).
\<close>

subsection \<open>Reconciliation: moving one class\<close>

lemma and_not_bounds: "unat (and x (not m)) \<le> unat x" "unat x \<le> unat (and x (not m)) + unat (m :: u32)"
proof -
  have "and x (not m) \<le> x" by (metis and.commute word_and_le1)
  then show "unat (and x (not m)) \<le> unat x" by (simp add: word_le_nat_alt)
  have split: "or (and x m) (and x (not m)) = x" by (auto simp: bit_eq_iff bit_simps)
  have "x = and x m + and x (not m)"
    by (subst disjunctive_add_eq_or) (simp_all add: split, simp add: bit_eq_iff bit_simps)
  then have "unat x \<le> unat (and x m) + unat (and x (not m))"
    by (metis unat_plus_simple unat_word_ariths(1) mod_less_eq_dividend)
  moreover have "and x m \<le> m" by (rule word_and_le1)
  ultimately show "unat x \<le> unat (and x (not m)) + unat m" by (simp add: word_le_nat_alt)
qed

lemma max_alignment_ge: "1 \<le> max_alignment vs"
proof -
  have "a \<le> foldl (\<lambda>a (_, offset, align). if offset = 0 then a else max a align) a vs" for a :: u32
  proof (induction vs arbitrary: a)
    case (Cons v vs)
    obtain n off al where [simp]: "v = (n, off, al)" by (cases v) auto
    have "a \<le> (if off = 0 then a else max a al)" by simp
    with Cons [of "if off = 0 then a else max a al"] show ?case by simp
  qed simp
  then show ?thesis by (simp add: max_alignment_def)
qed

lemma shift_ivars_ok:
  "\<forall>(n, offset, a) \<in> set vs. unat offset + unat d < 2 ^ 32 \<Longrightarrow> \<exists>vs'. shift_ivars d vs = Some vs'"
proof (induction vs)
  case (Cons v vs)
  obtain n off al where v: "v = (n, off, al)" by (cases v) auto
  with Cons.prems obtain o' where "add_chk off d = Some o'" using add_chk_ex [of off d] by auto
  with Cons v show ?case by auto
qed simp

text \<open>A class moves by at least the difference, and by less than the alignment more.\<close>

definition moved :: "'m class_object \<Rightarrow> 'm class_object \<Rightarrow> bool" where
  "moved c c' \<longleftrightarrow> c' = c\<lparr>cl_ivars := cl_ivars c', cl_instance_start := cl_instance_start c', cl_instance_size := cl_instance_size c'\<rparr>
     \<and> cl_instance_start c \<le> cl_instance_start c'
     \<and> unat (cl_instance_size c') + unat (cl_instance_start c) = unat (cl_instance_size c) + unat (cl_instance_start c')"

definition class_weight :: "'m class_object \<Rightarrow> nat" where
  "class_weight c = unat (cl_instance_size c) + unat (max_alignment (cl_ivars c))"

lemma move_class_ok:
  assumes start: "cl_instance_start c \<le> cl_instance_size c"
    and size: "unat diff + class_weight c < 2 ^ 32"
    and offsets: "\<forall>(n, offset, a) \<in> set (cl_ivars c). unat offset + (unat diff + class_weight c) < 2 ^ 32"
  obtains c' where "move_class diff c = Some c'" "moved c c'"
    "unat (cl_instance_size c') \<le> unat diff + class_weight c"
    "unat (cl_instance_start c) + unat diff \<le> unat (cl_instance_start c')"
proof -
  let ?m = "max_alignment (cl_ivars c)"
  have m1: "1 \<le> unat ?m" using max_alignment_ge [of "cl_ivars c"] by (simp add: word_le_nat_alt)
  note w = class_weight_def [of c]
  obtain d vs where d: "unat diff \<le> unat d" "unat d \<le> unat diff + unat ?m"
    and run: "move_class diff c = do {
      start \<leftarrow> add_chk (cl_instance_start c) d;
      size \<leftarrow> add_chk (cl_instance_size c) d;
      Some (c\<lparr>cl_ivars := vs, cl_instance_start := start, cl_instance_size := size\<rparr>) }"
  proof (cases "cl_ivars c = []")
    case True
    then show ?thesis using that [of diff "[]"] by (simp add: move_class_def)
  next
    case False
    obtain mask where mask: "sub_chk ?m 1 = Some mask" using sub_chk_ex [of 1 ?m] m1 by auto
    then have um: "unat ?m = 1 + unat mask" by (simp add: run_simps)
    then obtain e where e: "add_chk diff mask = Some e" using add_chk_ex [of diff mask] size w by auto
    then have ue: "unat e = unat diff + unat mask" by (simp add: run_simps)
    let ?d = "and e (not mask)"
    have d: "unat diff \<le> unat ?d" "unat ?d \<le> unat diff + unat ?m"
      using and_not_bounds [of e mask] ue um by auto
    have "unat ?d \<le> unat diff + class_weight c" using d(2) w by simp
    then have "\<forall>(n, offset, a) \<in> set (cl_ivars c). unat offset + unat ?d < 2 ^ 32" using offsets by fastforce
    then obtain vs where "shift_ivars ?d (cl_ivars c) = Some vs" using shift_ivars_ok by blast
    with False mask e d show ?thesis using that [of ?d vs] by (simp add: move_class_def Let_def)
  qed
  have us: "unat (cl_instance_start c) \<le> unat (cl_instance_size c)" using start by (simp add: word_le_nat_alt)
  then obtain st sz where st: "add_chk (cl_instance_start c) d = Some st" and sz: "add_chk (cl_instance_size c) d = Some sz"
    using add_chk_ex [of "cl_instance_start c" d] add_chk_ex [of "cl_instance_size c" d] d(2) size w by auto
  then have "unat st = unat (cl_instance_start c) + unat d" "unat sz = unat (cl_instance_size c) + unat d"
    by (simp_all add: run_simps)
  then show ?thesis
    using that [of "c\<lparr>cl_ivars := vs, cl_instance_start := st, cl_instance_size := sz\<rparr>"] run st sz d w
    by (simp add: moved_def word_le_nat_alt)
qed

subsection \<open>Reconciliation: the inverted graph\<close>

definition roots :: "('h, 'm) objc \<Rightarrow> (u8 list \<times> vaddr) list \<Rightarrow> vaddr list" where
  "roots ob cs = filter (\<lambda>k. \<exists>c. borrow_class ob k = Some c \<and> cl_superclass c = nil) (map snd cs)"

definition subs :: "('h, 'm) objc \<Rightarrow> (u8 list \<times> vaddr) list \<Rightarrow> vaddr \<Rightarrow> vaddr list" where
  "subs ob cs s = filter (\<lambda>k. \<exists>c. borrow_class ob k = Some c \<and> cl_superclass c = s \<and> s \<noteq> nil) (map snd cs)"

lemma inherit_loop_ok:
  "\<forall>(n, k) \<in> set cs. get_host_object ob k \<noteq> None \<Longrightarrow> distinct (map fst cs) \<Longrightarrow> distinct (queue @ map snd cs)
    \<Longrightarrow> found \<longrightarrow> NSObject \<notin> fst ` set cs
    \<Longrightarrow> inherit_loop ob cs (queue, subclasses, found)
      = Some (queue @ roots ob cs, (\<lambda>s. subclasses s @ subs ob cs s), found \<or> NSObject \<in> fst ` set cs)"
proof (induction cs arbitrary: queue subclasses found)
  case Nil
  then show ?case by (simp add: roots_def subs_def)
next
  case (Cons x cs)
  obtain n k where x: "x = (n, k)" by (cases x)
  obtain h where h: "get_host_object ob k = Some h" using Cons.prems(1) x by auto
  show ?case
  proof (cases "borrow_class ob k")
    case None
    have ih: "inherit_loop ob cs (queue, subclasses, found \<or> n = NSObject)
        = Some (queue @ roots ob cs, (\<lambda>s. subclasses s @ subs ob cs s), (found \<or> n = NSObject) \<or> NSObject \<in> fst ` set cs)"
      using Cons.prems x by (intro Cons.IH) auto
    show ?thesis using ih x h None Cons.prems
      by (cases h) (auto simp: roots_def subs_def borrow_class_def)
  next
    case b: (Some c)
    then have Class_Object: "h = Class_Object c" using h by (simp add: borrow_class_Some)
    show ?thesis
    proof (cases "cl_superclass c = nil")
      case True
      have ih: "inherit_loop ob cs (queue @ [k], subclasses, found \<or> n = NSObject)
          = Some ((queue @ [k]) @ roots ob cs, (\<lambda>s. subclasses s @ subs ob cs s), (found \<or> n = NSObject) \<or> NSObject \<in> fst ` set cs)"
        using Cons.prems x by (intro Cons.IH) auto
      show ?thesis using ih x h Class_Object b True Cons.prems by (auto simp: roots_def subs_def fun_eq_iff)
    next
      case False
      let ?subclasses = "subclasses(cl_superclass c := subclasses (cl_superclass c) @ [k])"
      have ih: "inherit_loop ob cs (queue, ?subclasses, found \<or> n = NSObject)
          = Some (queue @ roots ob cs, (\<lambda>s. ?subclasses s @ subs ob cs s), (found \<or> n = NSObject) \<or> NSObject \<in> fst ` set cs)"
        using Cons.prems x by (intro Cons.IH) auto
      show ?thesis using ih x h Class_Object b False Cons.prems by (auto simp: roots_def subs_def fun_eq_iff)
    qed
  qed
qed

subsection \<open>Reconciliation: breadth first\<close>

text \<open>
  What the table of classes has to satisfy: no class twice, superclasses known, and room for the
  growth. \<open>total_weight\<close> bounds it: the sizes of all classes, plus an alignment each.
\<close>

definition known_classes :: "('h, 'm) objc \<Rightarrow> vaddr set" where
  "known_classes ob = {k \<in> snd ` set (ob_classes ob). borrow_class ob k \<noteq> None}"

definition weight :: "('h, 'm) objc \<Rightarrow> vaddr set \<Rightarrow> nat" where
  "weight ob ks = (\<Sum>k\<in>ks. class_weight (the (borrow_class ob k)))"

definition classes_ok :: "('h, 'm) objc \<Rightarrow> bool" where
  "classes_ok ob \<longleftrightarrow> distinct (map fst (ob_classes ob)) \<and> distinct (map snd (ob_classes ob)) \<and> NSObject \<in> fst ` set (ob_classes ob)
     \<and> (\<forall>k \<in> snd ` set (ob_classes ob). get_host_object ob k \<noteq> None)
     \<and> weight ob (known_classes ob) < 2 ^ 32
     \<and> (\<forall>k \<in> known_classes ob. \<forall>c. borrow_class ob k = Some c \<longrightarrow> cl_instance_start c \<le> cl_instance_size c
          \<and> (\<forall>(n, offset, a) \<in> set (cl_ivars c). unat offset + weight ob (known_classes ob) < 2 ^ 32))"

definition above_superclass :: "('h, 'm) objc \<Rightarrow> 'm class_object \<Rightarrow> bool" where
  "above_superclass ob c \<longleftrightarrow> (\<forall>sc. cl_superclass c \<noteq> nil \<longrightarrow> borrow_class ob (cl_superclass c) = Some sc
     \<longrightarrow> cl_instance_size sc \<le> cl_instance_start c)"

definition reconciled :: "('h, 'm) objc \<Rightarrow> vaddr list \<Rightarrow> ('h, 'm) objc \<Rightarrow> bool" where
  "reconciled ob D ob1 \<longleftrightarrow> (\<forall>k. k \<notin> set D \<longrightarrow> get_host_object ob1 k = get_host_object ob k)
     \<and> (\<forall>k \<in> set D. \<exists>c c1. borrow_class ob k = Some c \<and> borrow_class ob1 k = Some c1 \<and> moved c c1
          \<and> unat (cl_instance_size c1) \<le> weight ob (set D) \<and> above_superclass ob1 c1)"

definition bfs_ok :: "('h, 'm) objc \<Rightarrow> vaddr list \<Rightarrow> vaddr list \<Rightarrow> bool" where
  "bfs_ok ob D q \<longleftrightarrow> distinct (D @ q) \<and> set (D @ q) \<subseteq> known_classes ob \<and> set (roots ob (ob_classes ob)) \<subseteq> set (D @ q)
     \<and> (\<forall>k \<in> set D. set (subs ob (ob_classes ob) k) \<subseteq> set (D @ q))
     \<and> (\<forall>k \<in> set (D @ q). \<forall>c. borrow_class ob k = Some c \<longrightarrow> cl_superclass c = nil \<or> cl_superclass c \<in> set D)"

lemma moved_refl: "moved c c"
  by (simp add: moved_def)

lemma moved_superclass: "moved c c' \<Longrightarrow> cl_superclass c' = cl_superclass c"
  unfolding moved_def by (erule conjE) (drule arg_cong [of _ _ cl_superclass], simp)

lemma bfs_start: "classes_ok ob \<Longrightarrow> bfs_ok ob [] (roots ob (ob_classes ob))"
  by (auto simp: bfs_ok_def roots_def classes_ok_def known_classes_def)

lemma bfs_next:
  assumes ok: "classes_ok ob" and bfs: "bfs_ok ob D (k # q)"
  shows "bfs_ok ob (D @ [k]) (q @ subs ob (ob_classes ob) k)"
proof -
  let ?S = "subs ob (ob_classes ob) k"
  have S: "set ?S \<subseteq> known_classes ob" "\<forall>j \<in> set ?S. \<forall>c. borrow_class ob j = Some c \<longrightarrow> cl_superclass c = k"
    by (auto simp: subs_def known_classes_def)
  have dS: "distinct ?S" using ok by (simp add: subs_def classes_ok_def)
  have up: "\<forall>j \<in> set (D @ k # q). \<forall>c. borrow_class ob j = Some c \<longrightarrow> cl_superclass c = nil \<or> cl_superclass c \<in> set D"
    and dD: "distinct (D @ k # q)" and known: "set (D @ k # q) \<subseteq> known_classes ob"
    and roots: "set (roots ob (ob_classes ob)) \<subseteq> set (D @ k # q)"
    and down: "\<forall>j \<in> set D. set (subs ob (ob_classes ob) j) \<subseteq> set (D @ k # q)"
    using bfs unfolding bfs_ok_def by blast+
  have "j \<notin> set (D @ k # q)" if "j \<in> set ?S" for j
  proof -
    from that obtain c where "borrow_class ob j = Some c" "cl_superclass c = k" "k \<noteq> nil" by (auto simp: subs_def)
    with up dD show ?thesis by fastforce
  qed
  then have disj: "set ?S \<inter> set (D @ k # q) = {}" by blast
  show ?thesis unfolding bfs_ok_def
  proof (intro conjI)
    show "distinct ((D @ [k]) @ q @ ?S)" using dS disj dD by auto
    show "set ((D @ [k]) @ q @ ?S) \<subseteq> known_classes ob" using known S by auto
    show "set (roots ob (ob_classes ob)) \<subseteq> set ((D @ [k]) @ q @ ?S)" using roots by auto
    show "\<forall>j \<in> set (D @ [k]). set (subs ob (ob_classes ob) j) \<subseteq> set ((D @ [k]) @ q @ ?S)" using down by auto
    show "\<forall>j \<in> set ((D @ [k]) @ q @ ?S). \<forall>c. borrow_class ob j = Some c
        \<longrightarrow> cl_superclass c = nil \<or> cl_superclass c \<in> set (D @ [k])"
      using up S(2) by auto
  qed
qed

lemma weight_insert: "finite ks \<Longrightarrow> k \<notin> ks \<Longrightarrow> borrow_class ob k = Some c \<Longrightarrow> weight ob (insert k ks) = class_weight c + weight ob ks"
  by (simp add: weight_def)

lemma weight_mono: "finite ls \<Longrightarrow> ks \<subseteq> ls \<Longrightarrow> weight ob ks \<le> weight ob ls"
  unfolding weight_def by (rule sum_mono2) auto

lemma known_finite: "finite (known_classes ob)"
  by (simp add: known_classes_def)

text \<open>One class: its superclass has been moved before, and stays as it is.\<close>

lemma reconcile_class_ok:
  assumes ok: "classes_ok ob" and bfs: "bfs_ok ob D (k # q)" and rec: "reconciled ob D ob1"
  obtains ob2 where "reconcile_class k ob1 = Some ob2" "reconciled ob (D @ [k]) ob2"
proof -
  have k: "k \<in> known_classes ob" "k \<notin> set D" and D: "set D \<subseteq> known_classes ob" using bfs by (auto simp: bfs_ok_def)
  then obtain c where c: "borrow_class ob k = Some c" by (auto simp: known_classes_def)
  have c1: "borrow_class ob1 k = Some c" using c rec k by (simp add: borrow_class_def reconciled_def)
  have up: "cl_superclass c = nil \<or> cl_superclass c \<in> set D" using bfs c by (simp add: bfs_ok_def)
  have w: "weight ob (insert k (set D)) = class_weight c + weight ob (set D)" using k c by (simp add: weight_insert)
  then have W: "class_weight c + weight ob (set D) \<le> weight ob (known_classes ob)"
    using weight_mono [of "known_classes ob" "insert k (set D)" ob] k D known_finite [of ob] by simp
  have bounds: "weight ob (known_classes ob) < 2 ^ 32" "cl_instance_start c \<le> cl_instance_size c"
    "\<forall>(n, offset, a) \<in> set (cl_ivars c). unat offset + weight ob (known_classes ob) < 2 ^ 32"
    using ok k c by (auto simp: classes_ok_def)
  have "\<exists>c' ob2. reconcile_class k ob1 = Some ob2 \<and> moved c c' \<and> unat (cl_instance_size c') \<le> class_weight c + weight ob (set D)
      \<and> above_superclass ob1 c' \<and> (ob2 = set_class k c' ob1 \<or> ob2 = ob1 \<and> c' = c)"
  proof (cases "cl_superclass c = nil")
    case True
    then show ?thesis using c1 
      by (auto simp: reconcile_class_def need_ivar_reconciliation_def borrow_class_Some above_superclass_def class_weight_def moved_refl intro!: exI [of _ c])
  next
    case False
    then obtain sc where sc: "borrow_class ob1 (cl_superclass c) = Some sc" "unat (cl_instance_size sc) \<le> weight ob (set D)"
      using up rec by (fastforce simp: reconciled_def)
    show ?thesis
    proof (cases "cl_instance_start c < cl_instance_size sc")
      case False
      then show ?thesis using c1 sc \<open>cl_superclass c \<noteq> nil\<close>
        by (auto simp: reconcile_class_def need_ivar_reconciliation_def borrow_class_Some above_superclass_def class_weight_def moved_refl intro!: exI [of _ c])
    next
      case True
      let ?diff = "cl_instance_size sc - cl_instance_start c"
      have diff: "unat ?diff + unat (cl_instance_start c) = unat (cl_instance_size sc)"
        using True by (simp add: unat_sub word_less_nat_alt word_le_nat_alt)
      have "unat ?diff + class_weight c \<le> weight ob (known_classes ob)" using diff sc(2) W by linarith
      then have m: "unat ?diff + class_weight c < 2 ^ 32"
          "\<forall>(n, offset, a) \<in> set (cl_ivars c). unat offset + (unat ?diff + class_weight c) < 2 ^ 32"
        using bounds by fastforce+
      obtain c' where c': "move_class ?diff c = Some c'" "moved c c'" "unat (cl_instance_size c') \<le> unat ?diff + class_weight c"
          "unat (cl_instance_start c) + unat ?diff \<le> unat (cl_instance_start c')"
        using move_class_ok [OF bounds(2) m] .
      have "reconcile_class k ob1 = Some (set_class k c' ob1)"
        using True \<open>cl_superclass c \<noteq> nil\<close> c'(1) c1 c1 [unfolded borrow_class_Some] sc(1) [unfolded borrow_class_Some]
        by (simp add: reconcile_class_def need_ivar_reconciliation_def)
      moreover have "cl_superclass c' = cl_superclass c" using c'(2) by (rule moved_superclass)
      moreover have "cl_instance_size sc \<le> cl_instance_start c'" using c'(4) diff by (simp add: word_le_nat_alt)
      ultimately show ?thesis using c' diff sc
        by (intro exI [of _ c'] exI [of _ "set_class k c' ob1"]) (simp add: above_superclass_def)
    qed
  qed
  then obtain c' ob2 where r: "reconcile_class k ob1 = Some ob2" "moved c c'"
    "unat (cl_instance_size c') \<le> weight ob (insert k (set D))" "above_superclass ob1 c'"
    and ob2: "ob2 = set_class k c' ob1 \<or> ob2 = ob1 \<and> c' = c" using w by auto
  have own: "borrow_class ob2 k = Some c'"
    using ob2
  proof
    assume "ob2 = set_class k c' ob1"
    moreover have "ob_objects ob1 k \<noteq> None" using c1 by (auto simp: borrow_class_Some get_host_object_def)
    ultimately show ?thesis by (simp add: borrow_set_class)
  qed (use c1 in simp)
  have others: "get_host_object ob2 j = get_host_object ob1 j" if "j \<noteq> k" for j
    using ob2 that by (auto simp: set_class_def get_host_object_def)
  then have others': "borrow_class ob2 j = borrow_class ob1 j" if "j \<noteq> k" for j
    using that by (simp add: borrow_class_def)
  show ?thesis
  proof (rule that [OF r(1)], unfold reconciled_def, intro conjI ballI allI impI)
    fix j assume "j \<notin> set (D @ [k])"
    then show "get_host_object ob2 j = get_host_object ob j" using rec others by (simp add: reconciled_def)
  next
    fix j assume j: "j \<in> set (D @ [k])"
    show "\<exists>c c1. borrow_class ob j = Some c \<and> borrow_class ob2 j = Some c1 \<and> moved c c1
          \<and> unat (cl_instance_size c1) \<le> weight ob (set (D @ [k])) \<and> above_superclass ob2 c1"
    proof (cases "j = k")
      case True
      have "cl_superclass c' = nil \<or> cl_superclass c' \<noteq> k" using up k(2) moved_superclass [OF r(2)] by auto
      then have "above_superclass ob2 c'" using r(4) others' by (auto simp: above_superclass_def)
      with True c own r show ?thesis by (intro exI [of _ c] exI [of _ c']) simp
    next
      case False
      with j have jD: "j \<in> set D" by simp
      then obtain d d1 where d: "borrow_class ob j = Some d" "borrow_class ob1 j = Some d1" "moved d d1"
          "unat (cl_instance_size d1) \<le> weight ob (set D)" "above_superclass ob1 d1"
        using rec unfolding reconciled_def by blast
      have "cl_superclass d1 = nil \<or> cl_superclass d1 \<noteq> k"
        using bfs jD d(1) k(2) moved_superclass [OF d(3)] by (auto simp: bfs_ok_def)
      then have "above_superclass ob2 d1" using d(5) others' by (auto simp: above_superclass_def)
      moreover have "weight ob (set D) \<le> weight ob (set (D @ [k]))" by (rule weight_mono) auto
      ultimately show ?thesis using d False others' by (intro exI [of _ d] exI [of _ d1]) auto
    qed
  qed
qed

lemma reconcile_loop_ok:
  assumes ok: "classes_ok ob"
  shows "bfs_ok ob D q \<Longrightarrow> reconciled ob D ob1
    \<Longrightarrow> \<exists>D' ob2. reconcile_loop (subs ob (ob_classes ob)) q ob1 = Some ob2 \<and> bfs_ok ob D' [] \<and> reconciled ob D' ob2"
proof (induction "card (known_classes ob) - length D" arbitrary: D q ob1 rule: less_induct)
  case less
  show ?case
  proof (cases q)
    case Nil
    then show ?thesis using less.prems by (auto simp: reconcile_loop.simps)
  next
    case (Cons k rest)
    obtain ob2 where ob2: "reconcile_class k ob1 = Some ob2" "reconciled ob (D @ [k]) ob2"
      using reconcile_class_ok [OF ok less.prems [unfolded Cons]] .
    have "card (set (D @ [k])) \<le> card (known_classes ob)"
      using less.prems(1) Cons by (intro card_mono known_finite) (auto simp: bfs_ok_def)
    moreover have "card (set (D @ [k])) = length D + 1"
      using less.prems(1) Cons by (simp add: bfs_ok_def distinct_card)
    ultimately have "card (known_classes ob) - length (D @ [k]) < card (known_classes ob) - length D" by simp
    from less.hyps [OF this bfs_next [OF ok less.prems(1) [unfolded Cons]] ob2(2)]
    show ?thesis using Cons ob2(1) by (subst reconcile_loop.simps) simp
  qed
qed

text \<open>The classes that a root is reached from, over classes of the table.\<close>

lemma chain_visited:
  assumes bfs: "bfs_ok ob D []"
  shows "class_chain ob k cs \<Longrightarrow> cs \<noteq> [] \<Longrightarrow> fst ` set cs \<subseteq> snd ` set (ob_classes ob) \<Longrightarrow> k \<in> set D"
proof (induction cs arbitrary: k)
  case (Cons x cs)
  obtain c where x: "x = (k, c)" "borrow_class ob k = Some c" "k \<noteq> nil" "class_chain ob (cl_superclass c) cs"
    using Cons.prems(1) by (cases x) auto
  show ?case
  proof (cases cs)
    case Nil
    then have "k \<in> set (roots ob (ob_classes ob))" using x Cons.prems(3) by (auto simp: roots_def)
    then show ?thesis using bfs by (auto simp: bfs_ok_def)
  next
    case (Cons y ys)
    then have "cl_superclass c \<noteq> nil" using x(4) by (cases y) auto
    moreover have "cl_superclass c \<in> set D" using Cons.IH [OF x(4)] Cons Cons.prems(3) by auto
    moreover from calculation(1) have "k \<in> set (subs ob (ob_classes ob) (cl_superclass c))"
      using x(1, 2) Cons.prems(3) by (auto simp: subs_def)
    ultimately show ?thesis using bfs by (auto simp: bfs_ok_def)
  qed
qed simp

lemma reconcile_loop_same:
  assumes ok: "classes_ok ob" and above: "\<forall>k \<in> known_classes ob. above_superclass ob (the (borrow_class ob k))"
  shows "bfs_ok ob D q \<Longrightarrow> reconcile_loop (subs ob (ob_classes ob)) q ob = Some ob"
proof (induction "card (known_classes ob) - length D" arbitrary: D q rule: less_induct)
  case less
  show ?case
  proof (cases q)
    case Nil
    then show ?thesis by (simp add: reconcile_loop.simps)
  next
    case (Cons k rest)
    have k: "k \<in> known_classes ob" using less.prems Cons by (simp add: bfs_ok_def)
    then obtain c where c: "borrow_class ob k = Some c" "above_superclass ob c" using above by (auto simp: known_classes_def)
    have "cl_superclass c = nil \<or> cl_superclass c \<in> known_classes ob"
      using less.prems Cons c(1) by (auto simp: bfs_ok_def)
    then have "cl_superclass c = nil \<or> (\<exists>sc. borrow_class ob (cl_superclass c) = Some sc)" by (auto simp: known_classes_def)
    then have same: "reconcile_class k ob = Some ob"
      using c by (auto simp: reconcile_class_def need_ivar_reconciliation_def borrow_class_Some above_superclass_def)
    have "card (set (D @ [k])) \<le> card (known_classes ob)"
      using less.prems Cons by (intro card_mono known_finite) (auto simp: bfs_ok_def)
    moreover have "card (set (D @ [k])) = length D + 1" using less.prems Cons by (simp add: bfs_ok_def distinct_card)
    ultimately have "card (known_classes ob) - length (D @ [k]) < card (known_classes ob) - length D" by simp
    from less.hyps [OF this bfs_next [OF ok less.prems [unfolded Cons]]]
    show ?thesis using Cons same by (subst reconcile_loop.simps) simp
  qed
qed

lemma reconcile_ivars_loop:
  assumes "classes_ok ob"
  shows "reconcile_ivars ob = reconcile_loop (subs ob (ob_classes ob)) (roots ob (ob_classes ob)) ob"
proof -
  have "inherit_loop ob (ob_classes ob) ([], (\<lambda>_. []), False)
      = Some ([] @ roots ob (ob_classes ob), (\<lambda>s. [] @ subs ob (ob_classes ob) s), False \<or> NSObject \<in> fst ` set (ob_classes ob))"
    using assms by (intro inherit_loop_ok) (auto simp: classes_ok_def)
  then show ?thesis using assms by (simp add: reconcile_ivars_def classes_ok_def)
qed


subsection \<open>Conformance to a protocol\<close>

definition adopts :: "('h, 'm) objc \<Rightarrow> (vaddr \<times> vaddr) set" where
  "adopts ob = {(a, b). \<exists>p. protocol_host_object ob a = Some p \<and> b \<in> set (po_adopted p)}"

definition named :: "('h, 'm) objc \<Rightarrow> u8 list \<Rightarrow> vaddr \<Rightarrow> bool" where
  "named ob name a \<longleftrightarrow> (\<exists>p. protocol_host_object ob a = Some p \<and> po_name p = name)"

lemma conforms_loop_ok:
  assumes fin: "finite U" and closed: "adopts ob `` U \<subseteq> U"
  shows "set pending \<union> set visited \<subseteq> U \<Longrightarrow> \<forall>v \<in> set visited. \<not> named ob name v
    \<Longrightarrow> adopts ob `` set visited \<subseteq> set visited \<union> set pending
    \<Longrightarrow> conforms_loop ob name pending visited = Some (\<exists>a \<in> set pending \<union> set visited. \<exists>r. (a, r) \<in> (adopts ob)\<^sup>* \<and> named ob name r)"
proof (induction "(card (U - set visited), length pending)" arbitrary: pending visited rule: less_induct)
  case less
  show ?case
  proof (cases pending rule: rev_cases)
    case Nil
    have "r \<in> set visited" if "(a, r) \<in> (adopts ob)\<^sup>*" "a \<in> set visited" for a r
      using that less.prems(3) Nil by (induction rule: rtrancl_induct) auto
    then have "\<not> named ob name r" if "(a, r) \<in> (adopts ob)\<^sup>*" "a \<in> set visited" for a r
      using less.prems(2) that by blast
    then show ?thesis using Nil by (simp add: conforms_loop.simps)
  next
    case (snoc rest a)
    have a: "a \<in> U" using less.prems(1) snoc by simp
    show ?thesis
    proof (cases "a \<in> set visited")
      case True
      have un: "set rest \<union> set visited = set pending \<union> set visited" using True snoc by auto
      have ih: "conforms_loop ob name rest visited
          = Some (\<exists>a \<in> set rest \<union> set visited. \<exists>r. (a, r) \<in> (adopts ob)\<^sup>* \<and> named ob name r)"
        using less.prems snoc True by (intro less.hyps) auto
      have "conforms_loop ob name pending visited = conforms_loop ob name rest visited"
        using snoc True by (subst conforms_loop.simps) simp
      with ih show ?thesis by (simp only: un)
    next
      case False
      have "U - set visited = insert a (U - set (a # visited))" using a False by auto
      then have dec: "card (U - set (a # visited)) < card (U - set visited)"
        using fin by (metis DiffD2 card_insert_disjoint finite_Diff lessI list.set_intros(1))
      show ?thesis
      proof (cases "protocol_host_object ob a")
        case None
        then have no: "adopts ob `` {a} = {}" "\<not> named ob name a" by (auto simp: adopts_def named_def)
        have "conforms_loop ob name rest (a # visited)
            = Some (\<exists>a \<in> set rest \<union> set (a # visited). \<exists>r. (a, r) \<in> (adopts ob)\<^sup>* \<and> named ob name r)"
          using less.prems snoc a no dec by (intro less.hyps) auto
        then show ?thesis using snoc False None by (subst conforms_loop.simps) (simp add: Un_ac)
      next
        case (Some p)
        show ?thesis
        proof (cases "po_name p = name")
          case True
          then have "named ob name a" using Some by (simp add: named_def)
          then show ?thesis using snoc False Some True by (subst conforms_loop.simps) auto
        next
          case no: False
          have new: "set (po_adopted p) = adopts ob `` {a}" using Some by (auto simp: adopts_def)
          have U: "set (po_adopted p) \<subseteq> U" using closed a new by blast
          have "conforms_loop ob name (rest @ po_adopted p) (a # visited)
              = Some (\<exists>a \<in> set (rest @ po_adopted p) \<union> set (a # visited). \<exists>r. (a, r) \<in> (adopts ob)\<^sup>* \<and> named ob name r)"
            using less.prems snoc a U no Some dec new by (intro less.hyps) (auto simp: named_def)
          moreover have "(\<exists>a \<in> set (rest @ po_adopted p) \<union> set (a # visited). \<exists>r. (a, r) \<in> (adopts ob)\<^sup>* \<and> named ob name r)
              \<longleftrightarrow> (\<exists>a \<in> set pending \<union> set visited. \<exists>r. (a, r) \<in> (adopts ob)\<^sup>* \<and> named ob name r)"
            using snoc new by (auto intro: converse_rtrancl_into_rtrancl)
          ultimately show ?thesis using snoc False Some no by (subst conforms_loop.simps) simp
        qed
      qed
    qed
  qed
qed

lemma protocols_finite:
  assumes "finite (dom (ob_objects ob))"
  obtains U where "finite U" "adopts ob `` U \<subseteq> U" "p \<in> U"
proof -
  let ?P = "{a. protocol_host_object ob a \<noteq> None}"
  have "?P \<subseteq> dom (ob_objects ob)" by (auto simp: protocol_host_object_def get_host_object_def split: option.splits)
  then have P: "finite ?P" using assms by (rule finite_subset)
  have "Range (adopts ob) = (\<Union>a\<in>?P. set (po_adopted (the (protocol_host_object ob a))))"
    by (auto simp: adopts_def Range_iff) (metis option.sel)+
  then have "finite (Range (adopts ob))" using P by simp
  then show ?thesis using that [of "insert p (Range (adopts ob))"] by auto
qed

lemma protocol_conforms_ok:
  assumes "finite (dom (ob_objects ob))"
  shows "protocol_conforms_to_protocol ob p other = Some (\<exists>q. protocol_host_object ob other = Some q
    \<and> (\<exists>r. (p, r) \<in> (adopts ob)\<^sup>* \<and> named ob (po_name q) r))"
proof (cases "protocol_host_object ob other")
  case None
  then show ?thesis by (simp add: protocol_conforms_to_protocol_def)
next
  case (Some q)
  obtain U where U: "finite U" "adopts ob `` U \<subseteq> U" "p \<in> U" using protocols_finite [OF assms] .
  then show ?thesis using Some conforms_loop_ok [OF U(1,2), of "[p]" "[]" "po_name q"]
    by (simp add: protocol_conforms_to_protocol_def)
qed

text \<open>The runtime's superclasses of a class, up to a root.\<close>

fun superclasses :: "('h, 'm) objc \<Rightarrow> vaddr \<Rightarrow> vaddr list \<Rightarrow> bool" where
  "superclasses ob k [] \<longleftrightarrow> k = nil"
| "superclasses ob k (j # ks) \<longleftrightarrow> j = k \<and> k \<noteq> nil \<and> (\<exists>s. ob_class_superclasses ob k = Some s \<and> superclasses ob s ks)"

definition declares :: "('h, 'm) objc \<Rightarrow> vaddr \<Rightarrow> vaddr \<Rightarrow> bool" where
  "declares ob k p \<longleftrightarrow> (\<exists>ps. ob_class_protocols ob k = Some ps \<and> p \<in> set ps)"

lemma any_conforms_ok:
  assumes "finite (dom (ob_objects ob))"
  shows "any_conforms ob other ps = Some (\<exists>p \<in> set ps. protocol_conforms_to_protocol ob p other = Some True)"
proof (induction ps)
  case (Cons p ps)
  obtain b where b: "protocol_conforms_to_protocol ob p other = Some b" using protocol_conforms_ok [OF assms] by blast
  with Cons show ?case by (cases b) simp_all
qed simp

text \<open>C40: The search for a protocol ends, also over protocols that adopt each other: a protocol conforms
  to another exactly if it is, or adopts directly or indirectly, one of the same name, and a class
  exactly if it or a superclass declares a protocol that does.\<close>

theorem protocol_conformance:
  assumes fin: "finite (dom (ob_objects ob))" and supers: "superclasses ob k ks"
  shows "protocol_conforms_to_protocol ob p other = Some (\<exists>q. protocol_host_object ob other = Some q
      \<and> (\<exists>r. (p, r) \<in> (adopts ob)\<^sup>* \<and> named ob (po_name q) r))
    \<and> class_conforms_to_protocol ob k other
      = Some (\<exists>j \<in> set ks. \<exists>p. declares ob j p \<and> protocol_conforms_to_protocol ob p other = Some True)"
proof
  show "protocol_conforms_to_protocol ob p other = Some (\<exists>q. protocol_host_object ob other = Some q
      \<and> (\<exists>r. (p, r) \<in> (adopts ob)\<^sup>* \<and> named ob (po_name q) r))"
    by (rule protocol_conforms_ok [OF fin])
  have "class_conforms_loop ob other k
      = Some (\<exists>j \<in> set ks. \<exists>p. declares ob j p \<and> protocol_conforms_to_protocol ob p other = Some True)"
    using supers
  proof (induction ks arbitrary: k)
    case Nil
    then show ?case by (simp add: class_conforms_loop.simps)
  next
    case (Cons j ks)
    then obtain s where s: "j = k" "k \<noteq> nil" "ob_class_superclasses ob k = Some s" "superclasses ob s ks" by auto
    let ?here = "\<exists>p. declares ob k p \<and> protocol_conforms_to_protocol ob p other = Some True"
    have "(case ob_class_protocols ob k of Some ps \<Rightarrow> any_conforms ob other ps | None \<Rightarrow> Some False) = Some ?here"
      by (simp add: any_conforms_ok [OF fin] declares_def Bex_def split: option.splits)
    with Cons.IH [OF s(4)] s(1-3) show ?case
      by (subst class_conforms_loop.simps, cases ?here, simp_all add: get_superclass_def) blast
  qed
  then show "class_conforms_to_protocol ob k other
      = Some (\<exists>j \<in> set ks. \<exists>p. declares ob j p \<and> protocol_conforms_to_protocol ob p other = Some True)"
    by (auto simp: class_conforms_to_protocol_def protocol_conforms_ok [OF fin])
qed

subsection \<open>Messages\<close>

text \<open>What is done with the method that is found; the type sent is \<open>sent\<close>.\<close>

definition run_method :: "('h, 'm) dispatch \<Rightarrow> nat option \<Rightarrow> bool \<Rightarrow> 'm imp option \<Rightarrow> ('h, 'm) renv \<Rightarrow> ('h, 'm) renv run" where
  "run_method D sent tolerate f e = (case f of
     None \<Rightarrow> None
   | Some (Host_IMP h) \<Rightarrow>
       if sent = None \<or> (\<exists>t. ds_type D h = Some t \<and> (sent = Some t \<or> tolerate)) then ds_call D (Host_IMP h) e else None
   | Some (Guest_IMP g) \<Rightarrow> ds_call D (Guest_IMP g) e)"

definition type_taken :: "('h, 'm) renv \<Rightarrow> ('h, 'm) renv" where
  "type_taken e = e\<lparr>re_objc := (re_objc e)\<lparr>ob_message_type := None\<rparr>\<rparr>"

text \<open>C38: A message runs the method of the nearest class in the chain of superclasses that has one, after
  the class has been initialized; a message to \<open>super\<close> starts with the superclass of the class it
  is sent from. A host method is run only if the type of the message is the method's, where one was
  sent and a mismatch is not tolerated; without a method there is a panic, exactly if
  \<open>class_has_method\<close> denies one. A message to \<open>nil\<close> returns zero.\<close>

theorem messages_run_the_nearest_method:
  assumes k: "receiver \<noteq> nil" "k \<noteq> nil"
    and lookup: "(case super2 of None \<Rightarrow> read_isa receiver (re_mem e) | Some c \<Rightarrow> Some c) = Some k"
    and initialized: "(if skip then Some (type_taken e) else ds_initialize D receiver (type_taken e)) = Some e2"
    and chain: "class_chain (re_objc e2) k cs"
  shows "objc_msgSend_inner D receiver sel super2 tolerate skip e = run_method D (ob_message_type (re_objc e)) tolerate
        (nearest_method sel (if super2 = None then cs else tl cs)) e2
    \<and> class_has_method (re_objc e2) k sel = Some (nearest_method sel cs \<noteq> None)
    \<and> objc_msgSend_inner D nil sel super2 tolerate skip e = Some (zero_result (type_taken e))"
proof (intro conjI)
  obtain c ds where cs: "cs = (k, c) # ds" using chain k(2) by (cases cs) auto
  let ?f = "nearest_method sel (if super2 = None then cs else tl cs)"
  have find: "find_imp (re_objc e2) sel (super2 \<noteq> None) k k = map_option Found ?f"
    using find_imp_chain [OF chain, of "super2 \<noteq> None" k sel] find_imp_super [OF chain [unfolded cs], of sel] cs
    by (cases super2) auto
  have mem: "re_mem (type_taken e) = re_mem e" by (simp add: type_taken_def)
  show "objc_msgSend_inner D receiver sel super2 tolerate skip e
      = run_method D (ob_message_type (re_objc e)) tolerate ?f e2"
    unfolding objc_msgSend_inner_def Let_def type_taken_def [symmetric] mem lookup
    using k initialized find
    by (cases ?f; cases "the ?f"; cases "ob_message_type (re_objc e)")
      (auto simp: run_method_def rassert_def split: if_splits bind_splits)
  show "class_has_method (re_objc e2) k sel = Some (nearest_method sel cs \<noteq> None)"
    by (rule class_has_method_chain [OF chain k(2)])
  show "objc_msgSend_inner D nil sel super2 tolerate skip e = Some (zero_result (type_taken e))"
    by (simp add: objc_msgSend_inner_def type_taken_def Let_def)
qed

subsection \<open>An example\<close>

text \<open>
  Three classes, the second of which starts inside its superclass, and three protocols: the first
  two adopt each other, the third has the name of the second.
\<close>

definition demo_class :: "string \<Rightarrow> vaddr \<Rightarrow> u32 \<Rightarrow> u32 \<Rightarrow> (u8 list \<times> (vaddr \<times> u32)) list \<Rightarrow> (vaddr \<Rightarrow> unit imp option) \<Rightarrow> unit class_object" where
  "demo_class name superclass start sz ivars methods = \<lparr>cl_name = map of_char name, cl_is_metaclass = False,
     cl_superclass = superclass, cl_methods = methods, cl_signatures = (\<lambda>_. None), cl_ivars = ivars,
     cl_instance_start = start, cl_instance_size = sz, cl_is_initialized = Initialized\<rparr>"

definition demo_protocol :: "string \<Rightarrow> vaddr list \<Rightarrow> (unit, unit) host_object" where
  "demo_protocol name adopted = Protocol_Object \<lparr>po_name = map of_char name, po_name_ptr = 0, po_adopted = adopted,
     po_required_instance = 0, po_required_class = 0, po_optional_instance = 0, po_optional_class = 0\<rparr>"

definition demo_objects :: "(vaddr \<times> (unit, unit) host_object) list" where
  "demo_objects = [(0x100, Class_Object (demo_class ''NSObject'' nil 4 12 [] [0x50 \<mapsto> Guest_IMP 0x9000])),
     (0x200, Class_Object (demo_class ''A'' 0x100 8 16 [(map of_char ''x'', 0x300, 2)] Map.empty)),
     (0x400, Class_Object (demo_class ''B'' 0x200 16 20 [] [0x50 \<mapsto> Host_IMP ()])),
     (0x500, demo_protocol ''P'' [0x600]), (0x600, demo_protocol ''Q'' [0x500]), (0x700, demo_protocol ''Q'' [])]"

definition objc_demo :: "(unit, unit) objc" where
  "objc_demo = (re_objc weak_demo)\<lparr>
     ob_objects := (\<lambda>k. map_option (\<lambda>h. \<lparr>he_object = h, he_refcount = None\<rparr>) (map_of demo_objects k)),
     ob_classes := [(map of_char ''B'', 0x400), (NSObject, 0x100), (map of_char ''A'', 0x200)],
     ob_class_superclasses := [0x100 \<mapsto> nil, 0x200 \<mapsto> 0x100, 0x400 \<mapsto> 0x200],
     ob_class_protocols := [0x200 \<mapsto> [0x500]]\<rparr>"

lemma demo_objects_simps [simp]:
  "get_host_object objc_demo = map_of demo_objects"
  "ob_classes objc_demo = [(map of_char ''B'', 0x400), (NSObject, 0x100), (map of_char ''A'', 0x200)]"
  by (simp_all add: objc_demo_def get_host_object_def fun_eq_iff option.map_comp comp_def option.map_ident)

lemma demo_borrow [simp]:
  "borrow_class objc_demo 0x100 = Some (demo_class ''NSObject'' nil 4 12 [] [0x50 \<mapsto> Guest_IMP 0x9000])"
  "borrow_class objc_demo 0x200 = Some (demo_class ''A'' 0x100 8 16 [(map of_char ''x'', 0x300, 2)] Map.empty)"
  "borrow_class objc_demo 0x400 = Some (demo_class ''B'' 0x200 16 20 [] [0x50 \<mapsto> Host_IMP ()])"
  by (simp_all add: borrow_class_def demo_objects_def)

lemma demo_chain: "class_chain objc_demo 0x400
    [(0x400, demo_class ''B'' 0x200 16 20 [] [0x50 \<mapsto> Host_IMP ()]),
     (0x200, demo_class ''A'' 0x100 8 16 [(map of_char ''x'', 0x300, 2)] Map.empty),
     (0x100, demo_class ''NSObject'' nil 4 12 [] [0x50 \<mapsto> Guest_IMP 0x9000])]"
  by (simp add: demo_class_def)

lemma demo_classes_ok: "classes_ok objc_demo"
proof -
  have known: "known_classes objc_demo = {0x400, 0x100, 0x200}" by (auto simp: known_classes_def)
  then have "weight objc_demo (known_classes objc_demo) = 52"
    by (simp add: weight_def class_weight_def demo_class_def max_alignment_def)
  then show ?thesis unfolding classes_ok_def known
    by (auto simp: demo_class_def NSObject_def demo_objects_def)
qed


theorem protocol_conformance_witness:
  "protocol_conforms_to_protocol objc_demo 0x500 0x700 = Some True \<and> class_conforms_to_protocol objc_demo 0x400 0x700 = Some True"
proof -
  have fin: "finite (dom (ob_objects objc_demo))"
    by (rule finite_subset [of _ "dom (map_of demo_objects)"]) (auto simp: objc_demo_def finite_dom_map_of)
  have supers: "superclasses objc_demo 0x400 [0x400, 0x200, 0x100]" by (simp add: objc_demo_def)
  have "(0x500, 0x600) \<in> adopts objc_demo" "named objc_demo (map of_char ''Q'') 0x600"
    by (auto simp: adopts_def named_def protocol_host_object_def demo_objects_def demo_protocol_def)
  then have "\<exists>r. (0x500, r) \<in> (adopts objc_demo)\<^sup>* \<and> named objc_demo (map of_char ''Q'') r" by blast
  moreover have "\<exists>q. protocol_host_object objc_demo 0x700 = Some q \<and> po_name q = map of_char ''Q''"
    by (simp add: protocol_host_object_def demo_objects_def demo_protocol_def)
  ultimately have "protocol_conforms_to_protocol objc_demo 0x500 0x700 = Some True"
    using protocol_conformance [OF fin supers, of "0x500" "0x700"] by auto
  moreover have "declares objc_demo 0x200 0x500" by (simp add: declares_def objc_demo_def)
  ultimately show ?thesis using protocol_conformance [OF fin supers, of "0x500" "0x700"] by auto
qed

definition demo_dispatch :: "(unit, unit) dispatch" where
  "demo_dispatch = \<lparr>ds_initialize = (\<lambda>_ e. Some e),
     ds_call = (\<lambda>f e. Some (e\<lparr>re_regs := (re_regs e)(0 := (case f of Guest_IMP p \<Rightarrow> p | Host_IMP _ \<Rightarrow> 1))\<rparr>)),
     ds_type = (\<lambda>_. Some 0), ds_version = (\<lambda>e. Some (0, e))\<rparr>"

theorem messages_run_the_nearest_method_witness:
  "map_option (\<lambda>e. re_regs e 0) (objc_msgSend_inner demo_dispatch 0x1000 0x50 (Some 0x400) False False (weak_demo\<lparr>re_objc := objc_demo\<rparr>))
    = Some 0x9000"
proof -
  let ?e = "weak_demo\<lparr>re_objc := objc_demo\<rparr>"
  have [simp]: "type_taken ?e = ?e" by (simp add: type_taken_def objc_demo_def weak_demo_def)
  have init: "(if False then Some (type_taken ?e) else ds_initialize demo_dispatch 0x1000 (type_taken ?e)) = Some ?e"
    by (simp add: demo_dispatch_def)
  have chain: "class_chain (re_objc ?e) 0x400
    [(0x400, demo_class ''B'' 0x200 16 20 [] [0x50 \<mapsto> Host_IMP ()]),
     (0x200, demo_class ''A'' 0x100 8 16 [(map of_char ''x'', 0x300, 2)] Map.empty),
     (0x100, demo_class ''NSObject'' nil 4 12 [] [0x50 \<mapsto> Guest_IMP 0x9000])]" using demo_chain by simp
  show ?thesis
    using messages_run_the_nearest_method [OF _ _ _ init chain, of "Some 0x400" "0x50" False]
    by (simp add: run_method_def demo_class_def demo_dispatch_def)
qed

end
