(* ===== verification/Spec2Isabelle.thy ===== *)
theory Spec2Isabelle
  imports Sync_Props Guest_Time Load_Order Sort_Search Abi Stack Fs_Props Str_To_Int Objc_Props
begin

text \<open>
  Verification of the core of ChronaHLE, a high-level emulator of iPhone OS applications
  (Rust, under \<open>src/\<close>).

  The emulator runs the ARM code of an application on an emulated CPU and implements the
  operating system around it on the host: system libraries and frameworks are Rust functions that
  guest code calls. The parts modelled here are those that carry its own logic:

  \<^item> the guest's memory (\<open>mem.rs\<close>) and its allocators (\<open>mem/allocator.rs\<close>): every other part reads
    and writes guest memory through \<open>Mem\<close>, and \<open>malloc\<close> takes its chunks from the virtual memory
    allocator;
  \<^item> threads, the cooperative scheduler and the synchronisation primitives (\<open>environment.rs\<close>,
    \<open>environment/mutex.rs\<close>, \<open>libc/pthread/mutex.rs\<close>, \<open>libc/pthread/cond.rs\<close>, \<open>libc/semaphore.rs\<close>,
    \<open>objc/synchronization.rs\<close>): an operation that must wait marks the thread as blocked and yields,
    and the scheduler completes it on the thread's behalf when it can;
  \<^item> calls between host and guest (\<open>abi.rs\<close>, with the registers of \<open>cpu.rs\<close>) and the stack the
    application starts with (\<open>stack.rs\<close>);
  \<^item> the order in which static initializers run (\<open>environment.rs\<close>);
  \<^item> the guest's filesystem (\<open>fs.rs\<close>, \<open>fs/bundle.rs\<close>);
  \<^item> the Objective-C runtime (\<open>objc.rs\<close>, \<open>objc/\<close>): objects on the guest's heap with their reference
    counts, blocks and zeroing weak references; classes, of the application's binary and of the
    frameworks, with their instance variables, methods and protocols; and sending a message;
  \<^item> functions of the C library on guest memory: strings, sorting and searching, numbers from text,
    dates and locales (\<open>libc/generic_char.rs\<close>, \<open>libc/stdlib.rs\<close>, \<open>libc/stdlib/qsort.rs\<close>,
    \<open>libc/time.rs\<close>, \<open>libc/clocale.rs\<close>, \<open>libc/errno.rs\<close>).
\<close>

subsection \<open>The theories and the code\<close>

text \<open>
  \<^item> \<open>Rust_Prelude\<close>: panics, checked arithmetic and the facts on words that all theories share;
    \<open>Ordered_Collections\<close>: \<open>BTreeMap\<close> and \<open>BTreeSet\<close> as strictly sorted lists.
  \<^item> \<open>Chunks\<close> (\<open>Chunk\<close>), \<open>Chunk_Map\<close> (\<open>ChunkMap\<close>, and the locale \<open>chunk_store\<close> of what \<open>remove_range\<close>
    needs of a store of chunks), \<open>Bucket_Map\<close> (\<open>SizeBucketedChunkMap\<close>, which provides that store
    too), \<open>Allocator_Interface\<close> (the locale \<open>address_allocator\<close>: what an allocator promises to a
    sequence of requests), \<open>VM_Alloc\<close> and \<open>Heap_Alloc\<close> (\<open>VMAllocator\<close> and \<open>HeapAllocator\<close>, which
    interpret it), all of \<open>mem/allocator.rs\<close>.
  \<^item> \<open>Guest_Mem\<close>: \<open>Mem\<close>, \<open>Ptr\<close> and \<open>SafeRead\<close>/\<open>SafeWrite\<close> of \<open>mem.rs\<close>. The locale \<open>guest_codec\<close> says
    what the code relies on in a type that guest memory can hold. \<open>Generic_Char\<close>: the string
    functions of \<open>libc/generic_char.rs\<close> for bytes and for wide characters (locale \<open>char_codec\<close>).
  \<^item> \<open>Threads\<close>: the record \<open>env\<close> of the environment, blocking and suspension, host mutexes;
    \<open>Scheduler\<close>: \<open>schedule_next_thread\<close>; \<open>Guest_Sync\<close>: the functions that guest code calls;
    \<open>Sync_Runs\<close>: runs of operations and of the scheduler as a step relation, with the history of
    what was acquired and released; \<open>Sync_Props\<close>: further properties over these.
  \<^item> \<open>Abi\<close>: registers, guest functions, argument and return types (locales \<open>arg_codec\<close>,
    \<open>args_codec\<close>, \<open>ret_codec\<close>), \<open>call_from_guest\<close> and \<open>call_from_host\<close>; \<open>Stack\<close>: \<open>prep_stack_for_start\<close>.
  \<^item> \<open>Load_Order\<close>: \<open>generate_binary_load_order\<close>.
  \<^item> \<open>Guest_Path\<close>, \<open>Guest_Fs\<close> and \<open>Fs_Props\<close>: paths, the tree of nodes with every operation of \<open>Fs\<close>,
    and the edits of the tree that the operations amount to.
  \<^item> \<open>Objc_Objects\<close>: objects, blocks and the functions that ARC calls, on guest memory and the tables of
    the runtime (record \<open>renv\<close>); \<open>Objc_Classes\<close>: selectors, methods, classes, properties, protocols and
    messages on the same tables; \<open>Objc_Props\<close>: the properties of these.
  \<^item> \<open>Sort_Search\<close>: \<open>qsort\<close> and \<open>bsearch\<close> (locale \<open>sort_client\<close>: what sorting needs of the comparison
    and the exchange); \<open>Str_To_Int\<close>: \<open>strtol\<close> and its family; \<open>Calendar\<close>: \<open>time_t\<close> and \<open>struct tm\<close>;
    \<open>Guest_Time\<close>: the functions of \<open>libc/time.rs\<close> and the locale.

  A Rust function is a definition of the same name over the state that it reads and writes, which it
  returns updated. A panic of any kind (an assertion, \<open>unwrap\<close>, an index out of range, an arithmetic
  overflow) is \<open>None\<close> of the type \<open>'a run\<close>; a \<open>Result\<close> is a sum whose left side is the error. The
  machine integers have their width. What guest code sees as a pointer is a 32-bit word, and data in
  guest memory is bytes, so structures are read and written through their encodings. A function
  that yields to the scheduler returns a \<open>coro\<close>: the rest of the function waits in the thread.
\<close>

subsection \<open>What the lemmas show\<close>

text \<open>
  \<^item> Allocators: the invariant (used and free chunks are disjoint, aligned and fill the address space)
    is kept by every operation, so live allocations stay disjoint over any sequence of requests; the
    outcome of each operation on every branch, errors and panics included; the best fit; what
    freeing does and does not merge. \<open>realloc\<close> keeps the contents and the other allocations.
  \<^item> Strings: each function is equal to one on lists of characters.
  \<^item> Threads: the scheduler returns whenever some thread can run, picks it in turn, and grants what it
    waited for; in every run at most one thread holds a mutex and the value of a semaphore is the
    balance of its history. A condition variable refines a queue of tickets.
  \<^item> Calls: the host sees the arguments that the guest passed, in registers and on the stack, and
    a call to the guest restores the registers. The stack at the start has the documented layout.
  \<^item> Initializers run in an order where each comes after those it depends on, and all of them run.
  \<^item> Filesystem: the tree stays well-formed and mirrors the host where it is writeable; the rest
    never changes. Resolution of paths and enumeration end and give what they should.
  \<^item> Objects: weak references refine an abstract map in which deallocation sets to \<open>nil\<close> what referred to
    the object; a balanced sequence of \<open>retain\<close> and \<open>release\<close> ends with the deallocation.
  \<^item> Classes: after a binary is loaded the instance variables of a class follow those of its
    superclass; a message runs the method of the nearest class that has one; conformance to a
    protocol is reachability by adoption.
  \<^item> \<open>qsort\<close> gives a sorted permutation and touches nothing else, \<open>bsearch\<close> finds; dates convert both
    ways and keep their order; \<open>strptime\<close> reads what \<open>strftime\<close> wrote, which stays in its buffer;
    \<open>strtol\<close> reads the numerals of C.
\<close>

subsection \<open>Loops, and code outside the repository\<close>

text \<open>
  A loop over a counter or a pointer is a \<open>function\<close> with a measure: a counter that is incremented with
  an overflow check cannot pass \<open>2 ^ 32\<close>. A loop whose end depends on the rest of the state
  (\<open>schedule_next_thread\<close>, \<open>kahn_loop\<close>, \<open>qsort_rec\<close>, \<open>enumerate_loop\<close>, \<open>reconcile_loop\<close>, \<open>conforms_loop\<close>,
  the loops of \<open>Str_To_Int\<close> over any reader) is a \<open>partial_function (option)\<close>, and that it returns is
  part of what is proved of it; so are the loops over superclasses, which return where the chain ends
  (\<open>class_chain\<close>), and the linking of classes. No definition uses fuel.

  Code that is not in the repository is a parameter: the CPU emulator (a call to guest code is a
  function on the state), the host's clocks (\<open>host\<close>), the host's filesystem (a record of the
  operations the code calls), the guest's comparison functions,
  the messages that the Objective-C runtime itself sends, the methods that a message runs, the classes
  of the frameworks (their templates), the sections of a binary, the order in which a \<open>HashMap\<close> is
  enumerated, and the host's \<open>discard_pages\<close>. What is assumed of them stands in the statements.
\<close>

subsection \<open>Not modelled\<close>

text \<open>
  Code that mostly calls the host or other libraries: the frameworks under \<open>frameworks/\<close> (graphics,
  audio, user interface and Foundation classes), OpenGL ES (\<open>gles/\<close>), windows and input (\<open>window.rs\<close>),
  audio decoding, images and fonts, files and sockets of the host (\<open>libc/posix_io.rs\<close>, \<open>libc/stdio.rs\<close>,
  \<open>libc/sys/socket.rs\<close>), the debugger server (\<open>gdb.rs\<close>), options and the application picker; running
  \<open>+initialize\<close> (\<open>maybe_initialize_class\<close>) and the typed wrappers for messages of host code
  (\<open>objc/messages.rs\<close>), the wrapper of the CPU emulator (C++), the parsing of binaries and their linking
  (\<open>mach_o.rs\<close>, \<open>dyld.rs\<close>). Formatted input and output (\<open>libc/stdio/printf.rs\<close>) and the floating-point functions
  are not modelled either, since they rest on Rust's formatting and parsing of floating-point numbers.
  Of the modelled files, logging and the texts of error messages are left out.
\<close>

end
